(* ===== verification/Prelude.thy ===== *)
theory Prelude
  imports Main "HOL-Library.Word" "HOL-Library.List_Lexorder" "HOL-Library.Char_ord"
begin

text \<open>
  Shared material of the development: the theorem collections, the ordered
  association list that stands for \<^verbatim>\<open>std::map\<close>, machine-integer
  abbreviations and a few list and option facts.
\<close>

section \<open>Theorem collections\<close>

named_theorems smap_simps \<open>rewrite rules for the ordered association list\<close>
named_theorems wf_intros \<open>introduction rules for well-formedness invariants\<close>

section \<open>Machine integers\<close>

type_synonym int8 = "8 word"
type_synonym int16 = "16 word"
type_synonym int32 = "32 word"
type_synonym int64 = "64 word"
type_synonym wchar = "16 word"
type_synonym hstring = "wchar list"

section \<open>Ordered association lists\<close>

text \<open>
  A \<^verbatim>\<open>std::map\<close> iterates over its entries in key order and keeps one entry per key.
  It is modelled by the list of its entries in iteration order. The order on
  \<^typ>\<open>string\<close> is the lexicographic order on unsigned character codes, which is what
  \<^verbatim>\<open>std::less\<close> uses for \<^verbatim>\<open>std::string\<close>.
\<close>

definition smap :: "('k::linorder \<times> 'v) list \<Rightarrow> bool" where
  "smap ps \<longleftrightarrow> sorted_wrt (<) (map fst ps)"

text \<open>\<^verbatim>\<open>try_emplace\<close> and \<^verbatim>\<open>emplace\<close>: an entry that is present is left alone.\<close>

fun try_emplace :: "'k::linorder \<Rightarrow> 'v \<Rightarrow> ('k \<times> 'v) list \<Rightarrow> ('k \<times> 'v) list" where
  "try_emplace k v [] = [(k, v)]"
| "try_emplace k v ((k', v') # ps) =
     (if k < k' then (k, v) # (k', v') # ps
      else if k = k' then (k', v') # ps
      else (k', v') # try_emplace k v ps)"

text \<open>Assignment through \<^verbatim>\<open>map[key] = value\<close> (\<^verbatim>\<open>insert_or_assign\<close>).\<close>

fun insert_or_assign :: "'k::linorder \<Rightarrow> 'v \<Rightarrow> ('k \<times> 'v) list \<Rightarrow> ('k \<times> 'v) list" where
  "insert_or_assign k v [] = [(k, v)]"
| "insert_or_assign k v ((k', v') # ps) =
     (if k < k' then (k, v) # (k', v') # ps
      else if k = k' then (k, v) # ps
      else (k', v') # insert_or_assign k v ps)"

definition erase_key :: "'k \<Rightarrow> ('k \<times> 'v) list \<Rightarrow> ('k \<times> 'v) list" where
  "erase_key k ps = filter (\<lambda>p. fst p \<noteq> k) ps"

lemma smap_Nil [simp, wf_intros]: "smap []"
  by (simp add: smap_def)

lemma smap_Cons [smap_simps]:
  "smap ((k, v) # ps) \<longleftrightarrow> (\<forall>k' \<in> fst ` set ps. k < k') \<and> smap ps"
  by (auto simp: smap_def)

lemma smap_distinct: "smap ps \<Longrightarrow> distinct (map fst ps)"
  by (simp add: smap_def strict_sorted_iff)

lemma smap_map_values [simp]: "smap (map (\<lambda>(k, v). (k, f k v)) ps) = smap ps"
  by (induction ps) (auto simp: smap_def)

lemma set_try_emplace_fst: "fst ` set (try_emplace k v ps) = insert k (fst ` set ps)"
  by (induction ps rule: try_emplace.induct) (simp_all add: insert_commute)

lemma smap_try_emplace [simp, wf_intros]: "smap ps \<Longrightarrow> smap (try_emplace k v ps)"
  by (induction ps rule: try_emplace.induct) (auto simp: smap_simps set_try_emplace_fst intro: less_trans)

lemma map_of_try_emplace:
  "smap ps \<Longrightarrow> map_of (try_emplace k v ps) =
     (case map_of ps k of None \<Rightarrow> (map_of ps)(k \<mapsto> v) | Some _ \<Rightarrow> map_of ps)"
proof (induction ps)
  case Nil
  then show ?case by simp
next
  case (Cons p ps)
  obtain k' v' where p: "p = (k', v')" by (cases p)
  from Cons.prems p have sm: "smap ps" and less: "\<forall>x \<in> fst ` set ps. k' < x"
    by (auto simp: smap_simps)
  have absent: "map_of ps k = None" if "k < k'"
    using that less by (force simp: map_of_eq_None_iff)
  show ?case
    using Cons.IH [OF sm] p absent by (auto split: option.splits simp: fun_eq_iff)
qed

lemma try_emplace_greatest:
  "\<forall>k' \<in> fst ` set ps. k' < k \<Longrightarrow> try_emplace k v ps = ps @ [(k, v)]"
  by (induction ps) auto

lemma set_insert_or_assign_fst: "fst ` set (insert_or_assign k v ps) = insert k (fst ` set ps)"
  by (induction ps rule: insert_or_assign.induct) (simp_all add: insert_commute)

lemma smap_insert_or_assign [simp, wf_intros]: "smap ps \<Longrightarrow> smap (insert_or_assign k v ps)"
  by (induction ps rule: insert_or_assign.induct) (auto simp: smap_simps set_insert_or_assign_fst intro: less_trans)

lemma map_of_insert_or_assign:
  "smap ps \<Longrightarrow> map_of (insert_or_assign k v ps) = (map_of ps)(k \<mapsto> v)"
  by (induction ps) (auto simp: smap_simps fun_eq_iff)

lemma smap_erase_key [simp, wf_intros]: "smap ps \<Longrightarrow> smap (erase_key k ps)"
  by (induction ps) (auto simp: smap_simps erase_key_def)

lemma map_of_erase_key: "map_of (erase_key k ps) = (map_of ps)(k := None)"
  by (induction ps) (auto simp: erase_key_def fun_eq_iff)

lemma smap_append_less:
  "smap (ps @ (k, v) # qs) \<Longrightarrow> \<forall>k' \<in> fst ` set ps. k' < k"
  by (auto simp: smap_def sorted_wrt_append)

lemma smap_appendD: "smap (ps @ qs) \<Longrightarrow> smap ps \<and> smap qs"
  by (auto simp: smap_def sorted_wrt_append)

lemma fold_try_emplace_smap:
  "smap (obj @ ps) \<Longrightarrow> fold (\<lambda>(k, v). try_emplace k v) ps obj = obj @ ps"
proof (induction ps arbitrary: obj)
  case (Cons p ps)
  obtain k v where p: "p = (k, v)" by (cases p)
  with Cons.prems have "try_emplace k v obj = obj @ [(k, v)]"
    by (intro try_emplace_greatest smap_append_less) auto
  with Cons p show ?case by simp
qed simp

lemma fold_try_emplace_values:
  "smap ps \<Longrightarrow> fold (\<lambda>(k, a). try_emplace k (f a)) ps [] = map (\<lambda>(k, a). (k, f a)) ps"
proof -
  assume "smap ps"
  then have "smap (map (\<lambda>(k, a). (k, f a)) ps)" by simp
  then have "fold (\<lambda>(k, v). try_emplace k v) (map (\<lambda>(k, a). (k, f a)) ps) [] = map (\<lambda>(k, a). (k, f a)) ps"
    using fold_try_emplace_smap [of "[]" "map (\<lambda>(k, a). (k, f a)) ps"] by simp
  then show ?thesis by (simp add: fold_map case_prod_unfold o_def)
qed

end
