(* ===== verification/CppNumber.thy ===== *)
theory CppNumber
  imports Prelude
begin

text \<open>
  The parts of the C++ language and standard library for numbers that the modelled code
  uses: IEEE-754 binary64 (\<^verbatim>\<open>double\<close>) and binary32 (\<^verbatim>\<open>float\<close>) values with
  round-to-nearest-even, the integer casts, and the conversions between numbers and text
  (\<^verbatim>\<open>std::to_string\<close>, \<^verbatim>\<open>operator<<\<close> of \<^verbatim>\<open>std::ostream\<close>, \<^verbatim>\<open>strtod\<close>,
  \<^verbatim>\<open>_wcstoi64\<close>).
\<close>

section \<open>Floating-point values\<close>

text \<open>\<open>Finite s m e\<close> is \<open>m * 2 ^ e\<close>, negated if \<open>s\<close>; \<open>Finite True 0 e\<close> is \<open>-0.0\<close>.\<close>

datatype double = NaN | Infinity bool | Finite bool nat int

abbreviation dzero :: double where
  "dzero \<equiv> Finite False 0 0"

definition isnan :: "double \<Rightarrow> bool" where
  "isnan x \<longleftrightarrow> x = NaN"

fun isfinite :: "double \<Rightarrow> bool" where
  "isfinite (Finite _ _ _) = True"
| "isfinite _ = False"

text \<open>The mantissa of a finite value, signed and scaled to the exponent \<open>e\<close>.\<close>

fun scaled :: "int \<Rightarrow> double \<Rightarrow> int" where
  "scaled e (Finite s m x) = (if s then -1 else 1) * int m * 2 ^ nat (x - e)"
| "scaled e _ = 0"

fun dexp :: "double \<Rightarrow> int" where
  "dexp (Finite _ _ e) = e"
| "dexp _ = 0"

text \<open>\<^verbatim>\<open>==\<close> and \<^verbatim>\<open><=\<close> on doubles: false as soon as an operand is not a number.\<close>

fun deq :: "double \<Rightarrow> double \<Rightarrow> bool" where
  "deq (Infinity s) (Infinity t) \<longleftrightarrow> s = t"
| "deq (Finite s m e) (Finite t n f) \<longleftrightarrow>
     scaled (min e f) (Finite s m e) = scaled (min e f) (Finite t n f)"
| "deq _ _ \<longleftrightarrow> False"

fun dle :: "double \<Rightarrow> double \<Rightarrow> bool" where
  "dle NaN _ \<longleftrightarrow> False"
| "dle _ NaN \<longleftrightarrow> False"
| "dle (Infinity s) (Infinity t) \<longleftrightarrow> s \<or> \<not> t"
| "dle (Infinity s) (Finite _ _ _) \<longleftrightarrow> s"
| "dle (Finite _ _ _) (Infinity t) \<longleftrightarrow> \<not> t"
| "dle (Finite s m e) (Finite t n f) \<longleftrightarrow>
     scaled (min e f) (Finite s m e) \<le> scaled (min e f) (Finite t n f)"

section \<open>Rounding\<close>

fun nbits :: "nat \<Rightarrow> nat" where
  "nbits n = (if n = 0 then 0 else Suc (nbits (n div 2)))"

declare nbits.simps [simp del]

definition ge_pow2 :: "nat \<Rightarrow> nat \<Rightarrow> int \<Rightarrow> bool" where
  "ge_pow2 n d k \<longleftrightarrow> (if 0 \<le> k then d * 2 ^ nat k \<le> n else d \<le> n * 2 ^ nat (- k))"

text \<open>The binary exponent of the positive ratio \<open>n / d\<close>.\<close>

definition ilog2 :: "nat \<Rightarrow> nat \<Rightarrow> int" where
  "ilog2 n d = (let k = int (nbits n) - int (nbits d) in if ge_pow2 n d k then k else k - 1)"

definition round_div :: "nat \<Rightarrow> nat \<Rightarrow> nat" where
  "round_div n d = (let q = n div d; r = n mod d in
     if 2 * r < d \<or> 2 * r = d \<and> even q then q else Suc q)"

text \<open>
  The value of precision \<open>p\<close>, least exponent \<open>emin\<close> and overflow threshold
  \<open>2 ^ emax\<close> that is nearest to \<open>n / d\<close>, ties to even.
\<close>

definition round_fp :: "nat \<Rightarrow> int \<Rightarrow> int \<Rightarrow> bool \<Rightarrow> nat \<Rightarrow> nat \<Rightarrow> double" where
  "round_fp p emin emax s n d =
     (if n = 0 then Finite s 0 0
      else let e = max emin (ilog2 n d - int p + 1);
               m = (if 0 \<le> e then round_div n (d * 2 ^ nat e) else round_div (n * 2 ^ nat (- e)) d)
           in if ge_pow2 m 1 (emax - e) then Infinity s else Finite s m e)"

definition to_binary64 :: "bool \<Rightarrow> nat \<Rightarrow> nat \<Rightarrow> double" where
  "to_binary64 = round_fp 53 (-1074) 1024"

definition to_binary32 :: "bool \<Rightarrow> nat \<Rightarrow> nat \<Rightarrow> double" where
  "to_binary32 = round_fp 24 (-149) 128"

text \<open>\<^verbatim>\<open>static_cast<double>(int64_t)\<close> and \<^verbatim>\<open>static_cast<float>(double)\<close>.\<close>

definition double_of_int :: "int \<Rightarrow> double" where
  "double_of_int i = to_binary64 (i < 0) (nat \<bar>i\<bar>) 1"

definition double_of_int64 :: "int64 \<Rightarrow> double" where
  "double_of_int64 w = double_of_int (sint w)"

fun ratio :: "double \<Rightarrow> nat \<times> nat" where
  "ratio (Finite s m e) = (if 0 \<le> e then (m * 2 ^ nat e, 1) else (m, 2 ^ nat (- e)))"
| "ratio _ = (0, 1)"

fun float_of_double :: "double \<Rightarrow> double" where
  "float_of_double (Finite s m e) = (case ratio (Finite s m e) of (n, d) \<Rightarrow> to_binary32 s n d)"
| "float_of_double x = x"

text \<open>
  Truncation towards zero. The cast \<^verbatim>\<open>static_cast<int64_t>(double)\<close> has a value only
  where the truncated value fits; \<^const>\<open>None\<close> marks the undefined behaviour elsewhere.
\<close>

fun trunc_double :: "double \<Rightarrow> int option" where
  "trunc_double (Finite s m e) =
     (case ratio (Finite s m e) of (n, d) \<Rightarrow> Some ((if s then -1 else 1) * int (n div d)))"
| "trunc_double _ = None"

definition int64_of_double :: "double \<Rightarrow> int64 option" where
  "int64_of_double x = (case trunc_double x of
       Some i \<Rightarrow> (if - (2 ^ 63) \<le> i \<and> i < 2 ^ 63 then Some (word_of_int i) else None)
     | None \<Rightarrow> None)"

section \<open>Integers as text\<close>

definition digit_char :: "nat \<Rightarrow> char" where
  "digit_char d = char_of (if d < 10 then 48 + d else 87 + d)"

text \<open>Digits of \<open>n\<close> in a base up to 16, most significant first (lower-case letters).\<close>

fun to_base :: "nat \<Rightarrow> nat \<Rightarrow> string" where
  "to_base b n = (if n < b \<or> b < 2 then [digit_char n] else to_base b (n div b) @ [digit_char (n mod b)])"

declare to_base.simps [simp del]

definition dec :: "nat \<Rightarrow> string" where
  "dec n = to_base 10 n"

text \<open>\<^verbatim>\<open>std::to_string\<close> and the decimal \<^verbatim>\<open>operator<<\<close> of a signed integer.\<close>

definition int_to_string :: "int \<Rightarrow> string" where
  "int_to_string i = (if i < 0 then CHR ''-'' # dec (nat (- i)) else dec (nat i))"

section \<open>Floating-point values as text\<close>

definition strip_zeros :: "string \<Rightarrow> string" where
  "strip_zeros ds = rev (dropWhile (\<lambda>c. c = CHR ''0'') (rev ds))"

definition ge_pow10 :: "nat \<Rightarrow> nat \<Rightarrow> int \<Rightarrow> bool" where
  "ge_pow10 n d k \<longleftrightarrow> (if 0 \<le> k then d * 10 ^ nat k \<le> n else d \<le> n * 10 ^ nat (- k))"

definition ilog10 :: "nat \<Rightarrow> nat \<Rightarrow> int" where
  "ilog10 n d = (let k = int (length (dec n)) - int (length (dec d))
                 in if ge_pow10 n d k then k else k - 1)"

text \<open>
  \<^verbatim>\<open>operator<<(std::ostream, double)\<close> in its default format (\<^verbatim>\<open>%g\<close>): six significant
  digits, trailing zeros dropped, scientific from exponent 6 and below -4.
\<close>

definition g_digits :: "nat \<Rightarrow> nat \<Rightarrow> nat \<times> int" where
  "g_digits n d = (let x = ilog10 n d;
      q = (if x \<le> 5 then round_div (n * 10 ^ nat (5 - x)) d else round_div n (d * 10 ^ nat (x - 5)))
    in if q = 10 ^ 6 then (10 ^ 5, x + 1) else (q, x))"

definition join_dot :: "string \<Rightarrow> string \<Rightarrow> string" where
  "join_dot ip fp = (if strip_zeros fp = [] then ip else ip @ ''.'' @ strip_zeros fp)"

definition g_layout :: "string \<Rightarrow> int \<Rightarrow> string" where
  "g_layout ds x =
     (if x < -4 \<or> 6 \<le> x
      then join_dot (take 1 ds) (drop 1 ds) @ (if x < 0 then ''e-'' else ''e+'') @
           (if \<bar>x\<bar> < 10 then ''0'' else []) @ dec (nat \<bar>x\<bar>)
      else if 0 \<le> x then join_dot (take (nat x + 1) ds) (drop (nat x + 1) ds)
      else join_dot ''0'' (replicate (nat (- x) - 1) CHR ''0'' @ ds))"

fun fmt_g :: "double \<Rightarrow> string" where
  "fmt_g (Finite s m e) =
     (if s then ''-'' else []) @
     (if m = 0 then ''0''
      else case ratio (Finite s m e) of (n, d) \<Rightarrow>
           case g_digits n d of (q, x) \<Rightarrow> g_layout (dec q) x)"
| "fmt_g (Infinity s) = (if s then ''-inf'' else ''inf'')"
| "fmt_g NaN = ''nan''"

text \<open>\<^verbatim>\<open>std::to_string(double)\<close> (\<^verbatim>\<open>%f\<close>): six digits after the point.\<close>

fun fmt_f :: "double \<Rightarrow> string" where
  "fmt_f (Finite s m e) =
     (case ratio (Finite s m e) of (n, d) \<Rightarrow>
        let q = round_div (n * 10 ^ 6) d; fp = dec (q mod 10 ^ 6)
        in (if s then ''-'' else []) @ dec (q div 10 ^ 6) @ ''.'' @
           replicate (6 - length fp) CHR ''0'' @ fp)"
| "fmt_f (Infinity s) = (if s then ''-inf'' else ''inf'')"
| "fmt_f NaN = ''nan''"

section \<open>Text to numbers\<close>

text \<open>
  The parsers work on character codes, so that one definition serves \<^verbatim>\<open>char\<close> and
  \<^verbatim>\<open>wchar_t\<close> text. Each returns the value and the text that is left, which is what the
  \<^verbatim>\<open>end\<close> pointer of the C functions says.
\<close>

abbreviation codes :: "string \<Rightarrow> nat list" where
  "codes s \<equiv> map of_char s"

abbreviation wcodes :: "hstring \<Rightarrow> nat list" where
  "wcodes s \<equiv> map unat s"

definition isspace :: "nat \<Rightarrow> bool" where
  "isspace c \<longleftrightarrow> 9 \<le> c \<and> c \<le> 13 \<or> c = 32"

definition iswspace :: "nat \<Rightarrow> bool" where
  "iswspace c \<longleftrightarrow> isspace c \<or> c \<in> {133, 160, 5760, 8232, 8233, 8239, 8287, 12288} \<or> 8192 \<le> c \<and> c \<le> 8202"

definition lower_code :: "nat \<Rightarrow> nat" where
  "lower_code c = (if 65 \<le> c \<and> c \<le> 90 then c + 32 else c)"

definition isdig :: "nat \<Rightarrow> bool" where
  "isdig c \<longleftrightarrow> 48 \<le> c \<and> c \<le> 57"

definition isxdig :: "nat \<Rightarrow> bool" where
  "isxdig c \<longleftrightarrow> isdig c \<or> 97 \<le> lower_code c \<and> lower_code c \<le> 102"

definition dig_val :: "nat \<Rightarrow> nat" where
  "dig_val c = (if isdig c then c - 48 else lower_code c - 87)"

definition digits_val :: "nat \<Rightarrow> nat list \<Rightarrow> nat" where
  "digits_val b ds = foldl (\<lambda>a c. a * b + dig_val c) 0 ds"

fun split_sign :: "nat list \<Rightarrow> bool \<times> nat list" where
  "split_sign (c # cs) = (if c = 45 then (True, cs) else if c = 43 then (False, cs) else (False, c # cs))"
| "split_sign [] = (False, [])"

text \<open>\<^verbatim>\<open>_wcstoi64(str, &end, 10)\<close>: saturates at the limits of \<^verbatim>\<open>int64_t\<close>.\<close>

definition strtoi64 :: "(nat \<Rightarrow> bool) \<Rightarrow> nat list \<Rightarrow> int64 \<times> nat list" where
  "strtoi64 sp cs =
     (case split_sign (dropWhile sp cs) of (neg, ds) \<Rightarrow>
        if takeWhile isdig ds = [] then (0, cs)
        else let v = (if neg then -1 else 1) * int (digits_val 10 (takeWhile isdig ds))
             in (word_of_int (max (- (2 ^ 63)) (min (2 ^ 63 - 1) v)), dropWhile isdig ds))"

text \<open>\<^verbatim>\<open>strtod\<close> and \<^verbatim>\<open>wcstod\<close>: decimal and hexadecimal forms, infinities and NaN.\<close>

fun split_dot :: "(nat \<Rightarrow> bool) \<Rightarrow> nat list \<Rightarrow> nat list \<times> nat list" where
  "split_dot dig (c # cs) = (if c = 46 then (takeWhile dig cs, dropWhile dig cs) else ([], c # cs))"
| "split_dot dig [] = ([], [])"

definition split_exp :: "nat \<Rightarrow> nat list \<Rightarrow> int \<times> nat list" where
  "split_exp mark cs = (case cs of
       c # t \<Rightarrow> (case split_sign t of (neg, ds) \<Rightarrow>
          if lower_code c = mark \<and> takeWhile isdig ds \<noteq> []
          then ((if neg then -1 else 1) * int (digits_val 10 (takeWhile isdig ds)), dropWhile isdig ds)
          else (0, cs))
     | [] \<Rightarrow> (0, cs))"

text \<open>Mantissa, exponent and rest of a number in base 10 (mark e) or 16 (mark p).\<close>

definition split_number ::
  "nat \<Rightarrow> (nat \<Rightarrow> bool) \<Rightarrow> nat \<Rightarrow> nat list \<Rightarrow> (nat \<times> int \<times> int \<times> nat list) option" where
  "split_number b dig mark cs =
     (case split_dot dig (dropWhile dig cs) of (fp, r) \<Rightarrow>
        if takeWhile dig cs = [] \<and> fp = [] then None
        else case split_exp mark r of (x, rest) \<Rightarrow>
             Some (digits_val b (takeWhile dig cs @ fp), - int (length fp), x, rest))"

definition scale_by :: "nat \<Rightarrow> int \<Rightarrow> nat \<Rightarrow> nat \<times> nat" where
  "scale_by b x m = (if 0 \<le> x then (m * b ^ nat x, 1) else (m, b ^ nat (- x)))"

definition decimal_value :: "bool \<Rightarrow> nat list \<Rightarrow> (double \<times> nat list) option" where
  "decimal_value neg cs = (case split_number 10 isdig 101 cs of
       Some (m, f, x, rest) \<Rightarrow> (case scale_by 10 (f + x) m of (n, d) \<Rightarrow>
          Some (to_binary64 neg n d, rest))
     | None \<Rightarrow> None)"

definition hex_value :: "bool \<Rightarrow> nat list \<Rightarrow> (double \<times> nat list) option" where
  "hex_value neg cs = (case split_number 16 isxdig 112 cs of
       Some (m, f, x, rest) \<Rightarrow> (case scale_by 2 (4 * f + x) m of (n, d) \<Rightarrow>
          Some (to_binary64 neg n d, rest))
     | None \<Rightarrow> None)"

definition has_prefix :: "string \<Rightarrow> nat list \<Rightarrow> bool" where
  "has_prefix w cs \<longleftrightarrow> map lower_code (take (length w) cs) = codes w"

definition nan_word :: "nat \<Rightarrow> bool" where
  "nan_word c \<longleftrightarrow> isdig c \<or> 97 \<le> lower_code c \<and> lower_code c \<le> 122 \<or> c = 95"

definition nan_rest :: "nat list \<Rightarrow> nat list" where
  "nan_rest cs =
     (if take 1 cs = [40] \<and> take 1 (dropWhile nan_word (drop 1 cs)) = [41]
      then drop 1 (dropWhile nan_word (drop 1 cs)) else cs)"

definition strtod :: "(nat \<Rightarrow> bool) \<Rightarrow> nat list \<Rightarrow> double \<times> nat list" where
  "strtod sp cs =
     (case split_sign (dropWhile sp cs) of (neg, t) \<Rightarrow>
        if has_prefix ''infinity'' t then (Infinity neg, drop 8 t)
        else if has_prefix ''inf'' t then (Infinity neg, drop 3 t)
        else if has_prefix ''nan'' t then (NaN, nan_rest (drop 3 t))
        else case (if has_prefix ''0x'' t then hex_value neg (drop 2 t) else None) of
               Some r \<Rightarrow> r
             | None \<Rightarrow> (case decimal_value neg t of Some r \<Rightarrow> r | None \<Rightarrow> (dzero, cs)))"

section \<open>Facts about numbers\<close>

lemma nbits_0 [simp]: "nbits 0 = 0"
  by (simp add: nbits.simps)

lemma nbits_1 [simp]: "nbits (Suc 0) = 1"
  by (simp add: nbits.simps)

lemma nbits_upper: "n < 2 ^ nbits n"
proof (induction n rule: nbits.induct)
  case (1 n)
  show ?case
  proof (cases "n = 0")
    case False
    with 1 have "n div 2 < 2 ^ nbits (n div 2)" by simp
    then have "n < 2 * 2 ^ nbits (n div 2)" by arith
    with False show ?thesis by (simp add: nbits.simps [of n])
  qed simp
qed

lemma nbits_lower: "0 < n \<Longrightarrow> 2 ^ (nbits n - 1) \<le> n"
proof (induction n rule: nbits.induct)
  case (1 n)
  show ?case
  proof (cases "n div 2 = 0")
    case True
    with 1 show ?thesis by (simp add: nbits.simps [of n])
  next
    case False
    then have pos: "0 < nbits (n div 2)" by (simp add: nbits.simps)
    from 1 False have "2 ^ (nbits (n div 2) - 1) \<le> n div 2" by simp
    then have "2 * 2 ^ (nbits (n div 2) - 1) \<le> n" by arith
    with pos have "2 ^ nbits (n div 2) \<le> n" by (simp add: power_eq_if)
    with 1 show ?thesis by (simp add: nbits.simps [of n])
  qed
qed

lemma nbits_pos: "0 < n \<Longrightarrow> 0 < nbits n"
  by (simp add: nbits.simps)

lemma nbits_le: "n < 2 ^ k \<Longrightarrow> nbits n \<le> k"
proof (cases "n = 0")
  case False
  assume "n < 2 ^ k"
  with False nbits_lower [of n] have "2 ^ (nbits n - 1) < (2::nat) ^ k" by linarith
  then have "nbits n - 1 < k" by (rule power_less_imp_less_exp [rotated]) simp
  then show ?thesis by simp
qed simp

lemma round_div_1 [simp]: "round_div n (Suc 0) = n"
  by (simp add: round_div_def)

text \<open>Integers below \<open>2 ^ 53\<close> are represented exactly.\<close>

lemma ilog2_nat: "0 < n \<Longrightarrow> ilog2 n 1 = int (nbits n) - 1"
  using nbits_lower [of n] nbits_pos [of n]
  by (auto simp: ilog2_def ge_pow2_def nat_diff_distrib)

lemma to_binary64_exact:
  assumes "0 < n" and "n < 2 ^ 53"
  shows "to_binary64 s n 1 = Finite s (n * 2 ^ (53 - nbits n)) (- int (53 - nbits n))"
proof -
  let ?j = "53 - nbits n"
  have nb: "nbits n \<le> 53" "0 < nbits n" using assms by (auto intro: nbits_le nbits_pos)
  have e: "max (- 1074) (ilog2 n 1 - int 53 + 1) = - int ?j"
    using nb ilog2_nat [OF assms(1)] by simp
  have m: "(if 0 \<le> - int ?j then round_div n (1 * 2 ^ nat (- int ?j))
            else round_div (n * 2 ^ nat (- (- int ?j))) 1) = n * 2 ^ ?j"
    by (simp add: nat_diff_distrib)
  have "n * 2 ^ ?j < 2 ^ nbits n * 2 ^ ?j" using nbits_upper by simp
  also have "\<dots> = 2 ^ 53" using nb by (simp flip: power_add)
  finally have "n * 2 ^ ?j < 2 ^ 53" .
  moreover have "(2::nat) ^ 53 \<le> 2 ^ nat (1024 + int ?j)"
    by (rule power_increasing) auto
  ultimately have "\<not> ge_pow2 (n * 2 ^ ?j) 1 (1024 - - int ?j)"
    by (simp add: ge_pow2_def)
  then show ?thesis
    using assms(1) unfolding to_binary64_def round_fp_def e Let_def m by simp
qed

lemma double_of_int_exact:
  assumes "\<bar>i\<bar> < 2 ^ 53"
  obtains j where "double_of_int i = Finite (i < 0) (nat \<bar>i\<bar> * 2 ^ j) (- int j)"
proof (cases "i = 0")
  case True
  then have "double_of_int i = Finite (i < 0) (nat \<bar>i\<bar> * 2 ^ 0) (- int 0)"
    by (simp add: double_of_int_def to_binary64_def round_fp_def)
  then show thesis by (rule that)
next
  case False
  with assms have "0 < nat \<bar>i\<bar>" "nat \<bar>i\<bar> < 2 ^ 53" by (auto simp: nat_less_iff)
  from to_binary64_exact [OF this, of "i < 0"] show thesis
    by (auto simp: double_of_int_def intro: that)
qed

lemma trunc_double_of_int: "\<bar>i\<bar> < 2 ^ 53 \<Longrightarrow> trunc_double (double_of_int i) = Some i"
  by (erule double_of_int_exact) (simp add: sgn_if)

lemma int64_of_double_of_int64:
  assumes "\<bar>sint w\<bar> < 2 ^ 53"
  shows "int64_of_double (double_of_int64 w) = Some w"
proof -
  from assms have "- (2 ^ 63) \<le> sint w \<and> sint w < 2 ^ 63" by (simp add: abs_less_iff)
  then show ?thesis
    using trunc_double_of_int [OF assms] by (simp add: int64_of_double_def double_of_int64_def)
qed

lemma scaled_exact:
  "e \<le> x \<Longrightarrow> scaled e (Finite s (m * 2 ^ j) x) = (if s then -1 else 1) * int m * 2 ^ (j + nat (x - e))"
  by (simp add: power_add)

lemma deq_double_of_int:
  assumes "\<bar>i\<bar> < 2 ^ 53" and "\<bar>k\<bar> < 2 ^ 53"
  shows "deq (double_of_int i) (double_of_int k) \<longleftrightarrow> i = k"
proof -
  obtain a where a: "double_of_int i = Finite (i < 0) (nat \<bar>i\<bar> * 2 ^ a) (- int a)"
    using assms(1) by (rule double_of_int_exact)
  obtain b where b: "double_of_int k = Finite (k < 0) (nat \<bar>k\<bar> * 2 ^ b) (- int b)"
    using assms(2) by (rule double_of_int_exact)
  let ?e = "min (- int a) (- int b)"
  have ea: "scaled ?e (double_of_int i) = i * 2 ^ max a b"
    unfolding a by (subst scaled_exact) (auto simp: max_def)
  have eb: "scaled ?e (double_of_int k) = k * 2 ^ max a b"
    unfolding b by (subst scaled_exact) (auto simp: max_def)
  have "deq (double_of_int i) (double_of_int k) \<longleftrightarrow>
      scaled ?e (double_of_int i) = scaled ?e (double_of_int k)"
    unfolding a b by (simp only: deq.simps)
  then show ?thesis by (simp add: ea eb)
qed

lemma deq_refl_iff [simp]: "deq x x \<longleftrightarrow> x \<noteq> NaN"
  by (cases x) auto

lemma deq_sym: "deq x y \<longleftrightarrow> deq y x"
  by (induction x y rule: deq.induct) (auto simp: min.commute)

section \<open>Facts about number text\<close>

lemma of_char_digit: "d < 10 \<Longrightarrow> of_char (digit_char d) = 48 + d"
  by (simp add: digit_char_def)

lemma dec_unfold: "dec n = (if n < 10 then [digit_char n] else dec (n div 10) @ [digit_char (n mod 10)])"
  by (simp add: dec_def to_base.simps [of 10 n])

lemma dec_small: "n < 10 \<Longrightarrow> dec n = [digit_char n]"
  by (simp add: dec_unfold [of n])

lemma dec_large: "\<not> n < 10 \<Longrightarrow> dec n = dec (n div 10) @ [digit_char (n mod 10)]"
  by (simp add: dec_unfold [of n])

lemma dec_induct [case_names small large]:
  assumes "\<And>n. n < 10 \<Longrightarrow> P n" and "\<And>n. \<not> n < 10 \<Longrightarrow> P (n div 10) \<Longrightarrow> P (n::nat)"
  shows "P n"
proof (induction n rule: less_induct)
  case (less n)
  show ?case
  proof (cases "n < 10")
    case True
    then show ?thesis by (rule assms(1))
  next
    case False
    then have "n div 10 < n" by simp
    then have "P (n div 10)" by (rule less)
    with False show ?thesis by (rule assms(2))
  qed
qed

lemma isdig_dec: "\<forall>c \<in> set (codes (dec n)). isdig c"
proof (induction n rule: dec_induct)
  case (small n)
  then show ?case by (simp add: dec_small of_char_digit isdig_def)
next
  case (large n)
  have "isdig (of_char (digit_char (n mod 10)))" by (simp add: of_char_digit isdig_def)
  with large show ?case by (simp add: dec_large [of n])
qed

lemma dec_nonempty [simp]: "dec n \<noteq> []"
  by (simp add: dec_unfold [of n])

lemma digits_val_append_one: "digits_val b (ds @ [c]) = digits_val b ds * b + dig_val c"
  by (simp add: digits_val_def)

lemma digits_val_dec: "digits_val 10 (codes (dec n)) = n"
proof (induction n rule: dec_induct)
  case (small n)
  then show ?case by (simp add: dec_small digits_val_def dig_val_def isdig_def of_char_digit)
next
  case (large n)
  have "dig_val (of_char (digit_char (n mod 10))) = n mod 10"
    by (simp add: dig_val_def isdig_def of_char_digit)
  with large show ?case
    by (simp add: dec_large [of n] digits_val_append_one)
qed

lemma takeWhile_isdig_dec: "takeWhile isdig (codes (dec n)) = codes (dec n)"
  using isdig_dec by (auto simp: takeWhile_eq_all_conv)

lemma dropWhile_isdig_dec: "dropWhile isdig (codes (dec n)) = []"
  using isdig_dec by (auto simp: dropWhile_eq_Nil_conv)

lemma hd_dec_isdig: "isdig (of_char (hd (dec n)))"
  using isdig_dec [of n] by (cases "dec n") auto

lemma isdig_not_special:
  "isdig c \<Longrightarrow> \<not> isspace c \<and> \<not> iswspace c \<and> c \<noteq> 45 \<and> c \<noteq> 43"
  by (auto simp: isdig_def isspace_def iswspace_def)

text \<open>The sign and the digits of a printed integer are found again.\<close>

lemma split_sign_int_to_string:
  assumes "sp = isspace \<or> sp = iswspace"
  shows "split_sign (dropWhile sp (codes (int_to_string i))) = (i < 0, codes (dec (nat \<bar>i\<bar>)))"
proof -
  obtain c cs where d: "dec (nat \<bar>i\<bar>) = c # cs" by (cases "dec (nat \<bar>i\<bar>)") auto
  have dig: "isdig (of_char c)" using hd_dec_isdig [of "nat \<bar>i\<bar>"] by (simp add: d)
  have eq: "int_to_string i = (if i < 0 then CHR ''-'' # c # cs else c # cs)"
    using d by (cases "i < 0") (simp_all add: int_to_string_def)
  have minus: "\<not> sp 45" using assms by (auto simp: isspace_def iswspace_def)
  from assms isdig_not_special [OF dig] have "\<not> sp (of_char c)" by blast
  with minus isdig_not_special [OF dig] show ?thesis
    by (simp add: eq d)
qed

lemma strtoi64_int_to_string:
  assumes "sp = isspace \<or> sp = iswspace" and "- (2 ^ 63) \<le> i" and "i < 2 ^ 63"
  shows "strtoi64 sp (codes (int_to_string i)) = (word_of_int i, [])"
proof -
  have "(if i < 0 then -1 else 1) * int (nat \<bar>i\<bar>) = i" by simp
  then show ?thesis
    using assms(2,3) split_sign_int_to_string [OF assms(1), of i]
    by (simp add: strtoi64_def Let_def takeWhile_isdig_dec dropWhile_isdig_dec digits_val_dec
        del: abs_of_neg)
qed

lemma has_prefix_digit:
  assumes "isdig c" and "w \<noteq> []" and "\<not> isdig (of_char (hd w))"
  shows "\<not> has_prefix w (c # cs)"
  using assms by (cases w) (auto simp: has_prefix_def isdig_def lower_code_def)

lemma has_prefix_0x_dec: "\<not> has_prefix ''0x'' (codes (dec n))"
proof -
  have "lower_code c \<noteq> 120" if "c \<in> set (codes (dec n))" for c
    using that isdig_dec [of n] by (auto simp: isdig_def lower_code_def)
  then have "120 \<notin> set (map lower_code (take (Suc (Suc 0)) (codes (dec n))))"
    by (metis (no_types, lifting) imageE in_set_takeD set_map)
  then have "map lower_code (take (Suc (Suc 0)) (codes (dec n))) \<noteq> [48, 120]" by auto
  then show ?thesis by (simp add: has_prefix_def)
qed

lemma decimal_value_dec: "decimal_value neg (codes (dec n)) = Some (to_binary64 neg n 1, [])"
  by (simp add: decimal_value_def split_number_def takeWhile_isdig_dec dropWhile_isdig_dec
      split_exp_def digits_val_dec scale_by_def)

text \<open>Printing an integer and reading it with \<^verbatim>\<open>strtod\<close> gives its conversion to double.\<close>

lemma strtod_int_to_string:
  assumes "sp = isspace \<or> sp = iswspace"
  shows "strtod sp (codes (int_to_string i)) = (double_of_int i, [])"
proof -
  obtain c cs where d: "codes (dec (nat \<bar>i\<bar>)) = c # cs" by (cases "dec (nat \<bar>i\<bar>)") auto
  have "isdig c" using isdig_dec [of "nat \<bar>i\<bar>"] by (simp add: d)
  from has_prefix_digit [OF this, of "''infinity''" cs] has_prefix_digit [OF this, of "''inf''" cs]
    has_prefix_digit [OF this, of "''nan''" cs]
  have "\<not> has_prefix ''infinity'' (c # cs)" "\<not> has_prefix ''inf'' (c # cs)"
    "\<not> has_prefix ''nan'' (c # cs)"
    by (simp_all add: isdig_def)
  then show ?thesis
    using split_sign_int_to_string [OF assms, of i] has_prefix_0x_dec [of "nat \<bar>i\<bar>"]
      decimal_value_dec [of "i < 0" "nat \<bar>i\<bar>"]
    by (simp add: strtod_def d double_of_int_def)
qed

section \<open>Comparison and truncation\<close>

lemma nbits_numeral [simp]: "nbits (numeral k) = Suc (nbits (numeral k div 2))"
  by (simp add: nbits.simps [of "numeral k"])

lemma scaled_lower:
  assumes "e' \<le> e" and "e \<le> x"
  shows "scaled e' (Finite s m x) = scaled e (Finite s m x) * 2 ^ nat (e - e')"
proof -
  have "nat (x - e') = nat (x - e) + nat (e - e')" using assms by simp
  then show ?thesis by (simp add: power_add)
qed

lemma scaled_pair:
  assumes "E \<le> e" and "E \<le> f"
  shows "scaled E (Finite s m e) = scaled (min e f) (Finite s m e) * 2 ^ nat (min e f - E)"
    and "scaled E (Finite t n f) = scaled (min e f) (Finite t n f) * 2 ^ nat (min e f - E)"
  using assms by (auto intro!: scaled_lower simp del: scaled.simps)

lemma deq_at:
  assumes "E \<le> e" and "E \<le> f"
  shows "deq (Finite s m e) (Finite t n f) \<longleftrightarrow> scaled E (Finite s m e) = scaled E (Finite t n f)"
  using scaled_pair [OF assms] by (simp del: scaled.simps)

lemma dle_at:
  assumes "E \<le> e" and "E \<le> f"
  shows "dle (Finite s m e) (Finite t n f) \<longleftrightarrow> scaled E (Finite s m e) \<le> scaled E (Finite t n f)"
  using scaled_pair [OF assms] by (simp del: scaled.simps)

lemma double_min: "double_of_int (- (2 ^ 63)) = Finite True (2 ^ 52) 11"
  by (simp add: double_of_int_def to_binary64_def round_fp_def ilog2_def ge_pow2_def round_div_def Let_def)

lemma double_max: "double_of_int (2 ^ 63 - 1) = Finite False (2 ^ 53) 10"
  by (simp add: double_of_int_def to_binary64_def round_fp_def ilog2_def ge_pow2_def round_div_def Let_def)

lemma double_2_63: "double_of_int (2 ^ 63) = Finite False (2 ^ 52) 11"
  by (simp add: double_of_int_def to_binary64_def round_fp_def ilog2_def ge_pow2_def round_div_def Let_def)

text \<open>A finite value, scaled so that both it and the integers are integral.\<close>

lemma trunc_scaled:
  "trunc_double (Finite s m e) =
    (let X = scaled (min e 0) (Finite s m e); K = 2 ^ nat (- min e 0)
     in Some (if X < 0 then - ((- X) div K) else X div K))"
  by (auto simp: min_def zdiv_int Let_def)

lemma scaled_pow2: "E \<le> 0 \<Longrightarrow> scaled E (Finite s (2 ^ k) (int j)) = (if s then - (2 ^ (k + j)) else 2 ^ (k + j)) * 2 ^ nat (- E)"
  by (simp add: nat_diff_distrib power_add nat_add_distrib diff_conv_add_uminus del: add_uminus_conv_diff)

lemma int_div_less_iff:
  assumes "0 < (K::int)"
  shows "X div K < c \<longleftrightarrow> X < c * K"
proof
  assume "X div K < c"
  show "X < c * K"
  proof (rule ccontr)
    assume "\<not> X < c * K"
    then have "(c * K) div K \<le> X div K" using assms by (intro zdiv_mono1) auto
    with \<open>X div K < c\<close> assms show False by simp
  qed
next
  assume "X < c * K"
  moreover have "X div K * K \<le> X" using assms by (simp add: minus_mod_eq_div_mult [symmetric])
  ultimately show "X div K < c" using assms by (metis mult_less_cancel_right_pos order_le_less_trans)
qed

lemma trunc_bounds:
  assumes "0 < (K::int)" and "- (c * K) \<le> X" and "X \<le> c * K"
  defines "i \<equiv> (if X < 0 then - ((- X) div K) else X div K)"
  shows "- c \<le> i \<and> (i < c \<longleftrightarrow> X < c * K)"
proof (cases "X < 0")
  case True
  have "- X \<le> c * K" using assms(2) by simp
  then have "(- X) div K \<le> (c * K) div K" using assms(1) by (intro zdiv_mono1) auto
  then have "(- X) div K \<le> c" using assms(1) by simp
  moreover have "0 < c" using True assms(1,2) by (smt (verit) mult_nonpos_nonneg)
  moreover have "0 \<le> (- X) div K" using True assms(1) by (simp add: pos_imp_zdiv_nonneg_iff)
  moreover have "0 < c * K" using \<open>0 < c\<close> assms(1) by simp
  ultimately show ?thesis using True by (simp add: i_def)
next
  case False
  then have "0 \<le> X div K" using assms(1) by (simp add: pos_imp_zdiv_nonneg_iff)
  moreover have "0 \<le> c" using False assms(1,3) by (smt (verit) mult_neg_pos)
  moreover have "X div K < c \<longleftrightarrow> X < c * K"
    using assms(1) by (rule int_div_less_iff)
  ultimately show ?thesis using False by (simp add: i_def)
qed

lemma deq_trans: "deq x y \<Longrightarrow> deq y z \<Longrightarrow> deq x z"
proof (cases "\<exists>s m e t n f u k g. x = Finite s m e \<and> y = Finite t n f \<and> z = Finite u k g")
  case True
  then obtain s m e t n f u k g where "x = Finite s m e" "y = Finite t n f" "z = Finite u k g" by blast
  moreover assume "deq x y" and "deq y z"
  ultimately show ?thesis
    using deq_at [of "min e (min f g)"] by (metis min.cobounded1 min.cobounded2 min.coboundedI2)
next
  case False
  moreover assume "deq x y" and "deq y z"
  ultimately show ?thesis by (cases x; cases y; cases z) auto
qed

end
