(* ===== verification/JSValue.thy ===== *)
theory JSValue
  imports CppNumber
begin

text \<open>
  The JavaScript-like value of the native module API:
  \<^verbatim>\<open>vnext/Microsoft.ReactNative.Cxx/JSValue.h\<close> and \<^verbatim>\<open>JSValue.cpp\<close>. An object is the
  entry list of its \<^verbatim>\<open>std::map\<close> in key order, an array the list of its items. Pointers
  that may be null are options. Undefined behaviour of a cast is the option value
  \<^const>\<open>None\<close>.
\<close>

section \<open>Data\<close>

datatype JSValueType =
  TypeNull | TypeObject | TypeArray | TypeString | TypeBoolean | TypeInt64 | TypeDouble

datatype JSValue =
    Null
  | Object "(string \<times> JSValue) list"
  | Array "JSValue list"
  | String string
  | Boolean bool
  | Int64 int64
  | Double double

type_synonym JSValueObject = "(string \<times> JSValue) list"
type_synonym JSValueArray = "JSValue list"

text \<open>The enumerators are compared by their position.\<close>

fun type_rank :: "JSValueType \<Rightarrow> nat" where
  "type_rank TypeNull = 0"
| "type_rank TypeObject = 1"
| "type_rank TypeArray = 2"
| "type_rank TypeString = 3"
| "type_rank TypeBoolean = 4"
| "type_rank TypeInt64 = 5"
| "type_rank TypeDouble = 6"

fun Type :: "JSValue \<Rightarrow> JSValueType" where
  "Type Null = TypeNull"
| "Type (Object _) = TypeObject"
| "Type (Array _) = TypeArray"
| "Type (String _) = TypeString"
| "Type (Boolean _) = TypeBoolean"
| "Type (Int64 _) = TypeInt64"
| "Type (Double _) = TypeDouble"

text \<open>Well-formed values: the entries of every object are those of a \<^verbatim>\<open>std::map\<close>.\<close>

fun wf_js :: "JSValue \<Rightarrow> bool" where
  "wf_js (Object ps) \<longleftrightarrow> smap ps \<and> (\<forall>p \<in> set ps. wf_js (snd p))"
| "wf_js (Array vs) \<longleftrightarrow> (\<forall>v \<in> set vs. wf_js v)"
| "wf_js _ \<longleftrightarrow> True"

section \<open>JSConverter\<close>

definition whitespace :: "char \<Rightarrow> bool" where
  "whitespace c \<longleftrightarrow> of_char c \<in> {32, 10, 13, 9, 12, 11 :: nat}"

definition LowerString :: "string \<Rightarrow> string" where
  "LowerString s = map (\<lambda>c. char_of (lower_code (of_char c))) s"

definition TrimString :: "string \<Rightarrow> string" where
  "TrimString s = rev (dropWhile whitespace (rev (dropWhile whitespace s)))"

definition ToCString :: "bool \<Rightarrow> string" where
  "ToCString b = (if b then ''true'' else ''false'')"

fun NaNToCString :: "double \<Rightarrow> string option" where
  "NaNToCString NaN = Some ''NaN''"
| "NaNToCString (Infinity s) = Some (if s then ''-Infinity'' else ''Infinity'')"
| "NaNToCString (Finite _ _ _) = None"

definition ToJSString :: "double \<Rightarrow> string" where
  "ToJSString x = (if isfinite x then fmt_g x else (case NaNToCString x of Some s \<Rightarrow> s | None \<Rightarrow> []))"

definition StringToBoolean :: "string set" where
  "StringToBoolean = {''true'', ''1'', ''yes'', ''y'', ''on''}"

definition ToBoolean :: "string \<Rightarrow> bool" where
  "ToBoolean s \<longleftrightarrow> LowerString s \<in> StringToBoolean"

text \<open>
  \<^verbatim>\<open>strtod\<close> is handed the pointer to the first character that is not white space, so it
  sees the text up to the terminating null; the result counts only if the parse ends
  exactly where the trimmed text ends.
\<close>

definition ToJSNumber :: "string \<Rightarrow> double" where
  "ToJSNumber s =
     (let trimmed = TrimString s; tail = dropWhile whitespace s
      in if trimmed = [] then dzero
         else case strtod isspace (codes tail) of (result, rest) \<Rightarrow>
              if length tail - length rest = length trimmed then result else NaN)"

definition ToInt64 :: "double \<Rightarrow> int64 option" where
  "ToInt64 x =
     (if dle (double_of_int (- (2 ^ 63))) x \<and> dle x (double_of_int (2 ^ 63 - 1))
      then int64_of_double x else Some 0)"

section \<open>Accessors\<close>

definition IsNull :: "JSValue \<Rightarrow> bool" where
  "IsNull v \<longleftrightarrow> Type v = TypeNull"

fun TryGetObject :: "JSValue \<Rightarrow> JSValueObject option" where
  "TryGetObject (Object ps) = Some ps"
| "TryGetObject _ = None"

fun TryGetArray :: "JSValue \<Rightarrow> JSValueArray option" where
  "TryGetArray (Array vs) = Some vs"
| "TryGetArray _ = None"

fun TryGetString :: "JSValue \<Rightarrow> string option" where
  "TryGetString (String s) = Some s"
| "TryGetString _ = None"

fun TryGetBoolean :: "JSValue \<Rightarrow> bool option" where
  "TryGetBoolean (Boolean b) = Some b"
| "TryGetBoolean _ = None"

fun TryGetInt64 :: "JSValue \<Rightarrow> int64 option" where
  "TryGetInt64 (Int64 i) = Some i"
| "TryGetInt64 _ = None"

fun TryGetDouble :: "JSValue \<Rightarrow> double option" where
  "TryGetDouble (Double x) = Some x"
| "TryGetDouble _ = None"

definition AsObject :: "JSValue \<Rightarrow> JSValueObject" where
  "AsObject v = (case TryGetObject v of Some ps \<Rightarrow> ps | None \<Rightarrow> [])"

definition AsArray :: "JSValue \<Rightarrow> JSValueArray" where
  "AsArray v = (case TryGetArray v of Some vs \<Rightarrow> vs | None \<Rightarrow> [])"

definition PropertyCount :: "JSValue \<Rightarrow> nat" where
  "PropertyCount v = (case v of Object ps \<Rightarrow> length ps | _ \<Rightarrow> 0)"

definition TryGetObjectProperty :: "JSValue \<Rightarrow> string \<Rightarrow> JSValue option" where
  "TryGetObjectProperty v name = (case v of Object ps \<Rightarrow> map_of ps name | _ \<Rightarrow> None)"

definition GetObjectProperty :: "JSValue \<Rightarrow> string \<Rightarrow> JSValue" where
  "GetObjectProperty v name = (case TryGetObjectProperty v name of Some r \<Rightarrow> r | None \<Rightarrow> Null)"

definition ItemCount :: "JSValue \<Rightarrow> nat" where
  "ItemCount v = (case v of Array vs \<Rightarrow> length vs | _ \<Rightarrow> 0)"

definition TryGetArrayItem :: "JSValue \<Rightarrow> nat \<Rightarrow> JSValue option" where
  "TryGetArrayItem v i = (case v of Array vs \<Rightarrow> if i < length vs then Some (vs ! i) else None | _ \<Rightarrow> None)"

definition GetArrayItem :: "JSValue \<Rightarrow> nat \<Rightarrow> JSValue" where
  "GetArrayItem v i = (case TryGetArrayItem v i of Some r \<Rightarrow> r | None \<Rightarrow> Null)"

section \<open>Conversions\<close>

fun AsString :: "JSValue \<Rightarrow> string" where
  "AsString Null = ''null''"
| "AsString (String s) = s"
| "AsString (Boolean b) = ToCString b"
| "AsString (Int64 i) = int_to_string (sint i)"
| "AsString (Double x) = ToJSString x"
| "AsString _ = []"

fun AsBoolean :: "JSValue \<Rightarrow> bool" where
  "AsBoolean (Object ps) \<longleftrightarrow> ps \<noteq> []"
| "AsBoolean (Array vs) \<longleftrightarrow> vs \<noteq> []"
| "AsBoolean (String s) \<longleftrightarrow> ToBoolean s"
| "AsBoolean (Boolean b) \<longleftrightarrow> b"
| "AsBoolean (Int64 i) \<longleftrightarrow> i \<noteq> 0"
| "AsBoolean (Double x) \<longleftrightarrow> \<not> isnan x \<and> \<not> deq x dzero"
| "AsBoolean Null \<longleftrightarrow> False"

fun AsInt64 :: "JSValue \<Rightarrow> int64 option" where
  "AsInt64 (String s) = ToInt64 (ToJSNumber s)"
| "AsInt64 (Boolean b) = Some (if b then 1 else 0)"
| "AsInt64 (Int64 i) = Some i"
| "AsInt64 (Double x) = ToInt64 x"
| "AsInt64 _ = Some 0"

text \<open>The narrower integers are C casts of \<open>AsInt64\<close>.\<close>

definition AsInt8 :: "JSValue \<Rightarrow> int8 option" where
  "AsInt8 v = map_option ucast (AsInt64 v)"

definition AsInt16 :: "JSValue \<Rightarrow> int16 option" where
  "AsInt16 v = map_option ucast (AsInt64 v)"

definition AsInt32 :: "JSValue \<Rightarrow> int32 option" where
  "AsInt32 v = map_option ucast (AsInt64 v)"

definition AsUInt8 :: "JSValue \<Rightarrow> 8 word option" where
  "AsUInt8 v = map_option ucast (AsInt64 v)"

definition AsUInt16 :: "JSValue \<Rightarrow> 16 word option" where
  "AsUInt16 v = map_option ucast (AsInt64 v)"

definition AsUInt32 :: "JSValue \<Rightarrow> 32 word option" where
  "AsUInt32 v = map_option ucast (AsInt64 v)"

definition AsUInt64 :: "JSValue \<Rightarrow> 64 word option" where
  "AsUInt64 v = AsInt64 v"

fun AsDouble :: "JSValue \<Rightarrow> double" where
  "AsDouble (String s) = ToJSNumber s"
| "AsDouble (Boolean b) = (if b then double_of_int 1 else dzero)"
| "AsDouble (Int64 i) = double_of_int64 i"
| "AsDouble (Double x) = x"
| "AsDouble _ = dzero"

definition AsSingle :: "JSValue \<Rightarrow> double" where
  "AsSingle v = float_of_double (AsDouble v)"

text \<open>\<open>AsJSString\<close>: the text of an array is that of its items, separated by commas.\<close>

fun JSStringWriter :: "JSValue \<Rightarrow> string"
and JSStringWriter_items :: "bool \<Rightarrow> JSValue list \<Rightarrow> string" where
  "JSStringWriter Null = ''null''"
| "JSStringWriter (Object _) = ''[object Object]''"
| "JSStringWriter (Array vs) = JSStringWriter_items True vs"
| "JSStringWriter (String s) = s"
| "JSStringWriter (Boolean b) = ToCString b"
| "JSStringWriter (Int64 i) = int_to_string (sint i)"
| "JSStringWriter (Double x) = ToJSString x"
| "JSStringWriter_items start [] = []"
| "JSStringWriter_items start (v # vs) =
     (if start then [] else '','') @ JSStringWriter v @ JSStringWriter_items False vs"

fun AsJSString :: "JSValue \<Rightarrow> string" where
  "AsJSString Null = ''null''"
| "AsJSString (Object _) = ''[object Object]''"
| "AsJSString (Array vs) = JSStringWriter (Array vs)"
| "AsJSString (String s) = s"
| "AsJSString (Boolean b) = ToCString b"
| "AsJSString (Int64 i) = int_to_string (sint i)"
| "AsJSString (Double x) = ToJSString x"

fun AsJSBoolean :: "JSValue \<Rightarrow> bool" where
  "AsJSBoolean (Object _) \<longleftrightarrow> True"
| "AsJSBoolean (Array _) \<longleftrightarrow> True"
| "AsJSBoolean (String s) \<longleftrightarrow> s \<noteq> []"
| "AsJSBoolean (Boolean b) \<longleftrightarrow> b"
| "AsJSBoolean (Int64 i) \<longleftrightarrow> i \<noteq> 0"
| "AsJSBoolean (Double x) \<longleftrightarrow> \<not> isnan x \<and> \<not> deq x dzero"
| "AsJSBoolean Null \<longleftrightarrow> False"

fun AsJSNumber :: "JSValue \<Rightarrow> double" where
  "AsJSNumber (Object _) = NaN"
| "AsJSNumber (Array []) = dzero"
| "AsJSNumber (Array [v]) = ToJSNumber (AsJSString v)"
| "AsJSNumber (Array _) = NaN"
| "AsJSNumber (String s) = ToJSNumber s"
| "AsJSNumber (Boolean b) = (if b then double_of_int 1 else dzero)"
| "AsJSNumber (Int64 i) = double_of_int64 i"
| "AsJSNumber (Double x) = x"
| "AsJSNumber Null = dzero"

section \<open>JSValueObject and JSValueArray\<close>

text \<open>The constructors from a range or an initializer list: the first entry of a key stays.\<close>

fun make_object :: "JSValueObject \<Rightarrow> (string \<times> JSValue) list \<Rightarrow> JSValueObject" where
  "make_object obj [] = obj"
| "make_object obj ((k, v) # ps) = make_object (try_emplace k v obj) ps"

text \<open>The non-const \<^verbatim>\<open>operator[]\<close> returns the value and the object, which may have grown.\<close>

definition object_at :: "JSValueObject \<Rightarrow> string \<Rightarrow> JSValue \<times> JSValueObject" where
  "object_at obj name =
     (case map_of obj name of Some v \<Rightarrow> (v, obj) | None \<Rightarrow> (Null, try_emplace name Null obj))"

definition object_at_const :: "JSValueObject \<Rightarrow> string \<Rightarrow> JSValue" where
  "object_at_const obj name = (case map_of obj name of Some v \<Rightarrow> v | None \<Rightarrow> Null)"

fun make_array_null :: "nat \<Rightarrow> JSValueArray" where
  "make_array_null 0 = []"
| "make_array_null (Suc n) = make_array_null n @ [Null]"

fun JSValue_Copy :: "JSValue \<Rightarrow> JSValue"
and JSValueObject_Copy :: "JSValueObject \<Rightarrow> (string \<times> JSValue) list \<Rightarrow> JSValueObject"
and JSValueArray_Copy :: "JSValueArray \<Rightarrow> JSValue list \<Rightarrow> JSValueArray" where
  "JSValue_Copy (Object ps) = Object (JSValueObject_Copy [] ps)"
| "JSValue_Copy (Array vs) = Array (JSValueArray_Copy [] vs)"
| "JSValue_Copy (String s) = String s"
| "JSValue_Copy (Boolean b) = Boolean b"
| "JSValue_Copy (Int64 i) = Int64 i"
| "JSValue_Copy (Double x) = Double x"
| "JSValue_Copy Null = Null"
| "JSValueObject_Copy obj [] = obj"
| "JSValueObject_Copy obj ((k, v) # ps) = JSValueObject_Copy (try_emplace k (JSValue_Copy v) obj) ps"
| "JSValueArray_Copy arr [] = arr"
| "JSValueArray_Copy arr (v # vs) = JSValueArray_Copy (arr @ [JSValue_Copy v]) vs"

fun make_array_default :: "nat \<Rightarrow> JSValue \<Rightarrow> JSValueArray" where
  "make_array_default 0 d = []"
| "make_array_default (Suc n) d = make_array_default n d @ [JSValue_Copy d]"

text \<open>Moves return the new value and what is left in the source.\<close>

definition move_construct :: "JSValue \<Rightarrow> JSValue \<times> JSValue" where
  "move_construct other = (other, Null)"

definition move_assign :: "bool \<Rightarrow> JSValue \<Rightarrow> JSValue \<Rightarrow> JSValue \<times> JSValue" where
  "move_assign same this other = (if same then (this, other) else move_construct other)"

fun MoveObject :: "JSValue \<Rightarrow> JSValueObject \<times> JSValue" where
  "MoveObject (Object ps) = (ps, Null)"
| "MoveObject v = ([], v)"

fun MoveArray :: "JSValue \<Rightarrow> JSValueArray \<times> JSValue" where
  "MoveArray (Array vs) = (vs, Null)"
| "MoveArray v = ([], v)"

section \<open>Equality\<close>

fun Equals :: "JSValue \<Rightarrow> JSValue \<Rightarrow> bool"
and object_equals :: "(string \<times> JSValue) list \<Rightarrow> (string \<times> JSValue) list \<Rightarrow> bool"
and array_equals :: "JSValue list \<Rightarrow> JSValue list \<Rightarrow> bool" where
  "Equals Null Null \<longleftrightarrow> True"
| "Equals (Object ps) (Object qs) \<longleftrightarrow> length ps = length qs \<and> object_equals ps qs"
| "Equals (Array vs) (Array ws) \<longleftrightarrow> length vs = length ws \<and> array_equals vs ws"
| "Equals (String s) (String t) \<longleftrightarrow> s = t"
| "Equals (Boolean a) (Boolean b) \<longleftrightarrow> a = b"
| "Equals (Int64 i) (Int64 j) \<longleftrightarrow> i = j"
| "Equals (Double x) (Double y) \<longleftrightarrow> deq x y"
| "Equals _ _ \<longleftrightarrow> False"
| "object_equals ((k, v) # ps) ((l, w) # qs) \<longleftrightarrow> k = l \<and> Equals v w \<and> object_equals ps qs"
| "object_equals _ _ \<longleftrightarrow> True"
| "array_equals (v # vs) (w # ws) \<longleftrightarrow> Equals v w \<and> array_equals vs ws"
| "array_equals _ _ \<longleftrightarrow> True"

fun JSEquals :: "JSValue \<Rightarrow> JSValue \<Rightarrow> bool"
and object_js_equals :: "(string \<times> JSValue) list \<Rightarrow> (string \<times> JSValue) list \<Rightarrow> bool"
and array_js_equals :: "JSValue list \<Rightarrow> JSValue list \<Rightarrow> bool" where
  "JSEquals (Object ps) (Object qs) \<longleftrightarrow> length ps = length qs \<and> object_js_equals ps qs"
| "JSEquals (Array vs) (Array ws) \<longleftrightarrow> length vs = length ws \<and> array_js_equals vs ws"
| "JSEquals v w \<longleftrightarrow>
     (if Type v = Type w then Equals v w
      else if Type v = TypeNull \<or> Type w = TypeNull then False
      else if max (type_rank (Type v)) (type_rank (Type w)) \<ge> type_rank TypeBoolean
      then deq (AsJSNumber v) (AsJSNumber w)
      else AsJSString v = AsJSString w)"
| "object_js_equals ((k, v) # ps) ((l, w) # qs) \<longleftrightarrow> k = l \<and> JSEquals v w \<and> object_js_equals ps qs"
| "object_js_equals _ _ \<longleftrightarrow> True"
| "array_js_equals (v # vs) (w # ws) \<longleftrightarrow> JSEquals v w \<and> array_js_equals vs ws"
| "array_js_equals _ _ \<longleftrightarrow> True"

section \<open>Facts\<close>

lemma wf_js_make_object: "smap obj \<Longrightarrow> smap (make_object obj ps)"
  by (induction ps arbitrary: obj) auto

lemma map_of_make_object:
  "smap obj \<Longrightarrow> map_of (make_object obj ps) = map_of ps ++ map_of obj"
proof (induction ps arbitrary: obj)
  case (Cons p ps)
  obtain k v where p: "p = (k, v)" by (cases p)
  have "map_of (make_object obj (p # ps)) = map_of ps ++ map_of (try_emplace k v obj)"
    using Cons by (simp add: p)
  also have "\<dots> = map_of (p # ps) ++ map_of obj"
    using Cons.prems by (auto simp: p map_of_try_emplace map_add_def fun_eq_iff split: option.splits)
  finally show ?case .
qed simp

lemma Copy_id:
  "wf_js v \<Longrightarrow> JSValue_Copy v = v"
  "smap (obj @ ps) \<Longrightarrow> (\<forall>p \<in> set ps. wf_js (snd p)) \<Longrightarrow> JSValueObject_Copy obj ps = obj @ ps"
  "(\<forall>v \<in> set vs. wf_js v) \<Longrightarrow> JSValueArray_Copy arr vs = arr @ vs"
proof (induction v and obj ps and arr vs rule: JSValue_Copy_JSValueObject_Copy_JSValueArray_Copy.induct)
  case (9 obj k v ps)
  then have "try_emplace k v obj = obj @ [(k, v)]"
    by (intro try_emplace_greatest smap_append_less)
  with 9 show ?case by simp
qed (auto simp: smap_def)

lemma make_array_null_replicate: "make_array_null n = replicate n Null"
  by (induction n) (simp_all add: replicate_append_same)

lemma Equals_sym:
  "Equals v w \<longleftrightarrow> Equals w v"
  "length ps = length qs \<Longrightarrow> object_equals ps qs \<longleftrightarrow> object_equals qs ps"
  "length vs = length ws \<Longrightarrow> array_equals vs ws \<longleftrightarrow> array_equals ws vs"
  by (induction v w and ps qs and vs ws rule: Equals_object_equals_array_equals.induct)
    (auto simp: deq_sym)

lemma Equals_trans:
  "Equals u v \<Longrightarrow> Equals v w \<Longrightarrow> Equals u w"
  "length ps = length qs \<Longrightarrow> length qs = length rs \<Longrightarrow> object_equals ps qs \<Longrightarrow>
     object_equals qs rs \<Longrightarrow> object_equals ps rs"
  "length us = length vs \<Longrightarrow> length vs = length ws \<Longrightarrow> array_equals us vs \<Longrightarrow>
     array_equals vs ws \<Longrightarrow> array_equals us ws"
proof (induction u v and ps qs and us vs arbitrary: w and rs and ws
    rule: Equals_object_equals_array_equals.induct)
  case (2 ps qs)
  then show ?case by (cases w) auto
next
  case (3 vs ws)
  then show ?case by (cases w) auto
next
  case (7 x y)
  then show ?case by (cases w) (auto intro: deq_trans)
qed (force elim: Equals.elims simp: length_Suc_conv Suc_length_conv)+

lemma Equals_JSEquals:
  "Equals v w \<Longrightarrow> JSEquals v w"
  "object_equals ps qs \<Longrightarrow> object_js_equals ps qs"
  "array_equals vs ws \<Longrightarrow> array_js_equals vs ws"
  by (induction v w and ps qs and vs ws rule: Equals_object_equals_array_equals.induct) auto

lemma JSEquals_sym:
  "JSEquals v w \<longleftrightarrow> JSEquals w v"
  "length ps = length qs \<Longrightarrow> object_js_equals ps qs \<longleftrightarrow> object_js_equals qs ps"
  "length vs = length ws \<Longrightarrow> array_js_equals vs ws \<longleftrightarrow> array_js_equals ws vs"
  by (induction v w and ps qs and vs ws rule: JSEquals_object_js_equals_array_js_equals.induct)
    (auto simp: deq_sym Equals_sym(1) max.commute)

lemma ToInt64_None_iff: "ToInt64 x = None \<longleftrightarrow> deq x (double_of_int (2 ^ 63))"
proof (cases x)
  case (Finite s m e)
  let ?E = "min e 0" and ?K = "2 ^ nat (- min e 0) :: int"
  let ?X = "scaled ?E x"
  have lo: "dle (double_of_int (- (2 ^ 63))) x \<longleftrightarrow> - (2 ^ 63 * ?K) \<le> ?X"
    unfolding double_min Finite using scaled_pow2 [of ?E True 52 11]
    by (subst dle_at [of ?E]) (auto simp del: scaled.simps)
  have hi: "dle x (double_of_int (2 ^ 63 - 1)) \<longleftrightarrow> ?X \<le> 2 ^ 63 * ?K"
    unfolding double_max Finite using scaled_pow2 [of ?E False 53 10]
    by (subst dle_at [of ?E]) (auto simp del: scaled.simps)
  have eq: "deq x (double_of_int (2 ^ 63)) \<longleftrightarrow> ?X = 2 ^ 63 * ?K"
    unfolding double_2_63 Finite using scaled_pow2 [of ?E False 52 11]
    by (subst deq_at [of ?E]) (auto simp del: scaled.simps)
  obtain i where i: "trunc_double x = Some i" "i = (if ?X < 0 then - ((- ?X) div ?K) else ?X div ?K)"
    unfolding Finite trunc_scaled Let_def by blast
  have "- (2 ^ 63) \<le> i \<and> (i < 2 ^ 63 \<longleftrightarrow> ?X < 2 ^ 63 * ?K)" if "- (2 ^ 63 * ?K) \<le> ?X" "?X \<le> 2 ^ 63 * ?K"
    unfolding i(2) by (rule trunc_bounds [OF _ that]) simp
  then show ?thesis
    unfolding ToInt64_def int64_of_double_def lo hi eq i(1) by auto
next
  case (Infinity s)
  show ?thesis unfolding ToInt64_def double_min double_max double_2_63 Infinity by simp
next
  case NaN
  show ?thesis unfolding ToInt64_def double_min double_max double_2_63 NaN by simp
qed

lemma ToInt64_double_of_int:
  assumes "\<bar>i\<bar> < 2 ^ 53"
  shows "ToInt64 (double_of_int i) = Some (word_of_int i)"
proof -
  obtain j where j: "double_of_int i = Finite (i < 0) (nat \<bar>i\<bar> * 2 ^ j) (- int j)"
    using assms by (rule double_of_int_exact)
  have X: "scaled (- int j) (double_of_int i) = i * 2 ^ j"
    unfolding j by simp
  have i: "- (2 ^ 63) \<le> i" "i < 2 ^ 63" using assms by (simp_all add: abs_less_iff)
  have "dle (double_of_int (- (2 ^ 63))) (double_of_int i) \<longleftrightarrow> - (2 ^ 63) * 2 ^ j \<le> i * 2 ^ j"
    using scaled_pow2 [of "- int j" True 52 11] X
    unfolding double_min j by (subst dle_at [of "- int j"]) (auto simp del: scaled.simps)
  moreover have "dle (double_of_int i) (double_of_int (2 ^ 63 - 1)) \<longleftrightarrow> i * 2 ^ j \<le> 2 ^ 63 * 2 ^ j"
    using scaled_pow2 [of "- int j" False 53 10] X
    unfolding double_max j by (subst dle_at [of "- int j"]) (auto simp del: scaled.simps)
  moreover have "- (2 ^ 63) * 2 ^ j \<le> i * 2 ^ j" "i * 2 ^ j \<le> 2 ^ 63 * 2 ^ j"
    using mult_right_mono [OF i(1), of "2 ^ j"] i(2) by simp_all
  ultimately show ?thesis
    unfolding ToInt64_def int64_of_double_def trunc_double_of_int [OF assms] using i by simp
qed

lemma isspace_whitespace: "isspace (of_char c) \<longleftrightarrow> whitespace c"
  by (auto simp: isspace_def whitespace_def)

lemma TrimString_id: "\<forall>c \<in> set s. \<not> whitespace c \<Longrightarrow> TrimString s = s \<and> dropWhile whitespace s = s"
proof -
  assume "\<forall>c \<in> set s. \<not> whitespace c"
  then have "dropWhile whitespace t = t" if "set t \<subseteq> set s" for t
    using that by (cases t) auto
  then show ?thesis by (simp add: TrimString_def)
qed

lemma int_to_string_no_space: "c \<in> set (int_to_string i) \<Longrightarrow> \<not> whitespace c"
  using isdig_dec [of "nat i"] isdig_dec [of "nat (- i)"]
  by (auto simp: int_to_string_def whitespace_def isdig_def split: if_splits)

lemma int_to_string_nonempty [simp]: "int_to_string i \<noteq> []"
  by (simp add: int_to_string_def)

lemma ToJSNumber_int_to_string: "ToJSNumber (int_to_string i) = double_of_int i"
  using TrimString_id [of "int_to_string i"] int_to_string_no_space
    strtod_int_to_string [of isspace i]
  by (simp add: ToJSNumber_def)

section \<open>Properties\<close>

fun no_NaN :: "JSValue \<Rightarrow> bool" where
  "no_NaN (Object ps) \<longleftrightarrow> (\<forall>p \<in> set ps. no_NaN (snd p))"
| "no_NaN (Array vs) \<longleftrightarrow> (\<forall>v \<in> set vs. no_NaN v)"
| "no_NaN (Double x) \<longleftrightarrow> \<not> isnan x"
| "no_NaN _ \<longleftrightarrow> True"

lemma deq_refl: "\<not> isnan x \<Longrightarrow> deq x x"
  by (cases x) (auto simp: isnan_def)

lemma Equals_pointwise:
  "(\<And>p. p \<in> set ps \<Longrightarrow> Equals (snd p) (snd p)) \<Longrightarrow> object_equals ps ps"
  "(\<And>v. v \<in> set vs \<Longrightarrow> Equals v v) \<Longrightarrow> array_equals vs vs"
  by (induction ps, auto) (induction vs, auto)

lemma Equals_refl: "no_NaN v \<Longrightarrow> Equals v v"
  by (induction v) (auto simp: isnan_def deq_refl intro!: Equals_pointwise)

text \<open>
  An integer of at most 53 bits printed as text and read back through the number conversions
  (\<^verbatim>\<open>strtod\<close> and the cast of \<^verbatim>\<open>ToInt64\<close>) is the same integer, and the same double.
\<close>

theorem Int64_text_roundtrip:
  assumes "\<bar>sint i\<bar> < 2 ^ 53"
  shows "AsInt64 (String (AsString (Int64 i))) = Some i \<and>
    AsDouble (String (AsString (Int64 i))) = AsDouble (Int64 i)"
  using ToInt64_double_of_int [OF assms]
  by (simp add: ToJSNumber_int_to_string double_of_int64_def)

theorem Int64_text_roundtrip_witness:
  "\<bar>sint (- 42 :: int64)\<bar> < 2 ^ 53 \<and> AsInt64 (String (AsString (Int64 (- 42)))) = Some (- 42)"
  using Int64_text_roundtrip [of "- 42"] by (simp del: AsInt64.simps AsString.simps AsDouble.simps)

text \<open>
  \<^verbatim>\<open>ToInt64\<close> runs into the undefined cast for exactly one number, two to the 63, which its
  range check lets through because \<^verbatim>\<open>INT64_MAX\<close> is rounded up when it is converted.
\<close>

theorem ToInt64_undefined_at_2_63:
  "AsInt64 (Double x) = None \<longleftrightarrow> deq x (double_of_int (2 ^ 63))"
  by (simp add: ToInt64_None_iff)

text \<open>
  Strict equality of values is symmetric and transitive, reflexive on values without NaN, and
  values that are strictly equal are equal in the sense of JavaScript, which is symmetric too.
\<close>

theorem Equals_equivalence:
  "(no_NaN v \<longrightarrow> Equals v v) \<and> (Equals v w \<longleftrightarrow> Equals w v) \<and> (JSEquals v w \<longleftrightarrow> JSEquals w v) \<and>
   (Equals u v \<longrightarrow> Equals v w \<longrightarrow> Equals u w) \<and> (Equals v w \<longrightarrow> JSEquals v w)"
  using Equals_refl Equals_sym(1) Equals_trans(1) Equals_JSEquals(1) JSEquals_sym(1) by blast

theorem Equals_equivalence_witness:
  "no_NaN (Object [(''a'', Int64 1)]) \<and> Equals (Object [(''a'', Int64 1)]) (Object [(''a'', Int64 1)]) \<and>
   JSEquals (Object [(''a'', Int64 1)]) (Object [(''a'', Int64 1)])"
  using Equals_equivalence [of "Object [(''a'', Int64 1)]" "Object [(''a'', Int64 1)]"] by simp

text \<open>
  an object built from a list of entries is a well-formed map whose value at a key is the
  first one listed; indexing with a new key inserts null there and changes nothing else.
\<close>

theorem object_lookup:
  assumes "smap obj"
  shows "smap (make_object obj ps) \<and>
    object_at_const (make_object [] ps) k = (case map_of ps k of Some v \<Rightarrow> v | None \<Rightarrow> Null) \<and>
    smap (snd (object_at obj k)) \<and>
    map_of (snd (object_at obj k)) =
      (if k \<in> dom (map_of obj) then map_of obj else (map_of obj)(k \<mapsto> Null)) \<and>
    fst (object_at obj k) = object_at_const (snd (object_at obj k)) k"
  using assms wf_js_make_object [OF assms] map_of_make_object [of "[]" ps, OF smap_Nil]
  by (auto simp: object_at_const_def object_at_def map_of_try_emplace split: option.splits)

theorem object_lookup_witness:
  "smap [(''b'', Int64 1)] \<and> map_of (snd (object_at [(''b'', Int64 1)] ''a'')) = [''b'' \<mapsto> Int64 1, ''a'' \<mapsto> Null]"
  using object_lookup [of "[(''b'', Int64 1)]" "[]" "''a''"] by (simp add: smap_def)

text \<open>
  the copy of a well-formed value is that value, and moving out of a value leaves null behind
  with nothing lost; a self-assignment changes nothing.
\<close>

theorem Copy_and_move:
  assumes "wf_js v"
  shows "JSValue_Copy v = v \<and> make_array_default n v = replicate n v \<and>
    move_assign False u v = (v, Null) \<and> move_assign True v v = (v, v) \<and>
    MoveObject v = (AsObject v, if Type v = TypeObject then Null else v) \<and>
    MoveArray v = (AsArray v, if Type v = TypeArray then Null else v)"
proof -
  have "make_array_default n v = replicate n v"
    using assms by (induction n) (simp_all add: Copy_id(1) replicate_append_same)
  then show ?thesis
    using assms by (cases v) (simp_all add: Copy_id move_assign_def move_construct_def AsObject_def AsArray_def)
qed

theorem Copy_and_move_witness:
  "wf_js (Object [(''a'', Array [Null])]) \<and>
   JSValue_Copy (Object [(''a'', Array [Null])]) = Object [(''a'', Array [Null])]"
  using Copy_and_move [of "Object [(''a'', Array [Null])]"] by (simp add: smap_def)

end
