(* ===== verification/JSValueLog.thy ===== *)
theory JSValueLog
  imports JSValue
begin

text \<open>
  \<^verbatim>\<open>JSValueLogWriter\<close> of \<^verbatim>\<open>JSValue.cpp\<close>, which prints a value for logging, and
  \<^verbatim>\<open>JSValue::ToString\<close>. The writer shares one \<^verbatim>\<open>std::ostream\<close>, whose text and whose
  integer base (\<^verbatim>\<open>std::hex\<close> stays in force until it is changed) are state.
\<close>

record LogWriter =
  m_indent :: nat
  m_stream :: string
  hex :: bool

definition new_log_writer :: LogWriter where
  "new_log_writer = \<lparr>m_indent = 0, m_stream = [], hex = False\<rparr>"

definition Log_Write :: "string \<Rightarrow> LogWriter \<Rightarrow> LogWriter" where
  "Log_Write s w = w\<lparr>m_stream := m_stream w @ s\<rparr>"

definition Log_WriteIndent :: "LogWriter \<Rightarrow> LogWriter" where
  "Log_WriteIndent w = Log_Write (concat (replicate (m_indent w) ''  '')) w"

definition Log_WriteLine :: "LogWriter \<Rightarrow> LogWriter" where
  "Log_WriteLine w = Log_WriteIndent (Log_Write [CHR 0x0A] w)"

text \<open>\<^verbatim>\<open>stream << value\<close> for an integer, in the base the stream is in.\<close>

definition Log_WriteInt :: "int64 \<Rightarrow> LogWriter \<Rightarrow> LogWriter" where
  "Log_WriteInt i w = Log_Write (if hex w then to_base 16 (unat i) else int_to_string (sint i)) w"

definition pad4 :: "string \<Rightarrow> string" where
  "pad4 s = replicate (4 - length s) CHR ''0'' @ s"

definition Log_WriteChar :: "char \<Rightarrow> LogWriter \<Rightarrow> LogWriter" where
  "Log_WriteChar ch w =
     (if ch = CHR 0x22 then Log_Write [CHR 0x5C, CHR 0x22] w
      else if ch = CHR 0x5C then Log_Write [CHR 0x5C, CHR 0x5C] w
      else if ch = CHR 0x08 then Log_Write [CHR 0x5C, CHR ''b''] w
      else if ch = CHR 0x0C then Log_Write [CHR 0x5C, CHR ''f''] w
      else if ch = CHR 0x0A then Log_Write [CHR 0x5C, CHR ''n''] w
      else if ch = CHR 0x0D then Log_Write [CHR 0x5C, CHR ''r''] w
      else if ch = CHR 0x09 then Log_Write [CHR 0x5C, CHR ''t''] w
      else if (of_char ch :: nat) \<le> 0x1F
      then Log_Write (pad4 (to_base 16 (of_char ch))) ((Log_Write [CHR 0x5C, CHR ''u''] w)\<lparr>hex := True\<rparr>)
      else Log_Write [ch] w)"

definition Log_WriteQuotedString :: "string \<Rightarrow> LogWriter \<Rightarrow> LogWriter" where
  "Log_WriteQuotedString s w = Log_Write [CHR 0x22] (fold Log_WriteChar s (Log_Write [CHR 0x22] w))"

text \<open>\<^verbatim>\<open>WriteSeparator(bool &start)\<close>: the flag after the call is always false.\<close>

definition Log_WriteSeparator :: "bool \<Rightarrow> LogWriter \<Rightarrow> LogWriter" where
  "Log_WriteSeparator start w = (if start then w else Log_Write '','' w)"

definition indent_in :: "LogWriter \<Rightarrow> LogWriter" where
  "indent_in w = w\<lparr>m_indent := m_indent w + 1\<rparr>"

definition indent_out :: "LogWriter \<Rightarrow> LogWriter" where
  "indent_out w = w\<lparr>m_indent := m_indent w - 1\<rparr>"

fun Log_WriteValue :: "JSValue \<Rightarrow> LogWriter \<Rightarrow> LogWriter"
and Log_WriteProps :: "bool \<Rightarrow> (string \<times> JSValue) list \<Rightarrow> LogWriter \<Rightarrow> LogWriter"
and Log_WriteItems :: "bool \<Rightarrow> JSValue list \<Rightarrow> LogWriter \<Rightarrow> LogWriter" where
  "Log_WriteValue Null w = Log_Write ''null'' w"
| "Log_WriteValue (Object ps) w =
     (if ps = [] then Log_Write ''{}'' w
      else Log_Write ''}'' (Log_WriteLine (indent_out (Log_WriteProps True ps (indent_in (Log_Write ''{'' w))))))"
| "Log_WriteValue (Array vs) w =
     (if vs = [] then Log_Write ''[]'' w
      else Log_Write '']'' (Log_WriteLine (indent_out (Log_WriteItems True vs (indent_in (Log_Write ''['' w))))))"
| "Log_WriteValue (String s) w = Log_WriteQuotedString s w"
| "Log_WriteValue (Boolean b) w = Log_Write (ToCString b) w"
| "Log_WriteValue (Int64 i) w = Log_WriteInt i w"
| "Log_WriteValue (Double x) w = Log_Write (ToJSString x) w"
| "Log_WriteProps start [] w = w"
| "Log_WriteProps start ((k, v) # ps) w =
     Log_WriteProps False ps (Log_WriteValue v (Log_Write '': '' (Log_Write k (Log_WriteLine (Log_WriteSeparator start w)))))"
| "Log_WriteItems start [] w = w"
| "Log_WriteItems start (v # vs) w =
     Log_WriteItems False vs (Log_WriteValue v (Log_WriteLine (Log_WriteSeparator start w)))"

definition LogWriter_ToString :: "JSValue \<Rightarrow> string" where
  "LogWriter_ToString v = m_stream (Log_WriteValue v new_log_writer)"

text \<open>\<^verbatim>\<open>JSValue::ToString\<close>; a Boolean is passed to the conversion from \<^verbatim>\<open>double\<close>.\<close>

fun JSValue_ToString :: "JSValue \<Rightarrow> string" where
  "JSValue_ToString Null = ''null''"
| "JSValue_ToString (Object ps) = LogWriter_ToString (Object ps)"
| "JSValue_ToString (Array vs) = LogWriter_ToString (Array vs)"
| "JSValue_ToString (String s) = LogWriter_ToString (String s)"
| "JSValue_ToString (Boolean b) = ToJSString (if b then double_of_int 1 else dzero)"
| "JSValue_ToString (Int64 i) = int_to_string (sint i)"
| "JSValue_ToString (Double x) = ToJSString x"

section \<open>Properties\<close>

lemma double_one: "double_of_int 1 = Finite False (2 ^ 52) (- 52)"
proof -
  have "nbits (Suc 0) = 1" by (simp add: nbits.simps)
  then show ?thesis
    by (simp add: double_of_int_def to_binary64_def round_fp_def ilog2_def ge_pow2_def round_div_def Let_def)
qed

lemma ToJSString_one: "ToJSString (double_of_int 1) = ''1''"
proof -
  have "ilog10 4503599627370496 4503599627370496 = 0"
    by (simp add: ilog10_def ge_pow10_def)
  then have "g_digits 4503599627370496 4503599627370496 = (10 ^ 5, 0)"
    by (simp add: g_digits_def round_div_def)
  moreover have "digit_char 0 = CHR ''0''" "digit_char 1 = CHR ''1''" by code_simp+
  ultimately show ?thesis unfolding double_one
    by (simp add: ToJSString_def g_layout_def dec_unfold join_dot_def strip_zeros_def)
qed

lemmas log_writer_defs = LogWriter_ToString_def new_log_writer_def Log_Write_def Log_WriteLine_def
  Log_WriteIndent_def Log_WriteSeparator_def Log_WriteInt_def Log_WriteQuotedString_def
  Log_WriteChar_def pad4_def indent_in_def indent_out_def ToCString_def

lemma log_text_of_255: "int_to_string 255 = ''255''" "to_base 16 255 = ''ff''" "to_base 16 (Suc 0) = ''1''"
  "replicate 3 c = [c, c, c]"
  by (code_simp, code_simp, code_simp, simp add: numeral_eq_Suc)

text \<open>
  a string with a control character leaves the stream in hexadecimal, so that the integers
  printed after it in the same log text are hexadecimal; and a Boolean is printed as a
  number at the top and by its name inside of an array.
\<close>

theorem log_writer_base_leak:
  "LogWriter_ToString (Array [Int64 255, String [CHR 0x01], Int64 255]) =
     ''['' @ [CHR 0x0A] @ ''  255,'' @ [CHR 0x0A] @ ''  '' @ [CHR 0x22, CHR 0x5C] @ ''u0001'' @ [CHR 0x22] @ '','' @
     [CHR 0x0A] @ ''  ff'' @ [CHR 0x0A] @ '']'' \<and>
   JSValue_ToString (Boolean True) = ''1'' \<and>
   JSValue_ToString (Array [Boolean True]) = ''['' @ [CHR 0x0A] @ ''  true'' @ [CHR 0x0A] @ '']''"
proof (intro conjI)
  show "JSValue_ToString (Boolean True) = ''1''" by (simp add: ToJSString_one)
qed (simp_all add: log_writer_defs log_text_of_255)

end
