(* ===== verification/JSValueIO.thy ===== *)
theory JSValueIO
  imports JSValue "HOL-Library.Monad_Syntax"
begin

text \<open>
  Reading and writing values through the interfaces \<^verbatim>\<open>IJSValueReader\<close> and
  \<^verbatim>\<open>IJSValueWriter\<close>: \<^verbatim>\<open>ReadFrom\<close> and \<^verbatim>\<open>WriteTo\<close> of \<^verbatim>\<open>JSValue.cpp\<close>, and the two
  implementations over a tree of values, \<^verbatim>\<open>JSValueTreeReader.cpp\<close> and
  \<^verbatim>\<open>JSValueTreeWriter.cpp\<close>. An interface is a record of operations, as its table of
  virtual functions is. A reader may deliver values for ever, so the reading loops take
  fuel. A writer operation that fails a \<^verbatim>\<open>VerifyElseCrash\<close> check is \<^const>\<open>None\<close>.
\<close>

section \<open>Interfaces\<close>

record 'r IJSValueReader =
  ValueType :: "'r \<Rightarrow> JSValueType"
  GetNextObjectProperty :: "'r \<Rightarrow> bool \<times> hstring \<times> 'r"
  GetNextArrayItem :: "'r \<Rightarrow> bool \<times> 'r"
  GetString :: "'r \<Rightarrow> hstring"
  GetBoolean :: "'r \<Rightarrow> bool"
  GetInt64 :: "'r \<Rightarrow> int64"
  GetDouble :: "'r \<Rightarrow> double"

record 'w IJSValueWriter =
  WriteNull :: "'w \<Rightarrow> 'w option"
  WriteBoolean :: "bool \<Rightarrow> 'w \<Rightarrow> 'w option"
  WriteInt64 :: "int64 \<Rightarrow> 'w \<Rightarrow> 'w option"
  WriteDouble :: "double \<Rightarrow> 'w \<Rightarrow> 'w option"
  WriteString :: "hstring \<Rightarrow> 'w \<Rightarrow> 'w option"
  WriteObjectBegin :: "'w \<Rightarrow> 'w option"
  WritePropertyName :: "hstring \<Rightarrow> 'w \<Rightarrow> 'w option"
  WriteObjectEnd :: "'w \<Rightarrow> 'w option"
  WriteArrayBegin :: "'w \<Rightarrow> 'w option"
  WriteArrayEnd :: "'w \<Rightarrow> 'w option"

text \<open>
  The UTF-8 and UTF-16 conversions \<^verbatim>\<open>winrt::to_hstring\<close> and \<^verbatim>\<open>winrt::to_string\<close> belong to
  the C++/WinRT library: they are a parameter. What the code relies on is that text
  which is valid UTF-8 comes back unchanged.
\<close>

record winrt_text =
  to_hstring :: "string \<Rightarrow> hstring"
  to_string :: "hstring \<Rightarrow> string"

definition text_ok :: "winrt_text \<Rightarrow> string \<Rightarrow> bool" where
  "text_ok W s \<longleftrightarrow> to_string W (to_hstring W s) = s"

fun js_text_ok :: "winrt_text \<Rightarrow> JSValue \<Rightarrow> bool" where
  "js_text_ok W (Object ps) \<longleftrightarrow> (\<forall>p \<in> set ps. text_ok W (fst p) \<and> js_text_ok W (snd p))"
| "js_text_ok W (Array vs) \<longleftrightarrow> (\<forall>v \<in> set vs. js_text_ok W v)"
| "js_text_ok W (String s) \<longleftrightarrow> text_ok W s"
| "js_text_ok W _ \<longleftrightarrow> True"

section \<open>ReadFrom and WriteTo\<close>

text \<open>
  The two loops every reading function is made of: \<^verbatim>\<open>while (GetNextObjectProperty)\<close> and
  \<^verbatim>\<open>while (GetNextArrayItem)\<close>, with the function \<open>rv\<close> that reads one value.
\<close>

fun property_loop ::
  "nat \<Rightarrow> 'r IJSValueReader \<Rightarrow> (hstring \<Rightarrow> 'c \<Rightarrow> 'r \<Rightarrow> ('c \<times> 'r) option) \<Rightarrow> 'c \<Rightarrow> 'r \<Rightarrow> ('c \<times> 'r) option" where
  "property_loop 0 I body c r = None"
| "property_loop (Suc n) I body c r =
     (case GetNextObjectProperty I r of
        (True, name, r1) \<Rightarrow>
          (case body name c r1 of Some (c', r2) \<Rightarrow> property_loop n I body c' r2 | None \<Rightarrow> None)
      | (False, _, r1) \<Rightarrow> Some (c, r1))"

fun item_loop ::
  "nat \<Rightarrow> 'r IJSValueReader \<Rightarrow> ('r \<Rightarrow> ('a \<times> 'r) option) \<Rightarrow> 'a list \<Rightarrow> 'r \<Rightarrow> ('a list \<times> 'r) option" where
  "item_loop 0 I rv arr r = None"
| "item_loop (Suc n) I rv arr r =
     (case GetNextArrayItem I r of
        (True, r1) \<Rightarrow> (case rv r1 of Some (v, r2) \<Rightarrow> item_loop n I rv (arr @ [v]) r2 | None \<Rightarrow> None)
      | (False, r1) \<Rightarrow> Some (arr, r1))"

definition emplace_with ::
  "winrt_text \<Rightarrow> ('r \<Rightarrow> ('a \<times> 'r) option) \<Rightarrow> hstring \<Rightarrow> (string \<times> 'a) list \<Rightarrow> 'r \<Rightarrow>
   ((string \<times> 'a) list \<times> 'r) option" where
  "emplace_with W rv name obj r =
     (case rv r of Some (v, r') \<Rightarrow> Some (try_emplace (to_string W name) v obj, r') | None \<Rightarrow> None)"

definition read_object ::
  "nat \<Rightarrow> winrt_text \<Rightarrow> 'r IJSValueReader \<Rightarrow> ('r \<Rightarrow> (JSValue \<times> 'r) option) \<Rightarrow> 'r \<Rightarrow>
   (JSValueObject \<times> 'r) option" where
  "read_object n W I rv r =
     (if ValueType I r = TypeObject then property_loop n I (emplace_with W rv) [] r else Some ([], r))"

definition read_array ::
  "nat \<Rightarrow> 'r IJSValueReader \<Rightarrow> ('r \<Rightarrow> (JSValue \<times> 'r) option) \<Rightarrow> 'r \<Rightarrow> (JSValueArray \<times> 'r) option" where
  "read_array n I rv r =
     (if ValueType I r = TypeArray then item_loop n I rv [] r else Some ([], r))"

primrec ReadFrom :: "nat \<Rightarrow> winrt_text \<Rightarrow> 'r IJSValueReader \<Rightarrow> 'r \<Rightarrow> (JSValue \<times> 'r) option" where
  "ReadFrom 0 W I r = None"
| "ReadFrom (Suc n) W I r =
     (case ValueType I r of
        TypeNull \<Rightarrow> Some (Null, r)
      | TypeObject \<Rightarrow> map_option (apfst Object) (read_object n W I (ReadFrom n W I) r)
      | TypeArray \<Rightarrow> map_option (apfst Array) (read_array n I (ReadFrom n W I) r)
      | TypeString \<Rightarrow> Some (String (to_string W (GetString I r)), r)
      | TypeBoolean \<Rightarrow> Some (Boolean (GetBoolean I r), r)
      | TypeInt64 \<Rightarrow> Some (Int64 (GetInt64 I r), r)
      | TypeDouble \<Rightarrow> Some (Double (GetDouble I r), r))"

definition ReadObjectFrom :: "nat \<Rightarrow> winrt_text \<Rightarrow> 'r IJSValueReader \<Rightarrow> 'r \<Rightarrow> (JSValueObject \<times> 'r) option" where
  "ReadObjectFrom n W I r = read_object n W I (ReadFrom n W I) r"

definition ReadArrayFrom :: "nat \<Rightarrow> winrt_text \<Rightarrow> 'r IJSValueReader \<Rightarrow> 'r \<Rightarrow> (JSValueArray \<times> 'r) option" where
  "ReadArrayFrom n W I r = read_array n I (ReadFrom n W I) r"

text \<open>Fuel that is enough to read a value: one more than its parts need.\<close>

fun js_fuel :: "JSValue \<Rightarrow> nat" where
  "js_fuel (Object ps) = Suc (Suc (length ps + sum_list (map (\<lambda>p. js_fuel (snd p)) ps)))"
| "js_fuel (Array vs) = Suc (Suc (length vs + sum_list (map js_fuel vs)))"
| "js_fuel _ = 1"

fun WriteTo :: "winrt_text \<Rightarrow> 'w IJSValueWriter \<Rightarrow> JSValue \<Rightarrow> 'w \<Rightarrow> 'w option"
and write_properties :: "winrt_text \<Rightarrow> 'w IJSValueWriter \<Rightarrow> JSValueObject \<Rightarrow> 'w \<Rightarrow> 'w option"
and write_items :: "winrt_text \<Rightarrow> 'w IJSValueWriter \<Rightarrow> JSValueArray \<Rightarrow> 'w \<Rightarrow> 'w option" where
  "WriteTo W J Null w = WriteNull J w"
| "WriteTo W J (Object ps) w =
     do { w1 \<leftarrow> WriteObjectBegin J w; w2 \<leftarrow> write_properties W J ps w1; WriteObjectEnd J w2 }"
| "WriteTo W J (Array vs) w =
     do { w1 \<leftarrow> WriteArrayBegin J w; w2 \<leftarrow> write_items W J vs w1; WriteArrayEnd J w2 }"
| "WriteTo W J (String s) w = WriteString J (to_hstring W s) w"
| "WriteTo W J (Boolean b) w = WriteBoolean J b w"
| "WriteTo W J (Int64 i) w = WriteInt64 J i w"
| "WriteTo W J (Double x) w = WriteDouble J x w"
| "write_properties W J [] w = Some w"
| "write_properties W J ((k, v) # ps) w =
     do { w1 \<leftarrow> WritePropertyName J (to_hstring W k) w; w2 \<leftarrow> WriteTo W J v w1;
          write_properties W J ps w2 }"
| "write_items W J [] w = Some w"
| "write_items W J (v # vs) w = do { w1 \<leftarrow> WriteTo W J v w; write_items W J vs w1 }"

section \<open>The reader contract\<close>

text \<open>
  \<open>at r v r'\<close> says that the reader in state \<open>r\<close> stands on the value \<open>v\<close>, and that \<open>r'\<close> is its
  state once the value has been read. The children of a container are delivered one by
  one.
\<close>

fun array_steps ::
  "'r IJSValueReader \<Rightarrow> ('r \<Rightarrow> JSValue \<Rightarrow> 'r \<Rightarrow> bool) \<Rightarrow> 'r \<Rightarrow> JSValue list \<Rightarrow> 'r \<Rightarrow> bool" where
  "array_steps I at r [] r' \<longleftrightarrow> GetNextArrayItem I r = (False, r')"
| "array_steps I at r (v # vs) r' \<longleftrightarrow>
     (\<exists>r1 r2. GetNextArrayItem I r = (True, r1) \<and> at r1 v r2 \<and> array_steps I at r2 vs r')"

fun object_steps ::
  "winrt_text \<Rightarrow> 'r IJSValueReader \<Rightarrow> ('r \<Rightarrow> JSValue \<Rightarrow> 'r \<Rightarrow> bool) \<Rightarrow> 'r \<Rightarrow>
   (string \<times> JSValue) list \<Rightarrow> 'r \<Rightarrow> bool" where
  "object_steps W I at r [] r' \<longleftrightarrow> (\<exists>n. GetNextObjectProperty I r = (False, n, r'))"
| "object_steps W I at r ((k, v) # ps) r' \<longleftrightarrow>
     (\<exists>r1 r2. GetNextObjectProperty I r = (True, to_hstring W k, r1) \<and> at r1 v r2 \<and>
              object_steps W I at r2 ps r')"

locale value_reader =
  fixes W :: winrt_text
    and I :: "'r IJSValueReader"
    and at :: "'r \<Rightarrow> JSValue \<Rightarrow> 'r \<Rightarrow> bool"
  assumes at_type: "at r v r' \<Longrightarrow> ValueType I r = Type v"
    and at_scalar: "at r v r' \<Longrightarrow> Type v \<noteq> TypeObject \<Longrightarrow> Type v \<noteq> TypeArray \<Longrightarrow> r' = r"
    and at_string: "at r (String s) r' \<Longrightarrow> GetString I r = to_hstring W s"
    and at_boolean: "at r (Boolean b) r' \<Longrightarrow> GetBoolean I r = b"
    and at_int64: "at r (Int64 i) r' \<Longrightarrow> GetInt64 I r = i"
    and at_double: "at r (Double x) r' \<Longrightarrow> GetDouble I r = x"
    and at_array: "at r (Array vs) r' \<Longrightarrow> array_steps I at r vs r'"
    and at_object: "at r (Object ps) r' \<Longrightarrow> object_steps W I at r ps r'"
begin

text \<open>The loops over a container whose children are the trees \<open>enc x\<close>.\<close>

lemma item_loop_steps:
  assumes "array_steps I at r (map enc xs) r'" and "length xs < n"
    and "\<And>x r1 r2. x \<in> set xs \<Longrightarrow> at r1 (enc x) r2 \<Longrightarrow> rv r1 = Some (f x, r2)"
  shows "item_loop n I rv arr r = Some (arr @ map f xs, r')"
  using assms
proof (induction xs arbitrary: n arr r)
  case Nil
  then show ?case by (cases n) auto
next
  case (Cons x xs)
  from Cons.prems(1) obtain r1 r2 where next_item: "GetNextArrayItem I r = (True, r1)"
    and x: "at r1 (enc x) r2" and rest: "array_steps I at r2 (map enc xs) r'" by auto
  from Cons.prems(2) obtain m where n: "n = Suc m" "length xs < m" by (cases n) auto
  from Cons.prems(3) x have "rv r1 = Some (f x, r2)" by simp
  moreover have "item_loop m I rv (arr @ [f x]) r2 = Some ((arr @ [f x]) @ map f xs, r')"
    using rest n(2) Cons.prems(3) by (intro Cons.IH) auto
  ultimately show ?case by (simp add: n(1) next_item)
qed

lemma property_loop_steps:
  assumes "object_steps W I at r (map (\<lambda>(k, x). (k, enc x)) ps) r'" and "length ps < n"
    and "\<And>k x c r1 r2. (k, x) \<in> set ps \<Longrightarrow> at r1 (enc x) r2 \<Longrightarrow>
      body (to_hstring W k) c r1 = Some (upd (k, x) c, r2)"
  shows "property_loop n I body c r = Some (fold upd ps c, r')"
  using assms
proof (induction ps arbitrary: n c r)
  case Nil
  then show ?case by (cases n) auto
next
  case (Cons p ps)
  obtain k x where p: "p = (k, x)" by (cases p)
  from Cons.prems(1) p obtain r1 r2 where next_prop: "GetNextObjectProperty I r = (True, to_hstring W k, r1)"
    and x: "at r1 (enc x) r2" and rest: "object_steps W I at r2 (map (\<lambda>(k, x). (k, enc x)) ps) r'" by auto
  from Cons.prems(2) obtain m where n: "n = Suc m" "length ps < m" by (cases n) auto
  from Cons.prems(3) x p have "body (to_hstring W k) c r1 = Some (upd (k, x) c, r2)" by simp
  moreover have "property_loop m I body (upd (k, x) c) r2 = Some (fold upd ps (upd (k, x) c), r')"
    using rest n(2) Cons.prems(3) by (intro Cons.IH) auto
  ultimately show ?case by (simp add: n(1) next_prop p)
qed

lemma ReadFrom_scalar:
  assumes "at r v r'" and "Type v \<noteq> TypeObject" and "Type v \<noteq> TypeArray" and "js_text_ok W v"
  shows "0 < n \<Longrightarrow> ReadFrom n W I r = Some (v, r')"
  using at_type [OF assms(1)] at_scalar [OF assms(1-3)] assms at_string [of r _ r']
    at_boolean [of r _ r'] at_int64 [of r _ r'] at_double [of r _ r']
  by (cases v; cases n) (auto simp: text_ok_def)

theorem ReadFrom_value:
  "at r v r' \<Longrightarrow> wf_js v \<Longrightarrow> js_text_ok W v \<Longrightarrow> js_fuel v \<le> n \<Longrightarrow> ReadFrom n W I r = Some (v, r')"
proof (induction v arbitrary: r r' n)
  case (Object ps)
  from Object.prems(4) obtain m where n: "n = Suc m" and m: "length ps < m"
    "sum_list (map (\<lambda>p. js_fuel (snd p)) ps) \<le> m" by (cases n) auto
  have item: "emplace_with W (ReadFrom m W I) (to_hstring W k) c r1 = Some (try_emplace k v c, r2)"
    if "(k, v) \<in> set ps" "at r1 v r2" for k v c r1 r2
  proof -
    have "js_fuel v \<le> sum_list (map (\<lambda>p. js_fuel (snd p)) ps)"
      using that(1) by (intro member_le_sum_list) force+
    then have "ReadFrom m W I r1 = Some (v, r2)"
      using that Object.prems m(2) by (intro Object.IH [of "(k, v)"]) force+
    then show ?thesis using that(1) Object.prems(3) by (force simp: emplace_with_def text_ok_def)
  qed
  have "property_loop m I (emplace_with W (ReadFrom m W I)) [] r =
      Some (fold (\<lambda>(k, v). try_emplace k v) ps [], r')"
    using at_object [OF Object.prems(1)] m(1) item by (intro property_loop_steps [where enc = id]) auto
  moreover have "fold (\<lambda>(k, v). try_emplace k v) ps [] = ps"
    using Object.prems(2) fold_try_emplace_smap [of "[]" ps] by simp
  ultimately show ?case using at_type [OF Object.prems(1)] by (simp add: n read_object_def)
next
  case (Array vs)
  from Array.prems(4) obtain m where n: "n = Suc m" and m: "length vs < m"
    "sum_list (map js_fuel vs) \<le> m" by (cases n) auto
  have item: "ReadFrom m W I r1 = Some (id v, r2)" if "v \<in> set vs" "at r1 v r2" for v r1 r2
  proof -
    have "js_fuel v \<le> sum_list (map js_fuel vs)" using that(1) by (intro member_le_sum_list) auto
    then show ?thesis using that Array.prems m(2) by (auto intro!: Array.IH)
  qed
  have "item_loop m I (ReadFrom m W I) [] r = Some ([] @ map id vs, r')"
    using at_array [OF Array.prems(1)] m(1) item by (intro item_loop_steps [where enc = id]) auto
  then show ?case using at_type [OF Array.prems(1)] by (simp add: n read_array_def)
qed (auto intro: ReadFrom_scalar)

end

section \<open>JSValueTreeReader\<close>

text \<open>
  A stack entry holds the container and the position of its iterator. The back of the
  stack is the head of the list. \<^verbatim>\<open>m_current\<close> points into the tree; the model holds the
  value it points to.
\<close>

record StackEntry =
  EntryValue :: JSValue
  Position :: nat

record JSValueTreeReader =
  m_root :: JSValue
  m_current :: JSValue
  m_isInContainer :: bool
  m_stack :: "StackEntry list"

definition MakeJSValueTreeReader :: "JSValue \<Rightarrow> JSValueTreeReader" where
  "MakeJSValueTreeReader v = \<lparr>m_root = v, m_current = v, m_isInContainer = False, m_stack = []\<rparr>"

definition SetCurrentValue :: "JSValue \<Rightarrow> JSValueTreeReader \<Rightarrow> JSValueTreeReader" where
  "SetCurrentValue v r = r\<lparr>m_current := v,
     m_isInContainer := (case Type v of TypeObject \<Rightarrow> False | TypeArray \<Rightarrow> False | _ \<Rightarrow> True)\<rparr>"

definition tree_pop :: "JSValueTreeReader \<Rightarrow> StackEntry \<Rightarrow> StackEntry list \<Rightarrow> JSValueTreeReader" where
  "tree_pop r entry stack =
     r\<lparr>m_current := EntryValue entry, m_stack := stack, m_isInContainer := stack \<noteq> []\<rparr>"

definition tree_GetNextObjectProperty ::
  "winrt_text \<Rightarrow> JSValueTreeReader \<Rightarrow> bool \<times> hstring \<times> JSValueTreeReader" where
  "tree_GetNextObjectProperty W r =
     (if \<not> m_isInContainer r then
        (case TryGetObject (m_current r) of
           Some ps \<Rightarrow>
             (case ps of
                (k, v) # _ \<Rightarrow>
                  (True, to_hstring W k,
                   SetCurrentValue v (r\<lparr>m_stack := \<lparr>EntryValue = m_current r, Position = 0\<rparr> # m_stack r\<rparr>))
              | [] \<Rightarrow> (False, to_hstring W [], r\<lparr>m_isInContainer := m_stack r \<noteq> []\<rparr>))
         | None \<Rightarrow> (False, to_hstring W [], r))
      else (case m_stack r of
          entry # stack \<Rightarrow>
            (case TryGetObject (EntryValue entry) of
               Some ps \<Rightarrow>
                 (let i = Suc (Position entry) in
                  if i < length ps
                  then (True, to_hstring W (fst (ps ! i)),
                        SetCurrentValue (snd (ps ! i)) (r\<lparr>m_stack := entry\<lparr>Position := i\<rparr> # stack\<rparr>))
                  else (False, to_hstring W [], tree_pop r entry stack))
             | None \<Rightarrow> (False, to_hstring W [], r))
        | [] \<Rightarrow> (False, to_hstring W [], r)))"

definition tree_GetNextArrayItem :: "JSValueTreeReader \<Rightarrow> bool \<times> JSValueTreeReader" where
  "tree_GetNextArrayItem r =
     (if \<not> m_isInContainer r then
        (case TryGetArray (m_current r) of
           Some vs \<Rightarrow>
             (case vs of
                v # _ \<Rightarrow>
                  (True, SetCurrentValue v
                           (r\<lparr>m_stack := \<lparr>EntryValue = m_current r, Position = 0\<rparr> # m_stack r\<rparr>))
              | [] \<Rightarrow> (False, r\<lparr>m_isInContainer := m_stack r \<noteq> []\<rparr>))
         | None \<Rightarrow> (False, r))
      else (case m_stack r of
          entry # stack \<Rightarrow>
            (case TryGetArray (EntryValue entry) of
               Some vs \<Rightarrow>
                 (let i = Suc (Position entry) in
                  if i < length vs
                  then (True, SetCurrentValue (vs ! i) (r\<lparr>m_stack := entry\<lparr>Position := i\<rparr> # stack\<rparr>))
                  else (False, tree_pop r entry stack))
             | None \<Rightarrow> (False, r))
        | [] \<Rightarrow> (False, r)))"

definition tree_GetString :: "winrt_text \<Rightarrow> JSValueTreeReader \<Rightarrow> hstring" where
  "tree_GetString W r = to_hstring W (case TryGetString (m_current r) of Some s \<Rightarrow> s | None \<Rightarrow> [])"

definition tree_GetBoolean :: "JSValueTreeReader \<Rightarrow> bool" where
  "tree_GetBoolean r = (case TryGetBoolean (m_current r) of Some b \<Rightarrow> b | None \<Rightarrow> False)"

definition tree_GetInt64 :: "JSValueTreeReader \<Rightarrow> int64" where
  "tree_GetInt64 r = (case TryGetInt64 (m_current r) of Some i \<Rightarrow> i | None \<Rightarrow> 0)"

definition tree_GetDouble :: "JSValueTreeReader \<Rightarrow> double" where
  "tree_GetDouble r = (case TryGetDouble (m_current r) of Some x \<Rightarrow> x | None \<Rightarrow> dzero)"

definition TreeReader :: "winrt_text \<Rightarrow> JSValueTreeReader IJSValueReader" where
  "TreeReader W = \<lparr>ValueType = \<lambda>r. Type (m_current r),
     GetNextObjectProperty = tree_GetNextObjectProperty W,
     GetNextArrayItem = tree_GetNextArrayItem,
     GetString = tree_GetString W,
     GetBoolean = tree_GetBoolean,
     GetInt64 = tree_GetInt64,
     GetDouble = tree_GetDouble\<rparr>"

text \<open>Where the tree reader stands, and where it stands after the value has been read.\<close>

definition is_container :: "JSValue \<Rightarrow> bool" where
  "is_container v \<longleftrightarrow> Type v = TypeObject \<or> Type v = TypeArray"

definition tree_done :: "JSValue \<Rightarrow> JSValueTreeReader \<Rightarrow> JSValueTreeReader" where
  "tree_done v r = r\<lparr>m_current := v, m_isInContainer := m_stack r \<noteq> []\<rparr>"

definition tree_at :: "JSValueTreeReader \<Rightarrow> JSValue \<Rightarrow> JSValueTreeReader \<Rightarrow> bool" where
  "tree_at r v r' \<longleftrightarrow> m_current r = v \<and>
     m_isInContainer r = (\<not> is_container v \<and> m_stack r \<noteq> []) \<and> r' = tree_done v r"

lemma SetCurrentValue_stack [simp]: "m_stack (SetCurrentValue v r) = m_stack r"
  by (simp add: SetCurrentValue_def)

lemma tree_done_stack [simp]: "m_stack (tree_done v r) = m_stack r"
  by (simp add: tree_done_def)

lemma SetCurrentValue_at:
  "m_stack r \<noteq> [] \<Longrightarrow> tree_at (SetCurrentValue v r) v (tree_done v r)"
  by (auto simp: tree_at_def SetCurrentValue_def tree_done_def is_container_def split: JSValueType.splits)

lemma TreeReader_simps [simp]:
  "ValueType (TreeReader W) r = Type (m_current r)"
  "GetNextObjectProperty (TreeReader W) = tree_GetNextObjectProperty W"
  "GetNextArrayItem (TreeReader W) = tree_GetNextArrayItem"
  "GetString (TreeReader W) = tree_GetString W"
  "GetBoolean (TreeReader W) = tree_GetBoolean"
  "GetInt64 (TreeReader W) = tree_GetInt64"
  "GetDouble (TreeReader W) = tree_GetDouble"
  by (simp_all add: TreeReader_def)

text \<open>Inside a container, the reader delivers what follows the position of its iterator.\<close>

lemma tree_array_rest:
  assumes "m_isInContainer r" and "m_stack r = \<lparr>EntryValue = Array vs, Position = i\<rparr> # stack"
  shows "array_steps (TreeReader W) tree_at r (drop (Suc i) vs)
    (r\<lparr>m_current := Array vs, m_stack := stack, m_isInContainer := stack \<noteq> []\<rparr>)"
  using assms
proof (induction "length vs - i" arbitrary: i r)
  case 0
  then show ?case by (auto simp: tree_GetNextArrayItem_def tree_pop_def)
next
  case (Suc d)
  show ?case
  proof (cases "Suc i < length vs")
    case False
    with Suc.prems show ?thesis by (auto simp: tree_GetNextArrayItem_def tree_pop_def)
  next
    case True
    let ?r1 = "r\<lparr>m_stack := \<lparr>EntryValue = Array vs, Position = Suc i\<rparr> # stack\<rparr>"
    let ?r2 = "tree_done (vs ! Suc i) ?r1"
    have step: "tree_GetNextArrayItem r = (True, SetCurrentValue (vs ! Suc i) ?r1)"
      using Suc.prems True by (simp add: tree_GetNextArrayItem_def)
    have "array_steps (TreeReader W) tree_at ?r2 (drop (Suc (Suc i)) vs)
        (?r2\<lparr>m_current := Array vs, m_stack := stack, m_isInContainer := stack \<noteq> []\<rparr>)"
      using Suc.hyps(2) True by (intro Suc.hyps(1)) (auto simp: tree_done_def)
    moreover have "?r2\<lparr>m_current := Array vs, m_stack := stack, m_isInContainer := stack \<noteq> []\<rparr> =
        r\<lparr>m_current := Array vs, m_stack := stack, m_isInContainer := stack \<noteq> []\<rparr>"
      by (simp add: tree_done_def)
    ultimately have "array_steps (TreeReader W) tree_at r (vs ! Suc i # drop (Suc (Suc i)) vs)
        (r\<lparr>m_current := Array vs, m_stack := stack, m_isInContainer := stack \<noteq> []\<rparr>)"
      using step SetCurrentValue_at [of ?r1 "vs ! Suc i"] by auto
    then show ?thesis using True by (simp add: Cons_nth_drop_Suc)
  qed
qed

lemma tree_object_rest:
  assumes "m_isInContainer r" and "m_stack r = \<lparr>EntryValue = Object ps, Position = i\<rparr> # stack"
  shows "object_steps W (TreeReader W) tree_at r (drop (Suc i) ps)
    (r\<lparr>m_current := Object ps, m_stack := stack, m_isInContainer := stack \<noteq> []\<rparr>)"
  using assms
proof (induction "length ps - i" arbitrary: i r)
  case 0
  then show ?case by (auto simp: tree_GetNextObjectProperty_def tree_pop_def)
next
  case (Suc d)
  show ?case
  proof (cases "Suc i < length ps")
    case False
    with Suc.prems show ?thesis by (auto simp: tree_GetNextObjectProperty_def tree_pop_def)
  next
    case True
    obtain k v where kv: "ps ! Suc i = (k, v)" by (cases "ps ! Suc i")
    let ?r1 = "r\<lparr>m_stack := \<lparr>EntryValue = Object ps, Position = Suc i\<rparr> # stack\<rparr>"
    let ?r2 = "tree_done v ?r1"
    have step: "tree_GetNextObjectProperty W r = (True, to_hstring W k, SetCurrentValue v ?r1)"
      using Suc.prems True kv by (simp add: tree_GetNextObjectProperty_def)
    have "object_steps W (TreeReader W) tree_at ?r2 (drop (Suc (Suc i)) ps)
        (?r2\<lparr>m_current := Object ps, m_stack := stack, m_isInContainer := stack \<noteq> []\<rparr>)"
      using Suc.hyps(2) True by (intro Suc.hyps(1)) (auto simp: tree_done_def)
    moreover have "?r2\<lparr>m_current := Object ps, m_stack := stack, m_isInContainer := stack \<noteq> []\<rparr> =
        r\<lparr>m_current := Object ps, m_stack := stack, m_isInContainer := stack \<noteq> []\<rparr>"
      by (simp add: tree_done_def)
    ultimately have "object_steps W (TreeReader W) tree_at r ((k, v) # drop (Suc (Suc i)) ps)
        (r\<lparr>m_current := Object ps, m_stack := stack, m_isInContainer := stack \<noteq> []\<rparr>)"
      using step SetCurrentValue_at [of ?r1 v] by auto
    then show ?thesis using True kv by (metis Cons_nth_drop_Suc)
  qed
qed

lemma tree_array_steps:
  assumes "tree_at r (Array vs) r'"
  shows "array_steps (TreeReader W) tree_at r vs r'"
proof (cases vs)
  case Nil
  with assms show ?thesis
    by (auto simp: tree_at_def tree_GetNextArrayItem_def tree_done_def is_container_def)
next
  case (Cons v ws)
  let ?r1 = "r\<lparr>m_stack := \<lparr>EntryValue = Array vs, Position = 0\<rparr> # m_stack r\<rparr>"
  let ?r2 = "tree_done v ?r1"
  have "tree_GetNextArrayItem r = (True, SetCurrentValue v ?r1)"
    using assms Cons by (simp add: tree_at_def tree_GetNextArrayItem_def is_container_def)
  moreover have "array_steps (TreeReader W) tree_at ?r2 (drop (Suc 0) vs) r'"
    using tree_array_rest [of ?r2 vs 0 "m_stack r" W] assms
    by (simp add: tree_done_def tree_at_def)
  ultimately show ?thesis
    using SetCurrentValue_at [of ?r1 v] by (auto simp: Cons)
qed

lemma tree_object_steps:
  assumes "tree_at r (Object ps) r'"
  shows "object_steps W (TreeReader W) tree_at r ps r'"
proof (cases ps)
  case Nil
  with assms show ?thesis
    by (auto simp: tree_at_def tree_GetNextObjectProperty_def tree_done_def is_container_def)
next
  case (Cons p qs)
  obtain k v where p: "p = (k, v)" by (cases p)
  let ?r1 = "r\<lparr>m_stack := \<lparr>EntryValue = Object ps, Position = 0\<rparr> # m_stack r\<rparr>"
  let ?r2 = "tree_done v ?r1"
  have "tree_GetNextObjectProperty W r = (True, to_hstring W k, SetCurrentValue v ?r1)"
    using assms Cons p by (simp add: tree_at_def tree_GetNextObjectProperty_def is_container_def)
  moreover have "object_steps W (TreeReader W) tree_at ?r2 (drop (Suc 0) ps) r'"
    using tree_object_rest [of ?r2 ps 0 "m_stack r" W] assms
    by (simp add: tree_done_def tree_at_def)
  ultimately show ?thesis
    using SetCurrentValue_at [of ?r1 v] by (auto simp: Cons p)
qed

interpretation tree_reader: value_reader W "TreeReader W" tree_at for W
proof unfold_locales
  fix r v r'
  assume "tree_at r v r'" "Type v \<noteq> TypeObject" "Type v \<noteq> TypeArray"
  then show "r' = r" by (auto simp: tree_at_def tree_done_def is_container_def)
qed (auto simp: tree_at_def tree_GetString_def tree_GetBoolean_def tree_GetInt64_def
    tree_GetDouble_def intro: tree_array_steps tree_object_steps)

lemma tree_at_root: "tree_at (MakeJSValueTreeReader v) v (MakeJSValueTreeReader v)"
  by (simp add: tree_at_def MakeJSValueTreeReader_def tree_done_def)

section \<open>The writer contract\<close>

text \<open>
  \<open>put v w\<close> is the state of the writer once the value \<open>v\<close> has been written to it in state \<open>w\<close>;
  \<open>in_obj ps w\<close>, \<open>named k ps w\<close> and \<open>in_arr vs w\<close> are its states inside an object or array that
  was begun in state \<open>w\<close>.
\<close>

locale value_writer =
  fixes W :: winrt_text
    and J :: "'w IJSValueWriter"
    and ready :: "'w \<Rightarrow> bool"
    and put :: "JSValue \<Rightarrow> 'w \<Rightarrow> 'w"
    and in_obj :: "JSValueObject \<Rightarrow> 'w \<Rightarrow> 'w"
    and named :: "string \<Rightarrow> JSValueObject \<Rightarrow> 'w \<Rightarrow> 'w"
    and in_arr :: "JSValueArray \<Rightarrow> 'w \<Rightarrow> 'w"
  assumes put_null: "ready w \<Longrightarrow> WriteNull J w = Some (put Null w)"
    and put_boolean: "ready w \<Longrightarrow> WriteBoolean J b w = Some (put (Boolean b) w)"
    and put_int64: "ready w \<Longrightarrow> WriteInt64 J i w = Some (put (Int64 i) w)"
    and put_double: "ready w \<Longrightarrow> WriteDouble J x w = Some (put (Double x) w)"
    and put_string: "ready w \<Longrightarrow> text_ok W s \<Longrightarrow> WriteString J (to_hstring W s) w = Some (put (String s) w)"
    and obj_begin: "ready w \<Longrightarrow> WriteObjectBegin J w = Some (in_obj [] w)"
    and prop_name: "ready w \<Longrightarrow> text_ok W k \<Longrightarrow>
      WritePropertyName J (to_hstring W k) (in_obj ps w) = Some (named k ps w)"
    and named_ready: "ready w \<Longrightarrow> ready (named k ps w)"
    and put_named: "ready w \<Longrightarrow> put v (named k ps w) = in_obj (try_emplace k v ps) w"
    and obj_end: "ready w \<Longrightarrow> WriteObjectEnd J (in_obj ps w) = Some (put (Object ps) w)"
    and arr_begin: "ready w \<Longrightarrow> WriteArrayBegin J w = Some (in_arr [] w)"
    and arr_ready: "ready w \<Longrightarrow> ready (in_arr vs w)"
    and put_arr: "ready w \<Longrightarrow> put v (in_arr vs w) = in_arr (vs @ [v]) w"
    and arr_end: "ready w \<Longrightarrow> WriteArrayEnd J (in_arr vs w) = Some (put (Array vs) w)"
begin

lemmas writer_laws = put_null put_boolean put_int64 put_double put_string obj_begin prop_name
  named_ready put_named obj_end arr_begin arr_ready put_arr arr_end

lemma write_items_steps:
  assumes "ready w" and "\<And>v w. v \<in> set vs \<Longrightarrow> ready w \<Longrightarrow> WriteTo W J v w = Some (put v w)"
  shows "write_items W J vs (in_arr arr w) = Some (in_arr (arr @ vs) w)"
  using assms(2) by (induction vs arbitrary: arr) (auto simp: assms(1) arr_ready put_arr)

lemma write_properties_steps:
  assumes "ready w" and "\<And>k v w. (k, v) \<in> set ps \<Longrightarrow> ready w \<Longrightarrow> WriteTo W J v w = Some (put v w)"
    and "\<forall>p \<in> set ps. text_ok W (fst p)"
  shows "write_properties W J ps (in_obj obj w) =
    Some (in_obj (fold (\<lambda>(k, v). try_emplace k v) ps obj) w)"
  using assms(2,3)
proof (induction ps arbitrary: obj)
  case (Cons p ps)
  obtain k v where p: "p = (k, v)" by (cases p)
  have "WriteTo W J v (named k obj w) = Some (put v (named k obj w))"
    using p by (intro Cons.prems(1) [of k]) (auto simp: assms(1) named_ready)
  moreover have "write_properties W J ps (in_obj (try_emplace k v obj) w) =
      Some (in_obj (fold (\<lambda>(k, v). try_emplace k v) ps (try_emplace k v obj)) w)"
    using Cons.prems by (intro Cons.IH) auto
  ultimately show ?case using Cons.prems(2) by (simp add: p assms(1) prop_name put_named)
qed simp

theorem WriteTo_value:
  "ready w \<Longrightarrow> wf_js v \<Longrightarrow> js_text_ok W v \<Longrightarrow> WriteTo W J v w = Some (put v w)"
proof (induction v arbitrary: w)
  case (Object ps)
  have "write_properties W J ps (in_obj [] w) = Some (in_obj (fold (\<lambda>(k, v). try_emplace k v) ps []) w)"
  proof (rule write_properties_steps [OF Object.prems(1)])
    fix k v w'
    assume "(k, v) \<in> set ps" and "ready w'"
    then show "WriteTo W J v w' = Some (put v w')"
      using Object.prems by (intro Object.IH [of "(k, v)"]) force+
  next
    show "\<forall>p \<in> set ps. text_ok W (fst p)" using Object.prems(3) by auto
  qed
  moreover have "fold (\<lambda>(k, v). try_emplace k v) ps [] = ps"
    using Object.prems(2) fold_try_emplace_smap [of "[]" ps] by simp
  ultimately show ?case by (simp add: obj_begin obj_end Object.prems(1))
next
  case (Array vs)
  have "write_items W J vs (in_arr [] w) = Some (in_arr ([] @ vs) w)"
    using Array by (intro write_items_steps) auto
  then show ?case by (simp add: arr_begin arr_end Array.prems(1))
qed (auto simp: put_null put_boolean put_int64 put_double put_string)

end

section \<open>JSValueTreeWriter\<close>

datatype ContainerType = ContainerNone | ContainerObject | ContainerArray

record ContainerInfo =
  CType :: ContainerType
  CObject :: JSValueObject
  CArray :: JSValueArray
  CPropertyName :: string

record JSValueTreeWriter =
  m_containerStack :: "ContainerInfo list"
  m_resultValue :: JSValue

definition new_container :: "ContainerType \<Rightarrow> ContainerInfo" where
  "new_container t = \<lparr>CType = t, CObject = [], CArray = [], CPropertyName = []\<rparr>"

definition MakeJSValueTreeWriter :: JSValueTreeWriter where
  "MakeJSValueTreeWriter = \<lparr>m_containerStack = [new_container ContainerNone], m_resultValue = Null\<rparr>"

text \<open>
  The private \<^verbatim>\<open>WriteValue\<close>. The property name is moved into the new entry, which leaves the
  empty string. Taking the top of an empty stack is undefined, which the model makes
  \<^const>\<open>None\<close>; it never happens (\<open>tree_writer_stack\<close> below).
\<close>

definition tree_WriteValue :: "JSValue \<Rightarrow> JSValueTreeWriter \<Rightarrow> JSValueTreeWriter option" where
  "tree_WriteValue v w = (case m_containerStack w of
       [] \<Rightarrow> None
     | c # stack \<Rightarrow> Some (case CType c of
           ContainerNone \<Rightarrow> w\<lparr>m_resultValue := v\<rparr>
         | ContainerObject \<Rightarrow>
             w\<lparr>m_containerStack :=
                c\<lparr>CObject := try_emplace (CPropertyName c) v (CObject c), CPropertyName := []\<rparr> # stack\<rparr>
         | ContainerArray \<Rightarrow>
             w\<lparr>m_containerStack := c\<lparr>CArray := CArray c @ [v]\<rparr> # stack\<rparr>))"

definition tree_WriteBegin :: "ContainerType \<Rightarrow> JSValueTreeWriter \<Rightarrow> JSValueTreeWriter option" where
  "tree_WriteBegin t w = Some (w\<lparr>m_containerStack := new_container t # m_containerStack w\<rparr>)"

definition tree_WritePropertyName :: "winrt_text \<Rightarrow> hstring \<Rightarrow> JSValueTreeWriter \<Rightarrow> JSValueTreeWriter option" where
  "tree_WritePropertyName W name w = (case m_containerStack w of
       [] \<Rightarrow> None
     | c # stack \<Rightarrow>
         if CType c = ContainerObject
         then Some (w\<lparr>m_containerStack := c\<lparr>CPropertyName := to_string W name\<rparr> # stack\<rparr>)
         else None)"

definition tree_WriteObjectEnd :: "JSValueTreeWriter \<Rightarrow> JSValueTreeWriter option" where
  "tree_WriteObjectEnd w = (case m_containerStack w of
       [] \<Rightarrow> None
     | c # stack \<Rightarrow>
         if CType c = ContainerObject
         then tree_WriteValue (Object (CObject c)) (w\<lparr>m_containerStack := stack\<rparr>)
         else None)"

definition tree_WriteArrayEnd :: "JSValueTreeWriter \<Rightarrow> JSValueTreeWriter option" where
  "tree_WriteArrayEnd w = (case m_containerStack w of
       [] \<Rightarrow> None
     | c # stack \<Rightarrow>
         if CType c = ContainerArray
         then tree_WriteValue (Array (CArray c)) (w\<lparr>m_containerStack := stack\<rparr>)
         else None)"

definition TreeWriter :: "winrt_text \<Rightarrow> JSValueTreeWriter IJSValueWriter" where
  "TreeWriter W = \<lparr>WriteNull = tree_WriteValue Null,
     WriteBoolean = \<lambda>b. tree_WriteValue (Boolean b),
     WriteInt64 = \<lambda>i. tree_WriteValue (Int64 i),
     WriteDouble = \<lambda>x. tree_WriteValue (Double x),
     WriteString = \<lambda>s. tree_WriteValue (String (to_string W s)),
     WriteObjectBegin = tree_WriteBegin ContainerObject,
     WritePropertyName = tree_WritePropertyName W,
     WriteObjectEnd = tree_WriteObjectEnd,
     WriteArrayBegin = tree_WriteBegin ContainerArray,
     WriteArrayEnd = tree_WriteArrayEnd\<rparr>"

text \<open>\<^verbatim>\<open>TakeValue\<close> moves the result out; the writer keeps \<open>Null\<close>.\<close>

definition TakeJSValue :: "JSValueTreeWriter \<Rightarrow> JSValue \<times> JSValueTreeWriter" where
  "TakeJSValue w = (case move_construct (m_resultValue w) of (v, rest) \<Rightarrow> (v, w\<lparr>m_resultValue := rest\<rparr>))"

definition tree_ready :: "JSValueTreeWriter \<Rightarrow> bool" where
  "tree_ready w \<longleftrightarrow> m_containerStack w \<noteq> []"

definition tree_put :: "JSValue \<Rightarrow> JSValueTreeWriter \<Rightarrow> JSValueTreeWriter" where
  "tree_put v w = (case tree_WriteValue v w of Some w' \<Rightarrow> w' | None \<Rightarrow> w)"

definition tree_in_obj :: "string \<Rightarrow> JSValueObject \<Rightarrow> JSValueTreeWriter \<Rightarrow> JSValueTreeWriter" where
  "tree_in_obj k ps w = w\<lparr>m_containerStack :=
     (new_container ContainerObject)\<lparr>CObject := ps, CPropertyName := k\<rparr> # m_containerStack w\<rparr>"

definition tree_in_arr :: "JSValueArray \<Rightarrow> JSValueTreeWriter \<Rightarrow> JSValueTreeWriter" where
  "tree_in_arr vs w = w\<lparr>m_containerStack :=
     (new_container ContainerArray)\<lparr>CArray := vs\<rparr> # m_containerStack w\<rparr>"

lemmas tree_writer_defs = TreeWriter_def tree_ready_def tree_put_def tree_in_obj_def tree_in_arr_def
  tree_WriteValue_def tree_WriteBegin_def tree_WritePropertyName_def tree_WriteObjectEnd_def
  tree_WriteArrayEnd_def new_container_def

lemma tree_put_value: "tree_ready w \<Longrightarrow> tree_WriteValue v w = Some (tree_put v w)"
  by (auto simp: tree_writer_defs split: list.splits)

interpretation tree_writer: value_writer W "TreeWriter W" tree_ready tree_put "tree_in_obj []"
    tree_in_obj tree_in_arr for W
proof unfold_locales
  fix w ps
  assume "tree_ready w"
  then show "WriteObjectEnd (TreeWriter W) (tree_in_obj [] ps w) = Some (tree_put (Object ps) w)"
    by (simp add: TreeWriter_def tree_WriteObjectEnd_def tree_in_obj_def new_container_def tree_put_value)
next
  fix w vs
  assume "tree_ready w"
  then show "WriteArrayEnd (TreeWriter W) (tree_in_arr vs w) = Some (tree_put (Array vs) w)"
    by (simp add: TreeWriter_def tree_WriteArrayEnd_def tree_in_arr_def new_container_def tree_put_value)
next
  fix w s
  assume "tree_ready w" and "text_ok W s"
  then show "WriteString (TreeWriter W) (to_hstring W s) w = Some (tree_put (String s) w)"
    by (simp add: TreeWriter_def tree_put_value text_ok_def)
qed (auto simp: TreeWriter_def tree_put_value text_ok_def,
     auto simp: tree_writer_defs text_ok_def split: list.splits)

text \<open>
  The stack of the tree writer: the result slot stays at the bottom, everything above it
  is an open object or array.
\<close>

definition tree_writer_inv :: "JSValueTreeWriter \<Rightarrow> bool" where
  "tree_writer_inv w \<longleftrightarrow> (\<exists>opened result. m_containerStack w = opened @ [result] \<and>
     CType result = ContainerNone \<and> (\<forall>d \<in> set opened. CType d \<noteq> ContainerNone))"

inductive tree_writer_step :: "winrt_text \<Rightarrow> JSValueTreeWriter \<Rightarrow> JSValueTreeWriter \<Rightarrow> bool"
  for W :: winrt_text where
  null: "WriteNull (TreeWriter W) w = Some w' \<Longrightarrow> tree_writer_step W w w'"
| boolean: "WriteBoolean (TreeWriter W) b w = Some w' \<Longrightarrow> tree_writer_step W w w'"
| int64: "WriteInt64 (TreeWriter W) i w = Some w' \<Longrightarrow> tree_writer_step W w w'"
| double: "WriteDouble (TreeWriter W) x w = Some w' \<Longrightarrow> tree_writer_step W w w'"
| string: "WriteString (TreeWriter W) s w = Some w' \<Longrightarrow> tree_writer_step W w w'"
| obj_begin: "WriteObjectBegin (TreeWriter W) w = Some w' \<Longrightarrow> tree_writer_step W w w'"
| prop_name: "WritePropertyName (TreeWriter W) s w = Some w' \<Longrightarrow> tree_writer_step W w w'"
| obj_end: "WriteObjectEnd (TreeWriter W) w = Some w' \<Longrightarrow> tree_writer_step W w w'"
| arr_begin: "WriteArrayBegin (TreeWriter W) w = Some w' \<Longrightarrow> tree_writer_step W w w'"
| arr_end: "WriteArrayEnd (TreeWriter W) w = Some w' \<Longrightarrow> tree_writer_step W w w'"
| take: "snd (TakeJSValue w) = w' \<Longrightarrow> tree_writer_step W w w'"

lemma tree_writer_inv_Cons:
  "m_containerStack w = c # stack \<Longrightarrow> tree_writer_inv w \<longleftrightarrow>
     (if CType c = ContainerNone then stack = []
      else tree_writer_inv (w\<lparr>m_containerStack := stack\<rparr>))"
  by (auto simp: tree_writer_inv_def Cons_eq_append_conv)

lemma tree_writer_inv_ready: "tree_writer_inv w \<Longrightarrow> m_containerStack w \<noteq> []"
  by (auto simp: tree_writer_inv_def)

lemma tree_WriteValue_inv:
  assumes "tree_writer_inv w" and "tree_WriteValue v w = Some w'"
  shows "tree_writer_inv w'"
proof -
  obtain c stack where s: "m_containerStack w = c # stack"
    using tree_writer_inv_ready [OF assms(1)] by (cases "m_containerStack w") auto
  show ?thesis
    using assms s tree_writer_inv_Cons [OF s] tree_writer_inv_Cons [of w' _ stack]
    by (auto simp: tree_WriteValue_def split: ContainerType.splits)
qed

lemma tree_writer_pop_inv:
  assumes "tree_writer_inv w" and "m_containerStack w = c # stack" and "CType c \<noteq> ContainerNone"
    and "tree_WriteValue v (w\<lparr>m_containerStack := stack\<rparr>) = Some w'"
  shows "tree_writer_inv w'"
  using assms(1,3,4) tree_writer_inv_Cons [OF assms(2)] by (auto intro: tree_WriteValue_inv)

lemma tree_writer_step_inv:
  assumes "tree_writer_step W w w'" and "tree_writer_inv w"
  shows "tree_writer_inv w'"
  using assms
proof cases
  case (prop_name s)
  with assms(2) show ?thesis
    by (auto simp: TreeWriter_def tree_WritePropertyName_def tree_writer_inv_Cons split: list.splits if_splits)
next
  case obj_begin
  with assms(2) show ?thesis
    by (auto simp: TreeWriter_def tree_WriteBegin_def new_container_def tree_writer_inv_Cons)
next
  case arr_begin
  with assms(2) show ?thesis
    by (auto simp: TreeWriter_def tree_WriteBegin_def new_container_def tree_writer_inv_Cons)
next
  case obj_end
  with assms(2) show ?thesis
    by (auto simp: TreeWriter_def tree_WriteObjectEnd_def split: list.splits if_splits intro: tree_writer_pop_inv)
next
  case arr_end
  with assms(2) show ?thesis
    by (auto simp: TreeWriter_def tree_WriteArrayEnd_def split: list.splits if_splits intro: tree_writer_pop_inv)
next
  case take
  with assms(2) show ?thesis
    by (auto simp: TakeJSValue_def move_construct_def tree_writer_inv_def)
qed (use assms(2) in \<open>auto simp: TreeWriter_def intro: tree_WriteValue_inv\<close>)

section \<open>Round trips through the tree\<close>

definition ascii_text :: winrt_text where
  "ascii_text = \<lparr>to_hstring = map (\<lambda>c. word_of_nat (of_char c)), to_string = map (\<lambda>c. char_of (unat c))\<rparr>"

lemma ascii_text_ok [simp]: "text_ok ascii_text s"
proof -
  have "unat (word_of_nat (of_char c) :: wchar) = of_char c" for c :: char
    using nat_of_char_less_256 [of c] by (simp add: unat_of_nat del: nat_of_char_less_256)
  then show ?thesis by (simp add: text_ok_def ascii_text_def o_def)
qed

lemma ReadFrom_TreeReader:
  "wf_js v \<Longrightarrow> js_text_ok W v \<Longrightarrow> js_fuel v \<le> n \<Longrightarrow>
   ReadFrom n W (TreeReader W) (MakeJSValueTreeReader v) = Some (v, MakeJSValueTreeReader v)"
  by (rule tree_reader.ReadFrom_value [OF tree_at_root])

lemma WriteTo_TreeWriter:
  assumes "wf_js v" and "js_text_ok W v"
  shows "WriteTo W (TreeWriter W) v MakeJSValueTreeWriter =
    Some (MakeJSValueTreeWriter\<lparr>m_resultValue := v\<rparr>)"
proof -
  have "tree_ready MakeJSValueTreeWriter" by (simp add: tree_ready_def MakeJSValueTreeWriter_def)
  from tree_writer.WriteTo_value [OF this assms] show ?thesis
    by (simp add: tree_put_def tree_WriteValue_def MakeJSValueTreeWriter_def new_container_def)
qed

section \<open>Properties\<close>

text \<open>
  C1: a well-formed value written with \<^verbatim>\<open>WriteTo\<close> to a tree writer and taken from it is the same
  value, and \<^verbatim>\<open>ReadFrom\<close> on a tree reader over it ends with the same value, for every text
  conversion that keeps the strings of the value.
\<close>

theorem tree_value_roundtrip:
  assumes "wf_js v" and "js_text_ok W v" and "js_fuel v \<le> n"
  shows "\<exists>t. WriteTo W (TreeWriter W) v MakeJSValueTreeWriter = Some t \<and> fst (TakeJSValue t) = v \<and>
    map_option fst (ReadFrom n W (TreeReader W) (MakeJSValueTreeReader v)) = Some v"
  using WriteTo_TreeWriter [OF assms(1,2)] ReadFrom_TreeReader [OF assms]
  by (simp add: TakeJSValue_def move_construct_def)

theorem tree_value_roundtrip_witness:
  "\<exists>t. WriteTo ascii_text (TreeWriter ascii_text) (Object [(''a'', Array [Null, Boolean True])])
      MakeJSValueTreeWriter = Some t \<and> fst (TakeJSValue t) = Object [(''a'', Array [Null, Boolean True])]"
  using tree_value_roundtrip [of "Object [(''a'', Array [Null, Boolean True])]" ascii_text 20]
  by (simp add: smap_def del: WriteTo.simps) blast

text \<open>
  In every state a tree writer can reach by the calls that succeed, its result slot is at the
  bottom of the stack and open containers are above it; so no call ever takes the top of an
  empty stack, and a value can always be written.
\<close>

theorem tree_writer_never_empty:
  assumes "(tree_writer_step W)\<^sup>*\<^sup>* MakeJSValueTreeWriter w"
  shows "tree_writer_inv w \<and> (\<exists>w'. WriteNull (TreeWriter W) w = Some w')"
proof -
  from assms have "tree_writer_inv w"
  proof induction
    case base
    show ?case by (auto simp: tree_writer_inv_def MakeJSValueTreeWriter_def new_container_def)
  qed (rule tree_writer_step_inv)
  then show ?thesis
    using tree_writer_inv_ready [of w] tree_writer.put_null [of w W] by (auto simp: tree_ready_def)
qed

theorem tree_writer_never_empty_witness:
  "tree_writer_inv (MakeJSValueTreeWriter\<lparr>m_containerStack :=
     [new_container ContainerArray, new_container ContainerNone]\<rparr>)"
proof -
  have "tree_writer_step ascii_text MakeJSValueTreeWriter
      (MakeJSValueTreeWriter\<lparr>m_containerStack := [new_container ContainerArray, new_container ContainerNone]\<rparr>)"
    by (rule tree_writer_step.arr_begin) (simp add: TreeWriter_def tree_WriteBegin_def MakeJSValueTreeWriter_def)
  then show ?thesis using tree_writer_never_empty [OF r_into_rtranclp] by blast
qed

end
