(* ===== verification/JSValueCodec.thy ===== *)
theory JSValueCodec
  imports JSValueIO
begin

text \<open>
  The typed reading and writing functions of the native module API:
  \<^verbatim>\<open>JSValueReader.h\<close>, \<^verbatim>\<open>JSValueWriter.h\<close> and the field maps of \<^verbatim>\<open>StructInfo.h\<close>. An
  overload \<^verbatim>\<open>ReadValue(reader, T &value)\<close> is a function from the reader's state to the value
  and the new state; \<^const>\<open>None\<close> is undefined behaviour of a cast, a loop that has run out of
  fuel or a crash. Template parameters are function arguments.
\<close>

section \<open>Reading scalars\<close>

definition wide :: "string \<Rightarrow> hstring" where
  "wide s = map (\<lambda>c. word_of_nat (of_char c)) s"

text \<open>\<^verbatim>\<open>std::to_string(double)\<close> without trailing zeros and points.\<close>

definition strip_dots :: "string \<Rightarrow> string" where
  "strip_dots s = rev (dropWhile (\<lambda>c. c = CHR ''.'') (rev s))"

definition double_text :: "double \<Rightarrow> string" where
  "double_text x = strip_dots (strip_zeros (fmt_f x))"

definition read_string :: "winrt_text \<Rightarrow> 'r IJSValueReader \<Rightarrow> 'r \<Rightarrow> string" where
  "read_string W I r = (case ValueType I r of
       TypeString \<Rightarrow> to_string W (GetString I r)
     | TypeBoolean \<Rightarrow> (if GetBoolean I r then ''true'' else ''false'')
     | TypeInt64 \<Rightarrow> int_to_string (sint (GetInt64 I r))
     | TypeDouble \<Rightarrow> double_text (GetDouble I r)
     | _ \<Rightarrow> [])"

definition read_wstring :: "'r IJSValueReader \<Rightarrow> 'r \<Rightarrow> hstring" where
  "read_wstring I r = (case ValueType I r of
       TypeString \<Rightarrow> GetString I r
     | TypeBoolean \<Rightarrow> wide (if GetBoolean I r then ''true'' else ''false'')
     | TypeInt64 \<Rightarrow> wide (int_to_string (sint (GetInt64 I r)))
     | TypeDouble \<Rightarrow> wide (double_text (GetDouble I r))
     | _ \<Rightarrow> [])"

definition read_hstring :: "'r IJSValueReader \<Rightarrow> 'r \<Rightarrow> hstring" where
  "read_hstring I r = (case ValueType I r of
       TypeString \<Rightarrow> GetString I r
     | TypeBoolean \<Rightarrow> wide (if GetBoolean I r then ''true'' else ''false'')
     | TypeInt64 \<Rightarrow> wide (int_to_string (sint (GetInt64 I r)))
     | TypeDouble \<Rightarrow> wide (double_text (GetDouble I r))
     | _ \<Rightarrow> [])"

definition read_bool :: "winrt_text \<Rightarrow> 'r IJSValueReader \<Rightarrow> 'r \<Rightarrow> bool" where
  "read_bool W I r = (case ValueType I r of
       TypeString \<Rightarrow> to_string W (GetString I r) \<noteq> []
     | TypeBoolean \<Rightarrow> GetBoolean I r
     | TypeInt64 \<Rightarrow> GetInt64 I r \<noteq> 0
     | TypeDouble \<Rightarrow> \<not> deq (GetDouble I r) dzero
     | _ \<Rightarrow> False)"

definition read_int64 :: "'r IJSValueReader \<Rightarrow> 'r \<Rightarrow> int64 option" where
  "read_int64 I r = (case ValueType I r of
       TypeString \<Rightarrow> (case strtoi64 iswspace (wcodes (GetString I r)) of (i, rest) \<Rightarrow>
         Some (if rest = [] then i else 0))
     | TypeBoolean \<Rightarrow> Some (if GetBoolean I r then 1 else 0)
     | TypeInt64 \<Rightarrow> Some (GetInt64 I r)
     | TypeDouble \<Rightarrow> int64_of_double (GetDouble I r)
     | _ \<Rightarrow> Some 0)"

definition read_int8 :: "'r IJSValueReader \<Rightarrow> 'r \<Rightarrow> int8 option" where
  "read_int8 I r = map_option ucast (read_int64 I r)"

definition read_int16 :: "'r IJSValueReader \<Rightarrow> 'r \<Rightarrow> int16 option" where
  "read_int16 I r = map_option ucast (read_int64 I r)"

definition read_int32 :: "'r IJSValueReader \<Rightarrow> 'r \<Rightarrow> int32 option" where
  "read_int32 I r = map_option ucast (read_int64 I r)"

definition read_uint8 :: "'r IJSValueReader \<Rightarrow> 'r \<Rightarrow> 8 word option" where
  "read_uint8 I r = map_option ucast (read_int64 I r)"

definition read_uint16 :: "'r IJSValueReader \<Rightarrow> 'r \<Rightarrow> 16 word option" where
  "read_uint16 I r = map_option ucast (read_int64 I r)"

definition read_uint32 :: "'r IJSValueReader \<Rightarrow> 'r \<Rightarrow> 32 word option" where
  "read_uint32 I r = map_option ucast (read_int64 I r)"

definition read_uint64 :: "'r IJSValueReader \<Rightarrow> 'r \<Rightarrow> 64 word option" where
  "read_uint64 I r = read_int64 I r"

definition read_double :: "'r IJSValueReader \<Rightarrow> 'r \<Rightarrow> double" where
  "read_double I r = (case ValueType I r of
       TypeString \<Rightarrow> (case strtod iswspace (wcodes (GetString I r)) of (x, rest) \<Rightarrow>
         if rest = [] then x else dzero)
     | TypeBoolean \<Rightarrow> (if GetBoolean I r then double_of_int 1 else dzero)
     | TypeInt64 \<Rightarrow> double_of_int64 (GetInt64 I r)
     | TypeDouble \<Rightarrow> GetDouble I r
     | _ \<Rightarrow> dzero)"

definition read_float :: "'r IJSValueReader \<Rightarrow> 'r \<Rightarrow> double" where
  "read_float I r = float_of_double (read_double I r)"

text \<open>An enumeration is read as \<^verbatim>\<open>int32_t\<close> and cast; its underlying value is the model.\<close>

definition read_enum :: "'r IJSValueReader \<Rightarrow> 'r \<Rightarrow> int32 option" where
  "read_enum I r = read_int32 I r"

text \<open>A scalar is read without moving the reader.\<close>

definition total_read :: "('r \<Rightarrow> 'a) \<Rightarrow> 'r \<Rightarrow> ('a \<times> 'r) option" where
  "total_read f r = Some (f r, r)"

definition partial_read :: "('r \<Rightarrow> 'a option) \<Rightarrow> 'r \<Rightarrow> ('a \<times> 'r) option" where
  "partial_read f r = map_option (\<lambda>a. (a, r)) (f r)"

section \<open>Reading containers\<close>

definition read_optional ::
  "'r IJSValueReader \<Rightarrow> ('r \<Rightarrow> ('a \<times> 'r) option) \<Rightarrow> 'r \<Rightarrow> ('a option \<times> 'r) option" where
  "read_optional I rv r =
     (if ValueType I r \<noteq> TypeNull then map_option (apfst Some) (rv r) else Some (None, r))"

definition read_map ::
  "nat \<Rightarrow> winrt_text \<Rightarrow> 'r IJSValueReader \<Rightarrow> ('r \<Rightarrow> ('a \<times> 'r) option) \<Rightarrow> (string \<times> 'a) list \<Rightarrow> 'r \<Rightarrow>
   ((string \<times> 'a) list \<times> 'r) option" where
  "read_map n W I rv value r =
     (if ValueType I r = TypeObject then property_loop n I (emplace_with W rv) value r
      else Some (value, r))"

definition read_wmap ::
  "nat \<Rightarrow> 'r IJSValueReader \<Rightarrow> ('r \<Rightarrow> ('a \<times> 'r) option) \<Rightarrow> (hstring \<times> 'a) list \<Rightarrow> 'r \<Rightarrow>
   ((hstring \<times> 'a) list \<times> 'r) option" where
  "read_wmap n I rv value r =
     (if ValueType I r = TypeObject
      then property_loop n I (\<lambda>name c r1. map_option (\<lambda>(v, r2). (try_emplace name v c, r2)) (rv r1)) value r
      else Some (value, r))"

definition read_vector ::
  "nat \<Rightarrow> 'r IJSValueReader \<Rightarrow> ('r \<Rightarrow> ('a \<times> 'r) option) \<Rightarrow> 'a list \<Rightarrow> 'r \<Rightarrow> ('a list \<times> 'r) option" where
  "read_vector n I rv value r =
     (if ValueType I r = TypeArray then item_loop n I rv value r else Some (value, r))"

text \<open>\<^verbatim>\<open>SkipValue<JSValue>\<close> and \<^verbatim>\<open>SkipArrayToEnd\<close>.\<close>

definition SkipValue :: "nat \<Rightarrow> winrt_text \<Rightarrow> 'r IJSValueReader \<Rightarrow> 'r \<Rightarrow> 'r option" where
  "SkipValue n W I r = map_option snd (ReadFrom n W I r)"

definition SkipArrayToEnd :: "nat \<Rightarrow> winrt_text \<Rightarrow> 'r IJSValueReader \<Rightarrow> 'r \<Rightarrow> (bool \<times> 'r) option" where
  "SkipArrayToEnd n W I r = map_option (\<lambda>(_, r'). (True, r')) (item_loop n I (ReadFrom n W I) [] r)"

text \<open>
  \<^verbatim>\<open>ReadArgs\<close>: each argument has a reading function and a default value. Arguments of
  different types are given in a common type \<open>'a\<close>.
\<close>

fun read_args_loop ::
  "'r IJSValueReader \<Rightarrow> (('r \<Rightarrow> ('a \<times> 'r) option) \<times> 'a) list \<Rightarrow> bool \<Rightarrow> 'r \<Rightarrow> ('a list \<times> bool \<times> 'r) option" where
  "read_args_loop I [] success r = Some ([], success, r)"
| "read_args_loop I ((rv, dflt) # args) success r =
     (case (if success then GetNextArrayItem I r else (False, r)) of (success', r1) \<Rightarrow>
        do { (a, r2) \<leftarrow> (if success' then rv r1 else Some (dflt, r1));
             (as, s, r3) \<leftarrow> read_args_loop I args success' r2;
             Some (a # as, s, r3) })"

definition ReadArgs ::
  "nat \<Rightarrow> winrt_text \<Rightarrow> 'r IJSValueReader \<Rightarrow> (('r \<Rightarrow> ('a \<times> 'r) option) \<times> 'a) list \<Rightarrow> 'r \<Rightarrow>
   ('a list \<times> 'r) option" where
  "ReadArgs n W I args r =
     do { (as, success, r1) \<leftarrow> read_args_loop I args (ValueType I r = TypeArray) r;
          if success then map_option (\<lambda>(_, r2). (as, r2)) (SkipArrayToEnd n W I r1) else Some (as, r1) }"

text \<open>A tuple is read as arguments.\<close>

definition read_tuple ::
  "nat \<Rightarrow> winrt_text \<Rightarrow> 'r IJSValueReader \<Rightarrow> (('r \<Rightarrow> ('a \<times> 'r) option) \<times> 'a) list \<Rightarrow> 'r \<Rightarrow>
   ('a list \<times> 'r) option" where
  "read_tuple n W I args r = ReadArgs n W I args r"

section \<open>Structures\<close>

text \<open>
  \<^verbatim>\<open>FieldInfo\<close>: how a field of a structure \<open>'s\<close> is read into it and written from it. The map
  of the fields is ordered by name, and a second registration of a name is ignored.
\<close>

record ('s, 'r, 'w) FieldInfo =
  ReadField :: "'r \<Rightarrow> 's \<Rightarrow> ('s \<times> 'r) option"
  WriteField :: "'w \<Rightarrow> 's \<Rightarrow> 'w option"

type_synonym ('s, 'r, 'w) FieldMap = "(hstring \<times> ('s, 'r, 'w) FieldInfo) list"

definition FieldReader ::
  "('a \<Rightarrow> 'r \<Rightarrow> ('a \<times> 'r) option) \<Rightarrow> ('s \<Rightarrow> 'a) \<Rightarrow> ('a \<Rightarrow> 's \<Rightarrow> 's) \<Rightarrow> 'r \<Rightarrow> 's \<Rightarrow> ('s \<times> 'r) option" where
  "FieldReader rv get_field set_field r obj =
     map_option (\<lambda>(a, r'). (set_field a obj, r')) (rv (get_field obj) r)"

definition FieldWriter :: "('a \<Rightarrow> 'w \<Rightarrow> 'w option) \<Rightarrow> ('s \<Rightarrow> 'a) \<Rightarrow> 'w \<Rightarrow> 's \<Rightarrow> 'w option" where
  "FieldWriter wv get_field w obj = wv (get_field obj) w"

fun CollectStructFields ::
  "(hstring \<times> ('s, 'r, 'w) FieldInfo) list \<Rightarrow> ('s, 'r, 'w) FieldMap \<Rightarrow> ('s, 'r, 'w) FieldMap" where
  "CollectStructFields [] fm = fm"
| "CollectStructFields ((name, info) # regs) fm = CollectStructFields regs (try_emplace name info fm)"

definition struct_property ::
  "nat \<Rightarrow> winrt_text \<Rightarrow> 'r IJSValueReader \<Rightarrow> ('s, 'r, 'w) FieldMap \<Rightarrow> hstring \<Rightarrow> 's \<Rightarrow> 'r \<Rightarrow> ('s \<times> 'r) option" where
  "struct_property n W I fm name obj r = (case map_of fm name of
       Some info \<Rightarrow> ReadField info r obj
     | None \<Rightarrow> map_option (\<lambda>r'. (obj, r')) (SkipValue n W I r))"

definition read_struct ::
  "nat \<Rightarrow> winrt_text \<Rightarrow> 'r IJSValueReader \<Rightarrow> ('s, 'r, 'w) FieldMap \<Rightarrow> 's \<Rightarrow> 'r \<Rightarrow> ('s \<times> 'r) option" where
  "read_struct n W I fm obj r =
     (if ValueType I r = TypeObject then property_loop n I (struct_property n W I fm) obj r
      else Some (obj, r))"

definition ReadProp ::
  "('s, 'r, 'w) FieldMap \<Rightarrow> hstring \<Rightarrow> 'r \<Rightarrow> 's \<Rightarrow> (bool \<times> 's \<times> 'r) option" where
  "ReadProp fm name r obj = (case map_of fm name of
       Some info \<Rightarrow> map_option (\<lambda>(s, r'). (True, s, r')) (ReadField info r obj)
     | None \<Rightarrow> Some (False, obj, r))"

section \<open>Writing\<close>

definition write_null :: "'w IJSValueWriter \<Rightarrow> 'w \<Rightarrow> 'w option" where
  "write_null J w = WriteNull J w"

definition write_string :: "winrt_text \<Rightarrow> 'w IJSValueWriter \<Rightarrow> string \<Rightarrow> 'w \<Rightarrow> 'w option" where
  "write_string W J s w = WriteString J (to_hstring W s) w"

definition write_wstring :: "'w IJSValueWriter \<Rightarrow> hstring \<Rightarrow> 'w \<Rightarrow> 'w option" where
  "write_wstring J s w = WriteString J s w"

definition write_bool :: "'w IJSValueWriter \<Rightarrow> bool \<Rightarrow> 'w \<Rightarrow> 'w option" where
  "write_bool J b w = WriteBoolean J b w"

text \<open>Signed integers are sign-extended, unsigned ones zero-extended, 64-bit ones reinterpreted.\<close>

definition write_int8 :: "'w IJSValueWriter \<Rightarrow> int8 \<Rightarrow> 'w \<Rightarrow> 'w option" where
  "write_int8 J i w = WriteInt64 J (scast i) w"

definition write_int16 :: "'w IJSValueWriter \<Rightarrow> int16 \<Rightarrow> 'w \<Rightarrow> 'w option" where
  "write_int16 J i w = WriteInt64 J (scast i) w"

definition write_int32 :: "'w IJSValueWriter \<Rightarrow> int32 \<Rightarrow> 'w \<Rightarrow> 'w option" where
  "write_int32 J i w = WriteInt64 J (scast i) w"

definition write_int64 :: "'w IJSValueWriter \<Rightarrow> int64 \<Rightarrow> 'w \<Rightarrow> 'w option" where
  "write_int64 J i w = WriteInt64 J i w"

definition write_uint8 :: "'w IJSValueWriter \<Rightarrow> 8 word \<Rightarrow> 'w \<Rightarrow> 'w option" where
  "write_uint8 J i w = WriteInt64 J (ucast i) w"

definition write_uint16 :: "'w IJSValueWriter \<Rightarrow> 16 word \<Rightarrow> 'w \<Rightarrow> 'w option" where
  "write_uint16 J i w = WriteInt64 J (ucast i) w"

definition write_uint32 :: "'w IJSValueWriter \<Rightarrow> 32 word \<Rightarrow> 'w \<Rightarrow> 'w option" where
  "write_uint32 J i w = WriteInt64 J (ucast i) w"

definition write_uint64 :: "'w IJSValueWriter \<Rightarrow> 64 word \<Rightarrow> 'w \<Rightarrow> 'w option" where
  "write_uint64 J i w = WriteInt64 J i w"

definition write_float :: "'w IJSValueWriter \<Rightarrow> double \<Rightarrow> 'w \<Rightarrow> 'w option" where
  "write_float J x w = WriteDouble J x w"

definition write_double :: "'w IJSValueWriter \<Rightarrow> double \<Rightarrow> 'w \<Rightarrow> 'w option" where
  "write_double J x w = WriteDouble J x w"

definition write_enum :: "'w IJSValueWriter \<Rightarrow> int32 \<Rightarrow> 'w \<Rightarrow> 'w option" where
  "write_enum J i w = write_int32 J i w"

definition write_optional ::
  "'w IJSValueWriter \<Rightarrow> ('a \<Rightarrow> 'w \<Rightarrow> 'w option) \<Rightarrow> 'a option \<Rightarrow> 'w \<Rightarrow> 'w option" where
  "write_optional J wv value w = (case value of Some a \<Rightarrow> wv a w | None \<Rightarrow> WriteNull J w)"

definition WriteProperty ::
  "winrt_text \<Rightarrow> 'w IJSValueWriter \<Rightarrow> ('a \<Rightarrow> 'w \<Rightarrow> 'w option) \<Rightarrow> string \<Rightarrow> 'a \<Rightarrow> 'w \<Rightarrow> 'w option" where
  "WriteProperty W J wv k a w = do { w1 \<leftarrow> WritePropertyName J (to_hstring W k) w; wv a w1 }"

definition WriteWProperty ::
  "'w IJSValueWriter \<Rightarrow> ('a \<Rightarrow> 'w \<Rightarrow> 'w option) \<Rightarrow> hstring \<Rightarrow> 'a \<Rightarrow> 'w \<Rightarrow> 'w option" where
  "WriteWProperty J wv k a w = do { w1 \<leftarrow> WritePropertyName J k w; wv a w1 }"

fun each :: "('a \<Rightarrow> 'w \<Rightarrow> 'w option) \<Rightarrow> 'a list \<Rightarrow> 'w \<Rightarrow> 'w option" where
  "each f [] w = Some w"
| "each f (a # as) w = do { w1 \<leftarrow> f a w; each f as w1 }"

definition write_map ::
  "winrt_text \<Rightarrow> 'w IJSValueWriter \<Rightarrow> ('a \<Rightarrow> 'w \<Rightarrow> 'w option) \<Rightarrow> (string \<times> 'a) list \<Rightarrow> 'w \<Rightarrow> 'w option" where
  "write_map W J wv value w =
     do { w1 \<leftarrow> WriteObjectBegin J w;
          w2 \<leftarrow> each (\<lambda>(k, a). WriteProperty W J wv k a) value w1;
          WriteObjectEnd J w2 }"

definition write_wmap ::
  "'w IJSValueWriter \<Rightarrow> ('a \<Rightarrow> 'w \<Rightarrow> 'w option) \<Rightarrow> (hstring \<times> 'a) list \<Rightarrow> 'w \<Rightarrow> 'w option" where
  "write_wmap J wv value w =
     do { w1 \<leftarrow> WriteObjectBegin J w;
          w2 \<leftarrow> each (\<lambda>(k, a). WriteWProperty J wv k a) value w1;
          WriteObjectEnd J w2 }"

definition write_vector ::
  "'w IJSValueWriter \<Rightarrow> ('a \<Rightarrow> 'w \<Rightarrow> 'w option) \<Rightarrow> 'a list \<Rightarrow> 'w \<Rightarrow> 'w option" where
  "write_vector J wv value w =
     do { w1 \<leftarrow> WriteArrayBegin J w; w2 \<leftarrow> each wv value w1; WriteArrayEnd J w2 }"

text \<open>\<^verbatim>\<open>WriteArgs\<close> writes an array of values of different types; each comes with its writer.\<close>

definition WriteArgs :: "'w IJSValueWriter \<Rightarrow> ('w \<Rightarrow> 'w option) list \<Rightarrow> 'w \<Rightarrow> 'w option" where
  "WriteArgs J args w =
     do { w1 \<leftarrow> WriteArrayBegin J w; w2 \<leftarrow> each (\<lambda>f. f) args w1; WriteArrayEnd J w2 }"

definition write_tuple :: "'w IJSValueWriter \<Rightarrow> ('w \<Rightarrow> 'w option) list \<Rightarrow> 'w \<Rightarrow> 'w option" where
  "write_tuple J args w = WriteArgs J args w"

definition MakeJSValueArgWriter :: "'w IJSValueWriter \<Rightarrow> ('w \<Rightarrow> 'w option) list \<Rightarrow> ('w \<Rightarrow> 'w option)" where
  "MakeJSValueArgWriter J args = (\<lambda>w. WriteArgs J args w)"

definition MakeJSValueWriter :: "('w \<Rightarrow> 'w option) list \<Rightarrow> ('w \<Rightarrow> 'w option)" where
  "MakeJSValueWriter args = (\<lambda>w. each (\<lambda>f. f) args w)"

definition write_struct :: "'w IJSValueWriter \<Rightarrow> ('s, 'r, 'w) FieldMap \<Rightarrow> 's \<Rightarrow> 'w \<Rightarrow> 'w option" where
  "write_struct J fm obj w =
     do { w1 \<leftarrow> WriteObjectBegin J w;
          w2 \<leftarrow> each (\<lambda>(name, info) w. do { w' \<leftarrow> WritePropertyName J name w; WriteField info w' obj }) fm w1;
          WriteObjectEnd J w2 }"

text \<open>\<^verbatim>\<open>WriteProperties\<close> writes a value to a tree first and copies the properties over.\<close>

definition WriteProperties ::
  "winrt_text \<Rightarrow> 'w IJSValueWriter \<Rightarrow> (JSValueTreeWriter \<Rightarrow> JSValueTreeWriter option) \<Rightarrow> 'w \<Rightarrow> 'w option" where
  "WriteProperties W J wv w =
     do { t \<leftarrow> wv MakeJSValueTreeWriter;
          each (\<lambda>(k, v). WriteProperty W J (WriteTo W J) k v) (AsObject (fst (TakeJSValue t))) w }"

definition WriteCustomDirectEventTypeConstant ::
  "'w IJSValueWriter \<Rightarrow> hstring \<Rightarrow> hstring \<Rightarrow> 'w \<Rightarrow> 'w option" where
  "WriteCustomDirectEventTypeConstant J propertyName registrationName w =
     do { w1 \<leftarrow> WritePropertyName J propertyName w;
          w2 \<leftarrow> WriteObjectBegin J w1;
          w3 \<leftarrow> WriteWProperty J (write_wstring J) (wide ''registrationName'') registrationName w2;
          WriteObjectEnd J w3 }"

definition WriteCustomDirectEventTypeConstant_event :: "'w IJSValueWriter \<Rightarrow> hstring \<Rightarrow> 'w \<Rightarrow> 'w option" where
  "WriteCustomDirectEventTypeConstant_event J eventName w =
     WriteCustomDirectEventTypeConstant J (wide ''top'' @ eventName) (wide ''on'' @ eventName) w"

section \<open>JSValue::From and JSValue::To\<close>

definition JSValue_From :: "(JSValueTreeWriter \<Rightarrow> JSValueTreeWriter option) \<Rightarrow> JSValue option" where
  "JSValue_From wv = map_option (\<lambda>t. fst (TakeJSValue t)) (wv MakeJSValueTreeWriter)"

definition JSValue_To :: "(JSValueTreeReader \<Rightarrow> ('a \<times> JSValueTreeReader) option) \<Rightarrow> JSValue \<Rightarrow> 'a option" where
  "JSValue_To rv v = map_option fst (rv (MakeJSValueTreeReader v))"

section \<open>The codec contract\<close>

context value_writer begin

lemma each_items:
  assumes "ready w" and "\<And>a w. a \<in> set as \<Longrightarrow> ready w \<Longrightarrow> f a w = Some (put (enc a) w)"
  shows "each f as (in_arr arr w) = Some (in_arr (arr @ map enc as) w)"
  using assms(2) by (induction as arbitrary: arr) (auto simp: assms(1) arr_ready put_arr)

lemma each_properties:
  assumes "ready w" and "\<And>k a w. (k, a) \<in> set ps \<Longrightarrow> ready w \<Longrightarrow> wv a w = Some (put (enc a) w)"
    and "\<forall>p \<in> set ps. text_ok W (fst p)"
  shows "each (\<lambda>(k, a). WriteProperty W J wv k a) ps (in_obj obj w) =
    Some (in_obj (fold (\<lambda>(k, a). try_emplace k (enc a)) ps obj) w)"
  using assms(2,3)
proof (induction ps arbitrary: obj)
  case (Cons p ps)
  obtain k a where p: "p = (k, a)" by (cases p)
  have "wv a (named k obj w) = Some (put (enc a) (named k obj w))"
    using p by (intro Cons.prems(1) [of k]) (auto simp: assms(1) named_ready)
  moreover have "each (\<lambda>(k, a). WriteProperty W J wv k a) ps (in_obj (try_emplace k (enc a) obj) w) =
      Some (in_obj (fold (\<lambda>(k, a). try_emplace k (enc a)) ps (try_emplace k (enc a) obj)) w)"
    using Cons.prems by (intro Cons.IH) auto
  moreover have "WriteProperty W J wv k a (in_obj obj w) = wv a (named k obj w)"
    using Cons.prems(2) by (simp add: p assms(1) WriteProperty_def prop_name)
  ultimately show ?case by (simp add: p assms(1) put_named)
qed simp

end

text \<open>
  A type with a codec: writing \<open>a\<close> writes the tree \<open>enc a\<close>, and reading that tree with fuel
  \<open>need a\<close> gives \<open>a\<close> back, whatever writer and reader are used.
\<close>

locale value_codec =
  fixes W :: winrt_text
    and wr :: "'w IJSValueWriter \<Rightarrow> 'a \<Rightarrow> 'w \<Rightarrow> 'w option"
    and rd :: "nat \<Rightarrow> 'r IJSValueReader \<Rightarrow> 'r \<Rightarrow> ('a \<times> 'r) option"
    and enc :: "'a \<Rightarrow> JSValue"
    and ok :: "'a \<Rightarrow> bool"
    and need :: "'a \<Rightarrow> nat"
  assumes write_enc: "value_writer W J ready put in_obj named in_arr \<Longrightarrow> ok a \<Longrightarrow> ready w \<Longrightarrow>
      wr J a w = Some (put (enc a) w)"
    and read_enc: "value_reader W I at \<Longrightarrow> ok a \<Longrightarrow> at r (enc a) r' \<Longrightarrow> need a \<le> n \<Longrightarrow>
      rd n I r = Some (a, r')"
begin

lemma optional_codec:
  assumes "\<And>a. ok a \<Longrightarrow> enc a \<noteq> Null"
  shows "value_codec W (\<lambda>J. write_optional J (wr J)) (\<lambda>n I. read_optional I (rd n I))
    (case_option Null enc) (case_option True ok) (case_option 0 need)"
proof
  fix J ready put in_obj named in_arr a and w :: 'w
  assume wr: "value_writer W J ready put in_obj named in_arr"
    and "case a of None \<Rightarrow> True | Some a \<Rightarrow> ok a" and "ready w"
  then show "write_optional J (wr J) a w = Some (put (case a of None \<Rightarrow> Null | Some a \<Rightarrow> enc a) w)"
    using write_enc [OF wr] value_writer.put_null [OF wr]
    by (auto simp: write_optional_def split: option.splits)
next
  fix I at a r and r' :: 'r and n
  assume rd: "value_reader W I at" and ok: "case a of None \<Rightarrow> True | Some a \<Rightarrow> ok a"
    and at: "at r (case a of None \<Rightarrow> Null | Some a \<Rightarrow> enc a) r'"
    and n: "(case a of None \<Rightarrow> 0 | Some a \<Rightarrow> need a) \<le> n"
  show "read_optional I (rd n I) r = Some (a, r')"
  proof (cases a)
    case None
    with at value_reader.at_type [OF rd at] value_reader.at_scalar [OF rd at] show ?thesis
      by (simp add: read_optional_def)
  next
    case (Some b)
    with ok assms have "enc b \<noteq> Null" by simp
    then have "Type (enc b) \<noteq> TypeNull" by (cases "enc b") auto
    with Some ok at n value_reader.at_type [OF rd at] read_enc [OF rd] show ?thesis
      by (simp add: read_optional_def)
  qed
qed

lemma vector_codec:
  "value_codec W (\<lambda>J. write_vector J (wr J)) (\<lambda>n I. read_vector n I (rd n I) [])
    (\<lambda>as. Array (map enc as)) (list_all ok) (\<lambda>as. Suc (length as + sum_list (map need as)))"
proof
  fix J ready put in_obj named in_arr as and w :: 'w
  assume wr: "value_writer W J ready put in_obj named in_arr" and ok: "list_all ok as" and w: "ready w"
  have "each (wr J) as (in_arr [] w) = Some (in_arr ([] @ map enc as) w)"
    using ok write_enc [OF wr] by (intro value_writer.each_items [OF wr w]) (auto simp: list_all_iff)
  then show "write_vector J (wr J) as w = Some (put (Array (map enc as)) w)"
    using value_writer.arr_begin [OF wr w] value_writer.arr_end [OF wr w] by (simp add: write_vector_def)
next
  fix I at as r and r' :: 'r and n
  assume rd: "value_reader W I at" and ok: "list_all ok as" and at: "at r (Array (map enc as)) r'"
    and n: "Suc (length as + sum_list (map need as)) \<le> n"
  have "rd n I r1 = Some (a, r2)" if "a \<in> set as" "at r1 (enc a) r2" for a r1 r2
  proof -
    have "need a \<le> sum_list (map need as)" using that(1) by (intro member_le_sum_list) auto
    then show ?thesis using that ok n read_enc [OF rd] by (auto simp: list_all_iff)
  qed
  with n have "item_loop n I (rd n I) [] r = Some ([] @ map id as, r')"
    using value_reader.at_array [OF rd at] by (intro value_reader.item_loop_steps [OF rd, where enc = enc]) auto
  then show "read_vector n I (rd n I) [] r = Some (as, r')"
    using value_reader.at_type [OF rd at] by (simp add: read_vector_def)
qed

lemma map_codec:
  "value_codec W (\<lambda>J. write_map W J (wr J)) (\<lambda>n I. read_map n W I (rd n I) [])
    (\<lambda>ps. Object (map (\<lambda>(k, a). (k, enc a)) ps))
    (\<lambda>ps. smap ps \<and> (\<forall>p \<in> set ps. text_ok W (fst p) \<and> ok (snd p)))
    (\<lambda>ps. Suc (length ps + sum_list (map (\<lambda>p. need (snd p)) ps)))"
proof
  fix J ready put in_obj named in_arr ps and w :: 'w
  assume wr: "value_writer W J ready put in_obj named in_arr"
    and ok: "smap ps \<and> (\<forall>p \<in> set ps. text_ok W (fst p) \<and> ok (snd p))" and w: "ready w"
  have "each (\<lambda>(k, a). WriteProperty W J (wr J) k a) ps (in_obj [] w) =
      Some (in_obj (fold (\<lambda>(k, a). try_emplace k (enc a)) ps []) w)"
    using ok write_enc [OF wr] by (intro value_writer.each_properties [OF wr w]) auto
  then show "write_map W J (wr J) ps w = Some (put (Object (map (\<lambda>(k, a). (k, enc a)) ps)) w)"
    using value_writer.obj_begin [OF wr w] value_writer.obj_end [OF wr w] ok
    by (simp add: write_map_def fold_try_emplace_values)
next
  fix I at ps r and r' :: 'r and n
  assume rd: "value_reader W I at"
    and ok: "smap ps \<and> (\<forall>p \<in> set ps. text_ok W (fst p) \<and> ok (snd p))"
    and at: "at r (Object (map (\<lambda>(k, a). (k, enc a)) ps)) r'"
    and n: "Suc (length ps + sum_list (map (\<lambda>p. need (snd p)) ps)) \<le> n"
  have "emplace_with W (rd n I) (to_hstring W k) c r1 = Some (try_emplace k a c, r2)"
    if "(k, a) \<in> set ps" "at r1 (enc a) r2" for k a c r1 r2
  proof -
    have "need a \<le> sum_list (map (\<lambda>p. need (snd p)) ps)"
      using that(1) by (intro member_le_sum_list) force+
    then have "rd n I r1 = Some (a, r2)" using that ok n read_enc [OF rd] by force
    then show ?thesis using that(1) ok by (force simp: emplace_with_def text_ok_def)
  qed
  with n have "property_loop n I (emplace_with W (rd n I)) [] r =
      Some (fold (\<lambda>(k, a). try_emplace k a) ps [], r')"
    using value_reader.at_object [OF rd at]
    by (intro value_reader.property_loop_steps [OF rd, where enc = enc]) auto
  then show "read_map n W I (rd n I) [] r = Some (ps, r')"
    using value_reader.at_type [OF rd at] ok fold_try_emplace_smap [of "[]" ps] by (simp add: read_map_def)
qed

end

text \<open>The codecs of the scalar types: a scalar is written by one call and read without moving.\<close>

definition is_scalar :: "JSValue \<Rightarrow> bool" where
  "is_scalar v \<longleftrightarrow> Type v \<noteq> TypeObject \<and> Type v \<noteq> TypeArray"

lemma scalar_codec:
  fixes wr :: "'w IJSValueWriter \<Rightarrow> 'a \<Rightarrow> 'w \<Rightarrow> 'w option"
    and rd :: "'r IJSValueReader \<Rightarrow> 'r \<Rightarrow> ('a \<times> 'r) option"
  assumes wr: "\<And>J ready put in_obj named in_arr a w. value_writer W J ready put in_obj named in_arr \<Longrightarrow>
      ok a \<Longrightarrow> ready w \<Longrightarrow> wr J a w = Some (put (enc a) w)"
    and rd: "\<And>I at a r. value_reader W I at \<Longrightarrow> ok a \<Longrightarrow> at r (enc a) r \<Longrightarrow> rd I r = Some (a, r)"
    and scalar: "\<And>a. is_scalar (enc a)"
  shows "value_codec W wr (\<lambda>n I. rd I) enc ok (\<lambda>_. 0)"
proof
  fix I at a and r r' :: 'r
  assume I: "value_reader W I at" and ok: "ok a" and at: "at r (enc a) r'"
  from value_reader.at_scalar [OF I at] scalar [of a] have "r' = r" by (simp add: is_scalar_def)
  with rd [OF I ok] at show "rd I r = Some (a, r')" by simp
qed (rule wr)

lemmas scalar_read_defs = total_read_def partial_read_def read_string_def read_wstring_def
  read_hstring_def read_bool_def read_int64_def read_int8_def read_int16_def read_int32_def
  read_uint8_def read_uint16_def read_uint32_def read_uint64_def read_double_def read_enum_def

lemmas scalar_write_defs = write_string_def write_wstring_def write_bool_def write_int8_def
  write_int16_def write_int32_def write_int64_def write_uint8_def write_uint16_def
  write_uint32_def write_uint64_def write_double_def write_enum_def

interpretation string_codec: value_codec W "write_string W" "\<lambda>n I. total_read (read_string W I)"
    String "text_ok W" "\<lambda>_. 0" for W
proof (rule scalar_codec)
  fix I at a and r :: 'b
  assume "value_reader W I at" and "text_ok W a" and "at r (String a) r"
  then show "total_read (read_string W I) r = Some (a, r)"
    using value_reader.at_type [of W I at r] value_reader.at_string [of W I at r a r]
    by (fastforce simp: scalar_read_defs text_ok_def)
qed (auto simp: scalar_write_defs is_scalar_def value_writer.put_string)

interpretation bool_codec: value_codec W write_bool "\<lambda>n I. total_read (read_bool W I)" Boolean
    "\<lambda>_. True" "\<lambda>_. 0" for W
proof (rule scalar_codec)
  fix I at a and r :: 'b
  assume "value_reader W I at" and "at r (Boolean a) r"
  then show "total_read (read_bool W I) r = Some (a, r)"
    using value_reader.at_type [of W I at r] value_reader.at_boolean [of W I at r a r]
    by (fastforce simp: scalar_read_defs)
qed (auto simp: scalar_write_defs is_scalar_def value_writer.put_boolean)

interpretation double_codec: value_codec W write_double "\<lambda>n I. total_read (read_double I)" Double
    "\<lambda>_. True" "\<lambda>_. 0" for W
proof (rule scalar_codec)
  fix I at a and r :: 'b
  assume "value_reader W I at" and "at r (Double a) r"
  then show "total_read (read_double I) r = Some (a, r)"
    using value_reader.at_type [of W I at r] value_reader.at_double [of W I at r a r]
    by (fastforce simp: scalar_read_defs)
qed (auto simp: scalar_write_defs is_scalar_def value_writer.put_double)

text \<open>Integers of every width: written through \<open>ext\<close>, read through \<open>trunc\<close>.\<close>

lemma int_codec:
  fixes ext :: "'a \<Rightarrow> int64" and wr :: "'w IJSValueWriter \<Rightarrow> 'a \<Rightarrow> 'w \<Rightarrow> 'w option"
    and rd :: "'r IJSValueReader \<Rightarrow> 'r \<Rightarrow> 'a option"
  assumes "\<And>J i w. wr J i w = WriteInt64 J (ext i) w"
    and "\<And>I r. rd I r = map_option trunc (read_int64 I r)"
    and "\<And>i. trunc (ext i) = i"
  shows "value_codec W wr (\<lambda>n I. partial_read (rd I)) (\<lambda>i. Int64 (ext i)) (\<lambda>_. True) (\<lambda>_. 0)"
proof (rule scalar_codec)
  fix I at a and r :: 'r
  assume "value_reader W I at" and "at r (Int64 (ext a)) r"
  then show "partial_read (rd I) r = Some (a, r)"
    using value_reader.at_type [of W I at r] value_reader.at_int64 [of W I at r "ext a" r]
    by (fastforce simp: partial_read_def read_int64_def assms(2,3))
qed (auto simp: is_scalar_def value_writer.put_int64 assms(1))

lemma word_extensions [simp]:
  "ucast (scast (i8 :: int8) :: int64) = i8" "ucast (scast (i16 :: int16) :: int64) = i16"
  "ucast (scast (i32 :: int32) :: int64) = i32" "ucast (ucast (u8 :: 8 word) :: int64) = u8"
  "ucast (ucast (u16 :: 16 word) :: int64) = u16" "ucast (ucast (u32 :: 32 word) :: int64) = u32"
  by (rule bit_word_eqI; auto simp: bit_simps)+

interpretation int8_codec: value_codec W write_int8 "\<lambda>n I. partial_read (read_int8 I)"
    "\<lambda>i. Int64 (scast i)" "\<lambda>_. True" "\<lambda>_. 0" for W
  by (rule int_codec [where trunc = ucast]) (simp_all add: write_int8_def read_int8_def)

interpretation int16_codec: value_codec W write_int16 "\<lambda>n I. partial_read (read_int16 I)"
    "\<lambda>i. Int64 (scast i)" "\<lambda>_. True" "\<lambda>_. 0" for W
  by (rule int_codec [where trunc = ucast]) (simp_all add: write_int16_def read_int16_def)

interpretation int32_codec: value_codec W write_int32 "\<lambda>n I. partial_read (read_int32 I)"
    "\<lambda>i. Int64 (scast i)" "\<lambda>_. True" "\<lambda>_. 0" for W
  by (rule int_codec [where trunc = ucast]) (simp_all add: write_int32_def read_int32_def)

interpretation enum_codec: value_codec W write_enum "\<lambda>n I. partial_read (read_enum I)"
    "\<lambda>i. Int64 (scast i)" "\<lambda>_. True" "\<lambda>_. 0" for W
  by (rule int_codec [where trunc = ucast]) (simp_all add: write_enum_def write_int32_def read_enum_def read_int32_def)

interpretation int64_codec: value_codec W write_int64 "\<lambda>n I. partial_read (read_int64 I)"
    Int64 "\<lambda>_. True" "\<lambda>_. 0" for W
  by (rule int_codec [where trunc = "\<lambda>i. i"]) (simp_all add: write_int64_def option.map_ident)

interpretation uint8_codec: value_codec W write_uint8 "\<lambda>n I. partial_read (read_uint8 I)"
    "\<lambda>i. Int64 (ucast i)" "\<lambda>_. True" "\<lambda>_. 0" for W
  by (rule int_codec [where trunc = ucast]) (simp_all add: write_uint8_def read_uint8_def)

interpretation uint16_codec: value_codec W write_uint16 "\<lambda>n I. partial_read (read_uint16 I)"
    "\<lambda>i. Int64 (ucast i)" "\<lambda>_. True" "\<lambda>_. 0" for W
  by (rule int_codec [where trunc = ucast]) (simp_all add: write_uint16_def read_uint16_def)

interpretation uint32_codec: value_codec W write_uint32 "\<lambda>n I. partial_read (read_uint32 I)"
    "\<lambda>i. Int64 (ucast i)" "\<lambda>_. True" "\<lambda>_. 0" for W
  by (rule int_codec [where trunc = ucast]) (simp_all add: write_uint32_def read_uint32_def)

interpretation uint64_codec: value_codec W write_uint64 "\<lambda>n I. partial_read (read_uint64 I)"
    Int64 "\<lambda>_. True" "\<lambda>_. 0" for W
  by (rule int_codec [where trunc = "\<lambda>i. i"])
     (simp_all add: write_uint64_def read_uint64_def option.map_ident)

text \<open>Dynamic values are their own encoding, and structured values nest.\<close>

interpretation value_tree_codec: value_codec W "WriteTo W" "\<lambda>n I. ReadFrom n W I" "\<lambda>v. v"
    "\<lambda>v. wf_js v \<and> js_text_ok W v" js_fuel for W
  by unfold_locales (auto intro: value_writer.WriteTo_value value_reader.ReadFrom_value)

text \<open>Writing to a tree and reading the tree.\<close>

lemma From_To_codec:
  fixes rd :: "nat \<Rightarrow> JSValueTreeReader IJSValueReader \<Rightarrow> JSValueTreeReader \<Rightarrow> ('a \<times> JSValueTreeReader) option"
  assumes "value_codec W wr rd enc ok need" and "ok a" and "need a \<le> n"
  shows "JSValue_From (wr (TreeWriter W) a) = Some (enc a)"
    and "JSValue_To (rd n (TreeReader W)) (enc a) = Some a"
proof -
  note C = value_codec.write_enc [OF assms(1) tree_writer.value_writer_axioms assms(2)]
    value_codec.read_enc [OF assms(1) tree_reader.value_reader_axioms assms(2) tree_at_root assms(3)]
  have "tree_ready MakeJSValueTreeWriter" by (simp add: tree_ready_def MakeJSValueTreeWriter_def)
  from C(1) [OF this] show "JSValue_From (wr (TreeWriter W) a) = Some (enc a)"
    by (simp add: JSValue_From_def TakeJSValue_def move_construct_def tree_put_def tree_WriteValue_def
        MakeJSValueTreeWriter_def new_container_def)
  from C(2) show "JSValue_To (rd n (TreeReader W)) (enc a) = Some a" by (simp add: JSValue_To_def)
qed

section \<open>Arguments and structures\<close>

text \<open>What reading the arguments gives: an argument without a value keeps its default.\<close>

fun args_read ::
  "('r \<Rightarrow> JSValue \<Rightarrow> 'r \<Rightarrow> bool) \<Rightarrow> (('r \<Rightarrow> ('a \<times> 'r) option) \<times> 'a) list \<Rightarrow> JSValue list \<Rightarrow> 'a list \<Rightarrow> bool" where
  "args_read at [] vs as \<longleftrightarrow> as = []"
| "args_read at (arg # args) [] as \<longleftrightarrow> as = map snd (arg # args)"
| "args_read at ((rv, d) # args) (v # vs) as \<longleftrightarrow>
     (\<exists>a as'. as = a # as' \<and> (\<forall>r1 r2. at r1 v r2 \<longrightarrow> rv r1 = Some (a, r2)) \<and> args_read at args vs as')"

lemma read_args_loop_failed:
  "read_args_loop I args False r = Some (map snd args, False, r)"
  by (induction args) auto

context value_reader begin

lemma read_args_loop_steps:
  assumes "array_steps I at r vs r'" and "args_read at args vs as"
  shows "\<exists>r1. read_args_loop I args True r = Some (as, length args \<le> length vs, r1) \<and>
    (if length args \<le> length vs then array_steps I at r1 (drop (length args) vs) r' else r1 = r')"
  using assms
proof (induction args arbitrary: vs as r)
  case (Cons arg args)
  obtain rv d where arg: "arg = (rv, d)" by (cases arg)
  show ?case
  proof (cases vs)
    case Nil
    with Cons.prems arg show ?thesis by (simp add: read_args_loop_failed)
  next
    case (Cons v vs')
    from Cons.prems(1) Cons obtain r1 r2 where step: "GetNextArrayItem I r = (True, r1)" "at r1 v r2"
      and rest: "array_steps I at r2 vs' r'" by auto
    from Cons.prems(2) Cons arg step(2) obtain a as' where a: "as = a # as'" "rv r1 = Some (a, r2)"
      and as': "args_read at args vs' as'" by auto
    from Cons.IH [OF rest as'] show ?thesis by (auto simp: arg Cons a step(1))
  qed
qed auto

lemma ReadArgs_steps:
  assumes "at r (Array vs) r'" and "args_read at args vs as"
    and "\<forall>v \<in> set vs. wf_js v \<and> js_text_ok W v" and "js_fuel (Array vs) \<le> n"
  shows "ReadArgs n W I args r = Some (as, r')"
proof -
  obtain r1 where loop: "read_args_loop I args True r = Some (as, length args \<le> length vs, r1)"
    and r1: "if length args \<le> length vs then array_steps I at r1 (drop (length args) vs) r' else r1 = r'"
    using read_args_loop_steps [OF at_array [OF assms(1)] assms(2)] by blast
  have "ReadFrom n W I ra = Some (id v, rb)" if v: "v \<in> set (drop (length args) vs)" and at: "at ra v rb" for v ra rb
  proof -
    from v have v: "v \<in> set vs" by (rule in_set_dropD)
    then have "js_fuel v \<le> sum_list (map js_fuel vs)" by (intro member_le_sum_list) auto
    with assms(3,4) v at show ?thesis by (auto intro!: ReadFrom_value)
  qed
  then have "length args \<le> length vs \<Longrightarrow>
      item_loop n I (ReadFrom n W I) [] r1 = Some ([] @ map id (drop (length args) vs), r')"
    using r1 assms(4) by (intro item_loop_steps [where enc = id]) auto
  with loop r1 at_type [OF assms(1)] show ?thesis by (auto simp: ReadArgs_def SkipArrayToEnd_def)
qed

text \<open>
  A structure: the fields the tree names are updated, other properties are skipped. \<open>upd k v\<close> is
  the effect of reading the value \<open>v\<close> into the field \<open>k\<close>.
\<close>

lemma read_struct_steps:
  assumes "at r (Object ps) r'"
    and "\<And>k v info obj r1 r2. (k, v) \<in> set ps \<Longrightarrow> map_of fm (to_hstring W k) = Some info \<Longrightarrow> at r1 v r2 \<Longrightarrow>
      ReadField info r1 obj = Some (upd k v obj, r2)"
    and "wf_js (Object ps)" and "js_text_ok W (Object ps)" and "js_fuel (Object ps) \<le> n"
  shows "read_struct n W I fm obj r =
    Some (fold (\<lambda>(k, v). if to_hstring W k \<in> dom (map_of fm) then upd k v else id) ps obj, r')"
proof -
  have "struct_property n W I fm (to_hstring W k) c r1 =
      Some ((\<lambda>(k, v). if to_hstring W k \<in> dom (map_of fm) then upd k v else id) (k, v) c, r2)"
    if kv: "(k, v) \<in> set ps" and at: "at r1 v r2" for k v c r1 r2
  proof (cases "map_of fm (to_hstring W k)")
    case None
    have "js_fuel v \<le> sum_list (map (\<lambda>p. js_fuel (snd p)) ps)" using kv by (intro member_le_sum_list) force+
    moreover have "wf_js v \<and> js_text_ok W v" using kv assms(3,4) by force
    ultimately have "ReadFrom n W I r1 = Some (v, r2)" using at assms(5) by (auto intro!: ReadFrom_value)
    with None show ?thesis by (simp add: struct_property_def SkipValue_def domIff)
  next
    case (Some info)
    with assms(2) [OF kv Some at] show ?thesis by (simp add: struct_property_def domIff)
  qed
  then have "property_loop n I (struct_property n W I fm) obj r =
      Some (fold (\<lambda>(k, v). if to_hstring W k \<in> dom (map_of fm) then upd k v else id) ps obj, r')"
    using at_object [OF assms(1)] assms(5)
    by (intro property_loop_steps [where enc = id and n = n]) (auto simp: case_prod_unfold)
  with at_type [OF assms(1)] show ?thesis by (simp add: read_struct_def)
qed

end

context value_writer begin

lemma write_struct_steps:
  assumes w: "ready w" and "\<And>k w. k \<in> set ks \<Longrightarrow> ready w \<Longrightarrow> WriteField (info k) w s = Some (put (enc k s) w)"
    and "\<forall>k \<in> set ks. text_ok W k"
  shows "write_struct J (map (\<lambda>k. (to_hstring W k, info k)) ks) s w =
    Some (put (Object (fold (\<lambda>k. try_emplace k (enc k s)) ks [])) w)"
proof -
  have "each (\<lambda>(name, info) w. do { w' \<leftarrow> WritePropertyName J name w; WriteField info w' s })
      (map (\<lambda>k. (to_hstring W k, info k)) ks) (in_obj obj w) =
      Some (in_obj (fold (\<lambda>k. try_emplace k (enc k s)) ks obj) w)" for obj
    using assms(2,3) by (induction ks arbitrary: obj) (auto simp: w prop_name named_ready put_named)
  with w show ?thesis by (simp add: write_struct_def obj_begin obj_end)
qed

end

section \<open>Properties\<close>

text \<open>
  C4: a map of strings to vectors of optional integers, which \<^verbatim>\<open>JSValue::From\<close> writes through the
  typed writers, is an object of arrays of numbers and nulls, and \<^verbatim>\<open>JSValue::To\<close> reads the same
  map back through the typed readers.
\<close>

theorem typed_value_roundtrip:
  fixes m :: "(string \<times> int32 option list) list"
  assumes "smap m" and "\<forall>p \<in> set m. text_ok W (fst p)"
    and "Suc (length m + sum_list (map (\<lambda>p. Suc (length (snd p))) m)) \<le> n"
  defines "J \<equiv> TreeWriter W" and "I \<equiv> TreeReader W"
    and "tree \<equiv> Object (map (\<lambda>(k, is). (k, Array (map (case_option Null (\<lambda>i. Int64 (scast i))) is))) m)"
  shows "JSValue_From (write_map W J (write_vector J (write_optional J (write_int32 J))) m) = Some tree \<and>
    JSValue_To (read_map n W I (read_vector n I (read_optional I (partial_read (read_int32 I))) []) []) tree =
      Some m"
proof -
  have zero: "sum_list (map (\<lambda>x. case x of None \<Rightarrow> 0 | Some _ \<Rightarrow> 0) xs) = (0 :: nat)" for xs :: "int32 option list"
    by (induction xs) (auto split: option.splits)
  note codec = value_codec.map_codec [OF value_codec.vector_codec
      [OF value_codec.optional_codec [OF int32_codec.value_codec_axioms]], of W]
  from From_To_codec [OF codec, of m n] show ?thesis
    using assms(1-3) unfolding J_def I_def tree_def
    by (simp add: zero list_all_iff split: option.splits)
qed

text \<open>
  The arguments of a method call: the written array is read argument by argument; an argument
  that was not passed keeps its default and surplus arguments are skipped.
\<close>

theorem arguments_roundtrip:
  assumes "list_all (text_ok W) xs" and "Suc (Suc (2 * length xs)) \<le> n"
  shows "JSValue_From (WriteArgs (TreeWriter W) (map (write_string W (TreeWriter W)) xs)) =
      Some (Array (map String xs)) \<and>
    JSValue_To (ReadArgs n W (TreeReader W) (map (\<lambda>d. (total_read (read_string W (TreeReader W)), d)) ds))
      (Array (map String xs)) = Some (take (length ds) xs @ drop (length xs) ds)"
proof -
  have "args_read tree_at (map (\<lambda>d. (total_read (read_string W (TreeReader W)), d)) ds)
      (map String xs) (take (length ds) xs @ drop (length xs) ds)"
    using assms(1)
  proof (induction ds arbitrary: xs)
    case (Cons d ds)
    then show ?case
      by (cases xs) (auto simp: o_def intro: string_codec.read_enc [OF tree_reader.value_reader_axioms])
  qed simp
  then have "ReadArgs n W (TreeReader W) (map (\<lambda>d. (total_read (read_string W (TreeReader W)), d)) ds)
      (MakeJSValueTreeReader (Array (map String xs))) =
      Some (take (length ds) xs @ drop (length xs) ds, MakeJSValueTreeReader (Array (map String xs)))"
    using assms by (intro tree_reader.ReadArgs_steps [OF tree_at_root])
      (auto simp: list_all_iff o_def sum_list_triv)
  moreover have "JSValue_From (WriteArgs (TreeWriter W) (map (write_string W (TreeWriter W)) xs)) =
      JSValue_From (write_vector (TreeWriter W) (write_string W (TreeWriter W)) xs)"
  proof -
    have "each (\<lambda>f. f) (map (write_string W (TreeWriter W)) xs) w = each (write_string W (TreeWriter W)) xs w" for w
      by (induction xs arbitrary: w) (auto intro: Option.bind_cong)
    then show ?thesis by (simp add: JSValue_From_def WriteArgs_def write_vector_def)
  qed
  ultimately show ?thesis
    using From_To_codec(1) [OF string_codec.vector_codec _ order_refl, where a = xs] assms(1) by (simp add: JSValue_To_def)
qed

theorem typed_value_roundtrip_witness:
  "smap [(''k'', [Some (- 1), None :: int32 option])] \<and>
   JSValue_To (read_map 9 ascii_text (TreeReader ascii_text) (read_vector 9 (TreeReader ascii_text)
     (read_optional (TreeReader ascii_text) (partial_read (read_int32 (TreeReader ascii_text)))) []) [])
     (Object [(''k'', Array [Int64 (- 1), Null])]) = Some [(''k'', [Some (- 1), None])]"
  using typed_value_roundtrip [of "[(''k'', [Some (- 1), None])]" ascii_text 9] by (simp add: smap_def)

theorem arguments_roundtrip_witness:
  "JSValue_To (ReadArgs 9 ascii_text (TreeReader ascii_text)
     (map (\<lambda>d. (total_read (read_string ascii_text (TreeReader ascii_text)), d)) [''x'', ''y'']))
     (Array (map String [''a''])) = Some [''a'', ''y'']"
  using arguments_roundtrip [of ascii_text "[''a'']" 9 "[''x'', ''y'']"] by simp

text \<open>
  A structure written field by field is an object with one property per field, and reading
  that object into any structure updates exactly these fields, in the order of their names.
\<close>

theorem struct_roundtrip:
  fixes info :: "string \<Rightarrow> ('s, JSValueTreeReader, JSValueTreeWriter) FieldInfo"
  assumes "sorted_wrt (<) ks" and "\<forall>k \<in> set ks. text_ok W k \<and> wf_js (enc k) \<and> js_text_ok W (enc k)"
    and "\<forall>k \<in> set ks. \<forall>w. tree_ready w \<longrightarrow> WriteField (info k) w s = Some (tree_put (enc k) w)"
    and "\<forall>k \<in> set ks. \<forall>r r' obj. tree_at r (enc k) r' \<longrightarrow> ReadField (info k) r obj = Some (upd k obj, r')"
    and "js_fuel (Object (map (\<lambda>k. (k, enc k)) ks)) \<le> n"
  defines "fm \<equiv> map (\<lambda>k. (to_hstring W k, info k)) ks"
  shows "JSValue_From (write_struct (TreeWriter W) fm s) = Some (Object (map (\<lambda>k. (k, enc k)) ks)) \<and>
    JSValue_To (read_struct n W (TreeReader W) fm obj) (Object (map (\<lambda>k. (k, enc k)) ks)) =
      Some (fold upd ks obj)"
proof
  let ?ps = "map (\<lambda>k. (k, enc k)) ks"
  have wf: "smap ?ps" using assms(1) by (simp add: smap_def o_def)
  have "fold (\<lambda>k. try_emplace k (enc k)) ks [] = fold (\<lambda>(k, v). try_emplace k v) ?ps []"
    by (simp add: fold_map o_def)
  with fold_try_emplace_smap [of "[]" ?ps] wf have "fold (\<lambda>k. try_emplace k (enc k)) ks [] = ?ps" by simp
  moreover have "tree_ready MakeJSValueTreeWriter" by (simp add: tree_ready_def MakeJSValueTreeWriter_def)
  ultimately have "write_struct (TreeWriter W) fm s MakeJSValueTreeWriter =
      Some (tree_put (Object ?ps) MakeJSValueTreeWriter)"
    using tree_writer.write_struct_steps [of MakeJSValueTreeWriter ks info s "\<lambda>k s. enc k" W] assms(2,3)
    by (simp add: fm_def)
  then show "JSValue_From (write_struct (TreeWriter W) fm s) = Some (Object ?ps)"
    by (simp add: JSValue_From_def TakeJSValue_def move_construct_def tree_put_def tree_WriteValue_def
        MakeJSValueTreeWriter_def new_container_def)
next
  let ?ps = "map (\<lambda>k. (k, enc k)) ks"
  have inj: "k = l" if "k \<in> set ks" "l \<in> set ks" "to_hstring W k = to_hstring W l" for k l
    using that assms(2) by (metis text_ok_def)
  have info: "map_of fm (to_hstring W k) = Some (info k)" if "k \<in> set ks" for k
  proof -
    have "distinct (map fst fm)"
      using assms(1) inj by (auto simp: fm_def o_def distinct_map strict_sorted_iff intro!: inj_onI)
    then show ?thesis using that by (auto simp: fm_def intro!: map_of_is_SomeI)
  qed
  have "read_struct n W (TreeReader W) fm obj (MakeJSValueTreeReader (Object ?ps)) =
      Some (fold (\<lambda>(k, v). if to_hstring W k \<in> dom (map_of fm) then upd k else id) ?ps obj,
        MakeJSValueTreeReader (Object ?ps))"
    using assms(1,2,4,5) info
    by (intro tree_reader.read_struct_steps [OF tree_at_root, where upd = "\<lambda>k _. upd k"])
       (auto simp: smap_def o_def)
  moreover have "fold (\<lambda>(k, v). if to_hstring W k \<in> dom (map_of fm) then upd k else id) ?ps obj = fold upd ks obj"
    unfolding fold_map o_def by (rule fold_cong) (auto simp: info domIff)
  ultimately show "JSValue_To (read_struct n W (TreeReader W) fm obj) (Object ?ps) = Some (fold upd ks obj)"
    by (simp add: JSValue_To_def)
qed

definition name_field :: "(string \<times> bool, JSValueTreeReader, JSValueTreeWriter) FieldInfo" where
  "name_field = \<lparr>ReadField = FieldReader (\<lambda>_. total_read (read_string ascii_text (TreeReader ascii_text))) fst
       (\<lambda>a. apfst (\<lambda>_. a)),
     WriteField = FieldWriter (write_string ascii_text (TreeWriter ascii_text)) fst\<rparr>"

theorem struct_roundtrip_witness:
  "JSValue_To (read_struct 9 ascii_text (TreeReader ascii_text) [(to_hstring ascii_text ''name'', name_field)] (''old'', True))
     (Object [(''name'', String ''new'')]) = Some (''new'', True)"
proof -
  have "WriteField name_field w (''new'', b) = Some (tree_put (String ''new'') w)" if "tree_ready w" for w b
    using string_codec.write_enc [OF tree_writer.value_writer_axioms, of ascii_text "''new''" w] that
    by (simp add: name_field_def FieldWriter_def)
  moreover have "ReadField name_field r obj = Some (apfst (\<lambda>_. ''new'') obj, r')" if "tree_at r (String ''new'') r'" for r r' obj
    using string_codec.read_enc [OF tree_reader.value_reader_axioms, of ascii_text "''new''" r r' 0] that
    by (simp add: name_field_def FieldReader_def)
  ultimately show ?thesis
    using struct_roundtrip [of "[''name'']" ascii_text "\<lambda>_. String ''new''" "\<lambda>_. name_field" "(''new'', True)"
      "\<lambda>k. apfst (\<lambda>_. ''new'')" 9 "(''old'', True)"] by simp
qed

text \<open>
  a vector reader that meets a nested array where it expects a number does not skip it: it
  reads zero, then goes on with the items of the nested array and loses the rest of the
  vector.
\<close>

theorem vector_of_nested_array:
  "JSValue_To (read_vector 9 (TreeReader W) (partial_read (read_int64 (TreeReader W))) [])
     (Array [Array [Int64 1], Int64 2]) = Some [0, 1]"
  by (simp add: JSValue_To_def read_vector_def TreeReader_def tree_GetNextArrayItem_def
      MakeJSValueTreeReader_def SetCurrentValue_def partial_read_def read_int64_def tree_pop_def tree_GetInt64_def
      numeral_eq_Suc)

section \<open>Conversion operators\<close>

text \<open>
  The conversion operators of \<^verbatim>\<open>JSValue\<close>, the specialisations of \<^verbatim>\<open>JSValue::To\<close> for scalar types
  and the deprecated accessors. A C++ scalar type is a tag and its values carry the tag.
\<close>

datatype scalar_type = TString | TBool | TInt8 | TInt16 | TInt32 | TInt64 | TUInt8 | TUInt16 | TUInt32
  | TUInt64 | TFloat | TDouble

datatype scalar = SString string | SBool bool | SInt8 int8 | SInt16 int16 | SInt32 int32 | SInt64 int64
  | SUInt8 "8 word" | SUInt16 "16 word" | SUInt32 "32 word" | SUInt64 "64 word" | SFloat double | SDouble double

fun conversion_operator :: "scalar_type \<Rightarrow> JSValue \<Rightarrow> scalar option" where
  "conversion_operator TString v = Some (SString (AsString v))"
| "conversion_operator TBool v = Some (SBool (AsBoolean v))"
| "conversion_operator TInt8 v = map_option SInt8 (AsInt8 v)"
| "conversion_operator TInt16 v = map_option SInt16 (AsInt16 v)"
| "conversion_operator TInt32 v = map_option SInt32 (AsInt32 v)"
| "conversion_operator TInt64 v = map_option SInt64 (AsInt64 v)"
| "conversion_operator TUInt8 v = map_option SUInt8 (AsUInt8 v)"
| "conversion_operator TUInt16 v = map_option SUInt16 (AsUInt16 v)"
| "conversion_operator TUInt32 v = map_option SUInt32 (AsUInt32 v)"
| "conversion_operator TUInt64 v = map_option SUInt64 (AsUInt64 v)"
| "conversion_operator TFloat v = Some (SFloat (AsSingle v))"
| "conversion_operator TDouble v = Some (SDouble (AsDouble v))"

fun To_scalar :: "scalar_type \<Rightarrow> JSValue \<Rightarrow> scalar option" where
  "To_scalar TString v = Some (SString (AsString v))"
| "To_scalar TBool v = Some (SBool (AsBoolean v))"
| "To_scalar TInt8 v = map_option SInt8 (AsInt8 v)"
| "To_scalar TInt16 v = map_option SInt16 (AsInt16 v)"
| "To_scalar TInt32 v = map_option SInt32 (AsInt32 v)"
| "To_scalar TInt64 v = map_option SInt64 (AsInt64 v)"
| "To_scalar TUInt8 v = map_option SUInt8 (AsUInt8 v)"
| "To_scalar TUInt16 v = map_option SUInt16 (AsUInt16 v)"
| "To_scalar TUInt32 v = map_option SUInt32 (AsUInt32 v)"
| "To_scalar TUInt64 v = map_option SUInt64 (AsUInt64 v)"
| "To_scalar TFloat v = Some (SFloat (AsSingle v))"
| "To_scalar TDouble v = Some (SDouble (AsDouble v))"

text \<open>The overload of \<^verbatim>\<open>ReadValue\<close> for the same type.\<close>

fun ReadValue_scalar :: "winrt_text \<Rightarrow> 'r IJSValueReader \<Rightarrow> scalar_type \<Rightarrow> 'r \<Rightarrow> scalar option" where
  "ReadValue_scalar W I TString r = Some (SString (read_string W I r))"
| "ReadValue_scalar W I TBool r = Some (SBool (read_bool W I r))"
| "ReadValue_scalar W I TInt8 r = map_option SInt8 (read_int8 I r)"
| "ReadValue_scalar W I TInt16 r = map_option SInt16 (read_int16 I r)"
| "ReadValue_scalar W I TInt32 r = map_option SInt32 (read_int32 I r)"
| "ReadValue_scalar W I TInt64 r = map_option SInt64 (read_int64 I r)"
| "ReadValue_scalar W I TUInt8 r = map_option SUInt8 (read_uint8 I r)"
| "ReadValue_scalar W I TUInt16 r = map_option SUInt16 (read_uint16 I r)"
| "ReadValue_scalar W I TUInt32 r = map_option SUInt32 (read_uint32 I r)"
| "ReadValue_scalar W I TUInt64 r = map_option SUInt64 (read_uint64 I r)"
| "ReadValue_scalar W I TFloat r = Some (SFloat (read_float I r))"
| "ReadValue_scalar W I TDouble r = Some (SDouble (read_double I r))"

text \<open>The deprecated accessors: the value of exactly this type, or the empty one.\<close>

definition Deprecated_String :: "JSValue \<Rightarrow> string" where
  "Deprecated_String v = (case TryGetString v of Some s \<Rightarrow> s | None \<Rightarrow> [])"

definition Deprecated_Boolean :: "JSValue \<Rightarrow> bool" where
  "Deprecated_Boolean v = (case TryGetBoolean v of Some b \<Rightarrow> b | None \<Rightarrow> False)"

definition Deprecated_Int64 :: "JSValue \<Rightarrow> int64" where
  "Deprecated_Int64 v = (case TryGetInt64 v of Some i \<Rightarrow> i | None \<Rightarrow> 0)"

definition Deprecated_Double :: "JSValue \<Rightarrow> double" where
  "Deprecated_Double v = (case TryGetDouble v of Some x \<Rightarrow> x | None \<Rightarrow> dzero)"

lemmas read_scalar_defs = read_string_def read_bool_def read_int8_def read_int16_def read_int32_def read_int64_def
  read_uint8_def read_uint16_def read_uint32_def read_uint64_def read_float_def read_double_def
lemmas as_scalar_defs = AsInt8_def AsInt16_def AsInt32_def AsUInt8_def AsUInt16_def AsUInt32_def AsUInt64_def
  AsSingle_def ToCString_def
lemmas tree_getter_defs = TreeReader_def MakeJSValueTreeReader_def tree_GetBoolean_def tree_GetInt64_def

lemma conversions_agree_Boolean:
  "ReadValue_scalar W (TreeReader W) t (MakeJSValueTreeReader (Boolean b)) = To_scalar t (Boolean b)"
  by (cases t) (simp_all add: read_scalar_defs as_scalar_defs tree_getter_defs)

lemma conversions_agree_Int64:
  "ReadValue_scalar W (TreeReader W) t (MakeJSValueTreeReader (Int64 i)) = To_scalar t (Int64 i)"
  by (cases t) (simp_all add: read_scalar_defs as_scalar_defs tree_getter_defs)


end
