(* ===== verification/WellFormedValues.thy ===== *)
theory WellFormedValues
  imports JSValueIO
begin

text \<open>
  Everything that reading and writing build is well-formed, whatever the reader delivers and in whatever
  order the writer is called: the keys of its objects are in order, each once.
\<close>

lemma property_loop_keeps:
  assumes "property_loop n I body c r = Some (c', r')" and "P c"
    and "\<And>name c r c' r'. P c \<Longrightarrow> body name c r = Some (c', r') \<Longrightarrow> P c'"
  shows "P c'"
  using assms(1,2)
  by (induction n arbitrary: c r) (auto split: prod.splits bool.splits option.splits intro: assms(3))

lemma item_loop_keeps:
  assumes "item_loop n I rv arr r = Some (arr', r')" and "\<forall>v \<in> set arr. P v"
    and "\<And>r v r'. rv r = Some (v, r') \<Longrightarrow> P v"
  shows "\<forall>v \<in> set arr'. P v"
  using assms(1,2)
proof (induction n arbitrary: arr r)
  case (Suc n)
  obtain more r1 where next_item: "GetNextArrayItem I r = (more, r1)" by fastforce
  show ?case
  proof (cases more)
    case False
    then show ?thesis using Suc.prems next_item by simp
  next
    case True
    then obtain v1 r2 where v1: "rv r1 = Some (v1, r2)" "item_loop n I rv (arr @ [v1]) r2 = Some (arr', r')"
      using Suc.prems(1) next_item by (auto split: option.splits)
    show ?thesis by (rule Suc.IH [OF v1(2)]) (use Suc.prems(2) assms(3) [OF v1(1)] in simp)
  qed
qed simp

lemma snd_set_try_emplace: "snd ` set (try_emplace k v ps) \<subseteq> insert v (snd ` set ps)"
  by (induction ps rule: try_emplace.induct) auto

definition wf_object :: "JSValueObject \<Rightarrow> bool" where
  "wf_object ps \<longleftrightarrow> wf_js (Object ps)"

lemma wf_object_emplace: "wf_object ps \<Longrightarrow> wf_js v \<Longrightarrow> wf_object (try_emplace k v ps)"
proof -
  assume ps: "wf_object ps" and v: "wf_js v"
  have "wf_js (snd p)" if "p \<in> set (try_emplace k v ps)" for p
    using snd_set_try_emplace [of k v ps] that ps v by (force simp: wf_object_def)
  then show ?thesis using ps by (simp add: wf_object_def)
qed

lemma wf_object_Nil [simp]: "wf_object []"
  by (simp add: wf_object_def smap_def)

lemma ReadFrom_well_formed: "ReadFrom n W I r = Some (v, r') \<Longrightarrow> wf_js v"
proof (induction n arbitrary: r v r')
  case (Suc n)
  show ?case
  proof (cases "ValueType I r")
    case TypeObject
    then obtain ps where v: "v = Object ps" "property_loop n I (emplace_with W (ReadFrom n W I)) [] r = Some (ps, r')"
      using Suc.prems by (auto simp: read_object_def)
    have "wf_object ps"
      by (rule property_loop_keeps [OF v(2)])
        (auto simp: emplace_with_def intro: wf_object_emplace Suc.IH split: option.splits)
    then show ?thesis by (simp add: v(1) wf_object_def)
  next
    case TypeArray
    then obtain vs where v: "v = Array vs" "item_loop n I (ReadFrom n W I) [] r = Some (vs, r')"
      using Suc.prems by (auto simp: read_array_def)
    then show ?thesis using item_loop_keeps [OF v(2), of wf_js] Suc.IH by auto
  qed (use Suc.prems in auto)
qed simp

definition writer_well_formed :: "JSValueTreeWriter \<Rightarrow> bool" where
  "writer_well_formed w \<longleftrightarrow> wf_js (m_resultValue w) \<and>
     (\<forall>c \<in> set (m_containerStack w). wf_object (CObject c) \<and> (\<forall>v \<in> set (CArray c). wf_js v))"

lemma WriteValue_well_formed:
  assumes "tree_WriteValue v w = Some w'" and "wf_js v" and "writer_well_formed w"
  shows "writer_well_formed w'"
  using assms
  by (auto simp: tree_WriteValue_def writer_well_formed_def wf_object_emplace split: list.splits ContainerType.splits)

lemma writer_step_well_formed:
  assumes "tree_writer_step W w w'" and "writer_well_formed w"
  shows "writer_well_formed w'"
  using assms
proof cases
  case obj_end
  then obtain c stack where c: "m_containerStack w = c # stack" "tree_WriteValue (Object (CObject c)) (w\<lparr>m_containerStack := stack\<rparr>) = Some w'"
    by (auto simp: TreeWriter_def tree_WriteObjectEnd_def split: list.splits if_splits)
  show ?thesis
    by (rule WriteValue_well_formed [OF c(2)]) (use assms(2) c(1) in \<open>simp_all add: writer_well_formed_def wf_object_def\<close>)
next
  case arr_end
  then obtain c stack where c: "m_containerStack w = c # stack" "tree_WriteValue (Array (CArray c)) (w\<lparr>m_containerStack := stack\<rparr>) = Some w'"
    by (auto simp: TreeWriter_def tree_WriteArrayEnd_def split: list.splits if_splits)
  show ?thesis
    by (rule WriteValue_well_formed [OF c(2)]) (use assms(2) c(1) in \<open>simp_all add: writer_well_formed_def\<close>)
next
  case take
  then show ?thesis
    using assms(2) by (cases "m_resultValue w") (auto simp: TakeJSValue_def move_construct_def writer_well_formed_def)
next
  case (prop_name s)
  then show ?thesis
    using assms(2) by (auto simp: TreeWriter_def tree_WritePropertyName_def writer_well_formed_def split: list.splits if_splits)
next
  case obj_begin
  then show ?thesis using assms(2) by (auto simp: TreeWriter_def tree_WriteBegin_def new_container_def writer_well_formed_def)
next
  case arr_begin
  then show ?thesis using assms(2) by (auto simp: TreeWriter_def tree_WriteBegin_def new_container_def writer_well_formed_def)
qed (simp_all add: TreeWriter_def WriteValue_well_formed [OF _ _ assms(2)])

lemma writer_run_well_formed:
  assumes "(tree_writer_step W)\<^sup>*\<^sup>* MakeJSValueTreeWriter w"
  shows "writer_well_formed w"
  using assms
proof induction
  case base
  show ?case by (simp add: writer_well_formed_def MakeJSValueTreeWriter_def new_container_def)
qed (rule writer_step_well_formed)


text \<open>A reader of an object that delivers the same name twice.\<close>

definition repeating_reader :: "nat IJSValueReader" where
  "repeating_reader = \<lparr>ValueType = \<lambda>r. if r = 0 then TypeObject else TypeNull,
     GetNextObjectProperty = \<lambda>r. (r < 2, to_hstring ascii_text ''a'', Suc r), GetNextArrayItem = \<lambda>r. (False, r), GetString = \<lambda>_. [],
     GetBoolean = \<lambda>_. False, GetInt64 = \<lambda>_. 0, GetDouble = \<lambda>_. dzero\<rparr>"


end
