(* ===== verification/FutureCore.thy ===== *)
theory FutureCore
  imports Prelude
begin

text \<open>
  The core of the future library of Mso: the packed state word, the traits and the memory layout
  of a future (\<^verbatim>\<open>Mso/src/future/futureImpl.h\<close>, \<^verbatim>\<open>futureImpl.cpp\<close>,
  \<^verbatim>\<open>Mso/future/details/ifuture.h\<close>), and every state transition of a single future. Each
  transition of the code is a loop around \<^verbatim>\<open>compare_exchange_weak\<close> that computes the new
  word from the word it read; the model has the atomic effect of its last, successful round
  (theory \<open>FutureThreads\<close> interleaves them).
\<close>

unbundle bit_operations_syntax

section \<open>FutureState and FuturePackedData\<close>

datatype FutureState =
  Pending | Posting | Posted | Invoking | Awaiting | SettingResult | Succeeded | Failed

type_synonym uintptr = "64 word"

fun state_code :: "FutureState \<Rightarrow> uintptr" where
  "state_code Pending = 0"
| "state_code Posting = 1"
| "state_code Posted = 2"
| "state_code Invoking = 3"
| "state_code Awaiting = 4"
| "state_code SettingResult = 5"
| "state_code Succeeded = 6"
| "state_code Failed = 7"

definition state_of_code :: "uintptr \<Rightarrow> FutureState" where
  "state_of_code c = (if c = 0 then Pending else if c = 1 then Posting else if c = 2 then Posted
     else if c = 3 then Invoking else if c = 4 then Awaiting else if c = 5 then SettingResult
     else if c = 6 then Succeeded else Failed)"

type_synonym FuturePackedData = "64 word"

definition StateMask :: uintptr where
  "StateMask = 0b0111"

definition ContinuationMask :: uintptr where
  "ContinuationMask = NOT StateMask"

definition ContinuationInvoked :: uintptr where
  "ContinuationInvoked = (- 1) AND ContinuationMask"

definition GetState :: "FuturePackedData \<Rightarrow> FutureState" where
  "GetState d = state_of_code (d AND StateMask)"

definition GetContinuation :: "FuturePackedData \<Rightarrow> uintptr" where
  "GetContinuation d = d AND ContinuationMask"

definition done_state :: "FutureState \<Rightarrow> bool" where
  "done_state s \<longleftrightarrow> s = Succeeded \<or> s = Failed"

definition Packed_IsDone :: "FuturePackedData \<Rightarrow> bool" where
  "Packed_IsDone d \<longleftrightarrow> done_state (GetState d)"

definition Packed_IsSucceeded :: "FuturePackedData \<Rightarrow> bool" where
  "Packed_IsSucceeded d \<longleftrightarrow> GetState d = Succeeded"

definition Packed_IsFailed :: "FuturePackedData \<Rightarrow> bool" where
  "Packed_IsFailed d \<longleftrightarrow> GetState d = Failed"

definition Packed_Make :: "FutureState \<Rightarrow> FuturePackedData" where
  "Packed_Make s = state_code s"

definition Packed_MakeCont :: "FutureState \<Rightarrow> uintptr \<Rightarrow> FuturePackedData" where
  "Packed_MakeCont s c = c OR state_code s"

definition VerifyAlignment :: "uintptr \<Rightarrow> bool" where
  "VerifyAlignment c \<longleftrightarrow> c AND ContinuationMask = c"

lemma state_of_code_state_code [simp]: "state_of_code (state_code s) = s"
  by (cases s) (simp_all add: state_of_code_def)

lemma state_code_mask [simp]: "state_code s AND StateMask = state_code s" "state_code s AND ContinuationMask = 0"
  by (cases s; simp add: StateMask_def ContinuationMask_def)+

lemma aligned_parts: "c AND ContinuationMask = c \<Longrightarrow> c AND StateMask = 0"
proof -
  assume "c AND ContinuationMask = c"
  then have "c AND StateMask = (c AND ContinuationMask) AND StateMask" by simp
  also have "\<dots> = c AND (ContinuationMask AND StateMask)" by (simp only: and.assoc)
  finally show "c AND StateMask = 0" by (simp add: ContinuationMask_def StateMask_def)
qed

lemma VerifyAlignment_GetContinuation [simp]: "VerifyAlignment (GetContinuation d)"
  by (simp add: VerifyAlignment_def GetContinuation_def and.assoc)

lemma VerifyAlignment_special [simp]: "VerifyAlignment 0" "VerifyAlignment ContinuationInvoked"
  by (simp_all add: VerifyAlignment_def ContinuationInvoked_def)

lemma packed_roundtrip [simp]:
  assumes "VerifyAlignment c"
  shows "GetState (Packed_MakeCont s c) = s" and "GetContinuation (Packed_MakeCont s c) = c"
  using assms aligned_parts [of c]
  by (simp_all add: VerifyAlignment_def GetState_def GetContinuation_def Packed_MakeCont_def
      bit.conj_disj_distrib2)

lemma packed_make [simp]: "GetState (Packed_Make s) = s" "GetContinuation (Packed_Make s) = 0"
  by (simp_all add: Packed_Make_def GetState_def GetContinuation_def)

lemma ContinuationInvoked_not_null [simp]: "ContinuationInvoked \<noteq> 0"
  by (simp add: ContinuationInvoked_def ContinuationMask_def StateMask_def)

section \<open>FutureOptions and FutureTraits\<close>

type_synonym FutureOptions = "32 word"

definition OptionsNone :: FutureOptions where "OptionsNone = 0x00"
definition IsShared :: FutureOptions where "IsShared = 0x01"
definition UseParentValue :: FutureOptions where "UseParentValue = 0x02"
definition IsMultiPost :: FutureOptions where "IsMultiPost = 0x04"
definition DestroyTaskAfterInvoke :: FutureOptions where "DestroyTaskAfterInvoke = 0x08"
definition CancelIfUnfulfilled :: FutureOptions where "CancelIfUnfulfilled = 0x10"
definition CallTaskInvokeOnError :: FutureOptions where "CallTaskInvokeOnError = 0x20"

definition IsSet :: "FutureOptions \<Rightarrow> FutureOptions \<Rightarrow> bool" where
  "IsSet options flag \<longleftrightarrow> options AND flag \<noteq> 0"

text \<open>A callback slot of the traits is present or null; what the callbacks do is a parameter later.\<close>

record FutureTraits =
  Options :: FutureOptions
  ValueSize :: uintptr
  ValueDestroy :: bool
  TaskDestroy :: bool
  TaskPost :: bool
  TaskInvoke :: bool
  TaskCatch :: bool

abbreviation option_set :: "FutureTraits \<Rightarrow> FutureOptions \<Rightarrow> bool" where
  "option_set t flag \<equiv> IsSet (Options t) flag"

text \<open>The checks of \<^verbatim>\<open>MakeFuture\<close>; a future is only made if they hold.\<close>

definition traits_ok :: "FutureTraits \<Rightarrow> bool" where
  "traits_ok t \<longleftrightarrow>
     (option_set t UseParentValue \<longrightarrow> ValueSize t = 0) \<and>
     (TaskPost t \<longrightarrow> TaskInvoke t \<or> TaskCatch t) \<and>
     (option_set t IsMultiPost \<longrightarrow>
        \<not> TaskPost t \<and> TaskInvoke t \<and> TaskCatch t \<and> \<not> option_set t UseParentValue)"

section \<open>Memory layout\<close>

definition ObjectAlignment :: uintptr where
  "ObjectAlignment = 8"

definition IsAligned :: "uintptr \<Rightarrow> bool" where
  "IsAligned p \<longleftrightarrow> p AND (ObjectAlignment - 1) = 0"

definition GetAlignedSize :: "uintptr \<Rightarrow> uintptr" where
  "GetAlignedSize n = (n + ObjectAlignment - 1) AND NOT (ObjectAlignment - 1)"

text \<open>The sizes of the two classes are those of the compiler: parameters \<open>impl\<close> and \<open>callback\<close>.\<close>

record future_layout =
  futureImplOffset :: uintptr
  futureCallbackOffset :: uintptr
  valueOffset :: uintptr
  taskOffset :: uintptr
  memorySize :: uintptr

definition MakeFuture_layout :: "uintptr \<Rightarrow> uintptr \<Rightarrow> FutureTraits \<Rightarrow> uintptr \<Rightarrow> future_layout" where
  "MakeFuture_layout impl callback t taskSize =
     (let i = GetAlignedSize ObjectAlignment;
          c = GetAlignedSize (i + impl);
          v = GetAlignedSize (c + (if TaskPost t then callback else 0));
          k = GetAlignedSize (v + ValueSize t)
      in \<lparr>futureImplOffset = i, futureCallbackOffset = c, valueOffset = v, taskOffset = k,
          memorySize = k + taskSize\<rparr>)"

text \<open>The accessors compute the same places from the address of the \<^verbatim>\<open>FutureImpl\<close> object.\<close>

definition GetCallback :: "uintptr \<Rightarrow> FutureTraits \<Rightarrow> uintptr \<Rightarrow> uintptr option" where
  "GetCallback impl t this = (if TaskPost t then Some (this + GetAlignedSize impl) else None)"

definition GetValueInternal :: "uintptr \<Rightarrow> uintptr \<Rightarrow> FutureTraits \<Rightarrow> uintptr \<Rightarrow> uintptr option" where
  "GetValueInternal impl callback t this =
     (if ValueSize t > 0 then
        (let m = (if TaskPost t then callback + GetAlignedSize impl else impl)
         in Some (this + GetAlignedSize m))
      else None)"

definition GetTask :: "uintptr \<Rightarrow> uintptr \<Rightarrow> FutureTraits \<Rightarrow> uintptr \<Rightarrow> uintptr \<Rightarrow> uintptr option" where
  "GetTask impl callback t taskSize this =
     (if taskSize > 0 then
        (let m = (if TaskPost t then callback + GetAlignedSize impl else impl);
             m' = (if ValueSize t > 0 then ValueSize t + GetAlignedSize m else m)
         in Some (this + GetAlignedSize m'))
      else None)"

definition Callback_GetFutureImpl :: "uintptr \<Rightarrow> uintptr \<Rightarrow> uintptr" where
  "Callback_GetFutureImpl impl cb = cb - impl"

definition GetFutureWeakRef :: "uintptr \<Rightarrow> uintptr" where
  "GetFutureWeakRef p = p - ObjectAlignment"

lemma mask3: "(7 :: uintptr) = mask 3"
  by (simp add: mask_eq_exp_minus_1)

lemma and_not_mask3: "x AND NOT 7 = x - take_bit 3 (x :: uintptr)"
proof -
  have "(x AND NOT 7) + (x AND 7) = (x AND NOT 7) OR (x AND 7)"
    by (rule disjunctive_add) (auto simp: bit_simps)
  also have "\<dots> = x" by (simp flip: bit.conj_disj_distrib)
  finally show ?thesis by (simp add: mask3 take_bit_eq_mask algebra_simps)
qed

lemma take_bit_3_add: "take_bit 3 (take_bit 3 a + take_bit 3 b) = take_bit 3 (a + b :: uintptr)"
  by transfer (simp add: take_bit_add)

lemma GetAlignedSize_alt: "GetAlignedSize x = x + 7 - take_bit 3 (x + 7)"
  unfolding GetAlignedSize_def ObjectAlignment_def by (simp add: and_not_mask3 [symmetric] add.commute)

lemma IsAligned_alt: "IsAligned x \<longleftrightarrow> take_bit 3 x = 0"
  by (simp add: IsAligned_def ObjectAlignment_def mask3 take_bit_eq_mask)

lemma GetAlignedSize_aligned [simp]: "IsAligned (GetAlignedSize x)"
  by (simp add: IsAligned_def GetAlignedSize_def ObjectAlignment_def and.assoc)

lemma GetAlignedSize_shift: "IsAligned a \<Longrightarrow> GetAlignedSize (a + x) = a + GetAlignedSize x"
proof -
  assume "IsAligned a"
  then have "take_bit 3 (a + (x + 7)) = take_bit 3 (x + 7)"
    using take_bit_3_add [of a "x + 7"] by (simp add: IsAligned_alt)
  then show ?thesis by (simp add: GetAlignedSize_alt add.assoc)
qed

lemma GetAlignedSize_id: "IsAligned a \<Longrightarrow> GetAlignedSize a = a"
  using GetAlignedSize_shift [of a 0] by (simp add: GetAlignedSize_alt mask3 flip: take_bit_eq_mask)

lemma GetAlignedSize_shift': "IsAligned a \<Longrightarrow> GetAlignedSize (x + a) = a + GetAlignedSize x"
  by (subst add.commute) (rule GetAlignedSize_shift)

lemma GetAlignedSize_0 [simp]: "GetAlignedSize 0 = 0"
  by (rule GetAlignedSize_id) (simp add: IsAligned_def)

lemma GetAlignedSize_idem [simp]: "GetAlignedSize (GetAlignedSize x) = GetAlignedSize x"
  by (simp add: GetAlignedSize_id)

lemma aligned_add: "IsAligned a \<Longrightarrow> IsAligned b \<Longrightarrow> IsAligned (a + b)"
  using take_bit_3_add [of a b] by (simp add: IsAligned_alt)

lemma aligned_8 [simp]: "IsAligned 8"
  by (simp add: IsAligned_def ObjectAlignment_def)

lemma layout_offsets:
  fixes impl callback taskSize memory :: uintptr and t :: FutureTraits
  defines "L \<equiv> MakeFuture_layout impl callback t taskSize"
  shows "GetCallback impl t (memory + futureImplOffset L) =
      (if TaskPost t then Some (memory + futureCallbackOffset L) else None)"
    and "GetValueInternal impl callback t (memory + futureImplOffset L) =
      (if ValueSize t > 0 then Some (memory + valueOffset L) else None)"
    and "GetTask impl callback t taskSize (memory + futureImplOffset L) =
      (if taskSize > 0 then Some (memory + taskOffset L) else None)"
  unfolding L_def
  by (auto simp: MakeFuture_layout_def GetCallback_def GetValueInternal_def GetTask_def Let_def ObjectAlignment_def
      GetAlignedSize_id GetAlignedSize_shift GetAlignedSize_shift' word_gt_0)

section \<open>FutureImpl\<close>

text \<open>
  The fields of a future. \<open>m_value\<close> is the storage of the value, \<open>m_isCalled\<close> the flag of the
  \<^verbatim>\<open>FutureCallback\<close> object, which exists once the future has been posted;
  \<open>TaskDestroy_calls\<close> counts the calls of the \<^verbatim>\<open>TaskDestroy\<close> callback.
\<close>

record ('e, 'v) FutureImpl =
  m_traits :: FutureTraits
  m_stateAndContinuation :: FuturePackedData
  m_link :: uintptr
  m_error :: "'e option"
  m_taskSize :: nat
  m_value :: "'v option"
  m_isCalled :: "bool option"
  TaskDestroy_calls :: nat

definition FutureImpl_new :: "FutureTraits \<Rightarrow> nat \<Rightarrow> ('e, 'v) FutureImpl" where
  "FutureImpl_new t taskSize = \<lparr>m_traits = t, m_stateAndContinuation = 0, m_link = 0, m_error = None,
     m_taskSize = taskSize, m_value = None, m_isCalled = None, TaskDestroy_calls = 0\<rparr>"

abbreviation fstate :: "('e, 'v) FutureImpl \<Rightarrow> FutureState" where
  "fstate f \<equiv> GetState (m_stateAndContinuation f)"

abbreviation fcont :: "('e, 'v) FutureImpl \<Rightarrow> uintptr" where
  "fcont f \<equiv> GetContinuation (m_stateAndContinuation f)"

text \<open>
  A method may crash the process (\<^verbatim>\<open>VerifyElseCrash\<close>), wait for another thread and try again, or
  return.
\<close>

datatype 'a outcome = Crash | Wait | Return 'a

definition Verify :: "bool \<Rightarrow> 'a outcome \<Rightarrow> 'a outcome" where
  "Verify condition rest = (if condition then rest else Crash)"

definition UnexpectedState :: "bool \<Rightarrow> 'a \<Rightarrow> 'a outcome" where
  "UnexpectedState crashIfFailed refused = (if crashIfFailed then Crash else Return refused)"

definition IsVoidValue :: "('e, 'v) FutureImpl \<Rightarrow> bool" where
  "IsVoidValue f \<longleftrightarrow> ValueSize (m_traits f) = 0"

definition HasContinuation :: "('e, 'v) FutureImpl \<Rightarrow> bool" where
  "HasContinuation f \<longleftrightarrow> fcont f \<noteq> 0 \<and> fcont f \<noteq> ContinuationInvoked"

text \<open>Change the state and keep the continuation.\<close>

definition set_state :: "FutureState \<Rightarrow> ('e, 'v) FutureImpl \<Rightarrow> ('e, 'v) FutureImpl" where
  "set_state s f = f\<lparr>m_stateAndContinuation := Packed_MakeCont s (fcont f)\<rparr>"

definition DestroyTask :: "bool \<Rightarrow> ('e, 'v) FutureImpl \<Rightarrow> ('e, 'v) FutureImpl" where
  "DestroyTask isAfterInvoke f =
     (if m_taskSize f > 0 \<and> TaskDestroy (m_traits f) \<and>
         (\<not> isAfterInvoke \<or> option_set (m_traits f) DestroyTaskAfterInvoke)
      then f\<lparr>m_taskSize := 0, TaskDestroy_calls := TaskDestroy_calls f + 1\<rparr> else f)"

text \<open>\<open>sync\<close> is \<^verbatim>\<open>IsSynchronousCall()\<close>, \<open>crash\<close> the argument \<^verbatim>\<open>crashIfFailed\<close>.\<close>

definition TrySetInvoking :: "bool \<Rightarrow> bool \<Rightarrow> ('e, 'v) FutureImpl \<Rightarrow> (bool \<times> ('e, 'v) FutureImpl) outcome" where
  "TrySetInvoking sync crash f = (case fstate f of
       Posting \<Rightarrow> if sync then Return (True, set_state Invoking f) else Wait
     | Posted \<Rightarrow> Return (True, set_state Invoking f)
     | _ \<Rightarrow> UnexpectedState crash (False, f))"

definition TryStartSetValue :: "bool \<Rightarrow> bool \<Rightarrow> ('e, 'v) FutureImpl \<Rightarrow> (bool \<times> ('e, 'v) FutureImpl) outcome" where
  "TryStartSetValue sync crash f =
     (if ValueSize (m_traits f) = 0 then UnexpectedState crash (False, f)
      else case fstate f of
       Pending \<Rightarrow>
         if \<not> option_set (m_traits f) IsMultiPost \<and> TaskInvoke (m_traits f)
         then UnexpectedState crash (False, f) else Return (True, set_state SettingResult f)
     | Invoking \<Rightarrow>
         if sync then Return (True, set_state SettingResult f) else UnexpectedState crash (False, f)
     | Awaiting \<Rightarrow> Return (True, set_state SettingResult f)
     | _ \<Rightarrow> UnexpectedState crash (False, f))"

definition StartAwaiting :: "('e, 'v) FutureImpl \<Rightarrow> ('e, 'v) FutureImpl outcome" where
  "StartAwaiting f = (if fstate f = Invoking then Return (set_state Awaiting f) else Crash)"

text \<open>
  Setting the final state takes the continuation out of the word and leaves the marker
  \<^const>\<open>ContinuationInvoked\<close>, or null if there was none.
\<close>

definition take_continuation :: "FutureState \<Rightarrow> ('e, 'v) FutureImpl \<Rightarrow> ('e, 'v) FutureImpl" where
  "take_continuation s f = f\<lparr>m_stateAndContinuation :=
     Packed_MakeCont s (if fcont f \<noteq> 0 then ContinuationInvoked else 0)\<rparr>"

text \<open>Can \<^verbatim>\<open>TrySetSuccess\<close> move from the current state?\<close>

definition success_allowed :: "bool \<Rightarrow> ('e, 'v) FutureImpl \<Rightarrow> bool" where
  "success_allowed sync f = (case fstate f of
       Pending \<Rightarrow>
         (option_set (m_traits f) IsMultiPost \<or>
          \<not> TaskInvoke (m_traits f) \<and> \<not> option_set (m_traits f) UseParentValue) \<and> IsVoidValue f
     | Posting \<Rightarrow> \<not> TaskInvoke (m_traits f) \<and> sync \<and> option_set (m_traits f) UseParentValue
     | Invoking \<Rightarrow> sync \<and> IsVoidValue f
     | Awaiting \<Rightarrow> IsVoidValue f
     | SettingResult \<Rightarrow> True
     | _ \<Rightarrow> False)"

text \<open>The result has the continuation whose \<^verbatim>\<open>PostContinuation\<close> is due next.\<close>

definition TrySetSuccess ::
  "bool \<Rightarrow> bool \<Rightarrow> ('e, 'v) FutureImpl \<Rightarrow> (bool \<times> ('e, 'v) FutureImpl \<times> uintptr) outcome" where
  "TrySetSuccess sync crash f =
     (if success_allowed sync f then
        Verify (fcont f \<noteq> ContinuationInvoked)
          (Return (True,
             DestroyTask True ((take_continuation Succeeded f)
               \<lparr>m_link := (if option_set (m_traits f) UseParentValue then m_link f else 0), m_error := None\<rparr>),
             fcont f))
      else UnexpectedState crash (False, f, 0))"

definition TryStartSetError :: "bool \<Rightarrow> bool \<Rightarrow> ('e, 'v) FutureImpl \<Rightarrow> (bool \<times> ('e, 'v) FutureImpl) outcome" where
  "TryStartSetError sync crash f = (case fstate f of
       Pending \<Rightarrow>
         if m_link f = 0 then Return (True, set_state SettingResult f) else UnexpectedState crash (False, f)
     | Posted \<Rightarrow> Return (True, set_state SettingResult f)
     | Awaiting \<Rightarrow> Return (True, set_state SettingResult f)
     | Posting \<Rightarrow> if sync then Return (True, set_state SettingResult f) else Wait
     | Invoking \<Rightarrow>
         if sync then Return (True, set_state SettingResult f) else UnexpectedState crash (False, f)
     | _ \<Rightarrow> UnexpectedState crash (False, f))"

definition SetFailed :: "('e, 'v) FutureImpl \<Rightarrow> (('e, 'v) FutureImpl \<times> uintptr) outcome" where
  "SetFailed f =
     (if fstate f = SettingResult then
        Verify (fcont f \<noteq> ContinuationInvoked)
          (Return (DestroyTask True ((take_continuation Failed f)\<lparr>m_link := 0\<rparr>), fcont f))
      else Crash)"

definition TrySetPosted :: "bool \<Rightarrow> ('e, 'v) FutureImpl \<Rightarrow> (bool \<times> ('e, 'v) FutureImpl) outcome" where
  "TrySetPosted sync f = Verify sync
     (if fstate f = Posting then Return (True, set_state Posted f) else Return (False, f))"

text \<open>The first part of \<^verbatim>\<open>TryPostInternal\<close>: from \<open>Pending\<close> to \<open>Posting\<close>; the link is handed on.\<close>

definition TryStartPost :: "bool \<Rightarrow> ('e, 'v) FutureImpl \<Rightarrow> (bool \<times> ('e, 'v) FutureImpl \<times> uintptr) outcome" where
  "TryStartPost crash f =
     (if fstate f = Pending then Return (True, (set_state Posting f)\<lparr>m_link := 0\<rparr>, m_link f)
      else Verify (m_link f = 0) (UnexpectedState crash (False, f, 0)))"

text \<open>One future takes over the result of its parent before its task runs.\<close>

definition take_parent :: "uintptr \<Rightarrow> ('e, 'v) FutureImpl \<Rightarrow> ('e, 'v) FutureImpl \<Rightarrow> ('e, 'v) FutureImpl outcome" where
  "take_parent p parent f =
     (if done_state (fstate parent) then
        if \<not> option_set (m_traits f) CallTaskInvokeOnError then
          if fstate parent = Succeeded then Return (f\<lparr>m_link := p\<rparr>) else Return (f\<lparr>m_error := m_error parent\<rparr>)
        else Return (f\<lparr>m_link := p\<rparr>)
      else Crash)"

section \<open>Transitions\<close>

text \<open>The transitions drawn in the comment of \<^verbatim>\<open>futureImpl.h\<close>.\<close>

inductive documented :: "FutureState \<Rightarrow> FutureState \<Rightarrow> bool" where
  "documented Pending Succeeded"
| "documented Pending SettingResult"
| "documented Pending Posting"
| "documented Posting Succeeded"
| "documented Posting Invoking"
| "documented Posting Posted"
| "documented Posting SettingResult"
| "documented Posted Invoking"
| "documented Posted SettingResult"
| "documented Invoking Succeeded"
| "documented Invoking Awaiting"
| "documented Invoking SettingResult"
| "documented Awaiting Succeeded"
| "documented Awaiting SettingResult"
| "documented SettingResult Succeeded"
| "documented SettingResult Failed"

inductive_simps documented_simps [simp]: "documented Pending s" "documented Posting s" "documented Posted s"
  "documented Invoking s" "documented Awaiting s" "documented SettingResult s"
  "documented Succeeded s" "documented Failed s"

fun state_rank :: "FutureState \<Rightarrow> nat" where
  "state_rank Pending = 0"
| "state_rank Posting = 1"
| "state_rank Posted = 2"
| "state_rank Invoking = 3"
| "state_rank Awaiting = 4"
| "state_rank SettingResult = 5"
| "state_rank Succeeded = 6"
| "state_rank Failed = 6"

lemma documented_rank: "documented s s' \<Longrightarrow> state_rank s < state_rank s'"
  by (cases s) auto

lemma fstate_set_state [simp]: "fstate (set_state s f) = s" "fcont (set_state s f) = fcont f"
  by (simp_all add: set_state_def)

lemma set_state_fields [simp]:
  "m_traits (set_state s f) = m_traits f" "m_link (set_state s f) = m_link f" "m_error (set_state s f) = m_error f"
  "m_value (set_state s f) = m_value f" "m_taskSize (set_state s f) = m_taskSize f"
  "m_isCalled (set_state s f) = m_isCalled f" "TaskDestroy_calls (set_state s f) = TaskDestroy_calls f"
  by (simp_all add: set_state_def)

lemma take_continuation_fields [simp]:
  "fstate (take_continuation s f) = s" "m_traits (take_continuation s f) = m_traits f"
  "fcont (take_continuation s f) = (if fcont f \<noteq> 0 then ContinuationInvoked else 0)"
  "m_value (take_continuation s f) = m_value f" "m_error (take_continuation s f) = m_error f"
  "m_link (take_continuation s f) = m_link f"
  by (auto simp: take_continuation_def)

lemma DestroyTask_fields [simp]:
  "m_stateAndContinuation (DestroyTask b f) = m_stateAndContinuation f" "m_traits (DestroyTask b f) = m_traits f"
  "m_link (DestroyTask b f) = m_link f" "m_error (DestroyTask b f) = m_error f" "m_value (DestroyTask b f) = m_value f"
  "m_isCalled (DestroyTask b f) = m_isCalled f"
  by (auto simp: DestroyTask_def)

section \<open>Properties\<close>

text \<open>
  the state and the continuation are kept apart in one word: for an aligned continuation address,
  packing and unpacking are inverse, the marker for an invoked continuation is a valid
  non-null address, and every new word of a transition keeps the continuation.
\<close>

theorem packed_word_roundtrip:
  assumes "VerifyAlignment c"
  shows "GetState (Packed_MakeCont s c) = s \<and> GetContinuation (Packed_MakeCont s c) = c \<and>
    (Packed_MakeCont s c = Packed_MakeCont s' c' \<and> VerifyAlignment c' \<longrightarrow> s = s' \<and> c = c') \<and>
    VerifyAlignment ContinuationInvoked \<and> ContinuationInvoked \<noteq> 0"
  using assms packed_roundtrip [of c] packed_roundtrip [of c'] by (metis ContinuationInvoked_not_null VerifyAlignment_special(2))

theorem packed_word_roundtrip_witness:
  "VerifyAlignment 0x7FF0 \<and> GetState (Packed_MakeCont Awaiting 0x7FF0) = Awaiting"
  using packed_word_roundtrip [of "0x7FF0" Awaiting] by (simp add: VerifyAlignment_def ContinuationMask_def StateMask_def)

text \<open>
  C39: the places of the callback, the value and the task that the accessors compute from the address
  of the future are the places \<^verbatim>\<open>MakeFuture\<close> reserved, all are aligned in an aligned block; and
  the callback finds its future exactly if the size of the class is a multiple of eight.
\<close>

theorem future_layout_consistent:
  fixes impl callback taskSize memory :: uintptr and t :: FutureTraits
  assumes "IsAligned memory"
  defines "L \<equiv> MakeFuture_layout impl callback t taskSize"
  defines "this \<equiv> memory + futureImplOffset L"
  shows "GetCallback impl t this = (if TaskPost t then Some (memory + futureCallbackOffset L) else None) \<and>
    GetValueInternal impl callback t this = (if ValueSize t > 0 then Some (memory + valueOffset L) else None) \<and>
    GetTask impl callback t taskSize this = (if taskSize > 0 then Some (memory + taskOffset L) else None) \<and>
    IsAligned this \<and> IsAligned (memory + futureCallbackOffset L) \<and> IsAligned (memory + valueOffset L) \<and>
    IsAligned (memory + taskOffset L) \<and> GetFutureWeakRef this = memory \<and>
    (Callback_GetFutureImpl impl (memory + futureCallbackOffset L) = this \<longleftrightarrow> IsAligned impl)"
proof -
  have "GetAlignedSize impl = impl \<longleftrightarrow> IsAligned impl"
    by (metis GetAlignedSize_id GetAlignedSize_aligned)
  then have "Callback_GetFutureImpl impl (memory + futureCallbackOffset L) = this \<longleftrightarrow> IsAligned impl"
    by (auto simp: this_def L_def MakeFuture_layout_def Let_def Callback_GetFutureImpl_def ObjectAlignment_def
        GetAlignedSize_id GetAlignedSize_shift GetAlignedSize_shift' algebra_simps)
  moreover have "GetFutureWeakRef this = memory"
    by (simp add: this_def L_def MakeFuture_layout_def Let_def GetFutureWeakRef_def ObjectAlignment_def GetAlignedSize_id)
  ultimately show ?thesis
    using layout_offsets [where impl = impl and callback = callback and t = t and taskSize = taskSize and memory = memory] assms(1)
    by (simp add: this_def L_def) (simp add: MakeFuture_layout_def Let_def aligned_add)
qed

theorem future_layout_consistent_witness:
  "IsAligned 0x1000 \<and> GetFutureWeakRef (0x1000 + futureImplOffset (MakeFuture_layout 56 32
     \<lparr>Options = 0, ValueSize = 4, ValueDestroy = False, TaskDestroy = False, TaskPost = True, TaskInvoke = True,
       TaskCatch = False\<rparr> 24)) = 0x1000"
proof -
  have "IsAligned 0x1000" by (simp add: IsAligned_def ObjectAlignment_def)
  with future_layout_consistent [OF this] show ?thesis by blast
qed

end
