(* ===== verification/FutureThreads.thy ===== *)
theory FutureThreads
  imports FutureCore
begin

text \<open>
  Futures under threads. A heap of futures is shared by threads, each of which runs the methods of
  \<^verbatim>\<open>FutureImpl\<close> as a stack of frames; one step executes one atomic section of one thread.
  The callbacks of the traits are user code: lists of calls of \<^verbatim>\<open>IFuture\<close> methods that
  depend on the heap. Memory is reclaimed by reference counts, which theory \<open>RefCount\<close> has;
  here a future stays in the heap.
\<close>

section \<open>Programs and threads\<close>

type_synonym ('e, 'v) heap = "uintptr \<rightharpoonup> ('e, 'v) FutureImpl"

datatype ('e, 'v) action =
    ASetValue uintptr 'v
  | ATrySetValue uintptr 'v
  | ATrySetSuccess uintptr bool
  | ATrySetError uintptr "'e option" bool
  | AStartAwaiting uintptr
  | APost uintptr
  | AAddContinuation uintptr uintptr
  | ACallbackInvoke uintptr
  | ACallbackCancel uintptr
  | ACallbackDestroy uintptr

text \<open>
  Frames: a call still to be made; the rest of the loop of \<^verbatim>\<open>PostContinuation\<close>; the end of
  \<^verbatim>\<open>TryPostInternal\<close> after the task was posted; the destructor of \<^verbatim>\<open>CurrentFutureImpl\<close>; the
  second halves of setting a value and an error; and \<^verbatim>\<open>FutureImpl::Invoke\<close> with the waiting
  rounds it has left.
\<close>

datatype ('e, 'v) frame =
    Call "('e, 'v) action"
  | PostContinuation uintptr uintptr
  | FinishPosted uintptr
  | LeaveFuture uintptr
  | FinishValue uintptr 'v
  | FinishError uintptr "'e option"
  | InvokeFuture uintptr nat

record ('e, 'v) thread =
  s_currentFutureTls :: uintptr
  frames :: "('e, 'v) frame list"

record ('e, 'v) tasks =
  on_post :: "uintptr \<Rightarrow> ('e, 'v) heap \<Rightarrow> ('e, 'v) action list"
  on_invoke :: "uintptr \<Rightarrow> uintptr \<Rightarrow> ('e, 'v) heap \<Rightarrow> ('e, 'v) action list"
  on_catch :: "uintptr \<Rightarrow> 'e option \<Rightarrow> ('e, 'v) heap \<Rightarrow> ('e, 'v) action list"
  cancellation :: 'e

definition waitCycles :: nat where
  "waitCycles = 10000"

text \<open>The effect of a frame: the frames to run next, the thread-local current future and the heap.\<close>

record ('e, 'v) effect =
  next_frames :: "('e, 'v) frame list"
  next_tls :: uintptr
  next_heap :: "('e, 'v) heap"
  invoked :: "uintptr list"

definition plain :: "('e, 'v) frame list \<Rightarrow> uintptr \<Rightarrow> ('e, 'v) heap \<Rightarrow> ('e, 'v) effect outcome" where
  "plain fs tls h = Return \<lparr>next_frames = fs, next_tls = tls, next_heap = h, invoked = []\<rparr>"

text \<open>Run a transition of the future at \<open>a\<close>; \<open>k\<close> gives the frames that follow.\<close>

definition on_future ::
  "('e, 'v) heap \<Rightarrow> uintptr \<Rightarrow> (('e, 'v) FutureImpl \<Rightarrow> 'b outcome) \<Rightarrow> ('b \<Rightarrow> ('e, 'v) effect outcome) \<Rightarrow>
   ('e, 'v) effect outcome" where
  "on_future h a m k = (case h a of
       None \<Rightarrow> Crash
     | Some f \<Rightarrow> (case m f of Crash \<Rightarrow> Crash | Wait \<Rightarrow> Wait | Return r \<Rightarrow> k r))"

section \<open>The methods\<close>

text \<open>\<^verbatim>\<open>TryPostInternal\<close>; \<open>p\<close> is the parent or null. It ends with the rest of the loop over the list.\<close>

definition TryPostInternal ::
  "('e, 'v) tasks \<Rightarrow> uintptr \<Rightarrow> uintptr \<Rightarrow> uintptr \<Rightarrow> bool \<Rightarrow> ('e, 'v) heap \<Rightarrow> ('e, 'v) effect outcome" where
  "TryPostInternal T tls p a crash h = (case h a of
     None \<Rightarrow> Crash
   | Some f \<Rightarrow>
     if \<not> option_set (m_traits f) IsMultiPost then
       (case TryStartPost crash f of
          Crash \<Rightarrow> Crash
        | Wait \<Rightarrow> Wait
        | Return (False, f', next) \<Rightarrow> plain [] tls h
        | Return (True, f', next) \<Rightarrow>
            Verify (p \<noteq> 0 \<or> next = 0)
              (case (if p = 0 then Return f'
                     else case h p of None \<Rightarrow> Crash | Some parent \<Rightarrow> take_parent p parent f') of
                 Crash \<Rightarrow> Crash
               | Wait \<Rightarrow> Wait
               | Return f'' \<Rightarrow>
                   let rest = (if p = 0 then [] else [PostContinuation p next])
                   in if TaskPost (m_traits f) then
                        (let h' = h(a \<mapsto> f''\<lparr>m_isCalled := Some False\<rparr>)
                         in plain (map Call (on_post T a h') @ [FinishPosted a, LeaveFuture tls] @ rest) a h')
                      else plain ([InvokeFuture a waitCycles, LeaveFuture tls] @ rest) a (h(a \<mapsto> f''))))
     else
       (case h p of
          None \<Rightarrow> Crash
        | Some parent \<Rightarrow>
            if fstate parent = Succeeded then plain (map Call (on_invoke T a p h) @ [LeaveFuture tls]) a h
            else if fstate parent = Failed then
              plain (map Call (on_catch T a (m_error parent) h) @ [LeaveFuture tls]) a
                (h(p \<mapsto> parent\<lparr>m_error := None\<rparr>))
            else Crash))"

text \<open>\<^verbatim>\<open>Invoke\<close>. The error of the parent is moved out before the catch callback gets it.\<close>

definition Invoke ::
  "('e, 'v) tasks \<Rightarrow> uintptr \<Rightarrow> uintptr \<Rightarrow> nat \<Rightarrow> ('e, 'v) heap \<Rightarrow> ('e, 'v) effect outcome" where
  "Invoke T tls a n h = (case h a of
     None \<Rightarrow> Crash
   | Some f \<Rightarrow>
     (case TrySetInvoking (tls = a) (tls = a) f of
        Crash \<Rightarrow> Crash
      | Wait \<Rightarrow> if n \<le> 1 then UnexpectedState (tls = a) \<lparr>next_frames = [], next_tls = tls, next_heap = h, invoked = []\<rparr>
                else plain [InvokeFuture a (n - 1)] tls h
      | Return (False, f') \<Rightarrow> plain [] tls h
      | Return (True, f') \<Rightarrow>
         (case m_error f' of
            None \<Rightarrow>
              if TaskInvoke (m_traits f) then
                (let h' = h(a \<mapsto> f')
                 in Return \<lparr>next_frames = map Call (on_invoke T a (m_link f') h') @ [LeaveFuture tls],
                      next_tls = a, next_heap = h', invoked = [a]\<rparr>)
              else if option_set (m_traits f) UseParentValue then
                Verify (m_link f' \<noteq> 0)
                  (plain [Call (ATrySetSuccess a True), LeaveFuture tls] a (h(a \<mapsto> f')))
              else Crash
          | Some e \<Rightarrow>
              (let h' = h(a \<mapsto> f'\<lparr>m_error := None\<rparr>)
               in if TaskCatch (m_traits f) then
                    Return \<lparr>next_frames = map Call (on_catch T a (Some e) h') @ [LeaveFuture tls],
                      next_tls = a, next_heap = h', invoked = [a]\<rparr>
                  else plain [Call (ATrySetError a (Some e) True), LeaveFuture tls] a h'))))"

definition AddContinuation ::
  "uintptr \<Rightarrow> uintptr \<Rightarrow> uintptr \<Rightarrow> ('e, 'v) heap \<Rightarrow> ('e, 'v) effect outcome" where
  "AddContinuation tls a c h = (case (h a, h c) of
     (Some f, Some g) \<Rightarrow>
       Verify (VerifyAlignment c \<and>
          (fcont f \<noteq> 0 \<longrightarrow> option_set (m_traits f) IsShared \<or>
             option_set (m_traits g) IsShared \<and> option_set (m_traits g) UseParentValue))
         (if done_state (fstate f) then
            plain [PostContinuation a c] tls
              (h(c \<mapsto> g\<lparr>m_link := 0\<rparr>, a \<mapsto> f\<lparr>m_stateAndContinuation := Packed_MakeCont (fstate f) ContinuationInvoked\<rparr>))
          else
            plain [] tls
              (h(c \<mapsto> g\<lparr>m_link := fcont f\<rparr>, a \<mapsto> f\<lparr>m_stateAndContinuation := Packed_MakeCont (fstate f) c\<rparr>)))
   | _ \<Rightarrow> Crash)"

text \<open>The two methods of \<^verbatim>\<open>FutureCallback\<close> and its destructor.\<close>

definition Callback_call ::
  "uintptr \<Rightarrow> uintptr \<Rightarrow> ('e, 'v) frame \<Rightarrow> ('e, 'v) heap \<Rightarrow> ('e, 'v) effect outcome" where
  "Callback_call tls a next h = (case h a of
     None \<Rightarrow> Crash
   | Some f \<Rightarrow> if m_isCalled f = Some False then plain [next] tls (h(a \<mapsto> f\<lparr>m_isCalled := Some True\<rparr>)) else Crash)"

definition Callback_destroy ::
  "('e, 'v) tasks \<Rightarrow> uintptr \<Rightarrow> uintptr \<Rightarrow> ('e, 'v) heap \<Rightarrow> ('e, 'v) effect outcome" where
  "Callback_destroy T tls a h = (case h a of
     None \<Rightarrow> Crash
   | Some f \<Rightarrow> (case m_isCalled f of
        None \<Rightarrow> Crash
      | Some called \<Rightarrow>
          plain (if called then [] else [Call (ATrySetError a (Some (cancellation T)) False)]) tls h))"

fun call_step ::
  "('e, 'v) tasks \<Rightarrow> uintptr \<Rightarrow> ('e, 'v) action \<Rightarrow> ('e, 'v) heap \<Rightarrow> ('e, 'v) effect outcome" where
  "call_step T tls (ASetValue a v) h =
     on_future h a (TryStartSetValue (tls = a) True) (\<lambda>(ok, f). plain [FinishValue a v] tls (h(a \<mapsto> f)))"
| "call_step T tls (ATrySetValue a v) h =
     on_future h a (TryStartSetValue (tls = a) False)
       (\<lambda>(ok, f). plain (if ok then [FinishValue a v] else []) tls (h(a \<mapsto> f)))"
| "call_step T tls (ATrySetSuccess a crash) h =
     on_future h a (TrySetSuccess (tls = a) crash)
       (\<lambda>(ok, f, c). plain (if ok then [PostContinuation a c] else []) tls (h(a \<mapsto> f)))"
| "call_step T tls (ATrySetError a e crash) h =
     on_future h a (TryStartSetError (tls = a) crash)
       (\<lambda>(ok, f). plain (if ok then [FinishError a e] else []) tls (h(a \<mapsto> f)))"
| "call_step T tls (AStartAwaiting a) h =
     on_future h a StartAwaiting (\<lambda>f. plain [] tls (h(a \<mapsto> f)))"
| "call_step T tls (APost a) h = TryPostInternal T tls 0 a True h"
| "call_step T tls (AAddContinuation a c) h = AddContinuation tls a c h"
| "call_step T tls (ACallbackInvoke a) h = Callback_call tls a (InvokeFuture a waitCycles) h"
| "call_step T tls (ACallbackCancel a) h =
     Callback_call tls a (Call (ATrySetError a (Some (cancellation T)) False)) h"
| "call_step T tls (ACallbackDestroy a) h = Callback_destroy T tls a h"

fun frame_step ::
  "('e, 'v) tasks \<Rightarrow> uintptr \<Rightarrow> ('e, 'v) frame \<Rightarrow> ('e, 'v) heap \<Rightarrow> ('e, 'v) effect outcome" where
  "frame_step T tls (Call act) h = call_step T tls act h"
| "frame_step T tls (PostContinuation p c) h =
     (if c = 0 then plain [] tls h else TryPostInternal T tls p c False h)"
| "frame_step T tls (FinishPosted a) h =
     on_future h a (TrySetPosted (tls = a)) (\<lambda>(_, f). plain [] tls (h(a \<mapsto> f)))"
| "frame_step T tls (LeaveFuture prev) h = plain [] prev h"
| "frame_step T tls (FinishValue a v) h =
     on_future h a (\<lambda>f. TrySetSuccess (tls = a) True (f\<lparr>m_value := Some v\<rparr>))
       (\<lambda>(_, f, c). plain [PostContinuation a c] tls (h(a \<mapsto> f)))"
| "frame_step T tls (FinishError a e) h =
     on_future h a (\<lambda>f. SetFailed (f\<lparr>m_error := e\<rparr>)) (\<lambda>(f, c). plain [PostContinuation a c] tls (h(a \<mapsto> f)))"
| "frame_step T tls (InvokeFuture a n) h = Invoke T tls a n h"

section \<open>The world\<close>

record ('e, 'v) world =
  the_heap :: "('e, 'v) heap"
  threads :: "('e, 'v) thread list"
  invocations :: "uintptr list"

definition thread_step :: "('e, 'v) tasks \<Rightarrow> nat \<Rightarrow> ('e, 'v) world \<Rightarrow> ('e, 'v) world outcome" where
  "thread_step T i w =
     (if i < length (threads w) then
        (case frames (threads w ! i) of
           [] \<Rightarrow> Wait
         | fr # frs \<Rightarrow>
             (case frame_step T (s_currentFutureTls (threads w ! i)) fr (the_heap w) of
                Crash \<Rightarrow> Crash
              | Wait \<Rightarrow> Wait
              | Return e \<Rightarrow> Return (w\<lparr>the_heap := next_heap e,
                  threads := (threads w)[i := \<lparr>s_currentFutureTls = next_tls e, frames = next_frames e @ frs\<rparr>],
                  invocations := invoked e @ invocations w\<rparr>)))
      else Wait)"

inductive world_step :: "('e, 'v) tasks \<Rightarrow> ('e, 'v) world \<Rightarrow> ('e, 'v) world \<Rightarrow> bool" for T where
  "thread_step T i w = Return w' \<Longrightarrow> world_step T w w'"

text \<open>A schedule names the thread of each step; a thread that has to wait is passed over.\<close>

fun run :: "('e, 'v) tasks \<Rightarrow> nat list \<Rightarrow> ('e, 'v) world \<Rightarrow> ('e, 'v) world outcome" where
  "run T [] w = Return w"
| "run T (i # is) w = (case thread_step T i w of
       Crash \<Rightarrow> Crash | Wait \<Rightarrow> run T is w | Return w' \<Rightarrow> run T is w')"

section \<open>Every step follows the documented transitions\<close>

definition advances :: "('e, 'v) FutureImpl \<Rightarrow> ('e, 'v) FutureImpl \<Rightarrow> bool" where
  "advances f f' \<longleftrightarrow> m_traits f' = m_traits f \<and> (fstate f' = fstate f \<or> documented (fstate f) (fstate f'))"

definition heap_advances :: "('e, 'v) heap \<Rightarrow> ('e, 'v) heap \<Rightarrow> bool" where
  "heap_advances h h' \<longleftrightarrow> dom h' = dom h \<and>
     (\<forall>a f. h a = Some f \<longrightarrow> (\<exists>f'. h' a = Some f' \<and> advances f f'))"

lemma advances_refl [simp, intro]: "advances f f"
  by (simp add: advances_def)

lemma heap_advances_refl [simp, intro]: "heap_advances h h"
  by (auto simp: heap_advances_def)

lemma heap_advances_upd [simp]: "h a = Some f \<Longrightarrow> heap_advances h (h(a \<mapsto> f')) \<longleftrightarrow> advances f f'"
  by (auto simp: heap_advances_def)

lemmas transition_defs = TrySetInvoking_def TryStartSetValue_def StartAwaiting_def TrySetSuccess_def
  success_allowed_def TryStartSetError_def SetFailed_def TrySetPosted_def TryStartPost_def take_parent_def
  UnexpectedState_def Verify_def

lemma transitions_advance:
  "TrySetInvoking s c f = Return (b, f') \<Longrightarrow> advances f f'"
  "TryStartSetValue s c f = Return (b, f') \<Longrightarrow> advances f f'"
  "StartAwaiting f = Return f' \<Longrightarrow> advances f f'"
  "TrySetSuccess s c f = Return (b, f', k) \<Longrightarrow> advances f f'"
  "TryStartSetError s c f = Return (b, f') \<Longrightarrow> advances f f'"
  "SetFailed f = Return (f', k) \<Longrightarrow> advances f f'"
  "TrySetPosted s f = Return (b, f') \<Longrightarrow> advances f f'"
  "TryStartPost c f = Return (b, f', k) \<Longrightarrow> advances f f'"
  by (auto simp: transition_defs advances_def split: FutureState.splits if_splits)

lemma take_parent_advances: "take_parent p parent f = Return f' \<Longrightarrow> fstate f' = fstate f \<and> m_traits f' = m_traits f"
  by (auto simp: take_parent_def split: if_splits)

lemma advances_fields [simp]:
  "advances f (f'\<lparr>m_error := e\<rparr>) = advances f f'" "advances f (f'\<lparr>m_isCalled := b\<rparr>) = advances f f'"
  "advances f (f'\<lparr>m_link := l\<rparr>) = advances f f'" "advances f (f'\<lparr>m_value := v\<rparr>) = advances f f'"
  "advances (f\<lparr>m_error := e\<rparr>) f' = advances f f'" "advances (f\<lparr>m_value := v\<rparr>) f' = advances f f'"
  by (simp_all add: advances_def)

lemma plain_Return: "plain fs t h = Return e \<longleftrightarrow> e = \<lparr>next_frames = fs, next_tls = t, next_heap = h, invoked = []\<rparr>"
  by (auto simp: plain_def)

lemma Verify_Return [simp]: "Verify b r = Return x \<longleftrightarrow> b \<and> r = Return x"
  by (simp add: Verify_def)

lemma on_future_Return: "on_future h a m k = Return e \<longleftrightarrow> (\<exists>f r. h a = Some f \<and> m f = Return r \<and> k r = Return e)"
  by (auto simp: on_future_def split: option.splits outcome.splits)

lemma TryPostInternal_advances: "TryPostInternal T tls p a c h = Return e \<Longrightarrow> heap_advances h (next_heap e)"
proof -
  assume e: "TryPostInternal T tls p a c h = Return e"
  then obtain f where f: "h a = Some f" by (auto simp: TryPostInternal_def split: option.splits)
  show ?thesis
  proof (cases "option_set (m_traits f) IsMultiPost")
    case True
    with e f show ?thesis
      by (auto simp: TryPostInternal_def plain_Return split: option.splits if_splits)
  next
    case False
    have "advances f f''" if "TryStartPost c f = Return (True, f', k)"
      "(if p = 0 then Return f' else case h p of None \<Rightarrow> Crash | Some parent \<Rightarrow> take_parent p parent f') = Return f''" for f' k f''
    proof -
      have "fstate f'' = fstate f' \<and> m_traits f'' = m_traits f'"
        using that(2) by (auto split: if_splits option.splits dest: take_parent_advances)
      with transitions_advance(8) [OF that(1)] show ?thesis by (simp add: advances_def)
    qed
    with e f False show ?thesis
      by (auto simp: TryPostInternal_def plain_Return Let_def split: outcome.splits prod.splits bool.splits if_splits)
  qed
qed

lemma Invoke_advances: "Invoke T tls a n h = Return e \<Longrightarrow> heap_advances h (next_heap e)"
  by (auto simp: Invoke_def plain_Return UnexpectedState_def Let_def split: option.splits outcome.splits prod.splits bool.splits if_splits
      dest: transitions_advance(1))

lemma AddContinuation_advances: "AddContinuation tls a c h = Return e \<Longrightarrow> heap_advances h (next_heap e)"
  by (auto simp: AddContinuation_def plain_Return heap_advances_def advances_def split: option.splits if_splits)

lemma call_step_advances: "call_step T tls act h = Return e \<Longrightarrow> heap_advances h (next_heap e)"
  by (cases act)
     (auto simp: on_future_Return plain_Return Callback_call_def Callback_destroy_def
       split: option.splits if_splits
       dest: transitions_advance TryPostInternal_advances AddContinuation_advances)

lemma frame_step_advances: "frame_step T tls fr h = Return e \<Longrightarrow> heap_advances h (next_heap e)"
proof (cases fr)
  case (FinishValue a v)
  moreover assume "frame_step T tls fr h = Return e"
  ultimately show ?thesis
    using transitions_advance(4) by (fastforce simp: on_future_Return plain_Return)
next
  case (FinishError a x)
  moreover assume "frame_step T tls fr h = Return e"
  ultimately show ?thesis
    using transitions_advance(6) by (fastforce simp: on_future_Return plain_Return)
qed (auto simp: on_future_Return plain_Return split: if_splits
       dest: transitions_advance Invoke_advances call_step_advances TryPostInternal_advances)

lemma world_step_advances: "world_step T w w' \<Longrightarrow> heap_advances (the_heap w) (the_heap w')"
  by (auto simp: thread_step_def elim!: world_step.cases split: if_splits list.splits outcome.splits
      dest!: frame_step_advances)

section \<open>A task is invoked at most once\<close>

lemma advances_rank: "advances f f' \<Longrightarrow> state_rank (fstate f) \<le> state_rank (fstate f')"
  using documented_rank [of "fstate f" "fstate f'"] by (auto simp: advances_def)

definition invocations_inv :: "('e, 'v) world \<Rightarrow> bool" where
  "invocations_inv w \<longleftrightarrow> distinct (invocations w) \<and>
     (\<forall>a \<in> set (invocations w). \<exists>f. the_heap w a = Some f \<and> state_rank Invoking \<le> state_rank (fstate f))"

lemma Invoke_invoked:
  assumes "Invoke T tls a n h = Return e"
  shows "invoked e = [] \<or> (\<exists>f f'. invoked e = [a] \<and> h a = Some f \<and> state_rank (fstate f) < state_rank Invoking \<and>
    next_heap e a = Some f' \<and> fstate f' = Invoking)"
  using assms
  by (auto simp: Invoke_def plain_Return UnexpectedState_def Let_def TrySetInvoking_def
      split: option.splits outcome.splits prod.splits bool.splits if_splits FutureState.splits)

lemma post_invoked:
  "TryPostInternal T tls p a c h = Return e \<Longrightarrow> invoked e = []"
  "AddContinuation tls p a h = Return e \<Longrightarrow> invoked e = []"
  by (auto simp: TryPostInternal_def AddContinuation_def plain_Return Let_def
      split: option.splits outcome.splits prod.splits bool.splits if_splits)

lemma call_invoked: "call_step T tls act h = Return e \<Longrightarrow> invoked e = []"
  by (cases act) (auto simp: on_future_Return plain_Return Callback_call_def Callback_destroy_def
       split: option.splits if_splits dest: post_invoked)

lemma frame_invoked:
  assumes "frame_step T tls fr h = Return e"
  shows "invoked e = [] \<or> (\<exists>a f f'. invoked e = [a] \<and> h a = Some f \<and> state_rank (fstate f) < state_rank Invoking \<and>
    next_heap e a = Some f' \<and> fstate f' = Invoking)"
proof (cases fr)
  case (InvokeFuture a n)
  with assms Invoke_invoked [of T tls a n h e] show ?thesis by auto
qed (use assms in \<open>auto simp: on_future_Return plain_Return split: if_splits dest: post_invoked call_invoked\<close>)

lemma world_stepE:
  assumes "world_step T w w'"
  obtains i fr frs e where "i < length (threads w)" "frames (threads w ! i) = fr # frs"
    "frame_step T (s_currentFutureTls (threads w ! i)) fr (the_heap w) = Return e"
    "w' = w\<lparr>the_heap := next_heap e,
       threads := (threads w)[i := \<lparr>s_currentFutureTls = next_tls e, frames = next_frames e @ frs\<rparr>],
       invocations := invoked e @ invocations w\<rparr>"
  using assms by (auto simp: thread_step_def elim!: world_step.cases split: if_splits list.splits outcome.splits)

lemma invocations_inv_step:
  assumes "world_step T w w'" and "invocations_inv w"
  shows "invocations_inv w'"
proof -
  obtain i fr frs e where e: "frame_step T (s_currentFutureTls (threads w ! i)) fr (the_heap w) = Return e"
    and w': "the_heap w' = next_heap e" "invocations w' = invoked e @ invocations w"
    using assms(1) by (elim world_stepE) auto
  have later: "\<exists>f. next_heap e a = Some f \<and> state_rank Invoking \<le> state_rank (fstate f)"
    if "a \<in> set (invocations w)" for a
  proof -
    from that assms(2) obtain f where "the_heap w a = Some f" "state_rank Invoking \<le> state_rank (fstate f)"
      by (auto simp: invocations_inv_def)
    moreover from this(1) frame_step_advances [OF e] obtain f' where "next_heap e a = Some f'" "advances f f'"
      unfolding heap_advances_def by blast
    ultimately show ?thesis using advances_rank [of f f'] by auto
  qed
  from frame_invoked [OF e] show ?thesis
  proof
    assume "invoked e = []"
    with later assms(2) show ?thesis by (simp add: invocations_inv_def w')
  next
    assume "\<exists>a f f'. invoked e = [a] \<and> the_heap w a = Some f \<and> state_rank (fstate f) < state_rank Invoking \<and>
      next_heap e a = Some f' \<and> fstate f' = Invoking"
    then obtain a f f' where "invoked e = [a]" "the_heap w a = Some f" "state_rank (fstate f) < state_rank Invoking"
      "next_heap e a = Some f'" "fstate f' = Invoking" by blast
    with later assms(2) show ?thesis by (auto simp: invocations_inv_def w')
  qed
qed

section \<open>Setting a value and an error at the same time\<close>

text \<open>Only the second halves of \<^verbatim>\<open>SetValue\<close> and \<^verbatim>\<open>TrySetError\<close> leave \<open>SettingResult\<close>.\<close>

fun finishes :: "uintptr \<Rightarrow> ('e, 'v) frame \<Rightarrow> bool" where
  "finishes a (FinishValue b v) \<longleftrightarrow> a = b"
| "finishes a (FinishError b e) \<longleftrightarrow> a = b"
| "finishes a _ \<longleftrightarrow> False"

definition finish_count :: "uintptr \<Rightarrow> ('e, 'v) frame list \<Rightarrow> nat" where
  "finish_count a frs = length (filter (finishes a) frs)"

text \<open>
  Calls as the typed interface makes them: \<^verbatim>\<open>TrySetSuccess\<close> is called directly for futures of
  \<^verbatim>\<open>void\<close> only; a value is set together with it.
\<close>

fun action_typed :: "('e, 'v) heap \<Rightarrow> ('e, 'v) action \<Rightarrow> bool" where
  "action_typed h (ATrySetSuccess a crash) \<longleftrightarrow> (\<forall>f. h a = Some f \<longrightarrow> IsVoidValue f)"
| "action_typed h _ \<longleftrightarrow> True"

fun frame_typed :: "('e, 'v) heap \<Rightarrow> ('e, 'v) frame \<Rightarrow> bool" where
  "frame_typed h (Call act) \<longleftrightarrow> action_typed h act"
| "frame_typed h _ \<longleftrightarrow> True"

definition tasks_typed :: "('e, 'v) tasks \<Rightarrow> bool" where
  "tasks_typed T \<longleftrightarrow> (\<forall>a p e h. list_all (action_typed h) (on_post T a h) \<and>
     list_all (action_typed h) (on_invoke T a p h) \<and> list_all (action_typed h) (on_catch T a e h))"

definition future_ok :: "('e, 'v) FutureImpl \<Rightarrow> bool" where
  "future_ok f \<longleftrightarrow> traits_ok (m_traits f) \<and>
     (fcont f = ContinuationInvoked \<longrightarrow> done_state (fstate f)) \<and>
     (\<not> IsVoidValue f \<longrightarrow> fstate f = Succeeded \<longrightarrow> m_value f \<noteq> None)"

definition heap_ok :: "('e, 'v) heap \<Rightarrow> bool" where
  "heap_ok h \<longleftrightarrow> h ContinuationInvoked = None \<and> (\<forall>a f. h a = Some f \<longrightarrow> future_ok f)"

definition setting :: "('e, 'v) heap \<Rightarrow> uintptr \<Rightarrow> nat" where
  "setting h a = (case h a of Some f \<Rightarrow> if fstate f = SettingResult then 1 else 0 | None \<Rightarrow> 0)"

definition result_inv :: "('e, 'v) world \<Rightarrow> bool" where
  "result_inv w \<longleftrightarrow> heap_ok (the_heap w) \<and>
     (\<forall>t \<in> set (threads w). list_all (frame_typed (the_heap w)) (frames t)) \<and>
     (\<forall>a f. the_heap w a = Some f \<longrightarrow> \<not> IsVoidValue f \<longrightarrow>
        sum_list (map (\<lambda>t. finish_count a (frames t)) (threads w)) = setting (the_heap w) a)"

lemma action_typed_advances: "heap_advances h h' \<Longrightarrow> action_typed h act \<Longrightarrow> action_typed h' act"
  by (cases act) (fastforce simp: heap_advances_def advances_def IsVoidValue_def dom_def set_eq_iff)+

lemma frame_typed_advances: "heap_advances h h' \<Longrightarrow> frame_typed h fr \<Longrightarrow> frame_typed h' fr"
  by (cases fr) (auto intro: action_typed_advances)

lemma finish_count_simps [simp]:
  "finish_count a [] = 0" "finish_count a (fr # frs) = (if finishes a fr then 1 else 0) + finish_count a frs"
  "finish_count a (frs @ frs') = finish_count a frs + finish_count a frs'"
  "finish_count a (map Call acts) = 0"
  by (simp_all add: finish_count_def filter_map o_def)


lemma heap_okD: "heap_ok h \<Longrightarrow> h a = Some f \<Longrightarrow> future_ok f"
  by (auto simp: heap_ok_def)

lemma heap_ok_upd: "heap_ok h \<Longrightarrow> h a = Some f \<Longrightarrow> future_ok f' \<Longrightarrow> heap_ok (h(a \<mapsto> f'))"
  by (auto simp: heap_ok_def)

lemma heap_advances_back:
  assumes "heap_advances h h'" and "h' a = Some f'"
  shows "\<exists>f. h a = Some f \<and> advances f f'"
proof -
  from assms have "a \<in> dom h" by (auto simp: heap_advances_def)
  then obtain f where "h a = Some f" by blast
  with assms show ?thesis by (fastforce simp: heap_advances_def)
qed

lemma heap_ok_upd_iff: "heap_ok h \<Longrightarrow> h a = Some f \<Longrightarrow> heap_ok (h(a \<mapsto> f')) \<longleftrightarrow> future_ok f'"
  by (auto simp: heap_ok_def split: if_splits)

lemma setting_upd: "setting (h(a \<mapsto> f)) b = (if a = b then if fstate f = SettingResult then 1 else 0 else setting h b)"
  by (simp add: setting_def)

lemma IsVoidValue_fields [simp]:
  "IsVoidValue (f\<lparr>m_error := e\<rparr>) = IsVoidValue f" "IsVoidValue (f\<lparr>m_isCalled := b\<rparr>) = IsVoidValue f"
  "IsVoidValue (f\<lparr>m_link := l\<rparr>) = IsVoidValue f" "IsVoidValue (f\<lparr>m_value := v\<rparr>) = IsVoidValue f"
  "IsVoidValue (set_state s f) = IsVoidValue f" "IsVoidValue (DestroyTask c f) = IsVoidValue f"
  "IsVoidValue (take_continuation s f) = IsVoidValue f"
  by (simp_all add: IsVoidValue_def)

lemma future_ok_fields [simp]:
  "future_ok (f\<lparr>m_error := e\<rparr>) = future_ok f" "future_ok (f\<lparr>m_isCalled := b\<rparr>) = future_ok f"
  "future_ok (f\<lparr>m_link := l\<rparr>) = future_ok f" "future_ok (DestroyTask c f) = future_ok f"
  by (simp_all add: future_ok_def)

lemma future_ok_set_state:
  "future_ok f \<Longrightarrow> \<not> done_state (fstate f) \<Longrightarrow> \<not> done_state s \<Longrightarrow> future_ok (set_state s f)"
  by (auto simp: future_ok_def done_state_def)

lemma transitions_future_ok:
  "TrySetInvoking s c f = Return (b, f') \<Longrightarrow> future_ok f \<Longrightarrow> future_ok f'"
  "TryStartSetValue s c f = Return (b, f') \<Longrightarrow> future_ok f \<Longrightarrow> future_ok f'"
  "StartAwaiting f = Return f' \<Longrightarrow> future_ok f \<Longrightarrow> future_ok f'"
  "TryStartSetError s c f = Return (b, f') \<Longrightarrow> future_ok f \<Longrightarrow> future_ok f'"
  "TrySetPosted s f = Return (b, f') \<Longrightarrow> future_ok f \<Longrightarrow> future_ok f'"
  "TryStartPost c f = Return (b, f', k) \<Longrightarrow> future_ok f \<Longrightarrow> future_ok f'"
  by (auto simp: transition_defs split: FutureState.splits if_splits intro!: future_ok_set_state)
     (simp_all add: done_state_def)

lemma results_future_ok:
  "SetFailed f = Return (f', k) \<Longrightarrow> future_ok f \<Longrightarrow> future_ok f'"
  "TrySetSuccess s c f = Return (b, f', k) \<Longrightarrow> IsVoidValue f \<or> m_value f \<noteq> None \<Longrightarrow> future_ok f \<Longrightarrow> future_ok f'"
  by (auto simp: SetFailed_def TrySetSuccess_def UnexpectedState_def split: if_splits)
     (auto simp: future_ok_def done_state_def)

lemma take_parent_future_ok: "take_parent p parent f = Return f' \<Longrightarrow> future_ok f' = future_ok f"
  by (auto simp: take_parent_def split: if_splits)

lemma calls_typed:
  assumes "tasks_typed T"
  shows "list_all (frame_typed h) (map Call (on_post T a h))"
    and "list_all (frame_typed h) (map Call (on_invoke T a p h))"
    and "list_all (frame_typed h) (map Call (on_catch T a e h))"
  using assms by (auto simp: tasks_typed_def list_all_iff)

text \<open>What \<^verbatim>\<open>TryPostInternal\<close> does when it does not crash: nothing, post one future, or call back.\<close>

lemma TryPostInternal_cases:
  fixes T :: "('e, 'v) tasks"
  assumes "TryPostInternal T tls p a c h = Return e"
  obtains (refused) "next_frames e = []" "next_heap e = h"
  | (posted) f f' frs where "h a = Some f" "fstate f = Pending" "fstate f' = Posting" "next_heap e = h(a \<mapsto> f')"
      "future_ok f \<Longrightarrow> future_ok f'" "next_frames e = map Call (on_post T a (next_heap e)) @ frs \<or> next_frames e = frs"
      "\<forall>b. finish_count b frs = 0" "\<forall>h. list_all (frame_typed h) frs"
  | (multi) parent where "h p = Some parent" "next_heap e = h \<or> next_heap e = h(p \<mapsto> parent\<lparr>m_error := None\<rparr>)"
      "next_frames e = map Call (on_invoke T a p h) @ [LeaveFuture tls] \<or>
       next_frames e = map Call (on_catch T a (m_error parent) h) @ [LeaveFuture tls]"
proof -
  from assms obtain f where f: "h a = Some f" by (auto simp: TryPostInternal_def split: option.splits)
  show ?thesis
  proof (cases "option_set (m_traits f) IsMultiPost")
    case True
    with assms f show ?thesis
      by (auto simp: TryPostInternal_def plain_Return split: option.splits if_splits intro: multi)
  next
    case False
    show ?thesis
    proof (cases "TryStartPost c f")
      case (Return r)
      obtain b f1 k where r: "r = (b, f1, k)" by (cases r)
      show ?thesis
      proof (cases b)
        case False
        with assms f Return r \<open>\<not> option_set _ _\<close> show ?thesis
          by (auto simp: TryPostInternal_def plain_Return intro: refused)
      next
        case True
        let ?m = "if p = 0 then Return f1 else case h p of None \<Rightarrow> Crash | Some parent \<Rightarrow> take_parent p parent f1"
        from assms f Return r True \<open>\<not> option_set _ _\<close> obtain f2 where f2: "?m = Return f2"
          by (auto simp: TryPostInternal_def split: outcome.splits)
        have f1: "fstate f = Pending" "fstate f1 = Posting" "future_ok f \<Longrightarrow> future_ok f1"
          using Return r True transitions_future_ok(6) [of c f b f1 k]
          by (auto simp: TryStartPost_def UnexpectedState_def split: if_splits)
        have f2_ok: "fstate f2 = fstate f1 \<and> future_ok f2 = future_ok f1"
          using f2 by (auto split: if_splits option.splits dest: take_parent_advances take_parent_future_ok)
        let ?rest = "(if p = 0 then [] else [PostContinuation p k]) :: ('e, 'v) frame list"
        have rest: "\<forall>b. finish_count b ?rest = 0" "\<forall>h. list_all (frame_typed h) ?rest" by auto
        have e: "(if TaskPost (m_traits f) then
            (let h' = h(a \<mapsto> f2\<lparr>m_isCalled := Some False\<rparr>)
             in plain (map Call (on_post T a h') @ [FinishPosted a, LeaveFuture tls] @ ?rest) a h')
          else plain ([InvokeFuture a waitCycles, LeaveFuture tls] @ ?rest) a (h(a \<mapsto> f2))) = Return e"
          using assms f Return r True \<open>\<not> option_set _ _\<close> f2
          by (simp add: TryPostInternal_def Let_def split del: if_split)
        show ?thesis
        proof (cases "TaskPost (m_traits f)")
          case True
          show ?thesis
            by (rule posted [of f "f2\<lparr>m_isCalled := Some False\<rparr>" "[FinishPosted a, LeaveFuture tls] @ ?rest"])
               (use e True f f1 f2_ok rest in \<open>simp_all add: plain_Return Let_def\<close>)
        next
          case False
          show ?thesis
            by (rule posted [of f f2 "[InvokeFuture a waitCycles, LeaveFuture tls] @ ?rest"])
               (use e False f f1 f2_ok rest in \<open>simp_all add: plain_Return Let_def\<close>)
        qed
      qed
    qed (use assms f False in \<open>auto simp: TryPostInternal_def\<close>)
  qed
qed

lemma TryPostInternal_result:
  assumes "TryPostInternal T tls p a c h = Return e" and "heap_ok h"
  shows "heap_ok (next_heap e)" and "finish_count b (next_frames e) = 0" and "setting (next_heap e) b = setting h b"
    and "tasks_typed T \<Longrightarrow> list_all (frame_typed (next_heap e)) (next_frames e)"
proof -
  have "heap_ok (next_heap e) \<and> finish_count b (next_frames e) = 0 \<and> setting (next_heap e) b = setting h b \<and>
    (tasks_typed T \<longrightarrow> list_all (frame_typed (next_heap e)) (next_frames e))"
    using assms(1)
  proof (cases rule: TryPostInternal_cases)
    case refused
    with assms(2) show ?thesis by simp
  next
    case (posted f f' frs)
    then have "heap_ok (next_heap e)" using assms(2) heap_okD [OF assms(2) posted(1)] heap_ok_upd by simp
    moreover have "setting (next_heap e) b = setting h b" using posted by (auto simp: setting_def)
    ultimately show ?thesis using posted(6-8) calls_typed(1) [of T "next_heap e" a] by auto
  next
    case (multi parent)
    then have "heap_ok (next_heap e)" "heap_advances h (next_heap e)"
      using assms(2) heap_okD [OF assms(2) multi(1)] heap_ok_upd [OF assms(2) multi(1)] by auto
    moreover have "setting (next_heap e) b = setting h b" using multi(1,2) by (auto simp: setting_def)
    ultimately show ?thesis using multi(3) calls_typed [of T h a] action_typed_advances [of h "next_heap e"]
      by (auto simp: list_all_iff)
  qed
  then show "heap_ok (next_heap e)" and "finish_count b (next_frames e) = 0" and "setting (next_heap e) b = setting h b"
    and "tasks_typed T \<Longrightarrow> list_all (frame_typed (next_heap e)) (next_frames e)" by auto
qed

lemma Invoke_cases:
  assumes "Invoke T tls a n h = Return e"
  obtains (same) "next_heap e = h" "\<forall>b. finish_count b (next_frames e) = 0" "\<forall>h. list_all (frame_typed h) (next_frames e)"
  | (invoking) f f' acts where "h a = Some f" "fstate f = Posting \<or> fstate f = Posted" "fstate f' = Invoking"
      "m_traits f' = m_traits f" "next_heap e = h(a \<mapsto> f')" "future_ok f \<Longrightarrow> future_ok f'"
      "next_frames e = map Call acts @ [LeaveFuture tls]"
      "acts = on_invoke T a (m_link f') (next_heap e) \<or> (\<exists>x. acts = on_catch T a x (next_heap e)) \<or>
       option_set (m_traits f) UseParentValue \<and> acts = [ATrySetSuccess a True] \<or>
       (\<exists>x. acts = [ATrySetError a x True])"
proof -
  from assms obtain f where f: "h a = Some f" by (auto simp: Invoke_def split: option.splits)
  show ?thesis
  proof (cases "TrySetInvoking (tls = a) (tls = a) f")
    case Wait
    with assms f same show ?thesis
      by (auto simp: Invoke_def plain_Return UnexpectedState_def split: if_splits)
  next
    case (Return r)
    obtain b f1 where r: "r = (b, f1)" by (cases r)
    show ?thesis
    proof (cases b)
      case False
      with assms f Return r same show ?thesis by (auto simp: Invoke_def plain_Return)
    next
      case True
      have f1: "fstate f = Posting \<or> fstate f = Posted" "fstate f1 = Invoking" "m_traits f1 = m_traits f"
          "future_ok f \<Longrightarrow> future_ok f1"
        using Return r True transitions_future_ok(1) [of "tls = a" "tls = a" f b f1]
        by (auto simp: TrySetInvoking_def UnexpectedState_def split: FutureState.splits if_splits)
      show ?thesis
      proof (cases "m_error f1")
        case None
        show ?thesis
        proof (cases "TaskInvoke (m_traits f)")
          case True
          show ?thesis
            by (rule invoking [of f f1 "on_invoke T a (m_link f1) (next_heap e)"])
               (use assms f Return r \<open>b\<close> f1 None True in \<open>simp_all add: Invoke_def Let_def, auto\<close>)
        next
          case False
          show ?thesis
            by (rule invoking [of f f1 "[ATrySetSuccess a True]"])
               (use assms f Return r \<open>b\<close> f1 None False in
                 \<open>simp_all add: Invoke_def plain_Return split: if_splits\<close>)
        qed
      next
        case (Some x)
        show ?thesis
        proof (cases "TaskCatch (m_traits f)")
          case True
          show ?thesis
            by (rule invoking [of f "f1\<lparr>m_error := None\<rparr>" "on_catch T a (Some x) (next_heap e)"])
               (use assms f Return r \<open>b\<close> f1 Some True in \<open>simp_all add: Invoke_def Let_def, auto\<close>)
        next
          case False
          show ?thesis
            by (rule invoking [of f "f1\<lparr>m_error := None\<rparr>" "[ATrySetError a (Some x) True]"])
               (use assms f Return r \<open>b\<close> f1 Some False in \<open>simp_all add: Invoke_def Let_def plain_Return\<close>)
        qed
      qed
    qed
  qed (use assms f in \<open>auto simp: Invoke_def\<close>)
qed

lemma Invoke_result:
  assumes "Invoke T tls a n h = Return e" and "heap_ok h"
  shows "heap_ok (next_heap e)" and "finish_count b (next_frames e) = 0" and "setting (next_heap e) b = setting h b"
    and "tasks_typed T \<Longrightarrow> list_all (frame_typed (next_heap e)) (next_frames e)"
proof -
  have "heap_ok (next_heap e) \<and> finish_count b (next_frames e) = 0 \<and> setting (next_heap e) b = setting h b \<and>
    (tasks_typed T \<longrightarrow> list_all (frame_typed (next_heap e)) (next_frames e))"
    using assms(1)
  proof (cases rule: Invoke_cases)
    case same
    with assms(2) show ?thesis by simp
  next
    case (invoking f f' acts)
    note ok = heap_okD [OF assms(2) invoking(1)]
    have "heap_ok (next_heap e)" using ok invoking(1,5,6) heap_ok_upd [OF assms(2) invoking(1)] by simp
    moreover have "setting (next_heap e) b = setting h b" using invoking(1,2,3,5) by (auto simp: setting_def)
    moreover have "tasks_typed T \<longrightarrow> list_all (frame_typed (next_heap e)) (map Call acts)"
      using invoking(8) calls_typed [of T "next_heap e" a] ok invoking(4,5)
      by (auto simp: IsVoidValue_def future_ok_def traits_ok_def)
    ultimately show ?thesis using invoking(7) by simp
  qed
  then show "heap_ok (next_heap e)" and "finish_count b (next_frames e) = 0" and "setting (next_heap e) b = setting h b"
    and "tasks_typed T \<Longrightarrow> list_all (frame_typed (next_heap e)) (next_frames e)" by auto
qed

lemma AddContinuation_result:
  assumes "AddContinuation tls a c h = Return e" and "heap_ok h"
  shows "heap_ok (next_heap e)" and "finish_count b (next_frames e) = 0" and "setting (next_heap e) b = setting h b"
    and "list_all (frame_typed (next_heap e)) (next_frames e)"
proof -
  obtain f g where fg: "h a = Some f" "h c = Some g" using assms(1) by (auto simp: AddContinuation_def split: option.splits)
  have "c \<noteq> ContinuationInvoked" using fg(2) assms(2) by (auto simp: heap_ok_def)
  then show "heap_ok (next_heap e)"
    using assms fg heap_okD [OF assms(2) fg(1)] heap_okD [OF assms(2) fg(2)]
    by (auto simp: AddContinuation_def plain_Return heap_ok_def future_ok_def IsVoidValue_def split: if_splits)
qed (use assms in \<open>auto simp: AddContinuation_def plain_Return setting_def split: option.splits if_splits\<close>)

lemma call_step_ok:
  assumes "call_step T tls act h = Return e" and "heap_ok h" and "action_typed h act" and "tasks_typed T"
  shows "heap_ok (next_heap e) \<and> list_all (frame_typed (next_heap e)) (next_frames e)"
  using assms
proof (cases act)
  case (ATrySetSuccess a c)
  then show ?thesis
    using assms by (auto simp: on_future_Return plain_Return heap_ok_upd_iff
        dest: results_future_ok(2) [OF _ _ heap_okD [OF assms(2)]])
next
  case (APost a)
  then show ?thesis using assms TryPostInternal_result [of T tls 0 _ True h e] by auto
next
  case (AAddContinuation a c)
  then show ?thesis using assms AddContinuation_result [of tls _ _ h e] by auto
qed (auto simp: on_future_Return plain_Return Callback_call_def Callback_destroy_def
       heap_ok_upd_iff split: option.splits if_splits
       dest: transitions_future_ok [OF _ heap_okD [OF assms(2)]] heap_okD)

lemma frame_step_ok:
  assumes "frame_step T tls fr h = Return e" and "heap_ok h" and "frame_typed h fr" and "tasks_typed T"
  shows "heap_ok (next_heap e) \<and> list_all (frame_typed (next_heap e)) (next_frames e)"
  using assms
proof (cases fr)
  case (Call act)
  then show ?thesis using assms call_step_ok by simp
next
  case (PostContinuation p c)
  then show ?thesis using assms TryPostInternal_result [of T tls p c False h e] by (auto simp: plain_Return split: if_splits)
next
  case (FinishPosted a)
  then show ?thesis
    using assms by (auto simp: on_future_Return plain_Return heap_ok_upd_iff
        dest: transitions_future_ok(5) [OF _ heap_okD [OF assms(2)]])
next
  case (FinishValue a v)
  have "future_ok (f\<lparr>m_value := Some v\<rparr>)" if "h a = Some f" for f
    using heap_okD [OF assms(2) that] by (auto simp: future_ok_def)
  with FinishValue show ?thesis
    using assms(1,2) by (auto simp: on_future_Return plain_Return heap_ok_upd_iff dest!: results_future_ok(2))
next
  case (FinishError a x)
  have "future_ok (f\<lparr>m_error := x\<rparr>)" if "h a = Some f" for f
    using heap_okD [OF assms(2) that] by simp
  with FinishError show ?thesis
    using assms(1,2) by (auto simp: on_future_Return plain_Return heap_ok_upd_iff dest!: results_future_ok(1))
next
  case (InvokeFuture a n)
  then show ?thesis using assms Invoke_result [of T tls _ _ h e] by auto
qed (simp add: plain_Return)

text \<open>How the transitions move in and out of \<open>SettingResult\<close>.\<close>

lemma setting_transitions:
  "TryStartSetValue s c f = Return (b, f') \<Longrightarrow>
     (fstate f' = SettingResult \<longleftrightarrow> b \<or> fstate f = SettingResult) \<and> (b \<longrightarrow> fstate f \<noteq> SettingResult) \<and> (c \<longrightarrow> b)"
  "TryStartSetError s c f = Return (b, f') \<Longrightarrow>
     (fstate f' = SettingResult \<longleftrightarrow> b \<or> fstate f = SettingResult) \<and> (b \<longrightarrow> fstate f \<noteq> SettingResult)"
  "TrySetSuccess s c f = Return (b, f', k) \<Longrightarrow> fstate f = SettingResult \<Longrightarrow> fstate f' = Succeeded"
  "SetFailed f = Return (f', k) \<Longrightarrow> fstate f = SettingResult \<and> fstate f' = Failed"
  "StartAwaiting f = Return f' \<Longrightarrow> fstate f = Invoking \<and> fstate f' = Awaiting"
  "TrySetPosted s f = Return (b, f') \<Longrightarrow> fstate f' = SettingResult \<longleftrightarrow> fstate f = SettingResult"
  by (auto simp: transition_defs split: FutureState.splits if_splits)

lemma call_step_setting:
  assumes "call_step T tls act h = Return e" and "heap_ok h" and "action_typed h act"
    and "h a = Some f" and "\<not> IsVoidValue f"
  shows "finish_count a (next_frames e) + setting h a = setting (next_heap e) a"
  using assms
proof (cases act)
  case (ATrySetSuccess b c)
  with assms have "b \<noteq> a" by auto
  with ATrySetSuccess assms(1) show ?thesis by (auto simp: on_future_Return plain_Return setting_upd)
next
  case (APost b)
  then show ?thesis using assms TryPostInternal_result [of T tls 0 _ True h e] by auto
next
  case (AAddContinuation b c)
  then show ?thesis using assms AddContinuation_result [of tls _ _ h e] by auto
next
  case (ATrySetError b x c)
  then show ?thesis using assms(1,4)
    by (cases "a = b") (auto simp: on_future_Return plain_Return setting_def dest!: setting_transitions(2) split: if_splits)
next
  case (ASetValue b v)
  then show ?thesis using assms(1,4)
    by (cases "a = b") (auto simp: on_future_Return plain_Return setting_def dest!: setting_transitions(1) split: if_splits)
next
  case (ATrySetValue b v)
  then show ?thesis using assms(1,4)
    by (cases "a = b") (auto simp: on_future_Return plain_Return setting_def dest!: setting_transitions(1) split: if_splits)
next
  case (AStartAwaiting b)
  then show ?thesis using assms(1,4)
    by (cases "a = b") (auto simp: on_future_Return plain_Return setting_def dest!: setting_transitions(5) split: if_splits)
qed (auto simp: plain_Return Callback_call_def Callback_destroy_def setting_def split: option.splits if_splits)

lemma frame_step_setting:
  assumes "frame_step T tls fr h = Return e" and "heap_ok h" and "frame_typed h fr"
    and "h a = Some f" and "\<not> IsVoidValue f" and "finishes a fr \<Longrightarrow> fstate f = SettingResult"
  shows "finish_count a (next_frames e) + setting h a = (if finishes a fr then 1 else 0) + setting (next_heap e) a"
  using assms
proof (cases fr)
  case (Call act)
  then show ?thesis using assms call_step_setting [of T tls act h e a f] by simp
next
  case (PostContinuation p c)
  then show ?thesis using assms TryPostInternal_result [of T tls p c False h e] by (auto simp: plain_Return split: if_splits)
next
  case (FinishPosted b)
  then show ?thesis using assms(1,4)
    by (cases "a = b") (auto simp: on_future_Return plain_Return setting_def dest!: setting_transitions(6) split: if_splits)
next
  case (FinishValue b v)
  then show ?thesis using assms(1,4,6)
    by (cases "a = b") (auto simp: on_future_Return plain_Return setting_def dest!: setting_transitions(3) split: if_splits)
next
  case (FinishError b x)
  then show ?thesis using assms(1,4,6)
    by (cases "a = b") (auto simp: on_future_Return plain_Return setting_def dest!: setting_transitions(4) split: if_splits)
next
  case (InvokeFuture b n)
  then show ?thesis using assms Invoke_result [of T tls _ _ h e] by auto
qed (simp add: plain_Return)

lemma result_inv_step:
  assumes "world_step T w w'" and "result_inv w" and "tasks_typed T"
  shows "result_inv w'"
proof -
  obtain i fr frs e where i: "i < length (threads w)" "frames (threads w ! i) = fr # frs"
    and e: "frame_step T (s_currentFutureTls (threads w ! i)) fr (the_heap w) = Return e"
    and w': "the_heap w' = next_heap e"
      "threads w' = (threads w)[i := \<lparr>s_currentFutureTls = next_tls e, frames = next_frames e @ frs\<rparr>]"
    using assms(1) by (elim world_stepE) auto
  let ?h = "the_heap w" and ?h' = "next_heap e"
  have t: "list_all (frame_typed ?h) (fr # frs)" and ok: "heap_ok ?h"
    using i assms(2) nth_mem [OF i(1)] unfolding result_inv_def by metis+
  have new: "heap_ok ?h'" "list_all (frame_typed ?h') (next_frames e)"
    using frame_step_ok [OF e ok _ assms(3)] t by auto
  have old: "list_all (frame_typed ?h') frs" if "list_all (frame_typed ?h) frs" for frs
    using that frame_typed_advances [OF frame_step_advances [OF e]] by (auto simp: list_all_iff)
  have "\<forall>t \<in> set (threads w'). list_all (frame_typed ?h') (frames t)"
    using assms(2) new(2) old t i unfolding w' result_inv_def
    by (auto dest!: set_update_subset_insert [THEN subsetD])
  moreover have "sum_list (map (\<lambda>t. finish_count a (frames t)) (threads w')) = setting ?h' a"
    if a: "?h' a = Some f'" "\<not> IsVoidValue f'" for a f'
  proof -
    obtain f where f: "?h a = Some f" "\<not> IsVoidValue f"
      using a heap_advances_back [OF frame_step_advances [OF e] a(1)] by (auto simp: advances_def IsVoidValue_def)
    let ?c = "\<lambda>t. finish_count a (frames t)"
    have sum: "sum_list (map ?c (threads w)) = setting ?h a" using f assms(2) by (auto simp: result_inv_def)
    have le: "?c (threads w ! i) \<le> sum_list (map ?c (threads w))"
      using i(1) by (intro member_le_sum_list) auto
    have "finishes a fr \<Longrightarrow> fstate f = SettingResult"
      using le sum i(2) f by (auto simp: setting_def split: if_splits)
    from frame_step_setting [OF e ok _ f this] t
    have step: "finish_count a (next_frames e) + setting ?h a = (if finishes a fr then 1 else 0) + setting ?h' a" by simp
    have "sum_list (map ?c (threads w')) =
        sum_list (map ?c (threads w)) + (finish_count a (next_frames e) + finish_count a frs) - ?c (threads w ! i)"
      using i(1) by (simp add: w' map_update sum_list_update)
    with sum step le i(2) show ?thesis by auto
  qed
  ultimately show ?thesis using new(1) by (auto simp: result_inv_def w'(1))
qed

section \<open>Properties\<close>

definition fresh_world :: "('e, 'v) world \<Rightarrow> bool" where
  "fresh_world w \<longleftrightarrow> the_heap w ContinuationInvoked = None \<and> invocations w = [] \<and>
     (\<forall>f \<in> ran (the_heap w). traits_ok (m_traits f) \<and> f = FutureImpl_new (m_traits f) (m_taskSize f)) \<and>
     (\<forall>t \<in> set (threads w). \<forall>fr \<in> set (frames t). frame_typed (the_heap w) fr \<and> (\<exists>act. fr = Call act))"

lemma GetState_0 [simp]: "GetState 0 = Pending" "GetContinuation 0 = 0"
  using packed_make [of Pending] by (simp_all add: Packed_Make_def)

lemma fresh_future [simp]:
  "fstate (FutureImpl_new t n) = Pending" "fcont (FutureImpl_new t n) = 0" "m_traits (FutureImpl_new t n) = t"
  by (simp_all add: FutureImpl_new_def)

lemma fresh_world_inv:
  assumes "fresh_world w"
  shows "result_inv w" and "invocations_inv w"
proof -
  have pending: "fstate f = Pending" "fcont f = 0" "traits_ok (m_traits f)" if "the_heap w a = Some f" for a f
  proof -
    from that assms have f: "f = FutureImpl_new (m_traits f) (m_taskSize f)" "traits_ok (m_traits f)"
      by (auto simp: fresh_world_def ran_def)
    show "fstate f = Pending" "fcont f = 0" by (subst f(1), simp)+
    show "traits_ok (m_traits f)" by (rule f(2))
  qed
  then have "heap_ok (the_heap w)" using assms ContinuationInvoked_not_null
    by (fastforce simp: heap_ok_def future_ok_def fresh_world_def)
  moreover have "finish_count a (frames t) = 0" if "t \<in> set (threads w)" for a t
    using that assms by (fastforce simp: fresh_world_def finish_count_def filter_empty_conv)
  ultimately show "result_inv w" using assms pending(1)
    by (auto simp: result_inv_def setting_def fresh_world_def list_all_iff cong: map_cong)
  show "invocations_inv w" using assms by (simp add: invocations_inv_def fresh_world_def)
qed

lemma reachable_advances:
  assumes "(world_step T)\<^sup>*\<^sup>* w w'" and "the_heap w a = Some f"
  shows "\<exists>f'. the_heap w' a = Some f' \<and> m_traits f' = m_traits f \<and> documented\<^sup>*\<^sup>* (fstate f) (fstate f')"
  using assms(1)
proof (induction rule: rtranclp_induct)
  case base
  with assms(2) show ?case by auto
next
  case (step w1 w2)
  then obtain f1 where f1: "the_heap w1 a = Some f1" "m_traits f1 = m_traits f" "documented\<^sup>*\<^sup>* (fstate f) (fstate f1)" by blast
  with world_step_advances [OF step.hyps(2)] obtain f2 where "the_heap w2 a = Some f2" "advances f1 f2"
    unfolding heap_advances_def by blast
  with f1 show ?case by (auto simp: advances_def intro: rtranclp.rtrancl_into_rtrancl)
qed

lemma documented_done: "documented\<^sup>*\<^sup>* s s' \<Longrightarrow> done_state s \<Longrightarrow> s' = s"
  by (induction rule: rtranclp_induct) (auto simp: done_state_def)




text \<open>A small world for the witnesses: a promise with a value that a value and an error are set to.\<close>

definition promise_traits :: "uintptr \<Rightarrow> FutureTraits" where
  "promise_traits n = \<lparr>Options = CancelIfUnfulfilled, ValueSize = n, ValueDestroy = False, TaskDestroy = False,
     TaskPost = False, TaskInvoke = False, TaskCatch = False\<rparr>"

definition no_tasks :: "(nat, nat) tasks" where
  "no_tasks = \<lparr>on_post = \<lambda>a h. [], on_invoke = \<lambda>a p h. [], on_catch = \<lambda>a e h. [], cancellation = 0\<rparr>"

definition promise_world :: "uintptr \<Rightarrow> (nat, nat) action list list \<Rightarrow> (nat, nat) world" where
  "promise_world n progs = \<lparr>the_heap = [8 \<mapsto> FutureImpl_new (promise_traits n) 0],
     threads = map (\<lambda>p. \<lparr>s_currentFutureTls = 0, frames = map Call p\<rparr>) progs, invocations = []\<rparr>"

lemma fresh_promise_world:
  "\<forall>p \<in> set progs. \<forall>act \<in> set p. action_typed [8 \<mapsto> FutureImpl_new (promise_traits n) 0] act \<Longrightarrow>
   fresh_world (promise_world n progs)"
  by (auto simp: fresh_world_def promise_world_def ContinuationInvoked_def ContinuationMask_def StateMask_def traits_ok_def
      promise_traits_def IsSet_def UseParentValue_def IsMultiPost_def CancelIfUnfulfilled_def FutureImpl_new_def)

lemma no_tasks_typed: "tasks_typed no_tasks"
  by (simp add: tasks_typed_def no_tasks_def)

lemma run_reachable: "run T sched w = Return w' \<Longrightarrow> (world_step T)\<^sup>*\<^sup>* w w'"
  by (induction sched arbitrary: w)
     (auto split: outcome.splits intro: converse_rtranclp_into_rtranclp world_step.intros)

lemmas run_simps = promise_world_def thread_step_def on_future_def plain_def TryStartSetValue_def TryStartSetError_def
  TrySetSuccess_def SetFailed_def success_allowed_def UnexpectedState_def Verify_def promise_traits_def

lemmas run_bits = GetState_def GetContinuation_def Packed_MakeCont_def state_of_code_def StateMask_def ContinuationMask_def
  ContinuationInvoked_def IsSet_def IsShared_def IsMultiPost_def UseParentValue_def CancelIfUnfulfilled_def
  CallTaskInvokeOnError_def IsVoidValue_def FutureImpl_new_def set_state_def take_continuation_def DestroyTask_def
  done_state_def

lemma set_value_run:
  "run no_tasks [0, 1, 0] (promise_world 4 [[ATrySetValue 8 7], [ATrySetError 8 (Some 1) False]]) =
   Return \<lparr>the_heap = [8 \<mapsto> (FutureImpl_new (promise_traits 4) 0)\<lparr>m_stateAndContinuation := Packed_Make Succeeded, m_value := Some 7\<rparr>],
     threads = [\<lparr>s_currentFutureTls = 0, frames = [PostContinuation 8 0]\<rparr>, \<lparr>s_currentFutureTls = 0, frames = []\<rparr>],
     invocations = []\<rparr>"
  by (simp add: run_simps run_bits Packed_Make_def)




text \<open>
  For a future of \<^verbatim>\<open>void\<close> the same race is lost: one thread tries to set an error, another tries to
  set success between its two steps, neither asks for a crash on failure, and the process
  crashes.
\<close>

theorem void_promise_race_crashes:
  "run no_tasks [0, 1, 0] (promise_world 0 [[ATrySetError 8 (Some 1) False], [ATrySetSuccess 8 False]]) = Crash"
  by (simp add: run_simps run_bits)

text \<open>
  Three futures: a promise of \<^verbatim>\<open>void\<close>, the future of \<^verbatim>\<open>WhenAny\<close> and a shared future that uses the
  value of its parent.
\<close>

definition when_any_traits :: FutureTraits where
  "when_any_traits = \<lparr>Options = IsMultiPost, ValueSize = 0, ValueDestroy = False, TaskDestroy = False,
     TaskPost = False, TaskInvoke = True, TaskCatch = True\<rparr>"

definition shared_traits :: FutureTraits where
  "shared_traits = \<lparr>Options = IsShared OR UseParentValue, ValueSize = 0, ValueDestroy = False, TaskDestroy = False,
     TaskPost = False, TaskInvoke = False, TaskCatch = False\<rparr>"

definition when_any_tasks :: "(nat, nat) tasks" where
  "when_any_tasks = no_tasks\<lparr>on_invoke := \<lambda>a p h. [ATrySetSuccess a False], on_catch := \<lambda>a e h. [ATrySetError a e False]\<rparr>"

definition three_futures :: "(nat, nat) action list \<Rightarrow> (nat, nat) world" where
  "three_futures acts = \<lparr>the_heap = [8 \<mapsto> FutureImpl_new (promise_traits 0) 0,
     16 \<mapsto> FutureImpl_new when_any_traits 0, 24 \<mapsto> FutureImpl_new shared_traits 0],
     threads = [\<lparr>s_currentFutureTls = 0, frames = map Call acts\<rparr>], invocations = []\<rparr>"

definition error_of :: "(nat, nat) world outcome \<Rightarrow> uintptr \<Rightarrow> (FutureState \<times> nat option) option" where
  "error_of r a = (case r of Return w \<Rightarrow> map_option (\<lambda>f. (fstate f, m_error f)) (the_heap w a) | _ \<Rightarrow> None)"

lemmas three_simps = three_futures_def when_any_traits_def shared_traits_def when_any_tasks_def no_tasks_def error_of_def
  AddContinuation_def TryPostInternal_def Invoke_def TrySetInvoking_def TryStartPost_def take_parent_def VerifyAlignment_def
  waitCycles_def Let_def

lemma replicate_20: "replicate 20 x = [x, x, x, x, x, x, x, x, x, x, x, x, x, x, x, x, x, x, x, x]"
  by (simp add: numeral_eq_Suc)

text \<open>
  A failed future hands its error to a \<^verbatim>\<open>WhenAny\<close> or \<^verbatim>\<open>WhenAll\<close> continuation by moving it out. Without
  one, a shared future made from it later fails with the same error; after one, the future has
  failed without an error and making the shared future crashes.
\<close>

theorem multi_post_takes_the_error:
  "error_of (run when_any_tasks (replicate 20 0) (three_futures
     [ATrySetError 8 (Some 5) True, AAddContinuation 8 24])) 24 = Some (Failed, Some 5) \<and>
   error_of (run when_any_tasks (replicate 20 0) (three_futures
     [ATrySetError 8 (Some 5) True, AAddContinuation 8 16])) 8 = Some (Failed, None) \<and>
   run when_any_tasks (replicate 20 0) (three_futures
     [ATrySetError 8 (Some 5) True, AAddContinuation 8 16, AAddContinuation 8 24]) = Crash"
  unfolding replicate_20
  by (intro conjI) (simp add: run_simps run_bits three_simps)+

section \<open>A resolved future resolves its continuations\<close>

text \<open>A continuation that only forwards the result of its parent, as the shared futures do.\<close>

definition follower :: "('e, 'v) FutureImpl \<Rightarrow> bool" where
  "follower f \<longleftrightarrow> fstate f = Pending \<and> fcont f = 0 \<and> m_error f = None \<and> option_set (m_traits f) UseParentValue \<and>
     \<not> option_set (m_traits f) IsMultiPost \<and> \<not> option_set (m_traits f) CallTaskInvokeOnError \<and>
     \<not> TaskPost (m_traits f) \<and> \<not> TaskInvoke (m_traits f) \<and> IsVoidValue f"

text \<open>The list of continuations that starts at an address and goes along the links.\<close>

fun linked :: "('e, 'v) heap \<Rightarrow> uintptr \<Rightarrow> uintptr list \<Rightarrow> bool" where
  "linked h c [] \<longleftrightarrow> c = 0"
| "linked h c (x # xs) \<longleftrightarrow> c = x \<and> x \<noteq> 0 \<and> (\<exists>f. h x = Some f \<and> follower f \<and> linked h (m_link f) xs)"

lemma linked_cong: "(\<And>x. x \<in> set xs \<Longrightarrow> h' x = h x) \<Longrightarrow> linked h' c xs = linked h c xs"
  by (induction xs arbitrary: c) auto

definition with_frames :: "nat \<Rightarrow> uintptr \<Rightarrow> ('e, 'v) frame list \<Rightarrow> ('e, 'v) heap \<Rightarrow> ('e, 'v) world \<Rightarrow> ('e, 'v) world" where
  "with_frames i t frs h w =
     w\<lparr>the_heap := h, threads := (threads w)[i := \<lparr>s_currentFutureTls = t, frames = frs\<rparr>]\<rparr>"

lemma with_frames_again [simp]:
  "with_frames i t' frs' h' (with_frames i t frs h w) = with_frames i t' frs' h' w"
  "the_heap (with_frames i t frs h w) = h" "length (threads (with_frames i t frs h w)) = length (threads w)"
  by (simp_all add: with_frames_def)

lemma frame_run:
  assumes "i < length (threads w)"
    and "frame_step T t fr h = Return \<lparr>next_frames = new, next_tls = t', next_heap = h', invoked = []\<rparr>"
  shows "run T (i # sched) (with_frames i t (fr # frs) h w) = run T sched (with_frames i t' (new @ frs) h' w)"
  using assms by (simp add: thread_step_def) (simp add: with_frames_def)

lemma post_follower:
  assumes i: "i < length (threads w)" and p: "h p = Some pf" "fstate pf = Succeeded" "p \<noteq> 0"
    and c: "h c = Some f" "follower f" "c \<noteq> 0"
  shows "\<exists>f'. (\<forall>sched. run T (replicate 6 i @ sched) (with_frames i t (PostContinuation p c # frs) h w) =
      run T sched (with_frames i t (PostContinuation p (m_link f) # frs) (h(c \<mapsto> f')) w)) \<and>
    fstate f' = Succeeded \<and> m_link f' = p"
proof -
  note f = c(2) [unfolded follower_def]
  define f1 where "f1 = (set_state Posting f)\<lparr>m_link := p\<rparr>"
  define f2 where "f2 = set_state Invoking f1"
  define f3 where "f3 = DestroyTask True ((take_continuation Succeeded f2)\<lparr>m_link := p, m_error := None\<rparr>)"
  have "frame_step T t (PostContinuation p c) h =
      Return \<lparr>next_frames = [InvokeFuture c waitCycles, LeaveFuture t, PostContinuation p (m_link f)],
        next_tls = c, next_heap = h(c \<mapsto> f1), invoked = []\<rparr>"
    using f p c by (simp add: TryPostInternal_def TryStartPost_def Verify_def take_parent_def done_state_def plain_def f1_def)
  note s1 = frame_run [OF i this]
  have "frame_step T c (InvokeFuture c waitCycles) (h(c \<mapsto> f1)) =
      Return \<lparr>next_frames = [Call (ATrySetSuccess c True), LeaveFuture c], next_tls = c,
        next_heap = h(c \<mapsto> f2), invoked = []\<rparr>"
    using f p by (simp add: Invoke_def TrySetInvoking_def f1_def f2_def plain_def Verify_def)
  note s2 = frame_run [OF i this]
  have "frame_step T c (Call (ATrySetSuccess c True)) (h(c \<mapsto> f2)) =
      Return \<lparr>next_frames = [PostContinuation c 0], next_tls = c, next_heap = h(c \<mapsto> f3), invoked = []\<rparr>"
    using f by (simp add: on_future_def TrySetSuccess_def success_allowed_def f2_def f1_def f3_def Verify_def plain_def)
  note s3 = frame_run [OF i this]
  have "frame_step T c (PostContinuation c 0) (h(c \<mapsto> f3)) =
      Return \<lparr>next_frames = [], next_tls = c, next_heap = h(c \<mapsto> f3), invoked = []\<rparr>"
    by (simp add: plain_def)
  note s4 = frame_run [OF i this]
  have "frame_step T c (LeaveFuture x) (h(c \<mapsto> f3)) =
      Return \<lparr>next_frames = [], next_tls = x, next_heap = h(c \<mapsto> f3), invoked = []\<rparr>" for x
    by (simp add: plain_def)
  note s5 = frame_run [OF i this]
  have "run T (replicate 6 i @ sched) (with_frames i t (PostContinuation p c # frs) h w) =
      run T sched (with_frames i t (PostContinuation p (m_link f) # frs) (h(c \<mapsto> f3)) w)" for sched
    by (simp add: numeral_eq_Suc s1 s2 s3 s4 s5 del: run.simps)
  moreover have "fstate f3 = Succeeded" "m_link f3 = p" by (simp_all add: f3_def)
  ultimately show ?thesis by blast
qed

lemma post_followers:
  assumes "i < length (threads w)" and "h p = Some pf" "fstate pf = Succeeded" "p \<noteq> 0" "p \<notin> set cs"
    and "linked h c cs" "distinct cs"
  shows "\<exists>h'. run T (replicate (6 * length cs) i @ sched) (with_frames i t (PostContinuation p c # frs) h w) =
      run T sched (with_frames i t (PostContinuation p 0 # frs) h' w) \<and>
    (\<forall>x. x \<notin> set cs \<longrightarrow> h' x = h x) \<and> (\<forall>x \<in> set cs. \<exists>f. h' x = Some f \<and> fstate f = Succeeded \<and> m_link f = p)"
  using assms
proof (induction cs arbitrary: c h)
  case Nil
  then show ?case by auto
next
  case (Cons x cs)
  from Cons.prems obtain f where f: "h x = Some f" "follower f" "x \<noteq> 0" "c = x" "linked h (m_link f) cs" by auto
  obtain f' where run: "\<And>sched. run T (replicate 6 i @ sched) (with_frames i t (PostContinuation p c # frs) h w) =
      run T sched (with_frames i t (PostContinuation p (m_link f) # frs) (h(x \<mapsto> f')) w)"
    and f': "fstate f' = Succeeded" "m_link f' = p"
    using post_follower [of i w h p pf x f T t frs] Cons.prems f by auto
  have "linked (h(x \<mapsto> f')) (m_link f) cs" using f(5) Cons.prems(7) by (subst linked_cong) auto
  then have "\<exists>h'. run T (replicate (6 * length cs) i @ sched) (with_frames i t (PostContinuation p (m_link f) # frs) (h(x \<mapsto> f')) w) =
      run T sched (with_frames i t (PostContinuation p 0 # frs) h' w) \<and>
    (\<forall>y. y \<notin> set cs \<longrightarrow> h' y = (h(x \<mapsto> f')) y) \<and> (\<forall>y \<in> set cs. \<exists>f. h' y = Some f \<and> fstate f = Succeeded \<and> m_link f = p)"
    using Cons.prems by (intro Cons.IH) (simp_all add: fun_upd_def)
  then obtain h' where
    "run T (replicate (6 * length cs) i @ sched) (with_frames i t (PostContinuation p (m_link f) # frs) (h(x \<mapsto> f')) w) =
      run T sched (with_frames i t (PostContinuation p 0 # frs) h' w)"
    "\<forall>y. y \<notin> set cs \<longrightarrow> h' y = (h(x \<mapsto> f')) y" "\<forall>y \<in> set cs. \<exists>f. h' y = Some f \<and> fstate f = Succeeded \<and> m_link f = p" by blast
  with run [of "replicate (6 * length cs) i @ sched"] f' Cons.prems(7) show ?case
    by (intro exI [of _ h']) (auto simp: replicate_add)
qed


definition one_follower :: "(nat, nat) world" where
  "one_follower = \<lparr>the_heap = [8 \<mapsto> (FutureImpl_new (promise_traits 0) 0)\<lparr>m_stateAndContinuation := 24\<rparr>,
     24 \<mapsto> FutureImpl_new shared_traits 0],
     threads = [\<lparr>s_currentFutureTls = 0, frames = [Call (ATrySetSuccess 8 True)]\<rparr>], invocations = []\<rparr>"


end
