(* ===== verification/WhenAll.thy ===== *)
theory WhenAll
  imports FutureCore
begin

text \<open>
  Futures that wait for all or for any of several parents (\<^verbatim>\<open>Mso/future/details/whenAllInl.h\<close>,
  \<^verbatim>\<open>whenAnyInl.h\<close>, \<^verbatim>\<open>Mso/src/future/whenAll.cpp\<close>, \<^verbatim>\<open>whenAny.cpp\<close>). Each parent calls the task of the
  future once, on its own thread; one step executes one atomic section of one of these calls. The
  transitions of the future are those of \<open>FutureCore\<close>.
\<close>

unbundle bit_operations_syntax

section \<open>A pointer that is raw or counted\<close>

text \<open>The highest bit says that the pointer is raw; the address is kept without its lowest bit.\<close>

definition RawOrCntPtr :: "uintptr \<Rightarrow> uintptr" where
  "RawOrCntPtr ptr = drop_bit 1 ptr OR push_bit 63 1"

definition counted_ptr :: "uintptr \<Rightarrow> uintptr" where
  "counted_ptr ptr = drop_bit 1 ptr"

definition Ptr_Get :: "uintptr \<Rightarrow> uintptr" where
  "Ptr_Get m_ptr = push_bit 1 m_ptr"

definition IsRawPtr :: "uintptr \<Rightarrow> bool" where
  "IsRawPtr m_ptr \<longleftrightarrow> drop_bit 63 m_ptr \<noteq> 0"

text \<open>The second component says whether a reference is added.\<close>

definition ConvertToCntPtr :: "uintptr \<Rightarrow> uintptr \<times> bool" where
  "ConvertToCntPtr m_ptr =
     (if IsRawPtr m_ptr \<and> Ptr_Get m_ptr \<noteq> 0 then (counted_ptr (Ptr_Get m_ptr), True) else (m_ptr, False))"

lemma raw_ptr:
  assumes "even p"
  shows "Ptr_Get (RawOrCntPtr p) = p" "IsRawPtr (RawOrCntPtr p)" "Ptr_Get (counted_ptr p) = p" "\<not> IsRawPtr (counted_ptr p)"
proof -
  show half: "Ptr_Get (counted_ptr p) = p"
  proof (rule bit_word_eqI)
    show "bit (Ptr_Get (counted_ptr p)) n = bit p n" if "n < LENGTH(64)" for n
      using assms that unfolding Ptr_Get_def counted_ptr_def bit_push_bit_iff bit_drop_bit_eq comp_apply
      by (cases n) (auto simp: bit_0)
  qed
  have z: "push_bit 1 (push_bit 63 1 :: uintptr) = 0" by simp
  show "Ptr_Get (RawOrCntPtr p) = p"
    using half unfolding Ptr_Get_def RawOrCntPtr_def counted_ptr_def push_bit_or z by (simp only: or.right_neutral)
  have "drop_bit 63 (RawOrCntPtr p) = drop_bit 64 p OR 1"
    unfolding RawOrCntPtr_def drop_bit_or by simp
  moreover have "drop_bit 64 p = 0" by (rule bit_word_eqI) (simp add: bit_simps)
  ultimately show "IsRawPtr (RawOrCntPtr p)" by (simp add: IsRawPtr_def)
  have "drop_bit 63 (drop_bit 1 p) = drop_bit 64 p" by simp
  then show "\<not> IsRawPtr (counted_ptr p)" unfolding counted_ptr_def using \<open>drop_bit 64 p = 0\<close> by (simp add: IsRawPtr_def)
qed

lemma convert_ptr:
  assumes "even p" and "p \<noteq> 0"
  shows "ConvertToCntPtr (RawOrCntPtr p) = (counted_ptr p, True)" "ConvertToCntPtr (counted_ptr p) = (counted_ptr p, False)"
  using raw_ptr [OF assms(1)] assms(2) by (simp_all add: ConvertToCntPtr_def)

section \<open>Waiting for all\<close>

text \<open>
  The call of the task for one parent: not made yet; its parent is found and counted; it was the last;
  it fills the result; it stores an error; it is over.
\<close>

datatype 'e parent_call = NotCalled | Counted | Last | Filling | Storing 'e | Over

text \<open>
  The task, its future, the values that the parents still have, the references added to the parents, and
  the calls. \<open>outcomes\<close> are the results that the parents come to have.
\<close>

record ('e, 'v) when_all =
  CompleteCount :: "32 word"
  FutureCount :: "32 word"
  ParentFutures :: "uintptr list"
  all_future :: "('e, 'v list) FutureImpl"
  parents :: "uintptr list"
  outcomes :: "('e + 'v) list"
  parent_values :: "'v option list"
  parent_refs :: "uintptr list"
  calls :: "'e parent_call list"

definition all_traits :: "bool \<Rightarrow> FutureTraits" where
  "all_traits void = \<lparr>Options = IsMultiPost, ValueSize = (if void then 0 else 16), ValueDestroy = \<not> void, TaskDestroy = True,
     TaskPost = False, TaskInvoke = True, TaskCatch = True\<rparr>"

text \<open>The number of parents is cut to 32 bits.\<close>

definition WhenAll :: "bool \<Rightarrow> nat \<Rightarrow> uintptr list \<Rightarrow> ('e + 'v) list \<Rightarrow> ('e, 'v) when_all" where
  "WhenAll void taskSize ps os = \<lparr>CompleteCount = 0, FutureCount = of_nat (length ps), ParentFutures = map RawOrCntPtr ps,
     all_future = FutureImpl_new (all_traits void) taskSize, parents = ps, outcomes = os,
     parent_values = map (\<lambda>x. case x of Inr v \<Rightarrow> Some v | Inl e \<Rightarrow> None) os, parent_refs = [], calls = replicate (length ps) NotCalled\<rparr>"

definition set_call :: "nat \<Rightarrow> 'e parent_call \<Rightarrow> ('e, 'v) when_all \<Rightarrow> ('e, 'v) when_all" where
  "set_call i c w = w\<lparr>calls := (calls w)[i := c]\<rparr>"

text \<open>The loop that looks for the parent; \<open>None\<close> if it is not there.\<close>

fun find_parent :: "uintptr \<Rightarrow> uintptr list \<Rightarrow> (uintptr list \<times> bool) option" where
  "find_parent parent [] = None"
| "find_parent parent (p # ps) =
     (if parent = Ptr_Get p then (case ConvertToCntPtr p of (q, added) \<Rightarrow> Some (q # ps, added))
      else map_option (\<lambda>(qs, added). (p # qs, added)) (find_parent parent ps))"

text \<open>
  The sections of the calls; \<open>None\<close> is a crash. A call is made when its parent is done, for the task or
  for the error. The value of a parent is moved out of it.
\<close>

definition all_call :: "nat \<Rightarrow> ('e, 'v) when_all \<Rightarrow> ('e, 'v) when_all option" where
  "all_call i w = (case outcomes w ! i of
     Inr v \<Rightarrow> (case find_parent (parents w ! i) (ParentFutures w) of
         None \<Rightarrow> None
       | Some (qs, added) \<Rightarrow> Some (set_call i Counted (w\<lparr>ParentFutures := qs,
           parent_refs := (if added then parents w ! i # parent_refs w else parent_refs w)\<rparr>)))
   | Inl e \<Rightarrow> (case TryStartSetError True False (all_future w) of
         Return (True, f) \<Rightarrow> Some (set_call i (Storing e) (w\<lparr>all_future := f\<rparr>))
       | Return (False, f) \<Rightarrow> Some (set_call i Over w)
       | _ \<Rightarrow> None))"

definition all_count :: "nat \<Rightarrow> ('e, 'v) when_all \<Rightarrow> ('e, 'v) when_all" where
  "all_count i w = (let n = CompleteCount w + 1
     in set_call i (if n = FutureCount w then Last else Over) (w\<lparr>CompleteCount := n\<rparr>))"

definition all_last :: "nat \<Rightarrow> ('e, 'v) when_all \<Rightarrow> ('e, 'v) when_all option" where
  "all_last i w =
     (if ValueSize (m_traits (all_future w)) = 0
      then (case TrySetSuccess True True (all_future w) of
          Return (ok, f, c) \<Rightarrow> Some (set_call i Over (w\<lparr>all_future := f\<rparr>))
        | _ \<Rightarrow> None)
      else (case TryStartSetValue True True (all_future w) of
          Return (ok, f) \<Rightarrow> Some (set_call i Filling (w\<lparr>all_future := f\<rparr>))
        | _ \<Rightarrow> None))"

definition all_fill :: "nat \<Rightarrow> ('e, 'v) when_all \<Rightarrow> ('e, 'v) when_all option" where
  "all_fill i w = (case those (parent_values w) of
     None \<Rightarrow> None
   | Some vs \<Rightarrow> (case TrySetSuccess True True (all_future w\<lparr>m_value := Some vs\<rparr>) of
         Return (ok, f, c) \<Rightarrow> Some (set_call i Over (w\<lparr>all_future := f, parent_values := map (\<lambda>_. None) (parent_values w)\<rparr>))
       | _ \<Rightarrow> None))"

definition all_store :: "nat \<Rightarrow> 'e \<Rightarrow> ('e, 'v) when_all \<Rightarrow> ('e, 'v) when_all option" where
  "all_store i e w = (case SetFailed (all_future w\<lparr>m_error := Some e\<rparr>) of
     Return (f, c) \<Rightarrow> Some (set_call i Over (w\<lparr>all_future := f\<rparr>))
   | _ \<Rightarrow> None)"

definition all_step :: "nat \<Rightarrow> ('e, 'v) when_all \<Rightarrow> ('e, 'v) when_all option" where
  "all_step i w = (case calls w ! i of
     NotCalled \<Rightarrow> all_call i w
   | Counted \<Rightarrow> Some (all_count i w)
   | Last \<Rightarrow> all_last i w
   | Filling \<Rightarrow> all_fill i w
   | Storing e \<Rightarrow> all_store i e w
   | Over \<Rightarrow> Some w)"

text \<open>A continuation of the future itself, added before the future is done.\<close>

definition all_AddContinuation :: "uintptr \<Rightarrow> ('e, 'v) when_all \<Rightarrow> ('e, 'v) when_all" where
  "all_AddContinuation c w = w\<lparr>all_future := all_future w
     \<lparr>m_stateAndContinuation := Packed_MakeCont (fstate (all_future w)) c\<rparr>\<rparr>"

inductive all_run :: "bool \<Rightarrow> nat \<Rightarrow> uintptr list \<Rightarrow> ('e + 'v) list \<Rightarrow> ('e, 'v) when_all \<Rightarrow> bool" for void taskSize ps os where
  all_new: "all_run void taskSize ps os (WhenAll void taskSize ps os)"
| all_chain: "all_run void taskSize ps os w \<Longrightarrow> VerifyAlignment c \<Longrightarrow> c \<noteq> 0 \<Longrightarrow> c \<noteq> ContinuationInvoked \<Longrightarrow>
    \<not> done_state (fstate (all_future w)) \<Longrightarrow> all_run void taskSize ps os (all_AddContinuation c w)"
| all_next: "all_run void taskSize ps os w \<Longrightarrow> i < length ps \<Longrightarrow> calls w ! i \<noteq> Over \<Longrightarrow> all_step i w = Some w' \<Longrightarrow>
    all_run void taskSize ps os w'"

text \<open>The destructor of the task releases the counted pointers.\<close>

definition all_Destroy :: "('e, 'v) when_all \<Rightarrow> ('e, 'v) when_all" where
  "all_Destroy w = w\<lparr>parent_refs := fold (\<lambda>p refs. if IsRawPtr p then refs else remove1 (Ptr_Get p) refs) (ParentFutures w) (parent_refs w)\<rparr>"

section \<open>The invariant of waiting for all\<close>

definition succeeded :: "'e + 'v \<Rightarrow> bool" where
  "succeeded x \<longleftrightarrow> (case x of Inr _ \<Rightarrow> True | Inl _ \<Rightarrow> False)"

text \<open>The parents that have been counted.\<close>

definition counted :: "('e, 'v) when_all \<Rightarrow> nat set" where
  "counted w = {i. i < length (calls w) \<and> succeeded (outcomes w ! i) \<and> calls w ! i \<in> {Last, Filling, Over}}"

definition parents_ok :: "uintptr list \<Rightarrow> bool" where
  "parents_ok ps \<longleftrightarrow> distinct ps \<and> (\<forall>p \<in> set ps. even p \<and> p \<noteq> 0) \<and> ps \<noteq> [] \<and> length ps < 2 ^ 32"

definition slot_of :: "uintptr \<Rightarrow> 'e + 'v \<Rightarrow> 'e parent_call \<Rightarrow> uintptr" where
  "slot_of p x c = (if c \<noteq> NotCalled \<and> succeeded x then counted_ptr p else RawOrCntPtr p)"

definition given :: "('e + 'v) list \<Rightarrow> 'v option list" where
  "given os = map (\<lambda>x. case x of Inr v \<Rightarrow> Some v | Inl e \<Rightarrow> None) os"

definition quiet :: "'e parent_call \<Rightarrow> bool" where
  "quiet c \<longleftrightarrow> c = NotCalled \<or> c = Counted \<or> c = Over"

text \<open>What always holds, and where the calls together are.\<close>

definition all_common :: "bool \<Rightarrow> uintptr list \<Rightarrow> ('e + 'v) list \<Rightarrow> ('e, 'v) when_all \<Rightarrow> bool" where
  "all_common void ps os w \<longleftrightarrow> parents w = ps \<and> outcomes w = os \<and> length (calls w) = length ps \<and>
     FutureCount w = of_nat (length ps) \<and> CompleteCount w = of_nat (card (counted w)) \<and>
     (\<forall>i < length ps. calls w ! i = Counted \<longrightarrow> succeeded (os ! i)) \<and>
     ParentFutures w = map (\<lambda>i. slot_of (ps ! i) (os ! i) (calls w ! i)) [0..<length ps] \<and>
     m_traits (all_future w) = all_traits void \<and> m_link (all_future w) = 0 \<and>
     (done_state (fstate (all_future w)) \<or> fcont (all_future w) \<noteq> ContinuationInvoked)"

datatype all_phase = Collecting | Finishing | Transferring | Reporting | AllDone | OneFailed

fun all_at :: "all_phase \<Rightarrow> bool \<Rightarrow> ('e + 'v) list \<Rightarrow> ('e, 'v) when_all \<Rightarrow> bool" where
  "all_at Collecting void os w \<longleftrightarrow> fstate (all_future w) = Pending \<and> parent_values w = given os \<and> card (counted w) < length os \<and>
     (\<forall>i < length os. quiet (calls w ! i) \<and> (calls w ! i = Over \<longrightarrow> succeeded (os ! i)))"
| "all_at Finishing void os w \<longleftrightarrow> fstate (all_future w) = Pending \<and> parent_values w = given os \<and> (\<forall>x \<in> set os. succeeded x) \<and>
     (\<exists>i < length os. calls w = (replicate (length os) Over)[i := Last])"
| "all_at Transferring void os w \<longleftrightarrow> fstate (all_future w) = SettingResult \<and> parent_values w = given os \<and> \<not> void \<and>
     (\<forall>x \<in> set os. succeeded x) \<and> (\<exists>i < length os. calls w = (replicate (length os) Over)[i := Filling])"
| "all_at Reporting void os w \<longleftrightarrow> fstate (all_future w) = SettingResult \<and>
     (\<exists>i < length os. \<exists>e. os ! i = Inl e \<and> calls w ! i = Storing e \<and> (\<forall>j < length os. j \<noteq> i \<longrightarrow> quiet (calls w ! j)))"
| "all_at AllDone void os w \<longleftrightarrow> fstate (all_future w) = Succeeded \<and> (\<forall>x \<in> set os. succeeded x) \<and>
     calls w = replicate (length os) Over \<and> (\<not> void \<longrightarrow> m_value (all_future w) = Some (map projr os))"
| "all_at OneFailed void os w \<longleftrightarrow> fstate (all_future w) = Failed \<and> (\<forall>i < length os. quiet (calls w ! i)) \<and>
     (\<exists>i < length os. \<exists>e. os ! i = Inl e \<and> m_error (all_future w) = Some e)"

lemma all_traits_options [simp]:
  "option_set (all_traits void) IsMultiPost" "\<not> option_set (all_traits void) UseParentValue"
  "\<not> option_set (all_traits void) DestroyTaskAfterInvoke" "ValueSize (all_traits void) = 0 \<longleftrightarrow> void"
  by (simp_all add: all_traits_def IsSet_def IsMultiPost_def UseParentValue_def DestroyTaskAfterInvoke_def)

lemma all_transitions:
  assumes "m_traits f = all_traits void" and "m_link f = 0"
  shows "\<not> void \<Longrightarrow> fstate f = Pending \<Longrightarrow> TryStartSetValue True True f = Return (True, set_state SettingResult f)"
    and "TryStartSetError True False f = (case fstate f of Pending \<Rightarrow> Return (True, set_state SettingResult f)
        | SettingResult \<Rightarrow> Return (False, f) | Succeeded \<Rightarrow> Return (False, f) | Failed \<Rightarrow> Return (False, f)
        | _ \<Rightarrow> TryStartSetError True False f)"
    and "fcont f \<noteq> ContinuationInvoked \<Longrightarrow> fstate f = SettingResult \<or> void \<and> fstate f = Pending \<Longrightarrow>
      \<exists>f'. TrySetSuccess True True f = Return (True, f', fcont f) \<and> fstate f' = Succeeded \<and> m_traits f' = m_traits f \<and>
        m_link f' = 0 \<and> m_value f' = m_value f"
    and "fcont f \<noteq> ContinuationInvoked \<Longrightarrow> fstate f = SettingResult \<Longrightarrow>
      \<exists>f'. SetFailed f = Return (f', fcont f) \<and> fstate f' = Failed \<and> m_traits f' = m_traits f \<and> m_link f' = 0 \<and> m_error f' = m_error f"
  using assms
  by (auto simp: TryStartSetValue_def TryStartSetError_def TrySetSuccess_def SetFailed_def success_allowed_def IsVoidValue_def
      UnexpectedState_def Verify_def DestroyTask_def split: FutureState.splits)

lemma counted_set_call:
  assumes "i < length (calls w)"
  shows "counted (set_call i c w) = (if succeeded (outcomes w ! i) \<and> c \<in> {Last, Filling, Over} then insert i (counted w) else counted w - {i})"
  using assms by (auto simp: counted_def set_call_def nth_list_update)

lemma finite_counted [simp]: "finite (counted w)"
  by (simp add: counted_def)

lemma set_call_fields [simp]:
  "parents (set_call i c w) = parents w" "outcomes (set_call i c w) = outcomes w" "FutureCount (set_call i c w) = FutureCount w"
  "CompleteCount (set_call i c w) = CompleteCount w" "ParentFutures (set_call i c w) = ParentFutures w"
  "all_future (set_call i c w) = all_future w" "parent_values (set_call i c w) = parent_values w"
  "calls (set_call i c w) = (calls w)[i := c]" "parent_refs (set_call i c w) = parent_refs w"
  by (simp_all add: set_call_def)

lemma counted_cong: "calls w' = calls w \<Longrightarrow> outcomes w' = outcomes w \<Longrightarrow> counted w' = counted w"
  by (simp add: counted_def)

lemma find_parent_at:
  assumes "distinct (map Ptr_Get ss)" and "i < length ss"
  shows "find_parent (Ptr_Get (ss ! i)) ss = Some (ss[i := fst (ConvertToCntPtr (ss ! i))], snd (ConvertToCntPtr (ss ! i)))"
  using assms
proof (induction ss arbitrary: i)
  case (Cons s ss)
  show ?case
  proof (cases i)
    case 0
    then show ?thesis by (simp add: case_prod_beta)
  next
    case (Suc j)
    then have "ss ! j \<in> set ss" "Ptr_Get s \<notin> Ptr_Get ` set ss" using Cons.prems by simp_all
    then have "Ptr_Get (ss ! j) \<noteq> Ptr_Get s" by (metis image_eqI)
    then show ?thesis using Cons.IH [of j] Cons.prems Suc by simp
  qed
qed simp

lemma Ptr_Get_slot: "even p \<Longrightarrow> Ptr_Get (slot_of p x c) = p"
  by (simp add: slot_of_def raw_ptr)

lemma slots_update:
  assumes "length cs = length ps" and "c \<noteq> NotCalled \<and> succeeded (os ! i) \<longleftrightarrow> cs ! i \<noteq> NotCalled \<and> succeeded (os ! i)"
  shows "map (\<lambda>j. slot_of (ps ! j) (os ! j) (cs[i := c] ! j)) [0..<length ps] =
    map (\<lambda>j. slot_of (ps ! j) (os ! j) (cs ! j)) [0..<length ps]"
proof (rule map_cong [OF refl])
  show "slot_of (ps ! j) (os ! j) (cs[i := c] ! j) = slot_of (ps ! j) (os ! j) (cs ! j)" if "j \<in> set [0..<length ps]" for j
    using assms that by (cases "j = i") (auto simp: slot_of_def)
qed

text \<open>Changing the call of one parent keeps what always holds.\<close>

lemma common_set_call:
  assumes c: "all_common void ps os w" and i: "i < length ps" and len: "length os = length ps"
    and new: "c \<noteq> NotCalled" "c = Counted \<longrightarrow> succeeded (os ! i)"
      "c \<in> {Last, Filling, Over} \<longrightarrow> succeeded (os ! i) \<longrightarrow> calls w ! i \<in> {Last, Filling, Over}"
      "calls w ! i \<in> {Last, Filling, Over} \<longrightarrow> succeeded (os ! i) \<longrightarrow> c \<in> {Last, Filling, Over}"
      "calls w ! i = NotCalled \<longrightarrow> \<not> succeeded (os ! i)"
    and f: "m_traits f = all_traits void" "m_link f = 0" "done_state (fstate f) \<or> fcont f \<noteq> ContinuationInvoked"
  shows "all_common void ps os (set_call i c (w\<lparr>all_future := f, parent_values := vs\<rparr>))"
    "counted (set_call i c (w\<lparr>all_future := f, parent_values := vs\<rparr>)) = counted w"
proof -
  let ?w = "set_call i c (w\<lparr>all_future := f, parent_values := vs\<rparr>)"
  let ?v = "w\<lparr>all_future := f, parent_values := vs\<rparr>"
  have same: "counted ?v = counted w" by (rule counted_cong) simp_all
  have mem: "i \<in> counted w \<longleftrightarrow> succeeded (os ! i) \<and> calls w ! i \<in> {Last, Filling, Over}"
    using c i by (simp add: counted_def all_common_def)
  have "counted ?w = (if succeeded (os ! i) \<and> c \<in> {Last, Filling, Over} then insert i (counted w) else counted w - {i})"
    using counted_set_call [of i ?v c] c i unfolding same by (simp add: all_common_def)
  moreover have "succeeded (os ! i) \<and> c \<in> {Last, Filling, Over} \<longleftrightarrow> i \<in> counted w" using mem new(3,4) by blast
  ultimately show cnt: "counted ?w = counted w" by (simp add: insert_absorb)
  have "ParentFutures ?w = map (\<lambda>j. slot_of (ps ! j) (os ! j) (calls ?w ! j)) [0..<length ps]"
  proof -
    have "c \<noteq> NotCalled \<and> succeeded (os ! i) \<longleftrightarrow> calls w ! i \<noteq> NotCalled \<and> succeeded (os ! i)" using new(1,5) by blast
    moreover have "length (calls w) = length ps" "ParentFutures w = map (\<lambda>j. slot_of (ps ! j) (os ! j) (calls w ! j)) [0..<length ps]"
      using c by (simp_all add: all_common_def)
    moreover from calculation have "map (\<lambda>j. slot_of (ps ! j) (os ! j) ((calls w)[i := c] ! j)) [0..<length ps] =
        map (\<lambda>j. slot_of (ps ! j) (os ! j) (calls w ! j)) [0..<length ps]" by (intro slots_update) simp_all
    ultimately show ?thesis by simp
  qed
  then show "all_common void ps os ?w"
    using c i f new(2) cnt by (auto simp: all_common_def nth_list_update)
qed

lemma all_count_common:
  assumes c: "all_common void ps os w" and i: "i < length ps" and len: "length os = length ps" and ci: "calls w ! i = Counted"
    and small: "length ps < 2 ^ 32"
  shows "all_common void ps os (all_count i w)" "card (counted (all_count i w)) = Suc (card (counted w))"
    "card (counted w) < length ps" "all_count i w = set_call i (if Suc (card (counted w)) = length ps then Last else Over) (w\<lparr>CompleteCount := CompleteCount w + 1\<rparr>)"
proof -
  have i_in: "i \<notin> counted w" "succeeded (os ! i)" using c i ci by (auto simp: counted_def all_common_def)
  have sub: "counted w \<subseteq> {..<length ps} - {i}" using c i_in(1) by (auto simp: counted_def all_common_def)
  then have "card (counted w) \<le> card ({..<length ps} - {i})" by (intro card_mono) simp_all
  then show less: "card (counted w) < length ps" using i by simp
  have "CompleteCount w + 1 = FutureCount w \<longleftrightarrow> Suc (card (counted w)) = length ps"
  proof -
    have "CompleteCount w + 1 = of_nat (Suc (card (counted w)))" using c by (simp add: all_common_def)
    moreover have "(of_nat (Suc (card (counted w))) :: 32 word) = of_nat (length ps) \<longleftrightarrow> Suc (card (counted w)) = length ps"
      using less small by (simp add: word_of_nat_eq_iff take_bit_nat_eq_self del: of_nat_Suc)
    ultimately show ?thesis using c by (simp add: all_common_def add.commute)
  qed
  then show step: "all_count i w = set_call i (if Suc (card (counted w)) = length ps then Last else Over) (w\<lparr>CompleteCount := CompleteCount w + 1\<rparr>)"
    by (simp add: all_count_def)
  have "counted (w\<lparr>CompleteCount := CompleteCount w + 1\<rparr>) = counted w" by (rule counted_cong) simp_all
  then have cnt: "counted (all_count i w) = insert i (counted w)"
    unfolding step using i_in c i by (auto simp: counted_set_call all_common_def)
  then show card: "card (counted (all_count i w)) = Suc (card (counted w))" using i_in(1) by simp
  have "ParentFutures (all_count i w) = map (\<lambda>j. slot_of (ps ! j) (os ! j) (calls (all_count i w) ! j)) [0..<length ps]"
    unfolding step using slots_update [of "calls w" ps _ os i] c ci by (simp add: all_common_def)
  then show "all_common void ps os (all_count i w)"
    using c i card unfolding step by (auto simp: all_common_def nth_list_update add.commute)
qed

lemma all_find:
  assumes c: "all_common void ps os w" and ps: "parents_ok ps" and i: "i < length ps" and ci: "calls w ! i = NotCalled"
  shows "find_parent (ps ! i) (ParentFutures w) = Some ((ParentFutures w)[i := counted_ptr (ps ! i)], True)"
proof -
  have even: "even (ps ! j)" "ps ! j \<noteq> 0" if "j < length ps" for j using ps that by (simp_all add: parents_ok_def)
  have slots: "ParentFutures w = map (\<lambda>j. slot_of (ps ! j) (os ! j) (calls w ! j)) [0..<length ps]" using c by (simp add: all_common_def)
  have get: "map Ptr_Get (ParentFutures w) = ps"
    unfolding slots by (rule nth_equalityI) (simp_all add: Ptr_Get_slot even)
  have len: "length (ParentFutures w) = length ps" unfolding slots by simp
  have "Ptr_Get (ParentFutures w ! i) = ps ! i" using arg_cong [OF get, of "\<lambda>xs. xs ! i"] len i by simp
  moreover have "ParentFutures w ! i = RawOrCntPtr (ps ! i)" unfolding slots using i ci by (simp add: slot_of_def)
  ultimately show ?thesis
    using find_parent_at [of "ParentFutures w" i] get len i ps convert_ptr(1) [OF even [OF i]] by (simp add: parents_ok_def)
qed

lemma counted_all:
  assumes len: "length (calls w) = n" and os: "outcomes w = os"
  shows "card (counted w) = n \<longleftrightarrow> (\<forall>i < n. succeeded (os ! i) \<and> calls w ! i \<in> {Last, Filling, Over})"
proof -
  have sub: "counted w \<subseteq> {..<n}" using len by (auto simp: counted_def)
  have "counted w = {..<n}" if "card (counted w) = n"
    by (rule card_subset_eq [OF finite_lessThan sub]) (simp add: that)
  then have "card (counted w) = n \<longleftrightarrow> counted w = {..<n}" by (metis card_lessThan)
  also have "\<dots> \<longleftrightarrow> {..<n} \<subseteq> counted w"
  proof
    show "counted w = {..<n}" if "{..<n} \<subseteq> counted w" by (rule subset_antisym [OF sub that])
  qed (rule equalityD2)
  also have "\<dots> \<longleftrightarrow> (\<forall>i < n. i \<in> counted w)" by auto
  also have "\<dots> \<longleftrightarrow> (\<forall>i < n. succeeded (os ! i) \<and> calls w ! i \<in> {Last, Filling, Over})"
    using len os by (simp add: counted_def)
  finally show ?thesis .
qed

definition all_inv :: "bool \<Rightarrow> uintptr list \<Rightarrow> ('e + 'v) list \<Rightarrow> ('e, 'v) when_all \<Rightarrow> bool" where
  "all_inv void ps os w \<longleftrightarrow> all_common void ps os w \<and> (\<exists>p. all_at p void os w)"

lemma not_succeeded: "\<not> succeeded x \<longleftrightarrow> (\<exists>e. x = Inl e)"
  by (cases x) (simp_all add: succeeded_def)

text \<open>Where no call is special, nothing is counted twice and an error keeps the count below the number of parents.\<close>

lemma error_not_counted:
  assumes "length (calls w) = length os" and "outcomes w = os" and "i < length os" and "os ! i = Inl e"
  shows "card (counted w) \<noteq> length os"
  using counted_all [OF assms(1,2)] assms(3,4) by (auto simp: succeeded_def)

lemma replicate_only:
  assumes "length cs = n" and "i < n" and "\<And>j. j < n \<Longrightarrow> j \<noteq> i \<Longrightarrow> cs ! j = y"
  shows "cs[i := x] = (replicate n y)[i := x]"
  using assms by (intro nth_equalityI) (auto simp: nth_list_update)

lemma all_call_value:
  assumes c: "all_common void ps os w" and len: "length os = length ps" and ok: "parents_ok ps"
    and i: "i < length ps" "calls w ! i = NotCalled" "os ! i = Inr v"
  shows "\<exists>w'. all_call i w = Some w' \<and> all_common void ps os w' \<and> counted w' = counted w \<and> calls w' = (calls w)[i := Counted] \<and>
    all_future w' = all_future w \<and> parent_values w' = parent_values w"
proof -
  let ?u = "w\<lparr>ParentFutures := (ParentFutures w)[i := counted_ptr (ps ! i)], parent_refs := ps ! i # parent_refs w\<rparr>"
  have step: "all_call i w = Some (set_call i Counted ?u)"
    using all_find [OF c ok i(1,2)] c i(3) by (simp add: all_call_def all_common_def)
  have "counted ?u = counted w" by (rule counted_cong) simp_all
  moreover have "i \<notin> counted w" using i(2) by (simp add: counted_def)
  ultimately have cnt: "counted (set_call i Counted ?u) = counted w"
    using counted_set_call [of i ?u Counted] c i(1) by (simp add: all_common_def)
  have "(ParentFutures w)[i := counted_ptr (ps ! i)] =
      map (\<lambda>j. slot_of (ps ! j) (os ! j) ((calls w)[i := Counted] ! j)) [0..<length ps]"
  proof (rule nth_equalityI)
    show "(ParentFutures w)[i := counted_ptr (ps ! i)] ! j =
        map (\<lambda>j. slot_of (ps ! j) (os ! j) ((calls w)[i := Counted] ! j)) [0..<length ps] ! j"
      if "j < length ((ParentFutures w)[i := counted_ptr (ps ! i)])" for j
      using c that i by (cases "j = i") (auto simp: all_common_def slot_of_def succeeded_def)
  qed (use c in \<open>simp add: all_common_def\<close>)
  then have "all_common void ps os (set_call i Counted ?u)"
    using c cnt i by (auto simp: all_common_def nth_list_update succeeded_def)
  then show ?thesis using step cnt by simp
qed

lemma common_future:
  assumes c: "all_common void ps os w" and i: "i < length ps" and len: "length os = length ps"
    and new: "c \<noteq> NotCalled" "c = Counted \<longrightarrow> succeeded (os ! i)"
      "c \<in> {Last, Filling, Over} \<longrightarrow> succeeded (os ! i) \<longrightarrow> calls w ! i \<in> {Last, Filling, Over}"
      "calls w ! i \<in> {Last, Filling, Over} \<longrightarrow> succeeded (os ! i) \<longrightarrow> c \<in> {Last, Filling, Over}"
      "calls w ! i = NotCalled \<longrightarrow> \<not> succeeded (os ! i)"
    and f: "m_traits f = all_traits void" "m_link f = 0" "done_state (fstate f) \<or> fcont f \<noteq> ContinuationInvoked"
  shows "all_common void ps os (set_call i c (w\<lparr>all_future := f\<rparr>))" "counted (set_call i c (w\<lparr>all_future := f\<rparr>)) = counted w"
  using common_set_call [OF c i len new f, of "parent_values w"] by simp_all

lemma all_invI: "all_common void ps os w \<Longrightarrow> all_at p void os w \<Longrightarrow> all_inv void ps os w"
  by (auto simp only: all_inv_def)

lemma quiet_at:
  assumes p: "all_at p void os w" "p = Reporting \<or> p = OneFailed" and new: "calls w' = (calls w)[i := c]" "quiet c" "quiet (calls w ! i)"
    and i: "i < length os" "length (calls w) = length os" and same: "all_future w' = all_future w"
  shows "all_at p void os w'"
proof (cases "p = Reporting")
  case True
  then obtain k e where k: "k < length os" "os ! k = Inl e" "calls w ! k = Storing e" "\<forall>j < length os. j \<noteq> k \<longrightarrow> quiet (calls w ! j)"
    using p(1) by auto
  then have "k \<noteq> i" using new(3) by (auto simp: quiet_def)
  then have "calls w' ! k = Storing e" "\<forall>j < length os. j \<noteq> k \<longrightarrow> quiet (calls w' ! j)"
    using k new i by (simp_all add: nth_list_update)
  then show ?thesis using True p(1) same k by auto
next
  case False
  then show ?thesis using p new i same by (auto simp: nth_list_update)
qed

lemma call_error:
  assumes c: "all_common void ps os w" and len: "length os = length ps" and i: "i < length ps" "calls w ! i = NotCalled" "os ! i = Inl e"
    and p: "all_at p void os w"
  shows "\<exists>w'. all_call i w = Some w' \<and> all_inv void ps os w'"
proof -
  let ?f = "all_future w"
  have f: "m_traits ?f = all_traits void" "m_link ?f = 0" "done_state (fstate ?f) \<or> fcont ?f \<noteq> ContinuationInvoked" "outcomes w = os"
    "length (calls w) = length ps"
    using c by (simp_all add: all_common_def)
  have ns: "\<not> succeeded (os ! i)" using i(3) by (simp add: succeeded_def)
  note start = all_transitions(2) [OF f(1,2)]
  consider (first) "p = Collecting" | (other) "p = Reporting \<or> p = OneFailed"
    using p ns i len by (cases p) (auto simp: nth_list_update split: if_splits)
  then show ?thesis
  proof cases
    case first
    let ?g = "set_state SettingResult ?f"
    have step: "all_call i w = Some (set_call i (Storing e) (w\<lparr>all_future := ?g\<rparr>))"
      using p first start f(4) i(3) by (simp add: all_call_def)
    have "all_common void ps os (set_call i (Storing e) (w\<lparr>all_future := ?g\<rparr>))"
      using f p first by (intro common_future(1) [OF c i(1) len]) (use ns i(2) in \<open>auto simp: done_state_def\<close>)
    moreover have "all_at Reporting void os (set_call i (Storing e) (w\<lparr>all_future := ?g\<rparr>))"
      using p first i len f(5) by (auto simp: nth_list_update intro!: exI [of _ i])
    ultimately show ?thesis using step all_invI by blast
  next
    case other
    have st: "fstate ?f = SettingResult \<or> fstate ?f = Failed" using other p by auto
    have step: "all_call i w = Some (set_call i Over w)"
      using st start f(4) i(3) by (auto simp: all_call_def)
    have "all_common void ps os (set_call i Over (w\<lparr>all_future := ?f\<rparr>))"
      using f by (intro common_future(1) [OF c i(1) len]) (use ns i(2) in auto)
    moreover have "all_at p void os (set_call i Over w)"
      by (rule quiet_at [OF p other, where i = i and c = Over]) (use i len f(5) in \<open>simp_all add: quiet_def\<close>)
    ultimately show ?thesis using step all_invI [of void ps os "set_call i Over w" p] by simp
  qed
qed

lemma call_value:
  assumes c: "all_common void ps os w" and len: "length os = length ps" and ok: "parents_ok ps"
    and i: "i < length ps" "calls w ! i = NotCalled" "os ! i = Inr v" and p: "all_at p void os w"
  shows "\<exists>w'. all_call i w = Some w' \<and> all_inv void ps os w'"
proof -
  obtain w' where w': "all_call i w = Some w'" "all_common void ps os w'" "counted w' = counted w" "calls w' = (calls w)[i := Counted]"
    "all_future w' = all_future w" "parent_values w' = parent_values w"
    using all_call_value [OF c len ok i] by blast
  have n: "length (calls w) = length os" using c len by (simp add: all_common_def)
  consider (collecting) "p = Collecting" | (other) "p = Reporting \<or> p = OneFailed"
    using p i len by (cases p) (auto simp: nth_list_update split: if_splits)
  then have "all_at p void os w'"
  proof cases
    case collecting
    then show ?thesis using p w' i len n by (auto simp: nth_list_update quiet_def)
  next
    case other
    show ?thesis by (rule quiet_at [OF p other w'(4)]) (use i len n w'(5) in \<open>simp_all add: quiet_def\<close>)
  qed
  then show ?thesis using w'(1,2) all_invI by blast
qed

lemma count_step:
  assumes c: "all_common void ps os w" and len: "length os = length ps" and ok: "parents_ok ps"
    and i: "i < length ps" "calls w ! i = Counted" and p: "all_at p void os w"
  shows "all_inv void ps os (all_count i w)"
proof -
  have small: "length ps < 2 ^ 32" using ok by (simp add: parents_ok_def)
  note cc = all_count_common [OF c i(1) len i(2) small]
  have n: "length (calls w) = length os" and os: "outcomes w = os" and succ: "succeeded (os ! i)"
    using c len i by (auto simp: all_common_def)
  have calls: "calls (all_count i w) = (calls w)[i := (if Suc (card (counted w)) = length ps then Last else Over)]"
    and same: "all_future (all_count i w) = all_future w" "parent_values (all_count i w) = parent_values w"
    "outcomes (all_count i w) = os" "length (calls (all_count i w)) = length os"
    unfolding cc(4) using os n by simp_all
  consider (collecting) "p = Collecting" | (other) "p = Reporting \<or> p = OneFailed"
    using p i len by (cases p) (auto simp: nth_list_update split: if_splits)
  then show ?thesis
  proof cases
    case collecting
    show ?thesis
    proof (cases "Suc (card (counted w)) = length ps")
      case True
      then have "card (counted (all_count i w)) = length os" using cc(2) len by simp
      then have all: "\<forall>j < length os. succeeded (os ! j) \<and> calls (all_count i w) ! j \<in> {Last, Filling, Over}"
        using counted_all [OF same(4,3)] by simp
      have "calls (all_count i w) = (replicate (length os) Over)[i := Last]"
        unfolding calls using True
      proof (simp, intro replicate_only)
        show "calls w ! j = Over" if "j < length os" "j \<noteq> i" for j
          using all [rule_format, OF that(1)] p collecting that that(2) [symmetric] unfolding calls by (auto simp: quiet_def)
      qed (use n i len in simp_all)
      then have "all_at Finishing void os (all_count i w)"
        using p collecting all same i len by (auto simp: in_set_conv_nth)
      then show ?thesis using cc(1) all_invI by blast
    next
      case False
      then have "all_at Collecting void os (all_count i w)"
        using p collecting same cc(2,3) calls i len n succ by (auto simp: nth_list_update quiet_def)
      then show ?thesis using cc(1) all_invI by blast
    qed
  next
    case other
    then obtain k e where k: "k < length os" "os ! k = Inl e" using p by auto
    then have "Suc (card (counted w)) \<noteq> length ps"
      using error_not_counted [OF same(4,3) k] cc(2) len by simp
    then have "all_at p void os (all_count i w)"
      by (intro quiet_at [OF p other calls]) (use i len n same(1) in \<open>simp_all add: quiet_def\<close>)
    then show ?thesis using cc(1) all_invI by blast
  qed
qed

lemma replicate_update [simp]: "(replicate n x)[i := x] = replicate n x"
  by (cases "i < n") (simp_all add: list_update_same_conv list_update_beyond)

lemma special_step:
  assumes c: "all_common void ps os w" and len: "length os = length ps" and i: "i < length ps" "calls w ! i = Last \<or> calls w ! i = Filling \<or> (\<exists>e. calls w ! i = Storing e)"
    and p: "all_at p void os w"
  shows "\<exists>w'. all_step i w = Some w' \<and> all_inv void ps os w'"
proof -
  let ?f = "all_future w"
  have f: "m_traits ?f = all_traits void" "m_link ?f = 0" "done_state (fstate ?f) \<or> fcont ?f \<noteq> ContinuationInvoked" "outcomes w = os"
    "length (calls w) = length os"
    using c len by (simp_all add: all_common_def)
  have nq: "\<not> quiet (calls w ! i)" using i(2) by (auto simp: quiet_def)
  consider (finishing) "p = Finishing" | (transferring) "p = Transferring" | (reporting) "p = Reporting"
    using p nq i(1) len by (cases p) (auto simp: quiet_def)
  then show ?thesis
  proof cases
    case finishing
    then have at: "calls w = (replicate (length os) Over)[i := Last]" "calls w ! i = Last" "\<forall>x \<in> set os. succeeded x" "fstate ?f = Pending"
      "parent_values w = given os" "succeeded (os ! i)"
      using p i len by (auto simp: nth_list_update split: if_splits)
    have cont: "fcont ?f \<noteq> ContinuationInvoked" using f(3) at(4) by (simp add: done_state_def)
    show ?thesis
    proof (cases void)
      case True
      obtain f' where f': "TrySetSuccess True True ?f = Return (True, f', fcont ?f)" "fstate f' = Succeeded" "m_traits f' = m_traits ?f" "m_link f' = 0"
        using all_transitions(3) [OF f(1,2) cont] True at(4) by blast
      let ?w = "set_call i Over (w\<lparr>all_future := f'\<rparr>)"
      have "all_step i w = Some ?w" using at(2) True f(1) f'(1) by (simp add: all_step_def all_last_def)
      moreover have "all_common void ps os ?w"
        by (rule common_future(1) [OF c i(1) len]) (use at f f' in \<open>simp_all add: done_state_def\<close>)
      moreover have "all_at AllDone void os ?w" using at f' True by simp
      ultimately show ?thesis using all_invI by blast
    next
      case False
      let ?w = "set_call i Filling (w\<lparr>all_future := set_state SettingResult ?f\<rparr>)"
      have "all_step i w = Some ?w"
        using at(2,4) False f(1) all_transitions(1) [OF f(1,2) False at(4)] by (simp add: all_step_def all_last_def)
      moreover have "all_common void ps os ?w"
        by (rule common_future(1) [OF c i(1) len]) (use at f cont in \<open>simp_all add: done_state_def\<close>)
      moreover have "all_at Transferring void os ?w" using at False i(1) len by auto
      ultimately show ?thesis using all_invI by blast
    qed
  next
    case transferring
    then have at: "calls w = (replicate (length os) Over)[i := Filling]" "calls w ! i = Filling" "\<forall>x \<in> set os. succeeded x" "fstate ?f = SettingResult"
      "parent_values w = given os" "succeeded (os ! i)"
      using p i len by (auto simp: nth_list_update split: if_splits)
    have cont: "fcont ?f \<noteq> ContinuationInvoked" using f(3) at(4) by (simp add: done_state_def)
    have vals: "those (given xs) = Some (map projr xs)" if "\<forall>x \<in> set xs. succeeded x" for xs :: "('a + 'b) list"
      using that by (induction xs) (auto simp: given_def succeeded_def split: sum.splits)
    let ?g = "?f\<lparr>m_value := Some (map projr os)\<rparr>"
    obtain f' where f': "TrySetSuccess True True ?g = Return (True, f', fcont ?g)" "fstate f' = Succeeded" "m_traits f' = m_traits ?g"
      "m_link f' = 0" "m_value f' = Some (map projr os)"
      using all_transitions(3) [of ?g void] f(1,2) cont at(4) by auto
    let ?w = "set_call i Over (w\<lparr>all_future := f', parent_values := map (\<lambda>_. None) (parent_values w)\<rparr>)"
    have "all_step i w = Some ?w" using at(2,5) vals [OF at(3)] f'(1) by (simp add: all_step_def all_fill_def)
    moreover have "all_common void ps os ?w"
      by (rule common_set_call(1) [OF c i(1) len]) (use at f f' in \<open>simp_all add: done_state_def\<close>)
    moreover have "all_at AllDone void os ?w" using at f' by simp
    ultimately show ?thesis using all_invI by blast
  next
    case reporting
    then obtain k e where k: "k < length os" "os ! k = Inl e" "calls w ! k = Storing e" "\<forall>j < length os. j \<noteq> k \<longrightarrow> quiet (calls w ! j)"
      "fstate ?f = SettingResult" using p by auto
    have ki: "k = i" using k(4) nq i(1) len by auto
    have cont: "fcont ?f \<noteq> ContinuationInvoked" using f(3) k(5) by (simp add: done_state_def)
    let ?g = "?f\<lparr>m_error := Some e\<rparr>"
    obtain f' where f': "SetFailed ?g = Return (f', fcont ?g)" "fstate f' = Failed" "m_traits f' = m_traits ?g" "m_link f' = 0" "m_error f' = Some e"
      using all_transitions(4) [of ?g void] f(1,2) cont k(5) by auto
    let ?w = "set_call i Over (w\<lparr>all_future := f'\<rparr>)"
    have ns: "\<not> succeeded (os ! i)" using k(2) ki by (simp add: succeeded_def)
    have "all_step i w = Some ?w" using k(3) ki f'(1) by (simp add: all_step_def all_store_def)
    moreover have "all_common void ps os ?w"
      by (rule common_future(1) [OF c i(1) len]) (use ns k ki f f' in \<open>simp_all add: done_state_def\<close>)
    moreover have "all_at OneFailed void os ?w"
      using k ki f' f(5) by (auto simp: nth_list_update quiet_def)
    ultimately show ?thesis using all_invI by blast
  qed
qed

lemma all_step_inv:
  assumes inv: "all_inv void ps os w" and len: "length os = length ps" and ok: "parents_ok ps" and i: "i < length ps"
  shows "\<exists>w'. all_step i w = Some w' \<and> all_inv void ps os w'"
proof -
  obtain p where c: "all_common void ps os w" and p: "all_at p void os w" using inv by (auto simp only: all_inv_def)
  show ?thesis
  proof (cases "calls w ! i")
    case NotCalled
    then show ?thesis
      using call_error [OF c len i NotCalled _ p] call_value [OF c len ok i NotCalled _ p] by (cases "os ! i") (simp_all add: all_step_def)
  next
    case Counted
    then show ?thesis using count_step [OF c len ok i Counted p] by (simp add: all_step_def)
  next
    case Over
    then show ?thesis using inv by (simp add: all_step_def)
  qed (use special_step [OF c len i _ p] in auto)
qed

lemma all_inv_new:
  assumes len: "length os = length ps" and ok: "parents_ok ps"
  shows "all_inv void ps os (WhenAll void taskSize ps os)"
proof -
  let ?w = "WhenAll void taskSize ps os"
  have "counted ?w = {}" using len by (auto simp: counted_def WhenAll_def)
  moreover have "map RawOrCntPtr ps = map (\<lambda>i. slot_of (ps ! i) (os ! i) NotCalled) [0..<length ps]"
    by (rule nth_equalityI) (simp_all add: slot_of_def)
  moreover have "fcont (FutureImpl_new t n) = 0" "fstate (FutureImpl_new t n) = Pending" for t n
    by (simp_all add: FutureImpl_new_def GetState_def GetContinuation_def state_of_code_def)
  ultimately have "all_common void ps os ?w" "all_at Collecting void os ?w"
    using len ok by (simp_all add: all_common_def WhenAll_def FutureImpl_new_def given_def quiet_def parents_ok_def)
  then show ?thesis by (rule all_invI)
qed

lemma all_inv_chain:
  assumes inv: "all_inv void ps os w" and c: "VerifyAlignment c" "c \<noteq> ContinuationInvoked" and live: "\<not> done_state (fstate (all_future w))"
  shows "all_inv void ps os (all_AddContinuation c w)"
proof -
  obtain p where common: "all_common void ps os w" and p: "all_at p void os w" using inv by (auto simp only: all_inv_def)
  let ?w = "all_AddContinuation c w"
  have cnt: "counted ?w = counted w" by (rule counted_cong) (simp_all add: all_AddContinuation_def)
  have same: "fstate (all_future ?w) = fstate (all_future w)" "fcont (all_future ?w) = c" "calls ?w = calls w" "parent_values ?w = parent_values w"
    "m_value (all_future ?w) = m_value (all_future w)" "m_error (all_future ?w) = m_error (all_future w)"
    using packed_roundtrip [OF c(1)] by (simp_all add: all_AddContinuation_def)
  have "all_common void ps os ?w"
    using common c(2) same cnt by (simp add: all_common_def) (simp add: all_AddContinuation_def)
  moreover have "all_at p void os ?w" using p same cnt by (cases p) simp_all
  ultimately show ?thesis by (rule all_invI)
qed

lemma all_run_inv:
  assumes "all_run void taskSize ps os w" and "length os = length ps" and "parents_ok ps"
  shows "all_inv void ps os w"
  using assms(1)
proof (induction rule: all_run.induct)
  case all_new
  then show ?case by (rule all_inv_new [OF assms(2,3)])
next
  case (all_chain w c)
  then show ?case using all_inv_chain by blast
next
  case (all_next w i w')
  then show ?case using all_step_inv [OF _ assms(2,3), of void w i] by auto
qed

text \<open>
  C33: Waiting for all. However the threads of the parents interleave, no check crashes; the future
  succeeds only if all parents do, and then with their values in the order of the parents; it fails only
  with the error of a parent that failed; and when every parent has made its call, it is done, with success
  exactly if all parents succeeded.
\<close>

theorem when_all_result:
  assumes run: "all_run void taskSize ps os w" and len: "length os = length ps" and ok: "parents_ok ps"
  shows "(\<forall>i < length ps. all_step i w \<noteq> None) \<and>
    (fstate (all_future w) = Succeeded \<longrightarrow> (\<forall>x \<in> set os. succeeded x) \<and> (\<not> void \<longrightarrow> m_value (all_future w) = Some (map projr os))) \<and>
    (fstate (all_future w) = Failed \<longrightarrow> (\<exists>e. Inl e \<in> set os \<and> m_error (all_future w) = Some e)) \<and>
    ((\<forall>i < length ps. calls w ! i = Over) \<longrightarrow>
      fstate (all_future w) = (if \<forall>x \<in> set os. succeeded x then Succeeded else Failed))"
proof -
  have inv: "all_inv void ps os w" by (rule all_run_inv [OF run len ok])
  then obtain p where common: "all_common void ps os w" and p: "all_at p void os w" by (auto simp only: all_inv_def)
  have n: "length (calls w) = length os" "outcomes w = os" using common len by (simp_all add: all_common_def)
  have "\<forall>i < length ps. all_step i w \<noteq> None" using all_step_inv [OF inv len ok] by force
  moreover have "fstate (all_future w) = Succeeded \<longrightarrow> (\<forall>x \<in> set os. succeeded x) \<and> (\<not> void \<longrightarrow> m_value (all_future w) = Some (map projr os))"
    using p by (cases p) auto
  moreover have "fstate (all_future w) = Failed \<longrightarrow> (\<exists>e. Inl e \<in> set os \<and> m_error (all_future w) = Some e)"
    using p by (cases p) (auto, metis nth_mem)
  moreover have "fstate (all_future w) = (if \<forall>x \<in> set os. succeeded x then Succeeded else Failed)"
    if over: "\<forall>i < length ps. calls w ! i = Over"
  proof (cases p)
    case Collecting
    then have "\<forall>i < length os. succeeded (os ! i)" using p over len by simp
    then have "card (counted w) = length os" using counted_all [OF n] over len by simp
    then show ?thesis using p Collecting by simp
  next
    case Finishing
    then show ?thesis using p over len by auto
  next
    case Transferring
    then show ?thesis using p over len by auto
  next
    case Reporting
    then show ?thesis using p over len by auto
  next
    case AllDone
    then show ?thesis using p by simp
  next
    case OneFailed
    then obtain e where "Inl e \<in> set os" "fstate (all_future w) = Failed" using p by (auto, metis nth_mem)
    moreover have "\<not> succeeded (Inl e)" by (simp add: succeeded_def)
    ultimately have "\<not> (\<forall>x \<in> set os. succeeded x)" "fstate (all_future w) = Failed" by blast+
    then show ?thesis by simp
  qed
  ultimately show ?thesis by blast
qed

text \<open>A schedule names the parent of each section.\<close>

fun all_script :: "nat list \<Rightarrow> ('e, 'v) when_all \<Rightarrow> ('e, 'v) when_all option" where
  "all_script [] w = Some w"
| "all_script (i # is) w =
     (if i < length (parents w) \<and> (case calls w ! i of Over \<Rightarrow> False | _ \<Rightarrow> True) then Option.bind (all_step i w) (all_script is) else None)"

lemma all_script_run:
  "all_script is w = Some w' \<Longrightarrow> all_run void taskSize ps os w \<Longrightarrow> length os = length ps \<Longrightarrow> parents_ok ps \<Longrightarrow>
    all_run void taskSize ps os w'"
proof (induction "is" arbitrary: w)
  case (Cons i "is")
  then have "parents w = ps" using all_run_inv [of void taskSize ps os w] by (auto simp: all_inv_def all_common_def)
  then obtain w1 where "i < length ps" "calls w ! i \<noteq> Over" "all_step i w = Some w1" "all_script is w1 = Some w'"
    using Cons.prems(1) by (auto split: if_splits parent_call.splits Option.bind_splits)
  then show ?case using Cons.IH Cons.prems all_next by blast
qed simp

lemma two_parents:
  "map_option calls (all_script [0, 1, 0, 1, 1, 1] (WhenAll False 0 [8, 16] [Inr 1, Inr 2 :: nat + nat])) = Some [Over, Over]"
  by code_simp

theorem when_all_result_witness:
  "\<exists>w :: (nat, nat) when_all. all_run False 0 [8, 16] [Inr 1, Inr 2] w \<and> m_value (all_future w) = Some [1, 2]"
proof -
  have ok: "parents_ok [8, 16 :: uintptr]" by (simp add: parents_ok_def)
  obtain w where w: "all_script [0, 1, 0, 1, 1, 1] (WhenAll False 0 [8, 16] [Inr 1, Inr 2 :: nat + nat]) = Some w" "calls w = [Over, Over]"
    using two_parents by auto
  have run: "all_run False 0 [8, 16] [Inr 1, Inr 2] w" by (rule all_script_run [OF w(1) all_new _ ok]) simp
  have "\<forall>i < length [8, 16 :: uintptr]. calls w ! i = Over" using w(2) by (simp add: nth_Cons')
  then show ?thesis using when_all_result [OF run _ ok] run by (intro exI [of _ w]) (simp add: succeeded_def)
qed

section \<open>Waiting for any\<close>

datatype ('e, 'v) any_call = AnyNotCalled | AnyFilling 'v | AnyStoring 'e | AnyOver

text \<open>\<open>any_first\<close> is the parent whose call was the first.\<close>

record ('e, 'v) when_any =
  any_future :: "('e, 'v) FutureImpl"
  any_outcomes :: "('e + 'v) list"
  any_calls :: "('e, 'v) any_call list"
  any_first :: "nat option"

definition any_traits :: "bool \<Rightarrow> FutureTraits" where
  "any_traits void = \<lparr>Options = IsMultiPost, ValueSize = (if void then 0 else 8), ValueDestroy = \<not> void, TaskDestroy = False,
     TaskPost = False, TaskInvoke = True, TaskCatch = True\<rparr>"

text \<open>There must be a parent.\<close>

definition WhenAny :: "bool \<Rightarrow> ('e + 'v) list \<Rightarrow> ('e, 'v) when_any option" where
  "WhenAny void os = (if os = [] then None
     else Some \<lparr>any_future = FutureImpl_new (any_traits void) 0, any_outcomes = os, any_calls = replicate (length os) AnyNotCalled,
       any_first = None\<rparr>)"

definition set_any :: "nat \<Rightarrow> ('e, 'v) any_call \<Rightarrow> ('e, 'v) FutureImpl \<Rightarrow> ('e, 'v) when_any \<Rightarrow> ('e, 'v) when_any" where
  "set_any i c f w = w\<lparr>any_future := f, any_calls := (any_calls w)[i := c],
     any_first := (case any_first w of None \<Rightarrow> Some i | Some j \<Rightarrow> Some j)\<rparr>"

definition any_step :: "nat \<Rightarrow> ('e, 'v) when_any \<Rightarrow> ('e, 'v) when_any option" where
  "any_step i w = (case any_calls w ! i of
     AnyNotCalled \<Rightarrow> (case any_outcomes w ! i of
         Inr v \<Rightarrow>
           if ValueSize (m_traits (any_future w)) = 0
           then (case TrySetSuccess True False (any_future w) of Return (ok, f, c) \<Rightarrow> Some (set_any i AnyOver f w) | _ \<Rightarrow> None)
           else (case TryStartSetValue True False (any_future w) of
               Return (ok, f) \<Rightarrow> Some (set_any i (if ok then AnyFilling v else AnyOver) f w) | _ \<Rightarrow> None)
       | Inl e \<Rightarrow> (case TryStartSetError True False (any_future w) of
           Return (ok, f) \<Rightarrow> Some (set_any i (if ok then AnyStoring e else AnyOver) f w) | _ \<Rightarrow> None))
   | AnyFilling v \<Rightarrow> (case TrySetSuccess True True (any_future w\<lparr>m_value := Some v\<rparr>) of
         Return (ok, f, c) \<Rightarrow> Some (set_any i AnyOver f w) | _ \<Rightarrow> None)
   | AnyStoring e \<Rightarrow> (case SetFailed (any_future w\<lparr>m_error := Some e\<rparr>) of
         Return (f, c) \<Rightarrow> Some (set_any i AnyOver f w) | _ \<Rightarrow> None)
   | AnyOver \<Rightarrow> Some w)"

inductive any_run :: "bool \<Rightarrow> ('e + 'v) list \<Rightarrow> ('e, 'v) when_any \<Rightarrow> bool" for void os where
  any_new: "WhenAny void os = Some w \<Longrightarrow> any_run void os w"
| any_next: "any_run void os w \<Longrightarrow> i < length os \<Longrightarrow> any_step i w = Some w' \<Longrightarrow> any_run void os w'"

lemma any_traits_options [simp]:
  "option_set (any_traits void) IsMultiPost" "\<not> option_set (any_traits void) UseParentValue"
  "\<not> option_set (any_traits void) DestroyTaskAfterInvoke" "ValueSize (any_traits void) = 0 \<longleftrightarrow> void"
  by (simp_all add: any_traits_def IsSet_def IsMultiPost_def UseParentValue_def DestroyTaskAfterInvoke_def)

text \<open>Before the first call; while the first call stores its result; and after.\<close>

definition any_inv :: "('e + 'v) list \<Rightarrow> ('e, 'v) when_any \<Rightarrow> bool" where
  "any_inv os w \<longleftrightarrow> any_outcomes w = os \<and> length (any_calls w) = length os \<and> m_traits (any_future w) = any_traits False \<and>
     m_link (any_future w) = 0 \<and> (done_state (fstate (any_future w)) \<or> fcont (any_future w) = 0) \<and>
     (case any_first w of
        None \<Rightarrow> fstate (any_future w) = Pending \<and> (\<forall>i < length os. any_calls w ! i = AnyNotCalled)
      | Some j \<Rightarrow> j < length os \<and> (\<forall>i < length os. i \<noteq> j \<longrightarrow> any_calls w ! i = AnyNotCalled \<or> any_calls w ! i = AnyOver) \<and>
          (case os ! j of
             Inr v \<Rightarrow> (any_calls w ! j = AnyFilling v \<and> fstate (any_future w) = SettingResult) \<or>
               (any_calls w ! j = AnyOver \<and> fstate (any_future w) = Succeeded \<and> m_value (any_future w) = Some v)
           | Inl e \<Rightarrow> (any_calls w ! j = AnyStoring e \<and> fstate (any_future w) = SettingResult) \<or>
               (any_calls w ! j = AnyOver \<and> fstate (any_future w) = Failed \<and> m_error (any_future w) = Some e)))"

lemmas future_moves = TryStartSetValue_def TryStartSetError_def TrySetSuccess_def SetFailed_def success_allowed_def IsVoidValue_def
  UnexpectedState_def Verify_def DestroyTask_def done_state_def

lemma any_step_first:
  assumes inv: "any_inv os w" and i: "i < length os" and none: "any_first w = None"
  shows "\<exists>w'. any_step i w = Some w' \<and> any_inv os w'"
proof -
  have f: "fstate (any_future w) = Pending" "fcont (any_future w) = 0" "m_link (any_future w) = 0" "m_traits (any_future w) = any_traits False"
    and w: "any_outcomes w = os" "length (any_calls w) = length os" "\<forall>j < length os. any_calls w ! j = AnyNotCalled"
    using inv none by (auto simp: any_inv_def done_state_def)
  show ?thesis
    using i f w none
    by (cases "os ! i")
      (auto simp: any_step_def any_inv_def set_any_def future_moves nth_list_update)
qed

lemma any_step_later:
  assumes inv: "any_inv os w" and i: "i < length os" and j: "any_first w = Some j" "i \<noteq> j"
  shows "\<exists>w'. any_step i w = Some w' \<and> any_inv os w'"
proof -
  have st: "fstate (any_future w) = SettingResult \<or> done_state (fstate (any_future w))" "m_traits (any_future w) = any_traits False"
    and w: "any_outcomes w = os" "length (any_calls w) = length os" "any_calls w ! i = AnyNotCalled \<or> any_calls w ! i = AnyOver"
    using inv i j by (auto simp: any_inv_def done_state_def split: sum.splits)
  let ?w = "set_any i AnyOver (any_future w) w"
  have "any_step i w = Some ?w \<or> any_step i w = Some w"
    using st w by (cases "os ! i") (auto simp: any_step_def future_moves)
  moreover have "any_inv os ?w"
    using inv i j w(2) by (auto simp: any_inv_def set_any_def nth_list_update split: sum.splits)
  ultimately show ?thesis using inv by blast
qed

lemma any_step_own:
  assumes inv: "any_inv os w" and j: "any_first w = Some j"
  shows "\<exists>w'. any_step j w = Some w' \<and> any_inv os w'"
proof (cases "any_calls w ! j")
  case AnyOver
  then show ?thesis using inv by (simp add: any_step_def)
next
  case AnyNotCalled
  then show ?thesis using inv j by (auto simp: any_inv_def split: sum.splits)
next
  case (AnyFilling v)
  then have w: "fstate (any_future w) = SettingResult" "fcont (any_future w) = 0" "m_traits (any_future w) = any_traits False" "os ! j = Inr v"
    "length (any_calls w) = length os" "j < length os"
    using inv j by (auto simp: any_inv_def done_state_def split: sum.splits)
  then obtain f where f: "TrySetSuccess True True (any_future w\<lparr>m_value := Some v\<rparr>) = Return (True, f, 0)" "fstate f = Succeeded"
    "m_traits f = any_traits False" "m_link f = 0" "m_value f = Some v"
    by (auto simp: future_moves)
  then have "any_step j w = Some (set_any j AnyOver f w)" using AnyFilling by (simp add: any_step_def)
  moreover have "any_inv os (set_any j AnyOver f w)"
    using inv j w f by (auto simp: any_inv_def set_any_def done_state_def nth_list_update)
  ultimately show ?thesis by blast
next
  case (AnyStoring e)
  then have w: "fstate (any_future w) = SettingResult" "fcont (any_future w) = 0" "m_traits (any_future w) = any_traits False" "os ! j = Inl e"
    "length (any_calls w) = length os" "j < length os"
    using inv j by (auto simp: any_inv_def done_state_def split: sum.splits)
  then obtain f where f: "SetFailed (any_future w\<lparr>m_error := Some e\<rparr>) = Return (f, 0)" "fstate f = Failed"
    "m_traits f = any_traits False" "m_link f = 0" "m_error f = Some e"
    by (auto simp: future_moves)
  then have "any_step j w = Some (set_any j AnyOver f w)" using AnyStoring by (simp add: any_step_def)
  moreover have "any_inv os (set_any j AnyOver f w)"
    using inv j w f by (auto simp: any_inv_def set_any_def done_state_def nth_list_update)
  ultimately show ?thesis by blast
qed

lemma any_step_inv:
  assumes "any_inv os w" and "i < length os"
  shows "\<exists>w'. any_step i w = Some w' \<and> any_inv os w'"
  using any_step_first [OF assms] any_step_later [OF assms] any_step_own [OF assms(1)] by (cases "any_first w") auto

lemma any_run_inv: "any_run False os w \<Longrightarrow> any_inv os w"
proof (induction rule: any_run.induct)
  case (any_new w)
  have "fcont (FutureImpl_new t n) = 0" "fstate (FutureImpl_new t n) = Pending" for t n
    by (simp_all add: FutureImpl_new_def GetState_def GetContinuation_def state_of_code_def)
  then show ?case using any_new by (auto simp: WhenAny_def any_inv_def FutureImpl_new_def split: if_splits)
next
  case (any_next w i w')
  then show ?case using any_step_inv [of os w i] by auto
qed

text \<open>A schedule names the parent of each section.\<close>

fun any_script :: "nat list \<Rightarrow> ('e, 'v) when_any \<Rightarrow> ('e, 'v) when_any option" where
  "any_script [] w = Some w"
| "any_script (i # is) w = (if i < length (any_calls w) then Option.bind (any_step i w) (any_script is) else None)"

text \<open>
  Without a value, a success is accepted while an error is being stored: if the first parent fails and
  the second succeeds before the error is stored, storing it crashes.
\<close>

lemma when_any_void_race_crashes:
  "map_option any_calls (Option.bind (WhenAny True [Inl (), Inr ()]) (any_script [0, 1])) = Some [AnyStoring (), AnyOver]"
  "Option.bind (WhenAny True [Inl (), Inr ()]) (any_script [0, 1, 0]) = None"
  by code_simp+

text \<open>
  C35: Waiting for any of several values. However the threads of the parents interleave, no check
  crashes, and the future takes the result, a value or an error, of the parent whose call was the first;
  when every parent has made its call, it has it.
\<close>

theorem when_any_result:
  assumes run: "any_run False os w"
  shows "(\<forall>i < length os. any_step i w \<noteq> None) \<and>
    (done_state (fstate (any_future w)) \<longrightarrow> (\<exists>j < length os. any_first w = Some j \<and> (case os ! j of
       Inr v \<Rightarrow> fstate (any_future w) = Succeeded \<and> m_value (any_future w) = Some v
     | Inl e \<Rightarrow> fstate (any_future w) = Failed \<and> m_error (any_future w) = Some e))) \<and>
    (os \<noteq> [] \<and> (\<forall>i < length os. any_calls w ! i = AnyOver) \<longrightarrow> done_state (fstate (any_future w)))"
proof -
  have inv: "any_inv os w" by (rule any_run_inv [OF run])
  have "\<forall>i < length os. any_step i w \<noteq> None" using any_step_inv [OF inv] by force
  then show ?thesis
    using inv by (cases "any_first w") (auto simp: any_inv_def done_state_def split: sum.splits)
qed

lemma any_script_run:
  "any_script is w = Some w' \<Longrightarrow> any_run False os w \<Longrightarrow> any_run False os w'"
proof (induction "is" arbitrary: w)
  case (Cons i "is")
  then have "length (any_calls w) = length os" using any_run_inv [of os w] by (simp add: any_inv_def)
  then obtain w1 where "i < length os" "any_step i w = Some w1" "any_script is w1 = Some w'"
    using Cons.prems(1) by (auto split: if_splits Option.bind_splits)
  then show ?case using Cons.IH Cons.prems any_next by blast
qed simp

lemma error_then_value:
  "map_option (\<lambda>w. (any_calls w, any_first w)) (Option.bind (WhenAny False [Inl True, Inr False]) (any_script [0, 1, 0])) = Some ([AnyOver, AnyOver], Some 0)"
  by code_simp

theorem when_any_result_witness:
  "\<exists>w. any_run False [Inl True, Inr False] w \<and> fstate (any_future w) = Failed \<and> m_error (any_future w) = Some True"
proof -
  obtain w0 w where w: "WhenAny False [Inl True, Inr False] = Some w0" "any_script [0, 1, 0] w0 = Some w"
    "any_calls w = [AnyOver, AnyOver]" "any_first w = Some 0"
    using error_then_value by (auto simp del: any_script.simps split: Option.bind_splits)
  have run: "any_run False [Inl True, Inr False] w" by (rule any_script_run [OF w(2) any_new [OF w(1)]])
  have "\<forall>i < length [Inl True, Inr False :: bool + bool]. any_calls w ! i = AnyOver" using w(3) by (simp add: nth_Cons')
  then have "done_state (fstate (any_future w))" using when_any_result [OF run] by blast
  then show ?thesis using when_any_result [OF run] run w(4) by (intro exI [of _ w]) auto
qed

end
