(* ===== verification/RefCount.thy ===== *)
theory RefCount
  imports Prelude
begin

text \<open>
  Intrusive reference counts of Mso (\<^verbatim>\<open>Mso/object/objectRefCount.h\<close>,
  \<^verbatim>\<open>refCountedObject.h\<close>) and their contract \<open>ref_counted\<close>, on which the smart pointers of theory
  \<open>CntPtr\<close> rest. A heap maps the address of a live object to its 32-bit counter; a method that
  touches a destroyed object, or fails a check of a debug build, has the result \<open>None\<close>. The
  destructors of the objects are those of the user and release nothing here.
\<close>

section \<open>Objects with a simple counter\<close>

type_synonym ptr = "64 word"

record simple_heap =
  m_refCount :: "ptr \<rightharpoonup> 32 word"
  deleted :: "ptr list"

text \<open>A check made in debug builds only.\<close>

definition DebugVerify :: "bool \<Rightarrow> bool \<Rightarrow> 'a option \<Rightarrow> 'a option" where
  "DebugVerify debug condition rest = (if debug \<and> \<not> condition then None else rest)"

definition Policy_Delete :: "ptr \<Rightarrow> simple_heap \<Rightarrow> simple_heap" where
  "Policy_Delete a h = h\<lparr>m_refCount := (m_refCount h)(a := None), deleted := a # deleted h\<rparr>"

definition RefCountedObject_AddRef :: "bool \<Rightarrow> ptr \<Rightarrow> simple_heap \<Rightarrow> simple_heap option" where
  "RefCountedObject_AddRef debug a h = (case m_refCount h a of
       None \<Rightarrow> None
     | Some n \<Rightarrow>
         (let r = n + 1
          in DebugVerify debug (r \<noteq> 1) (Some (h\<lparr>m_refCount := (m_refCount h)(a \<mapsto> r)\<rparr>))))"

definition RefCountedObject_Release :: "bool \<Rightarrow> ptr \<Rightarrow> simple_heap \<Rightarrow> simple_heap option" where
  "RefCountedObject_Release debug a h = (case m_refCount h a of
       None \<Rightarrow> None
     | Some n \<Rightarrow>
         (let r = n - 1; h' = h\<lparr>m_refCount := (m_refCount h)(a \<mapsto> r)\<rparr>
          in DebugVerify debug (0 \<le> sint r) (Some (if r = 0 then Policy_Delete a h' else h'))))"

text \<open>\<^verbatim>\<open>RefCountedWrapperBase\<close> has its own check on the way up.\<close>

definition RefCountedWrapperBase_AddRef :: "bool \<Rightarrow> ptr \<Rightarrow> simple_heap \<Rightarrow> simple_heap option" where
  "RefCountedWrapperBase_AddRef debug a h = (case m_refCount h a of
       None \<Rightarrow> None
     | Some n \<Rightarrow>
         (let r = n + 1
          in DebugVerify debug (1 < sint r) (Some (h\<lparr>m_refCount := (m_refCount h)(a \<mapsto> r)\<rparr>))))"

definition RefCountedWrapperBase_Release :: "bool \<Rightarrow> ptr \<Rightarrow> simple_heap \<Rightarrow> simple_heap option" where
  "RefCountedWrapperBase_Release debug a h = (case m_refCount h a of
       None \<Rightarrow> None
     | Some n \<Rightarrow>
         (let r = n - 1; h' = h\<lparr>m_refCount := (m_refCount h)(a \<mapsto> r)\<rparr>
          in DebugVerify debug (0 \<le> sint r) (Some (if r = 0 then Policy_Delete a h' else h'))))"

text \<open>An object is made with the count one, which the caller owns.\<close>

definition Make_simple :: "ptr \<Rightarrow> simple_heap \<Rightarrow> simple_heap" where
  "Make_simple a h = h\<lparr>m_refCount := (m_refCount h)(a \<mapsto> 1)\<rparr>"

section \<open>The contract\<close>

text \<open>
  \<open>refs\<close> is the number of references of an object, zero if it is not alive; \<open>limit\<close> is how
  far a counter can go. The two methods never fail on a live object below the limit and change
  one count by one.
\<close>

locale ref_counted =
  fixes AddRef Release :: "ptr \<Rightarrow> 'h \<Rightarrow> 'h option"
    and refs :: "'h \<Rightarrow> ptr \<Rightarrow> nat"
    and ok :: "'h \<Rightarrow> bool"
    and limit :: nat
  assumes AddRef_law: "ok h \<Longrightarrow> 0 < refs h a \<Longrightarrow> refs h a < limit \<Longrightarrow>
      \<exists>h'. AddRef a h = Some h' \<and> ok h' \<and> refs h' = (refs h)(a := refs h a + 1)"
    and Release_law: "ok h \<Longrightarrow> 0 < refs h a \<Longrightarrow> refs h a \<le> limit \<Longrightarrow>
      \<exists>h'. Release a h = Some h' \<and> ok h' \<and> refs h' = (refs h)(a := refs h a - 1)"

section \<open>The counters implement the contract\<close>

definition simple_refs :: "simple_heap \<Rightarrow> ptr \<Rightarrow> nat" where
  "simple_refs h a = (case m_refCount h a of None \<Rightarrow> 0 | Some n \<Rightarrow> unat n)"

definition simple_ok :: "simple_heap \<Rightarrow> bool" where
  "simple_ok h \<longleftrightarrow> (\<forall>a. m_refCount h a \<noteq> Some 0) \<and> distinct (deleted h) \<and> (\<forall>a \<in> set (deleted h). m_refCount h a = None)"

definition count_limit :: nat where
  "count_limit = 2 ^ 31 - 1"

lemma simple_refs_Some: "0 < simple_refs h a \<longleftrightarrow> (\<exists>n. m_refCount h a = Some n \<and> n \<noteq> 0)"
  by (auto simp: simple_refs_def unat_gt_0 split: option.splits)

lemma sint_small: "unat (n :: 32 word) \<le> count_limit \<Longrightarrow> sint n = int (unat n)"
proof -
  assume "unat n \<le> count_limit"
  then have "int (unat n) \<le> int count_limit" by (simp only: of_nat_le_iff)
  then have "uint n < 2 ^ 31" by (simp add: count_limit_def)
  moreover have "- (2 ^ 31) \<le> uint n" using uint_ge_0 [of n] by (simp add: order_trans [of _ 0])
  ultimately have "signed_take_bit 31 (uint n) = uint n" using signed_take_bit_int_eq_self [of 31 "uint n"] by blast
  then show ?thesis by (simp add: sint_uint)
qed

lemma unat_inc: "unat (n :: 32 word) < count_limit \<Longrightarrow> unat (n + 1) = unat n + 1"
  by (simp add: count_limit_def unat_word_ariths)

lemma simple_count_methods:
  assumes "simple_ok h" "m_refCount h a = Some n"
  shows "simple_ok (h\<lparr>m_refCount := (m_refCount h)(a \<mapsto> r)\<rparr>) \<longleftrightarrow> r \<noteq> 0"
    and "simple_refs (h\<lparr>m_refCount := (m_refCount h)(a \<mapsto> r)\<rparr>) = (simple_refs h)(a := unat r)"
    and "simple_ok (Policy_Delete a (h\<lparr>m_refCount := (m_refCount h)(a \<mapsto> r)\<rparr>))"
    and "simple_refs (Policy_Delete a (h\<lparr>m_refCount := (m_refCount h)(a \<mapsto> r)\<rparr>)) = (simple_refs h)(a := 0)"
  using assms by (auto simp: simple_ok_def simple_refs_def Policy_Delete_def fun_eq_iff)

lemma Release_object_law:
  assumes "simple_ok h" "0 < simple_refs h a" "simple_refs h a \<le> count_limit"
  shows "\<exists>h'. RefCountedObject_Release debug a h = Some h' \<and> simple_ok h' \<and>
    simple_refs h' = (simple_refs h)(a := simple_refs h a - 1)"
proof -
  obtain n where n: "m_refCount h a = Some n" "n \<noteq> 0" using assms(2) by (auto simp: simple_refs_Some)
  then have le: "unat (n - 1) \<le> count_limit" and dec: "unat (n - 1) = unat n - 1"
    using assms(3) by (auto simp: simple_refs_def unat_minus_one)
  then have "0 \<le> sint (n - 1)" by (simp add: sint_small)
  with n dec show ?thesis
    using simple_count_methods [OF assms(1) n(1)]
    by (cases "n - 1 = 0") (auto simp: RefCountedObject_Release_def DebugVerify_def Let_def simple_refs_def)
qed

lemma AddRef_laws:
  assumes "simple_ok h" "0 < simple_refs h a" "simple_refs h a < count_limit"
  shows "\<exists>h'. RefCountedObject_AddRef debug a h = Some h' \<and> simple_ok h' \<and>
      simple_refs h' = (simple_refs h)(a := simple_refs h a + 1)" (is "\<exists>h'. ?P h'")
    and "\<exists>h'. RefCountedWrapperBase_AddRef debug a h = Some h' \<and> simple_ok h' \<and>
      simple_refs h' = (simple_refs h)(a := simple_refs h a + 1)" (is "\<exists>h'. ?Q h'")
proof -
  obtain n where n: "m_refCount h a = Some n" "n \<noteq> 0" using assms(2) by (auto simp: simple_refs_Some)
  then have inc: "unat (n + 1) = unat n + 1" using assms(3) by (simp add: simple_refs_def unat_inc)
  then have "sint (n + 1) = int (unat n) + 1" using assms(3) n by (simp add: sint_small simple_refs_def)
  moreover have "0 < uint n" using n word_less_def [of 0 n] by (simp add: word_gt_0)
  ultimately have "1 < sint (n + 1)" "n + 1 \<noteq> 1" "n + 1 \<noteq> 0"
    using n inc by auto
  with n inc show "\<exists>h'. ?P h'" "\<exists>h'. ?Q h'"
    using simple_count_methods [OF assms(1) n(1)]
    by (auto simp: RefCountedObject_AddRef_def RefCountedWrapperBase_AddRef_def DebugVerify_def Let_def simple_refs_def)
qed

text \<open>The objects alive and the objects deleted, together, do not change.\<close>

definition simple_ok_in :: "ptr set \<Rightarrow> simple_heap \<Rightarrow> bool" where
  "simple_ok_in S h \<longleftrightarrow> simple_ok h \<and> dom (m_refCount h) \<union> set (deleted h) = S"

lemma methods_keep_objects:
  "RefCountedObject_AddRef debug a h = Some h' \<or> RefCountedWrapperBase_AddRef debug a h = Some h' \<or>
   RefCountedObject_Release debug a h = Some h' \<Longrightarrow>
   dom (m_refCount h') \<union> set (deleted h') = dom (m_refCount h) \<union> set (deleted h)"
  by (auto simp: RefCountedObject_AddRef_def RefCountedWrapperBase_AddRef_def RefCountedObject_Release_def DebugVerify_def
      Policy_Delete_def Let_def split: option.splits if_splits)

lemma counted_laws_in:
  assumes "simple_ok_in S h" "0 < simple_refs h a"
  shows "simple_refs h a < count_limit \<Longrightarrow> \<exists>h'. RefCountedObject_AddRef debug a h = Some h' \<and> simple_ok_in S h' \<and>
      simple_refs h' = (simple_refs h)(a := simple_refs h a + 1)"
    and "simple_refs h a < count_limit \<Longrightarrow> \<exists>h'. RefCountedWrapperBase_AddRef debug a h = Some h' \<and> simple_ok_in S h' \<and>
      simple_refs h' = (simple_refs h)(a := simple_refs h a + 1)"
    and "simple_refs h a \<le> count_limit \<Longrightarrow> \<exists>h'. RefCountedObject_Release debug a h = Some h' \<and> simple_ok_in S h' \<and>
      simple_refs h' = (simple_refs h)(a := simple_refs h a - 1)"
  using assms AddRef_laws [of h a debug] Release_object_law [of h a debug] methods_keep_objects [of debug a h]
  unfolding simple_ok_in_def by metis+

lemma wrapper_Release: "RefCountedWrapperBase_Release = RefCountedObject_Release"
  by (simp add: fun_eq_iff RefCountedWrapperBase_Release_def RefCountedObject_Release_def)

interpretation counted_object: ref_counted "RefCountedObject_AddRef debug" "RefCountedObject_Release debug"
  simple_refs "simple_ok_in S" count_limit for debug S
  by unfold_locales (erule (2) counted_laws_in(1), erule (2) counted_laws_in(3))

interpretation counted_wrapper: ref_counted "RefCountedWrapperBase_AddRef debug" "RefCountedWrapperBase_Release debug"
  simple_refs "simple_ok_in S" count_limit for debug S
  by unfold_locales (erule (2) counted_laws_in(2), unfold wrapper_Release, erule (2) counted_laws_in(3))

end
