(* ===== verification/CntPtr.thy ===== *)
theory CntPtr
  imports RefCount
begin

text \<open>
  The counted pointer \<^verbatim>\<open>Mso::CntPtr\<close> (\<^verbatim>\<open>Mso/smartPtr/cntPtr.h\<close>). The pointers of a program are a
  list, each with its \<^verbatim>\<open>m_ptr\<close>, null is 0; \<open>AddRef\<close> and \<open>Release\<close> of the pointed-to type are
  arguments, as they are of the template. The ownership theorem is proved once under the contract
  \<open>ref_counted\<close>.
\<close>

section \<open>Operations\<close>

type_synonym 'h methods = "(ptr \<Rightarrow> 'h \<Rightarrow> 'h option) \<times> (ptr \<Rightarrow> 'h \<Rightarrow> 'h option)"

abbreviation the_AddRef :: "'h methods \<Rightarrow> ptr \<Rightarrow> 'h \<Rightarrow> 'h option" where
  "the_AddRef M \<equiv> fst M"

abbreviation the_Release :: "'h methods \<Rightarrow> ptr \<Rightarrow> 'h \<Rightarrow> 'h option" where
  "the_Release M \<equiv> snd M"

text \<open>Both skip the null pointer at every call.\<close>

definition AddRef_if :: "'h methods \<Rightarrow> ptr \<Rightarrow> 'h \<Rightarrow> 'h option" where
  "AddRef_if M p h = (if p \<noteq> 0 then the_AddRef M p h else Some h)"

definition Release_if :: "'h methods \<Rightarrow> ptr \<Rightarrow> 'h \<Rightarrow> 'h option" where
  "Release_if M p h = (if p \<noteq> 0 then the_Release M p h else Some h)"

text \<open>Constructors; a new pointer is added at the end of the list.\<close>

definition CntPtr_null :: "ptr list \<Rightarrow> 'h \<Rightarrow> (ptr list \<times> 'h) option" where
  "CntPtr_null ps h = Some (ps @ [0], h)"

definition CntPtr_raw :: "'h methods \<Rightarrow> ptr \<Rightarrow> ptr list \<Rightarrow> 'h \<Rightarrow> (ptr list \<times> 'h) option" where
  "CntPtr_raw M p ps h = map_option (Pair (ps @ [p])) (AddRef_if M p h)"

definition CntPtr_attach :: "ptr \<Rightarrow> ptr list \<Rightarrow> 'h \<Rightarrow> (ptr list \<times> 'h) option" where
  "CntPtr_attach p ps h = Some (ps @ [p], h)"

definition CntPtr_copy :: "'h methods \<Rightarrow> nat \<Rightarrow> ptr list \<Rightarrow> 'h \<Rightarrow> (ptr list \<times> 'h) option" where
  "CntPtr_copy M other ps h = map_option (Pair (ps @ [ps ! other])) (AddRef_if M (ps ! other) h)"

definition CntPtr_move :: "nat \<Rightarrow> ptr list \<Rightarrow> 'h \<Rightarrow> (ptr list \<times> 'h) option" where
  "CntPtr_move other ps h = Some (ps[other := 0] @ [ps ! other], h)"

text \<open>The destructor; the pointer stays in the list as null.\<close>

definition CntPtr_destroy :: "'h methods \<Rightarrow> nat \<Rightarrow> ptr list \<Rightarrow> 'h \<Rightarrow> (ptr list \<times> 'h) option" where
  "CntPtr_destroy M i ps h = map_option (Pair (ps[i := 0])) (Release_if M (ps ! i) h)"

definition CntPtr_assign_null :: "'h methods \<Rightarrow> nat \<Rightarrow> ptr list \<Rightarrow> 'h \<Rightarrow> (ptr list \<times> 'h) option" where
  "CntPtr_assign_null M i ps h = map_option (Pair (ps[i := 0])) (Release_if M (ps ! i) h)"

definition CntPtr_assign_raw :: "'h methods \<Rightarrow> nat \<Rightarrow> ptr \<Rightarrow> ptr list \<Rightarrow> 'h \<Rightarrow> (ptr list \<times> 'h) option" where
  "CntPtr_assign_raw M i p ps h =
     (if ps ! i \<noteq> p then
        (case AddRef_if M p h of
           None \<Rightarrow> None
         | Some h' \<Rightarrow> map_option (Pair (ps[i := p])) (Release_if M (ps ! i) h'))
      else Some (ps, h))"

definition CntPtr_assign_copy :: "'h methods \<Rightarrow> nat \<Rightarrow> nat \<Rightarrow> ptr list \<Rightarrow> 'h \<Rightarrow> (ptr list \<times> 'h) option" where
  "CntPtr_assign_copy M i other ps h =
     (let p = ps ! other
      in if ps ! i \<noteq> p then
           (case AddRef_if M p h of
              None \<Rightarrow> None
            | Some h' \<Rightarrow> map_option (Pair (ps[i := p])) (Release_if M (ps ! i) h'))
         else Some (ps, h))"

definition CntPtr_assign_move :: "'h methods \<Rightarrow> nat \<Rightarrow> nat \<Rightarrow> ptr list \<Rightarrow> 'h \<Rightarrow> (ptr list \<times> 'h) option" where
  "CntPtr_assign_move M i other ps h =
     (if ps ! i \<noteq> ps ! other then
        map_option (Pair (ps[i := ps ! other, other := 0])) (Release_if M (ps ! i) h)
      else Some (ps, h))"

definition IsEmpty :: "nat \<Rightarrow> ptr list \<Rightarrow> bool" where
  "IsEmpty i ps \<longleftrightarrow> ps ! i = 0"

definition Clear :: "'h methods \<Rightarrow> nat \<Rightarrow> ptr list \<Rightarrow> 'h \<Rightarrow> (ptr list \<times> 'h) option" where
  "Clear M i ps h = map_option (Pair (ps[i := 0])) (Release_if M (ps ! i) h)"

definition Attach :: "'h methods \<Rightarrow> nat \<Rightarrow> ptr \<Rightarrow> ptr list \<Rightarrow> 'h \<Rightarrow> (ptr list \<times> 'h) option" where
  "Attach M i p ps h =
     (if ps ! i \<noteq> p then map_option (Pair (ps[i := p])) (Release_if M (ps ! i) h) else Some (ps, h))"

definition Detach :: "nat \<Rightarrow> ptr list \<Rightarrow> ptr \<times> ptr list" where
  "Detach i ps = (ps ! i, ps[i := 0])"

text \<open>
  An output parameter: the pointer is cleared first and the callee writes a reference it owns into
  the address. \<^verbatim>\<open>operator&\<close> gives the address through \<^verbatim>\<open>CntPtrRef\<close>, which asserts that the
  pointer is null.
\<close>

definition ClearAndGetAddressOf :: "'h methods \<Rightarrow> nat \<Rightarrow> ptr \<Rightarrow> ptr list \<Rightarrow> 'h \<Rightarrow> (ptr list \<times> 'h) option" where
  "ClearAndGetAddressOf M i p ps h = map_option (Pair (ps[i := p])) (Release_if M (ps ! i) h)"

definition GetAddressOf :: "bool \<Rightarrow> nat \<Rightarrow> ptr \<Rightarrow> ptr list \<Rightarrow> 'h \<Rightarrow> (ptr list \<times> 'h) option" where
  "GetAddressOf debug i p ps h = DebugVerify debug (ps ! i = 0) (Some (ps[i := p], h))"

definition CntPtr_swap :: "nat \<Rightarrow> nat \<Rightarrow> ptr list \<Rightarrow> ptr list" where
  "CntPtr_swap i j ps = ps[i := ps ! j, j := ps ! i]"

section \<open>Programs\<close>

datatype cnt_op =
    NewNull | NewRaw ptr | NewAttach ptr | NewCopy nat | NewMove nat | Destroy nat
  | AssignNull nat | AssignRaw nat ptr | AssignCopy nat nat | AssignMove nat nat
  | DoClear nat | DoAttach nat ptr | DoDetach nat | OutParam nat ptr | AddressParam nat ptr | Swap nat nat

fun cnt_step :: "bool \<Rightarrow> 'h methods \<Rightarrow> cnt_op \<Rightarrow> ptr list \<Rightarrow> 'h \<Rightarrow> (ptr list \<times> 'h) option" where
  "cnt_step debug M NewNull ps h = CntPtr_null ps h"
| "cnt_step debug M (NewRaw p) ps h = CntPtr_raw M p ps h"
| "cnt_step debug M (NewAttach p) ps h = CntPtr_attach p ps h"
| "cnt_step debug M (NewCopy j) ps h = CntPtr_copy M j ps h"
| "cnt_step debug M (NewMove j) ps h = CntPtr_move j ps h"
| "cnt_step debug M (Destroy i) ps h = CntPtr_destroy M i ps h"
| "cnt_step debug M (AssignNull i) ps h = CntPtr_assign_null M i ps h"
| "cnt_step debug M (AssignRaw i p) ps h = CntPtr_assign_raw M i p ps h"
| "cnt_step debug M (AssignCopy i j) ps h = CntPtr_assign_copy M i j ps h"
| "cnt_step debug M (AssignMove i j) ps h = CntPtr_assign_move M i j ps h"
| "cnt_step debug M (DoClear i) ps h = Clear M i ps h"
| "cnt_step debug M (DoAttach i p) ps h = Attach M i p ps h"
| "cnt_step debug M (DoDetach i) ps h = Some (snd (Detach i ps), h)"
| "cnt_step debug M (OutParam i p) ps h = ClearAndGetAddressOf M i p ps h"
| "cnt_step debug M (AddressParam i p) ps h = GetAddressOf debug i p ps h"
| "cnt_step debug M (Swap i j) ps h = Some (CntPtr_swap i j ps, h)"

text \<open>
  References that are owned by raw pointers: \<^verbatim>\<open>Detach\<close> makes one, and the operations that take
  ownership use one up.
\<close>

fun raw_after :: "cnt_op \<Rightarrow> ptr list \<Rightarrow> ptr list \<Rightarrow> ptr list" where
  "raw_after (NewAttach p) ps rs = remove1 p rs"
| "raw_after (DoAttach i p) ps rs = remove1 p rs"
| "raw_after (OutParam i p) ps rs = remove1 p rs"
| "raw_after (AddressParam i p) ps rs = remove1 p rs"
| "raw_after (DoDetach i) ps rs = (ps ! i) # rs"
| "raw_after _ ps rs = rs"

text \<open>
  What a caller has to keep to: pointers exist, a raw pointer to copy from is null or owned by
  someone, a raw pointer to attach is null or a reference the caller owns. \<^verbatim>\<open>Attach\<close> may not get the
  pointer it holds already.
\<close>

fun legal :: "cnt_op \<Rightarrow> ptr list \<Rightarrow> ptr list \<Rightarrow> bool" where
  "legal NewNull ps rs \<longleftrightarrow> True"
| "legal (NewRaw p) ps rs \<longleftrightarrow> p = 0 \<or> p \<in> set ps \<or> p \<in> set rs"
| "legal (NewAttach p) ps rs \<longleftrightarrow> p = 0 \<or> p \<in> set rs"
| "legal (NewCopy j) ps rs \<longleftrightarrow> j < length ps"
| "legal (NewMove j) ps rs \<longleftrightarrow> j < length ps"
| "legal (Destroy i) ps rs \<longleftrightarrow> i < length ps"
| "legal (AssignNull i) ps rs \<longleftrightarrow> i < length ps"
| "legal (AssignRaw i p) ps rs \<longleftrightarrow> i < length ps \<and> (p = 0 \<or> p \<in> set ps \<or> p \<in> set rs)"
| "legal (AssignCopy i j) ps rs \<longleftrightarrow> i < length ps \<and> j < length ps"
| "legal (AssignMove i j) ps rs \<longleftrightarrow> i < length ps \<and> j < length ps"
| "legal (DoClear i) ps rs \<longleftrightarrow> i < length ps"
| "legal (DoAttach i p) ps rs \<longleftrightarrow> i < length ps \<and> (p = 0 \<or> p \<in> set rs \<and> ps ! i \<noteq> p)"
| "legal (DoDetach i) ps rs \<longleftrightarrow> i < length ps"
| "legal (OutParam i p) ps rs \<longleftrightarrow> i < length ps \<and> (p = 0 \<or> p \<in> set rs)"
| "legal (AddressParam i p) ps rs \<longleftrightarrow> i < length ps \<and> (p = 0 \<or> p \<in> set rs) \<and> ps ! i = 0"
| "legal (Swap i j) ps rs \<longleftrightarrow> i < length ps \<and> j < length ps"

fun cnt_run :: "bool \<Rightarrow> 'h methods \<Rightarrow> cnt_op list \<Rightarrow> ptr list \<times> ptr list \<times> 'h \<Rightarrow> (ptr list \<times> ptr list \<times> 'h) option" where
  "cnt_run debug M [] (ps, rs, h) = Some (ps, rs, h)"
| "cnt_run debug M (op # ops) (ps, rs, h) = (case cnt_step debug M op ps h of
       None \<Rightarrow> None
     | Some (ps', h') \<Rightarrow> cnt_run debug M ops (ps', raw_after op ps rs, h'))"

fun legal_run :: "bool \<Rightarrow> 'h methods \<Rightarrow> cnt_op list \<Rightarrow> ptr list \<times> ptr list \<times> 'h \<Rightarrow> bool" where
  "legal_run debug M [] (ps, rs, h) \<longleftrightarrow> True"
| "legal_run debug M (op # ops) (ps, rs, h) \<longleftrightarrow> legal op ps rs \<and> (case cnt_step debug M op ps h of
       None \<Rightarrow> True
     | Some (ps', h') \<Rightarrow> legal_run debug M ops (ps', raw_after op ps rs, h'))"

section \<open>Ownership\<close>

definition owners :: "ptr list \<Rightarrow> ptr list \<Rightarrow> ptr \<Rightarrow> nat" where
  "owners ps rs a = count_list ps a + count_list rs a"

definition owned_by :: "('h \<Rightarrow> ptr \<Rightarrow> nat) \<Rightarrow> ('h \<Rightarrow> bool) \<Rightarrow> (ptr \<Rightarrow> nat) \<Rightarrow> 'h \<Rightarrow> bool" where
  "owned_by refs ok c h \<longleftrightarrow> ok h \<and> (\<forall>a. a \<noteq> 0 \<longrightarrow> refs h a = c a)"

lemma count_list_update:
  "i < length xs \<Longrightarrow> count_list (xs[i := v]) a + (if xs ! i = a then 1 else 0) = count_list xs a + (if v = a then 1 else 0)"
proof -
  assume i: "i < length xs"
  have "count_list xs a = count_list (take i xs @ xs ! i # drop (Suc i) xs) a"
    using i by (simp flip: id_take_nth_drop)
  moreover have "count_list (xs[i := v]) a = count_list (take i xs @ v # drop (Suc i) xs) a"
    using i by (simp add: upd_conv_take_nth_drop)
  ultimately show ?thesis by simp
qed

lemma count_list_remove1: "count_list (remove1 p xs) a = count_list xs a - (if p = a \<and> p \<in> set xs then 1 else 0)"
  by (induction xs) (auto simp: count_list_0_iff Suc_diff_Suc count_notin)

lemma count_list_pos: "p \<in> set xs \<Longrightarrow> 0 < count_list xs p"
  by (metis count_list_0_iff gr0I)

lemma owners_le: "owners ps rs a \<le> length ps + length rs"
  by (simp add: owners_def add_mono count_le_length)

lemma owners_pos: "p \<in> set ps \<or> p \<in> set rs \<Longrightarrow> 0 < owners ps rs p"
  by (auto simp: owners_def dest: count_list_pos)

lemma nth_owner [simp]: "i < length ps \<Longrightarrow> 0 < owners ps rs (ps ! i)"
  by (simp add: owners_pos)

lemma owned_by_cong: "(\<And>a. a \<noteq> 0 \<Longrightarrow> c a = c' a) \<Longrightarrow> owned_by refs ok c h = owned_by refs ok c' h"
  by (auto simp: owned_by_def)

lemma owners_append: "owners (ps @ [p]) (remove1 p rs) a = owners ps rs a" if "p \<in> set rs"
  using that by (auto simp: owners_def count_list_remove1 dest: count_list_pos)

lemma owners_update: "i < length ps \<Longrightarrow>
    owners (ps[i := v]) rs a + (if ps ! i = a then 1 else 0) = owners ps rs a + (if v = a then 1 else 0)"
  using count_list_update [of i ps v a] by (simp add: owners_def)

lemma owners_remove1: "p \<in> set rs \<Longrightarrow> owners ps (remove1 p rs) a + (if p = a then 1 else 0) = owners ps rs a"
  by (auto simp: owners_def count_list_remove1 dest: count_list_pos)

lemma owners_swap: "i < length ps \<Longrightarrow> j < length ps \<Longrightarrow> owners (CntPtr_swap i j ps) rs = owners ps rs"
  using owners_update [of i ps "ps ! j" rs] owners_update [of j "ps[i := ps ! j]" "ps ! i" rs]
  by (auto simp: CntPtr_swap_def fun_eq_iff nth_list_update split: if_splits)

lemma owners_move: "j < length ps \<Longrightarrow> a \<noteq> 0 \<Longrightarrow> owners (ps[j := 0] @ [ps ! j]) rs a = owners ps rs a"
  using count_list_update [of j ps 0 a] by (auto simp: owners_def split: if_splits)

lemma owners_detach: "j < length ps \<Longrightarrow> a \<noteq> 0 \<Longrightarrow> owners (ps[j := 0]) (ps ! j # rs) a = owners ps rs a"
  using count_list_update [of j ps 0 a] by (auto simp: owners_def split: if_splits)

lemma owners_address: "i < length ps \<Longrightarrow> ps ! i = 0 \<Longrightarrow> p = 0 \<or> p \<in> set rs \<Longrightarrow> a \<noteq> 0 \<Longrightarrow>
    owners (ps[i := p]) (remove1 p rs) a = owners ps rs a"
  using owners_update [of i ps p "remove1 p rs" a] owners_remove1 [of p rs ps a]
  by (auto simp: owners_def count_list_remove1 split: if_splits)

lemma owners_null [simp]: "a \<noteq> 0 \<Longrightarrow> owners ps (0 # rs) a = owners ps rs a" "a \<noteq> 0 \<Longrightarrow> owners ps (remove1 0 rs) a = owners ps rs a"
  "a \<noteq> 0 \<Longrightarrow> owners (ps @ [0]) rs a = owners ps rs a"
  by (simp_all add: owners_def count_list_remove1)

context ref_counted
begin

lemma AddRef_if_owned:
  assumes "owned_by refs ok c h" and "p \<noteq> 0 \<Longrightarrow> 0 < c p \<and> c p < limit"
  shows "\<exists>h'. AddRef_if (AddRef, Release) p h = Some h' \<and> owned_by refs ok (c(p := c p + 1)) h'"
  using assms AddRef_law [of h p] by (auto simp: AddRef_if_def owned_by_def)

lemma Release_if_owned:
  assumes "owned_by refs ok c h" and "p \<noteq> 0 \<Longrightarrow> 0 < c p \<and> c p \<le> limit"
  shows "\<exists>h'. Release_if (AddRef, Release) p h = Some h' \<and> owned_by refs ok (c(p := c p - 1)) h'"
  using assms Release_law [of h p] by (auto simp: Release_if_def owned_by_def)

lemma swap_in_owned:
  assumes "owned_by refs ok (owners ps rs) h" and "i < length ps" and "ps ! i \<noteq> p"
    and "p \<noteq> 0 \<Longrightarrow> 0 < owners ps rs p" and "length ps + length rs < limit"
  shows "\<exists>h'. (case AddRef_if (AddRef, Release) p h of None \<Rightarrow> None
      | Some h' \<Rightarrow> map_option (Pair (ps[i := p])) (Release_if (AddRef, Release) (ps ! i) h')) = Some (ps[i := p], h') \<and>
    owned_by refs ok (owners (ps[i := p]) rs) h'"
proof -
  let ?c = "(owners ps rs)(p := owners ps rs p + 1)"
  have small: "owners ps rs a < limit" for a
    using owners_le [of ps rs a] assms(5) by linarith
  obtain h1 where h1: "AddRef_if (AddRef, Release) p h = Some h1" "owned_by refs ok ?c h1"
    using AddRef_if_owned [OF assms(1), of p] assms(4) small by blast
  obtain h2 where h2: "Release_if (AddRef, Release) (ps ! i) h1 = Some h2"
    "owned_by refs ok (?c(ps ! i := ?c (ps ! i) - 1)) h2"
    using Release_if_owned [OF h1(2), of "ps ! i"] assms(2,3) small [of "ps ! i"] nth_owner [of i ps rs] by fastforce
  have "(?c(ps ! i := ?c (ps ! i) - 1)) a = owners (ps[i := p]) rs a" for a
    using assms(2,3) count_list_update [of i ps p a] count_list_pos [of "ps ! i" ps]
    by (auto simp: owners_def split: if_splits)
  then have "?c(ps ! i := ?c (ps ! i) - 1) = owners (ps[i := p]) rs" by blast
  with h1 h2 show ?thesis by simp
qed

lemma release_owned:
  assumes "owned_by refs ok (owners ps rs) h" and "i < length ps" and "length ps + length rs \<le> limit"
    and "\<And>a. a \<noteq> 0 \<Longrightarrow> owners ps' rs' a = owners ps rs a - (if a = ps ! i then 1 else 0)"
  shows "\<exists>h'. map_option (Pair ps') (Release_if (AddRef, Release) (ps ! i) h) = Some (ps', h') \<and>
    owned_by refs ok (owners ps' rs') h'"
proof -
  have "owners ps rs (ps ! i) \<le> limit" using owners_le [of ps rs "ps ! i"] assms(3) by linarith
  then obtain h' where h': "Release_if (AddRef, Release) (ps ! i) h = Some h'"
    "owned_by refs ok ((owners ps rs)(ps ! i := owners ps rs (ps ! i) - 1)) h'"
    using Release_if_owned [OF assms(1), of "ps ! i"] assms(2) by auto
  have "owned_by refs ok (owners ps' rs') h'"
    using h'(2) assms(4) by (subst (asm) owned_by_cong [of _ "owners ps' rs'"]) auto
  with h' show ?thesis by simp
qed

lemma add_owned:
  assumes "owned_by refs ok (owners ps rs) h" and "p = 0 \<or> p \<in> set ps \<or> p \<in> set rs" and "length ps + length rs < limit"
  shows "\<exists>h'. map_option (Pair (ps @ [p])) (AddRef_if (AddRef, Release) p h) = Some (ps @ [p], h') \<and>
    owned_by refs ok (owners (ps @ [p]) rs) h'"
proof -
  have "owners ps rs p < limit" using owners_le [of ps rs p] assms(3) by linarith
  then obtain h' where h': "AddRef_if (AddRef, Release) p h = Some h'"
    "owned_by refs ok ((owners ps rs)(p := owners ps rs p + 1)) h'"
    using AddRef_if_owned [OF assms(1), of p] assms(2) owners_pos [of p ps rs] by blast
  have "(owners ps rs)(p := owners ps rs p + 1) = owners (ps @ [p]) rs" by (auto simp: owners_def fun_eq_iff)
  with h' show ?thesis by simp
qed

lemma same_owners:
  assumes "owned_by refs ok (owners ps rs) h" and "\<And>a. a \<noteq> 0 \<Longrightarrow> owners ps' rs' a = owners ps rs a"
  shows "owned_by refs ok (owners ps' rs') h"
  using assms by (simp add: owned_by_def)

lemma take_over_owned:
  assumes "owned_by refs ok (owners ps rs) h" and "i < length ps" and "p = 0 \<or> p \<in> set rs"
    and "length ps + length rs < limit"
  shows "\<exists>h'. map_option (Pair (ps[i := p])) (Release_if (AddRef, Release) (ps ! i) h) = Some (ps[i := p], h') \<and>
    owned_by refs ok (owners (ps[i := p]) (remove1 p rs)) h'"
proof (rule release_owned [OF assms(1,2)])
  show "length ps + length rs \<le> limit" using assms(4) by simp
  show "owners (ps[i := p]) (remove1 p rs) a = owners ps rs a - (if a = ps ! i then 1 else 0)" if "a \<noteq> 0" for a
    using owners_update [OF assms(2), of p "remove1 p rs" a] owners_remove1 [of p rs ps a] assms(3) that
      nth_owner [OF assms(2), of rs] by (auto split: if_splits)
qed

lemma move_owned:
  assumes "owned_by refs ok (owners ps rs) h" and "i < length ps" "j < length ps" "ps ! i \<noteq> ps ! j"
    and "length ps + length rs < limit"
  shows "\<exists>h'. map_option (Pair (ps[i := ps ! j, j := 0])) (Release_if (AddRef, Release) (ps ! i) h) =
      Some (ps[i := ps ! j, j := 0], h') \<and> owned_by refs ok (owners (ps[i := ps ! j, j := 0]) rs) h'"
proof (rule release_owned [OF assms(1,2)])
  show "length ps + length rs \<le> limit" using assms(5) by simp
  have "i \<noteq> j" using assms(4) by auto
  then show "owners (ps[i := ps ! j, j := 0]) rs a = owners ps rs a - (if a = ps ! i then 1 else 0)" if "a \<noteq> 0" for a
    using owners_update [OF assms(2), of "ps ! j" rs a] owners_update [of j "ps[i := ps ! j]" 0 rs a] assms that
      nth_owner [OF assms(2), of rs] by (auto split: if_splits)
qed

lemmas op_defs = CntPtr_null_def CntPtr_raw_def CntPtr_attach_def CntPtr_copy_def CntPtr_move_def CntPtr_destroy_def
  CntPtr_assign_null_def CntPtr_assign_raw_def CntPtr_assign_copy_def CntPtr_assign_move_def Clear_def Attach_def
  Detach_def ClearAndGetAddressOf_def GetAddressOf_def Let_def

lemma step_owned:
  assumes own: "owned_by refs ok (owners ps rs) h" and legal: "legal op ps rs" and small: "length ps + length rs < limit"
  shows "\<exists>ps' h'. cnt_step debug (AddRef, Release) op ps h = Some (ps', h') \<and>
    owned_by refs ok (owners ps' (raw_after op ps rs)) h' \<and>
    length ps' + length (raw_after op ps rs) \<le> length ps + length rs + 1"
proof -
  have null: "\<exists>h'. map_option (Pair (ps[i := 0])) (Release_if (AddRef, Release) (ps ! i) h) = Some (ps[i := 0], h') \<and>
    owned_by refs ok (owners (ps[i := 0]) rs) h'" if i: "i < length ps" for i
  proof -
    obtain h' where "map_option (Pair (ps[i := 0])) (Release_if (AddRef, Release) (ps ! i) h) = Some (ps[i := 0], h')"
      "owned_by refs ok (owners (ps[i := 0]) (remove1 0 rs)) h'"
      using take_over_owned [OF own i _ small, of 0] by blast
    then show ?thesis using same_owners [of "ps[i := 0]" "remove1 0 rs"] by fastforce
  qed
  have len: "length (remove1 p rs) \<le> length rs" for p by (simp add: length_remove1)
  show ?thesis
  proof (cases op)
    case (NewAttach p)
    then show ?thesis using legal own len [of p] owners_append [of p rs ps]
      by (auto simp: op_defs intro: same_owners)
  next
    case (NewMove j)
    then show ?thesis using legal by (auto simp: op_defs owners_move intro!: same_owners [OF own])
  next
    case (AssignRaw i p)
    then show ?thesis using legal own small swap_in_owned [OF own, of i p] owners_pos [of p ps rs]
      by (cases "ps ! i = p") (fastforce simp: op_defs)+
  next
    case (AssignCopy i j)
    then show ?thesis using legal own small swap_in_owned [OF own, of i "ps ! j"]
      by (cases "ps ! i = ps ! j") (fastforce simp: op_defs)+
  next
    case (AssignMove i j)
    then show ?thesis using legal own small move_owned [OF own, of i j]
      by (cases "ps ! i = ps ! j") (fastforce simp: op_defs)+
  next
    case (DoAttach i p)
    then show ?thesis using legal own small take_over_owned [OF own, of i p] len [of p]
      by (cases "ps ! i = p") (fastforce simp: op_defs intro: same_owners [OF own])+
  next
    case (DoDetach i)
    then show ?thesis using legal by (auto simp: op_defs owners_detach intro!: same_owners [OF own])
  next
    case (OutParam i p)
    then show ?thesis using legal small take_over_owned [OF own, of i p] len [of p] by (fastforce simp: op_defs)
  next
    case (AddressParam i p)
    then show ?thesis using legal len [of p]
      by (auto simp: op_defs DebugVerify_def owners_address simp del: owners_null intro!: same_owners [OF own])
  next
    case (Swap i j)
    then show ?thesis using legal own owners_swap [of i ps j rs] by (simp add: CntPtr_swap_def)
  qed (use legal own small null add_owned [OF own] in \<open>fastforce simp: op_defs intro: same_owners [OF own]\<close>)+
qed

lemma run_owned:
  assumes "owned_by refs ok (owners ps rs) h" and "legal_run debug (AddRef, Release) ops (ps, rs, h)"
    and "length ps + length rs + length ops \<le> limit"
  shows "\<exists>ps' rs' h'. cnt_run debug (AddRef, Release) ops (ps, rs, h) = Some (ps', rs', h') \<and>
    owned_by refs ok (owners ps' rs') h'"
  using assms
proof (induction ops arbitrary: ps rs h)
  case Nil
  then show ?case by auto
next
  case (Cons op ops)
  obtain ps' h' where step: "cnt_step debug (AddRef, Release) op ps h = Some (ps', h')"
    "owned_by refs ok (owners ps' (raw_after op ps rs)) h'"
    "length ps' + length (raw_after op ps rs) \<le> length ps + length rs + 1"
    using step_owned [of ps rs h op debug] Cons.prems by auto
  then show ?case using Cons.IH [of ps' "raw_after op ps rs" h'] Cons.prems by auto
qed

end

section \<open>Properties\<close>

text \<open>
  C34: a program that uses counted pointers as intended never touches a destroyed object and never fails
  a check: every operation is carried out, the counter of each object is the number of its owners,
  an object is alive exactly as long as it has an owner, and every object that was alive at the
  start is still owned or has been deleted once.
\<close>

theorem cnt_ptr_ownership:
  assumes "simple_ok h" and "deleted h = []" and "\<forall>a. a \<noteq> 0 \<longrightarrow> simple_refs h a = owners ps rs a"
    and "legal_run debug (RefCountedObject_AddRef debug, RefCountedObject_Release debug) ops (ps, rs, h)"
    and "length ps + length rs + length ops \<le> count_limit"
  shows "\<exists>ps' rs' h'. cnt_run debug (RefCountedObject_AddRef debug, RefCountedObject_Release debug) ops (ps, rs, h) =
      Some (ps', rs', h') \<and>
    (\<forall>a. a \<noteq> 0 \<longrightarrow> simple_refs h' a = owners ps' rs' a \<and> (m_refCount h' a \<noteq> None \<longleftrightarrow> a \<in> set ps' \<or> a \<in> set rs')) \<and>
    distinct (deleted h') \<and> set (deleted h') = dom (m_refCount h) - dom (m_refCount h')"
proof -
  let ?S = "dom (m_refCount h) \<union> set (deleted h)"
  have "owned_by simple_refs (simple_ok_in ?S) (owners ps rs) h"
    using assms(1-3) by (simp add: owned_by_def simple_ok_in_def)
  from counted_object.run_owned [OF this assms(4,5)] obtain ps' rs' h' where
    run: "cnt_run debug (RefCountedObject_AddRef debug, RefCountedObject_Release debug) ops (ps, rs, h) = Some (ps', rs', h')"
    and ok: "simple_ok h'" "dom (m_refCount h') \<union> set (deleted h') = ?S"
    and refs: "\<And>a. a \<noteq> 0 \<Longrightarrow> simple_refs h' a = owners ps' rs' a"
    by (auto simp: owned_by_def simple_ok_in_def)
  have "m_refCount h' a \<noteq> None \<longleftrightarrow> a \<in> set ps' \<or> a \<in> set rs'" if "a \<noteq> 0" for a
  proof -
    have "m_refCount h' a \<noteq> None \<longleftrightarrow> 0 < simple_refs h' a"
      using ok(1) by (auto simp: simple_refs_Some simple_ok_def)
    also have "\<dots> \<longleftrightarrow> 0 < owners ps' rs' a" using refs [OF that] by simp
    finally show ?thesis by (metis add_gr_0 count_list_0_iff gr0I less_numeral_extra(3) owners_def)
  qed
  moreover have "set (deleted h') = dom (m_refCount h) - dom (m_refCount h')"
    using ok assms(2) by (auto simp: simple_ok_def)
  ultimately show ?thesis using run ok(1) refs by (auto simp: simple_ok_def)
qed

definition one_object :: "32 word \<Rightarrow> simple_heap" where
  "one_object n = \<lparr>m_refCount = [8 \<mapsto> n], deleted = []\<rparr>"

lemma one_object_refs [simp]: "simple_refs (one_object n) a = (if a = 8 then unat n else 0)"
  by (simp add: simple_refs_def one_object_def)

lemmas cnt_simps = CntPtr_null_def CntPtr_raw_def CntPtr_attach_def CntPtr_copy_def CntPtr_move_def CntPtr_destroy_def
  CntPtr_assign_null_def CntPtr_assign_raw_def CntPtr_assign_copy_def CntPtr_assign_move_def Clear_def Attach_def
  Detach_def ClearAndGetAddressOf_def GetAddressOf_def Let_def AddRef_if_def Release_if_def one_object_def
  RefCountedObject_AddRef_def RefCountedObject_Release_def Policy_Delete_def DebugVerify_def

theorem cnt_ptr_ownership_witness:
  "\<exists>ps' rs' h'. cnt_run True (RefCountedObject_AddRef True, RefCountedObject_Release True)
     [NewAttach 8, NewCopy 0, Destroy 0, AssignMove 0 1, DoClear 0] ([], [8], one_object 1) = Some (ps', rs', h') \<and>
     set (deleted h') = {8} - dom (m_refCount h')"
proof -
  let ?M = "(RefCountedObject_AddRef True, RefCountedObject_Release True)"
  have "simple_ok (one_object 1)" "deleted (one_object 1) = []" by (simp_all add: simple_ok_def one_object_def)
  moreover have "\<forall>a. a \<noteq> 0 \<longrightarrow> simple_refs (one_object 1) a = owners [] [8] a" by (simp add: owners_def)
  moreover have "legal_run True ?M [NewAttach 8, NewCopy 0, Destroy 0, AssignMove 0 1, DoClear 0] ([], [8], one_object 1)"
    by (simp add: cnt_simps)
  moreover have "length ([] :: ptr list) + length [8 :: ptr] + length [NewAttach 8, NewCopy 0, Destroy 0, AssignMove 0 1, DoClear 0] \<le> count_limit"
    by (simp add: count_limit_def)
  ultimately show ?thesis using cnt_ptr_ownership [of "one_object 1" "[]" "[8]" True] by (fastforce simp: one_object_def)
qed

text \<open>
  a reference that is attached to a pointer which holds the same object already is lost: after the
  last pointer is destroyed and no raw reference is left, the object is still alive with the count
  one.
\<close>

theorem attach_held_pointer_leaks:
  "map_option (\<lambda>(ps, rs, h). (ps, rs, m_refCount h 8)) (cnt_run debug (RefCountedObject_AddRef debug, RefCountedObject_Release debug)
     [NewAttach 8, DoAttach 0 8, Destroy 0] ([], [8, 8], one_object 2)) = Some ([0], [], Some 1) \<and>
   map_option (\<lambda>(ps, rs, h). (ps, rs, m_refCount h 8)) (cnt_run debug (RefCountedObject_AddRef debug, RefCountedObject_Release debug)
     [NewAttach 8, DoClear 0, DoAttach 0 8, Destroy 0] ([], [8, 8], one_object 2)) = Some ([0], [], None)"
  by (simp add: cnt_simps)

end
