(* ===== verification/WeakPtr.thy ===== *)
theory WeakPtr
  imports CntPtr
begin

text \<open>
  Weak references: the control block \<^verbatim>\<open>ObjectWeakRef\<close> with its container and memory guard
  (\<^verbatim>\<open>Mso/object/objectWithWeakRef.h\<close>), the block \<^verbatim>\<open>FutureWeakRef\<close> of a future
  (\<^verbatim>\<open>Mso/src/future/futureImpl.cpp\<close>), their common contract \<open>weak_counted\<close>, and the weak
  pointer \<^verbatim>\<open>Mso::WeakPtr\<close> (\<^verbatim>\<open>Mso/object/weakPtr.h\<close>), which is verified under that contract.
  A block is named by the address of the object it was allocated with.
\<close>

section \<open>Control blocks\<close>

text \<open>
  \<open>weakRef_set\<close> is the word before the object that points back to the block, \<open>constructed\<close> says
  that the object lives; \<open>destroyed\<close> is the list of destructor calls.
\<close>

record weak_block =
  strongRefCount :: "32 word"
  m_weakRefCount :: "32 word"
  weakRef_set :: bool
  constructed :: bool

record weak_heap =
  blocks :: "ptr \<rightharpoonup> weak_block"
  destroyed :: "ptr list"

definition set_block :: "ptr \<Rightarrow> weak_block \<Rightarrow> weak_heap \<Rightarrow> weak_heap" where
  "set_block a o' h = h\<lparr>blocks := (blocks h)(a \<mapsto> o')\<rparr>"

definition free_block :: "ptr \<Rightarrow> weak_heap \<Rightarrow> weak_heap" where
  "free_block a h = h\<lparr>blocks := (blocks h)(a := None)\<rparr>"

definition ObjectWeakRef_AddRef :: "bool \<Rightarrow> ptr \<Rightarrow> weak_heap \<Rightarrow> weak_heap option" where
  "ObjectWeakRef_AddRef debug a h = (case blocks h a of
       None \<Rightarrow> None
     | Some b \<Rightarrow>
         (let r = strongRefCount b + 1
          in DebugVerify debug (r \<noteq> 1) (Some (set_block a (b\<lparr>strongRefCount := r\<rparr>) h))))"

definition ObjectWeakRef_AddWeakRef :: "bool \<Rightarrow> ptr \<Rightarrow> weak_heap \<Rightarrow> weak_heap option" where
  "ObjectWeakRef_AddWeakRef debug a h = (case blocks h a of
       None \<Rightarrow> None
     | Some b \<Rightarrow>
         (let r = m_weakRefCount b + 1
          in DebugVerify debug (r \<noteq> 1) (Some (set_block a (b\<lparr>m_weakRefCount := r\<rparr>) h))))"

definition ObjectWeakRef_ReleaseWeakRef :: "bool \<Rightarrow> ptr \<Rightarrow> weak_heap \<Rightarrow> weak_heap option" where
  "ObjectWeakRef_ReleaseWeakRef debug a h = (case blocks h a of
       None \<Rightarrow> None
     | Some b \<Rightarrow>
         (let r = m_weakRefCount b - 1
          in DebugVerify debug (0 \<le> sint r)
               (Some (if r = 0 then free_block a h else set_block a (b\<lparr>m_weakRefCount := r\<rparr>) h))))"

text \<open>The destructor of an object may run only on an object that lives.\<close>

definition run_destructor :: "ptr \<Rightarrow> weak_heap \<Rightarrow> weak_heap option" where
  "run_destructor a h = (case blocks h a of
       None \<Rightarrow> None
     | Some b \<Rightarrow>
         if constructed b then Some ((set_block a (b\<lparr>constructed := False\<rparr>) h)\<lparr>destroyed := a # destroyed h\<rparr>) else None)"

definition SetWeakRef_null :: "ptr \<Rightarrow> weak_heap \<Rightarrow> weak_heap option" where
  "SetWeakRef_null a h = (case blocks h a of
       None \<Rightarrow> None
     | Some b \<Rightarrow> Some (set_block a (b\<lparr>weakRef_set := False\<rparr>) h))"

definition WeakPolicy_Delete :: "bool \<Rightarrow> ptr \<Rightarrow> weak_heap \<Rightarrow> weak_heap option" where
  "WeakPolicy_Delete debug a h =
     Option.bind (run_destructor a h) (\<lambda>h1.
     Option.bind (SetWeakRef_null a h1) (ObjectWeakRef_ReleaseWeakRef debug a))"

definition DestroyObject :: "bool \<Rightarrow> ptr \<Rightarrow> weak_heap \<Rightarrow> weak_heap option" where
  "DestroyObject debug a h = (case blocks h a of
       None \<Rightarrow> None
     | Some b \<Rightarrow> if weakRef_set b then WeakPolicy_Delete debug a h else Some h)"

definition ObjectWeakRef_Release :: "bool \<Rightarrow> ptr \<Rightarrow> weak_heap \<Rightarrow> weak_heap option" where
  "ObjectWeakRef_Release debug a h = (case blocks h a of
       None \<Rightarrow> None
     | Some b \<Rightarrow>
         (let r = strongRefCount b - 1; h' = set_block a (b\<lparr>strongRefCount := r\<rparr>) h
          in DebugVerify debug (0 \<le> sint r) (if r = 0 then DestroyObject debug a h' else Some h')))"

definition ObjectWeakRef_IsExpired :: "ptr \<Rightarrow> weak_heap \<Rightarrow> bool option" where
  "ObjectWeakRef_IsExpired a h = map_option (\<lambda>b. strongRefCount b = 0) (blocks h a)"

definition IncrementRefCountIfNotZero :: "ptr \<Rightarrow> weak_heap \<Rightarrow> (bool \<times> weak_heap) option" where
  "IncrementRefCountIfNotZero a h = (case blocks h a of
       None \<Rightarrow> None
     | Some b \<Rightarrow>
         Some (if strongRefCount b = 0 then (False, h)
               else (True, set_block a (b\<lparr>strongRefCount := strongRefCount b + 1\<rparr>) h)))"

text \<open>
  Making an object: the block is allocated with both counts one; then the constructor runs and
  the initialisation. The memory guard undoes the work when one of them throws.
\<close>

definition AllocateMemory :: "ptr \<Rightarrow> weak_heap \<Rightarrow> weak_heap" where
  "AllocateMemory a h = set_block a \<lparr>strongRefCount = 1, m_weakRefCount = 1, weakRef_set = True, constructed = False\<rparr> h"

definition run_constructor :: "ptr \<Rightarrow> weak_heap \<Rightarrow> weak_heap option" where
  "run_constructor a h = map_option (\<lambda>b. set_block a (b\<lparr>constructed := True\<rparr>) h) (blocks h a)"

record memory_guard =
  ObjMemory :: ptr
  Obj :: ptr

definition WeakRefCountMemoryGuard_destroy :: "bool \<Rightarrow> memory_guard \<Rightarrow> weak_heap \<Rightarrow> weak_heap option" where
  "WeakRefCountMemoryGuard_destroy debug g h =
     (if ObjMemory g \<noteq> 0 then
        Option.bind (SetWeakRef_null (ObjMemory g) h) (\<lambda>h1.
        Option.bind (ObjectWeakRef_Release debug (ObjMemory g) h1)
          (ObjectWeakRef_ReleaseWeakRef debug (ObjMemory g)))
      else if Obj g \<noteq> 0 then ObjectWeakRef_Release debug (Obj g) h
      else Some h)"

text \<open>\<^verbatim>\<open>FutureImpl::Release\<close> with \<^verbatim>\<open>FutureWeakRef\<close>: the same block without the word before the object.\<close>

definition FutureWeakRef_Release :: "bool \<Rightarrow> ptr \<Rightarrow> weak_heap \<Rightarrow> (bool \<times> weak_heap) option" where
  "FutureWeakRef_Release debug a h = (case blocks h a of
       None \<Rightarrow> None
     | Some b \<Rightarrow>
         (let r = strongRefCount b - 1
          in DebugVerify debug (0 \<le> sint r) (Some (r = 0, set_block a (b\<lparr>strongRefCount := r\<rparr>) h))))"

definition FutureImpl_Release :: "bool \<Rightarrow> ptr \<Rightarrow> weak_heap \<Rightarrow> weak_heap option" where
  "FutureImpl_Release debug a h =
     Option.bind (FutureWeakRef_Release debug a h) (\<lambda>(shouldDestroy, h1).
       if shouldDestroy then Option.bind (run_destructor a h1) (ObjectWeakRef_ReleaseWeakRef debug a) else Some h1)"

section \<open>The contract\<close>

text \<open>\<open>weak_refs\<close> counts the weak references of weak pointers, without the one of the object itself.\<close>

locale weak_counted = ref_counted +
  fixes AddWeakRef ReleaseWeakRef :: "ptr \<Rightarrow> 'a \<Rightarrow> 'a option"
    and Lock :: "ptr \<Rightarrow> 'a \<Rightarrow> (bool \<times> 'a) option"
    and weak_refs :: "'a \<Rightarrow> ptr \<Rightarrow> nat"
  assumes AddRef_weak: "AddRef a h = Some h' \<Longrightarrow> weak_refs h' = weak_refs h"
    and Release_weak: "ok h \<Longrightarrow> 0 < refs h a \<Longrightarrow> refs h a \<le> limit \<Longrightarrow>
      Release a h = Some h' \<Longrightarrow> weak_refs h' = weak_refs h"
    and AddWeakRef_law: "ok h \<Longrightarrow> 0 < refs h a + weak_refs h a \<Longrightarrow> weak_refs h a + 1 < limit \<Longrightarrow>
      \<exists>h'. AddWeakRef a h = Some h' \<and> ok h' \<and> refs h' = refs h \<and> weak_refs h' = (weak_refs h)(a := weak_refs h a + 1)"
    and ReleaseWeakRef_law: "ok h \<Longrightarrow> 0 < weak_refs h a \<Longrightarrow>
      \<exists>h'. ReleaseWeakRef a h = Some h' \<and> ok h' \<and> refs h' = refs h \<and> weak_refs h' = (weak_refs h)(a := weak_refs h a - 1)"
    and Lock_law: "ok h \<Longrightarrow> 0 < refs h a + weak_refs h a \<Longrightarrow> refs h a < limit \<Longrightarrow>
      \<exists>h'. Lock a h = Some (0 < refs h a, h') \<and> ok h' \<and> weak_refs h' = weak_refs h \<and>
        refs h' = (if 0 < refs h a then (refs h)(a := refs h a + 1) else refs h)"

section \<open>The blocks implement the contract\<close>

definition counts_ok :: "weak_block \<Rightarrow> bool" where
  "counts_ok b \<longleftrightarrow> (constructed b \<longleftrightarrow> strongRefCount b \<noteq> 0) \<and> m_weakRefCount b \<noteq> 0 \<and>
     unat (m_weakRefCount b) \<le> count_limit"

definition future_blocks_ok :: "weak_heap \<Rightarrow> bool" where
  "future_blocks_ok h \<longleftrightarrow> (\<forall>a b. blocks h a = Some b \<longrightarrow> counts_ok b)"

definition weak_ok :: "weak_heap \<Rightarrow> bool" where
  "weak_ok h \<longleftrightarrow> (\<forall>a b. blocks h a = Some b \<longrightarrow> counts_ok b \<and> (weakRef_set b \<longleftrightarrow> constructed b))"

definition strong_refs :: "weak_heap \<Rightarrow> ptr \<Rightarrow> nat" where
  "strong_refs h a = (case blocks h a of None \<Rightarrow> 0 | Some b \<Rightarrow> unat (strongRefCount b))"

definition pointer_weak_refs :: "weak_heap \<Rightarrow> ptr \<Rightarrow> nat" where
  "pointer_weak_refs h a = (case blocks h a of
       None \<Rightarrow> 0
     | Some b \<Rightarrow> unat (m_weakRefCount b) - (if constructed b then 1 else 0))"

lemma counter_dec:
  "n \<noteq> 0 \<Longrightarrow> unat n \<le> count_limit \<Longrightarrow> 0 \<le> sint (n - 1 :: 32 word)" "n \<noteq> 0 \<Longrightarrow> unat (n - 1 :: 32 word) = unat n - 1"
  by (simp_all add: sint_small unat_minus_one)

lemma count_limit_pos [simp]: "Suc 0 \<le> count_limit"
  by (simp add: count_limit_def)

lemma counter_inc: "unat n < count_limit \<Longrightarrow> n + 1 \<noteq> (0 :: 32 word)"
  using unat_inc [of n] by auto

lemma block_fields [simp]:
  "blocks (set_block a b h) = (blocks h)(a \<mapsto> b)" "blocks (free_block a h) = (blocks h)(a := None)"
  "destroyed (set_block a b h) = destroyed h" "destroyed (free_block a h) = destroyed h"
  by (simp_all add: set_block_def free_block_def)

lemma block_of:
  assumes "0 < strong_refs h a + pointer_weak_refs h a"
  obtains b where "blocks h a = Some b"
  using assms by (auto simp: strong_refs_def pointer_weak_refs_def split: option.splits)

lemmas weak_ops = ObjectWeakRef_AddRef_def ObjectWeakRef_AddWeakRef_def ObjectWeakRef_ReleaseWeakRef_def
  run_destructor_def SetWeakRef_null_def WeakPolicy_Delete_def DestroyObject_def ObjectWeakRef_Release_def
  IncrementRefCountIfNotZero_def FutureWeakRef_Release_def FutureImpl_Release_def DebugVerify_def Let_def

lemmas weak_counts = strong_refs_def pointer_weak_refs_def counts_ok_def weak_ok_def future_blocks_ok_def

lemma weak_positive: "n \<noteq> 0 \<Longrightarrow> 0 < unat (n :: 32 word)"
  by (simp add: unat_gt_0)

lemma strong_block: "0 < strong_refs h a \<longleftrightarrow> (\<exists>b. blocks h a = Some b \<and> strongRefCount b \<noteq> 0)"
  by (auto simp: strong_refs_def unat_gt_0 split: option.splits)

text \<open>Strong references.\<close>

lemma weak_AddRef:
  assumes "0 < strong_refs h a" "strong_refs h a < count_limit"
  shows "\<exists>h'. ObjectWeakRef_AddRef debug a h = Some h' \<and> weak_ok h' = weak_ok h \<and> future_blocks_ok h' = future_blocks_ok h \<and>
    strong_refs h' = (strong_refs h)(a := strong_refs h a + 1)"
proof -
  obtain b where b: "blocks h a = Some b" "strongRefCount b \<noteq> 0" using assms(1) by (auto simp: strong_block)
  moreover have "unat (strongRefCount b + 1) = unat (strongRefCount b) + 1" "strongRefCount b + 1 \<noteq> 0"
    using assms(2) b by (simp_all add: strong_refs_def unat_inc counter_inc)
  ultimately show ?thesis
    by (auto simp: weak_ops weak_counts fun_eq_iff split: if_splits)
qed

lemma strong_cases:
  assumes "future_blocks_ok h" "0 < strong_refs h a" "strong_refs h a \<le> count_limit"
  obtains b where "blocks h a = Some b" "constructed b" "strongRefCount b \<noteq> 0" "m_weakRefCount b \<noteq> 0"
    "0 \<le> sint (strongRefCount b - 1)" "unat (strongRefCount b - 1) = unat (strongRefCount b) - 1"
    "0 \<le> sint (m_weakRefCount b - 1)" "unat (m_weakRefCount b - 1) = unat (m_weakRefCount b) - 1"
    "unat (m_weakRefCount b) \<le> count_limit"
proof -
  obtain b where b: "blocks h a = Some b" "strongRefCount b \<noteq> 0" using assms(2) by (auto simp: strong_block)
  with assms show ?thesis
    by (intro that [of b]) (auto simp: counter_dec strong_refs_def future_blocks_ok_def counts_ok_def)
qed

lemma weak_ok_counts: "weak_ok h \<Longrightarrow> future_blocks_ok h"
  by (simp add: weak_ok_def future_blocks_ok_def)

lemma weak_Release:
  assumes "weak_ok h" "0 < strong_refs h a" "strong_refs h a \<le> count_limit"
  shows "\<exists>h'. ObjectWeakRef_Release debug a h = Some h' \<and> weak_ok h' \<and>
    strong_refs h' = (strong_refs h)(a := strong_refs h a - 1) \<and> pointer_weak_refs h' = pointer_weak_refs h"
proof -
  from strong_cases [OF weak_ok_counts [OF assms(1)] assms(2,3)]
  obtain b where b: "blocks h a = Some b" "constructed b" "strongRefCount b \<noteq> 0" "m_weakRefCount b \<noteq> 0"
    "0 \<le> sint (strongRefCount b - 1)" "unat (strongRefCount b - 1) = unat (strongRefCount b) - 1"
    "0 \<le> sint (m_weakRefCount b - 1)" "unat (m_weakRefCount b - 1) = unat (m_weakRefCount b) - 1"
    "unat (m_weakRefCount b) \<le> count_limit" .
  moreover from b(9) have "unat (m_weakRefCount b) - Suc 0 \<le> count_limit" by simp
  ultimately show ?thesis using assms(1)
    by (auto simp: weak_ops weak_counts fun_eq_iff split: if_splits)
qed

lemma future_Release:
  assumes "future_blocks_ok h" "0 < strong_refs h a" "strong_refs h a \<le> count_limit"
  shows "\<exists>h'. FutureImpl_Release debug a h = Some h' \<and> future_blocks_ok h' \<and>
    strong_refs h' = (strong_refs h)(a := strong_refs h a - 1) \<and> pointer_weak_refs h' = pointer_weak_refs h"
proof -
  from strong_cases [OF assms]
  obtain b where b: "blocks h a = Some b" "constructed b" "strongRefCount b \<noteq> 0" "m_weakRefCount b \<noteq> 0"
    "0 \<le> sint (strongRefCount b - 1)" "unat (strongRefCount b - 1) = unat (strongRefCount b) - 1"
    "0 \<le> sint (m_weakRefCount b - 1)" "unat (m_weakRefCount b - 1) = unat (m_weakRefCount b) - 1"
    "unat (m_weakRefCount b) \<le> count_limit" .
  moreover from b(9) have "unat (m_weakRefCount b) - Suc 0 \<le> count_limit" by simp
  ultimately show ?thesis using assms(1)
    by (auto simp: weak_ops weak_counts fun_eq_iff split: if_splits)
qed

text \<open>Weak references.\<close>

lemma weak_AddWeakRef:
  assumes "0 < strong_refs h a + pointer_weak_refs h a" "pointer_weak_refs h a + 1 < count_limit" "future_blocks_ok h"
  shows "\<exists>h'. ObjectWeakRef_AddWeakRef debug a h = Some h' \<and> weak_ok h' = weak_ok h \<and> future_blocks_ok h' \<and>
    strong_refs h' = strong_refs h \<and> pointer_weak_refs h' = (pointer_weak_refs h)(a := pointer_weak_refs h a + 1)"
proof -
  obtain b where b: "blocks h a = Some b" using assms(1) by (rule block_of)
  then have weak: "m_weakRefCount b \<noteq> 0" "unat (m_weakRefCount b) < count_limit"
    using assms(2,3) by (auto simp: weak_counts split: if_splits)
  then have "unat (m_weakRefCount b + 1) = unat (m_weakRefCount b) + 1" "m_weakRefCount b + 1 \<noteq> 0"
    by (simp_all add: unat_inc counter_inc)
  with b weak weak_positive [OF weak(1)] assms(3) show ?thesis
    by (auto simp: weak_ops weak_counts fun_eq_iff split: if_splits)
qed

lemma weak_ReleaseWeakRef:
  assumes "0 < pointer_weak_refs h a" "future_blocks_ok h"
  shows "\<exists>h'. ObjectWeakRef_ReleaseWeakRef debug a h = Some h' \<and> (weak_ok h \<longrightarrow> weak_ok h') \<and> future_blocks_ok h' \<and>
    strong_refs h' = strong_refs h \<and> pointer_weak_refs h' = (pointer_weak_refs h)(a := pointer_weak_refs h a - 1)"
proof -
  obtain b where b: "blocks h a = Some b" using assms(1) block_of [of h a] by auto
  then have weak: "m_weakRefCount b \<noteq> 0" "unat (m_weakRefCount b) \<le> count_limit" using assms(2) by (auto simp: weak_counts)
  then have "0 \<le> sint (m_weakRefCount b - 1)" "unat (m_weakRefCount b - 1) = unat (m_weakRefCount b) - 1"
    "unat (m_weakRefCount b) - Suc 0 \<le> count_limit"
    by (simp_all add: counter_dec)
  moreover have "m_weakRefCount b = 1 \<Longrightarrow> \<not> constructed b" using assms(1) b by (auto simp: weak_counts)
  moreover have "m_weakRefCount b = 1 \<Longrightarrow> strongRefCount b = 0"
    using calculation assms(2) b by (auto simp: weak_counts)
  ultimately show ?thesis using b weak assms
    by (auto simp: weak_ops weak_counts fun_eq_iff split: if_splits)
qed

lemma weak_Lock:
  assumes "0 < strong_refs h a + pointer_weak_refs h a" "strong_refs h a < count_limit"
  shows "\<exists>h'. IncrementRefCountIfNotZero a h = Some (0 < strong_refs h a, h') \<and> weak_ok h' = weak_ok h \<and>
    future_blocks_ok h' = future_blocks_ok h \<and> pointer_weak_refs h' = pointer_weak_refs h \<and>
    strong_refs h' = (if 0 < strong_refs h a then (strong_refs h)(a := strong_refs h a + 1) else strong_refs h)"
proof -
  obtain b where b: "blocks h a = Some b" using assms(1) by (rule block_of)
  moreover have "unat (strongRefCount b + 1) = unat (strongRefCount b) + 1" "strongRefCount b + 1 \<noteq> 0"
    using assms(2) b by (simp_all add: strong_refs_def unat_inc counter_inc)
  ultimately show ?thesis
    by (auto simp: weak_ops weak_counts fun_eq_iff unat_gt_0 split: if_splits)
qed

lemma weak_AddRef_weak: "ObjectWeakRef_AddRef debug a h = Some h' \<Longrightarrow> pointer_weak_refs h' = pointer_weak_refs h"
  by (auto simp: weak_ops weak_counts fun_eq_iff split: option.splits if_splits)

interpretation weak_object: weak_counted "ObjectWeakRef_AddRef debug" "ObjectWeakRef_Release debug" strong_refs weak_ok
  count_limit "ObjectWeakRef_AddWeakRef debug" "ObjectWeakRef_ReleaseWeakRef debug" IncrementRefCountIfNotZero pointer_weak_refs
  for debug
proof unfold_locales
  fix h h' :: weak_heap and a :: ptr
  show "\<exists>h'. ObjectWeakRef_AddRef debug a h = Some h' \<and> weak_ok h' \<and> strong_refs h' = (strong_refs h)(a := strong_refs h a + 1)"
    if "weak_ok h" "0 < strong_refs h a" "strong_refs h a < count_limit"
    using weak_AddRef [OF that(2,3)] that(1) by blast
  show "\<exists>h'. ObjectWeakRef_Release debug a h = Some h' \<and> weak_ok h' \<and> strong_refs h' = (strong_refs h)(a := strong_refs h a - 1)"
    if "weak_ok h" "0 < strong_refs h a" "strong_refs h a \<le> count_limit"
    using weak_Release [OF that] by blast
  show "pointer_weak_refs h' = pointer_weak_refs h" if "ObjectWeakRef_AddRef debug a h = Some h'"
    using that by (rule weak_AddRef_weak)
  show "pointer_weak_refs h' = pointer_weak_refs h"
    if "weak_ok h" "0 < strong_refs h a" "strong_refs h a \<le> count_limit" "ObjectWeakRef_Release debug a h = Some h'"
    using weak_Release [OF that(1-3), of debug] that(4) by auto
  show "\<exists>h'. ObjectWeakRef_AddWeakRef debug a h = Some h' \<and> weak_ok h' \<and> strong_refs h' = strong_refs h \<and>
      pointer_weak_refs h' = (pointer_weak_refs h)(a := pointer_weak_refs h a + 1)"
    if "weak_ok h" "0 < strong_refs h a + pointer_weak_refs h a" "pointer_weak_refs h a + 1 < count_limit"
    using weak_AddWeakRef [OF that(2,3), of debug] that(1) weak_ok_counts [of h] by blast
  show "\<exists>h'. ObjectWeakRef_ReleaseWeakRef debug a h = Some h' \<and> weak_ok h' \<and> strong_refs h' = strong_refs h \<and>
      pointer_weak_refs h' = (pointer_weak_refs h)(a := pointer_weak_refs h a - 1)"
    if "weak_ok h" "0 < pointer_weak_refs h a"
    using weak_ReleaseWeakRef [OF that(2), of debug] that(1) weak_ok_counts [of h] by blast
  show "\<exists>h'. IncrementRefCountIfNotZero a h = Some (0 < strong_refs h a, h') \<and> weak_ok h' \<and>
      pointer_weak_refs h' = pointer_weak_refs h \<and>
      strong_refs h' = (if 0 < strong_refs h a then (strong_refs h)(a := strong_refs h a + 1) else strong_refs h)"
    if "weak_ok h" "0 < strong_refs h a + pointer_weak_refs h a" "strong_refs h a < count_limit"
    using weak_Lock [OF that(2,3)] that(1) by blast
qed

interpretation weak_future: weak_counted "ObjectWeakRef_AddRef debug" "FutureImpl_Release debug" strong_refs future_blocks_ok
  count_limit "ObjectWeakRef_AddWeakRef debug" "ObjectWeakRef_ReleaseWeakRef debug" IncrementRefCountIfNotZero pointer_weak_refs
  for debug
proof unfold_locales
  fix h h' :: weak_heap and a :: ptr
  show "\<exists>h'. ObjectWeakRef_AddRef debug a h = Some h' \<and> future_blocks_ok h' \<and> strong_refs h' = (strong_refs h)(a := strong_refs h a + 1)"
    if "future_blocks_ok h" "0 < strong_refs h a" "strong_refs h a < count_limit"
    using weak_AddRef [OF that(2,3)] that(1) by blast
  show "\<exists>h'. FutureImpl_Release debug a h = Some h' \<and> future_blocks_ok h' \<and> strong_refs h' = (strong_refs h)(a := strong_refs h a - 1)"
    if "future_blocks_ok h" "0 < strong_refs h a" "strong_refs h a \<le> count_limit"
    using future_Release [OF that] by blast
  show "pointer_weak_refs h' = pointer_weak_refs h" if "ObjectWeakRef_AddRef debug a h = Some h'"
    using that by (rule weak_AddRef_weak)
  show "pointer_weak_refs h' = pointer_weak_refs h"
    if "future_blocks_ok h" "0 < strong_refs h a" "strong_refs h a \<le> count_limit" "FutureImpl_Release debug a h = Some h'"
    using future_Release [OF that(1-3), of debug] that(4) by auto
  show "\<exists>h'. ObjectWeakRef_AddWeakRef debug a h = Some h' \<and> future_blocks_ok h' \<and> strong_refs h' = strong_refs h \<and>
      pointer_weak_refs h' = (pointer_weak_refs h)(a := pointer_weak_refs h a + 1)"
    if "future_blocks_ok h" "0 < strong_refs h a + pointer_weak_refs h a" "pointer_weak_refs h a + 1 < count_limit"
    using weak_AddWeakRef [OF that(2,3), of debug] that(1) by blast
  show "\<exists>h'. ObjectWeakRef_ReleaseWeakRef debug a h = Some h' \<and> future_blocks_ok h' \<and> strong_refs h' = strong_refs h \<and>
      pointer_weak_refs h' = (pointer_weak_refs h)(a := pointer_weak_refs h a - 1)"
    if "future_blocks_ok h" "0 < pointer_weak_refs h a"
    using weak_ReleaseWeakRef [OF that(2), of debug] that(1) by blast
  show "\<exists>h'. IncrementRefCountIfNotZero a h = Some (0 < strong_refs h a, h') \<and> future_blocks_ok h' \<and>
      pointer_weak_refs h' = pointer_weak_refs h \<and>
      strong_refs h' = (if 0 < strong_refs h a then (strong_refs h)(a := strong_refs h a + 1) else strong_refs h)"
    if "future_blocks_ok h" "0 < strong_refs h a + pointer_weak_refs h a" "strong_refs h a < count_limit"
    using weak_Lock [OF that(2,3)] that(1) by blast
qed

section \<open>The weak pointer\<close>

record WeakPtr =
  w_ptr :: ptr
  w_weakRef :: ptr

definition null_weak :: WeakPtr where
  "null_weak = \<lparr>w_ptr = 0, w_weakRef = 0\<rparr>"

text \<open>The block operations that a weak pointer uses are arguments.\<close>

record 'h weak_methods =
  do_AddWeakRef :: "ptr \<Rightarrow> 'h \<Rightarrow> 'h option"
  do_ReleaseWeakRef :: "ptr \<Rightarrow> 'h \<Rightarrow> 'h option"
  do_Lock :: "ptr \<Rightarrow> 'h \<Rightarrow> (bool \<times> 'h) option"

definition CheckedAddWeakRef :: "'h weak_methods \<Rightarrow> ptr \<Rightarrow> 'h \<Rightarrow> 'h option" where
  "CheckedAddWeakRef M r h = (if r \<noteq> 0 then do_AddWeakRef M r h else Some h)"

definition CheckedReleaseWeakRef :: "'h weak_methods \<Rightarrow> ptr \<Rightarrow> 'h \<Rightarrow> 'h option" where
  "CheckedReleaseWeakRef M r h = (if r \<noteq> 0 then do_ReleaseWeakRef M r h else Some h)"

text \<open>
  The constructor from an object and, optionally, the block to use; the block of an object is its
  own. \<^verbatim>\<open>Assign\<close> first releases the old block.
\<close>

definition WeakPtrBase_new :: "'h weak_methods \<Rightarrow> ptr \<Rightarrow> ptr \<Rightarrow> WeakPtr list \<Rightarrow> 'h \<Rightarrow> (WeakPtr list \<times> 'h) option" where
  "WeakPtrBase_new M p r ws h =
     (let r' = (if p \<noteq> 0 then r else 0)
      in map_option (Pair (ws @ [\<lparr>w_ptr = p, w_weakRef = r'\<rparr>])) (CheckedAddWeakRef M r' h))"

definition WeakPtr_new :: "'h weak_methods \<Rightarrow> ptr \<Rightarrow> ptr \<Rightarrow> WeakPtr list \<Rightarrow> 'h \<Rightarrow> (WeakPtr list \<times> 'h) option" where
  "WeakPtr_new M p weakRef ws h = WeakPtrBase_new M p (if weakRef \<noteq> 0 then weakRef else p) ws h"

definition WeakPtr_copy :: "'h weak_methods \<Rightarrow> nat \<Rightarrow> WeakPtr list \<Rightarrow> 'h \<Rightarrow> (WeakPtr list \<times> 'h) option" where
  "WeakPtr_copy M j ws h = WeakPtrBase_new M (w_ptr (ws ! j)) (w_weakRef (ws ! j)) ws h"

definition WeakPtr_move :: "nat \<Rightarrow> WeakPtr list \<Rightarrow> WeakPtr list" where
  "WeakPtr_move j ws = ws[j := null_weak] @ [ws ! j]"

definition Reset :: "'h weak_methods \<Rightarrow> nat \<Rightarrow> WeakPtr list \<Rightarrow> 'h \<Rightarrow> (WeakPtr list \<times> 'h) option" where
  "Reset M i ws h = map_option (Pair (ws[i := null_weak])) (CheckedReleaseWeakRef M (w_weakRef (ws ! i)) h)"

definition WeakPtr_destroy :: "'h weak_methods \<Rightarrow> nat \<Rightarrow> WeakPtr list \<Rightarrow> 'h \<Rightarrow> (WeakPtr list \<times> 'h) option" where
  "WeakPtr_destroy M i ws h = map_option (Pair (ws[i := null_weak])) (CheckedReleaseWeakRef M (w_weakRef (ws ! i)) h)"

definition Assign :: "'h weak_methods \<Rightarrow> nat \<Rightarrow> ptr \<Rightarrow> ptr \<Rightarrow> WeakPtr list \<Rightarrow> 'h \<Rightarrow> (WeakPtr list \<times> 'h) option" where
  "Assign M i p r ws h =
     Option.bind (CheckedReleaseWeakRef M (w_weakRef (ws ! i)) h) (\<lambda>h1.
       map_option (Pair (ws[i := \<lparr>w_ptr = p, w_weakRef = r\<rparr>])) (CheckedAddWeakRef M r h1))"

definition WeakPtr_assign :: "'h weak_methods \<Rightarrow> nat \<Rightarrow> ptr \<Rightarrow> WeakPtr list \<Rightarrow> 'h \<Rightarrow> (WeakPtr list \<times> 'h) option" where
  "WeakPtr_assign M i p ws h = (if w_ptr (ws ! i) \<noteq> p then Assign M i p p ws h else Some (ws, h))"

definition WeakPtr_assign_copy :: "'h weak_methods \<Rightarrow> nat \<Rightarrow> nat \<Rightarrow> WeakPtr list \<Rightarrow> 'h \<Rightarrow> (WeakPtr list \<times> 'h) option" where
  "WeakPtr_assign_copy M i j ws h =
     (if w_ptr (ws ! i) \<noteq> w_ptr (ws ! j) then Assign M i (w_ptr (ws ! j)) (w_weakRef (ws ! j)) ws h else Some (ws, h))"

definition WeakPtr_assign_move :: "'h weak_methods \<Rightarrow> nat \<Rightarrow> nat \<Rightarrow> WeakPtr list \<Rightarrow> 'h \<Rightarrow> (WeakPtr list \<times> 'h) option" where
  "WeakPtr_assign_move M i j ws h =
     (if w_ptr (ws ! i) \<noteq> w_ptr (ws ! j) then
        map_option (Pair (ws[i := ws ! j, j := null_weak])) (CheckedReleaseWeakRef M (w_weakRef (ws ! i)) h)
      else Some (ws, h))"

definition WeakPtr_swap :: "nat \<Rightarrow> nat \<Rightarrow> WeakPtr list \<Rightarrow> WeakPtr list" where
  "WeakPtr_swap i j ws = ws[i := ws ! j, j := ws ! i]"

text \<open>The strong pointer, null if the object is gone.\<close>

definition GetStrongPtr :: "'h weak_methods \<Rightarrow> nat \<Rightarrow> WeakPtr list \<Rightarrow> 'h \<Rightarrow> (ptr \<times> 'h) option" where
  "GetStrongPtr M i ws h =
     (if w_weakRef (ws ! i) \<noteq> 0 then
        map_option (\<lambda>(got, h'). (if got then w_ptr (ws ! i) else 0, h')) (do_Lock M (w_weakRef (ws ! i)) h)
      else Some (0, h))"

section \<open>Programs with strong and weak pointers\<close>

datatype weak_op =
    Strong cnt_op | WNew ptr | WCopy nat | WMove nat | WDestroy nat | WReset nat
  | WAssign nat ptr | WAssignCopy nat nat | WAssignMove nat nat | WSwap nat nat | WLock nat

record 'h weak_state =
  strongs :: "ptr list"
  raws :: "ptr list"
  weaks :: "WeakPtr list"
  the_objects :: 'h

definition with_weaks :: "'h weak_state \<Rightarrow> (WeakPtr list \<times> 'h) option \<Rightarrow> 'h weak_state option" where
  "with_weaks s r = map_option (\<lambda>(ws, h). s\<lparr>weaks := ws, the_objects := h\<rparr>) r"

fun weak_step :: "bool \<Rightarrow> 'h methods \<Rightarrow> 'h weak_methods \<Rightarrow> weak_op \<Rightarrow> 'h weak_state \<Rightarrow> 'h weak_state option" where
  "weak_step debug N M (Strong c) s =
     map_option (\<lambda>(ps, h). s\<lparr>strongs := ps, raws := raw_after c (strongs s) (raws s), the_objects := h\<rparr>)
       (cnt_step debug N c (strongs s) (the_objects s))"
| "weak_step debug N M (WNew p) s = with_weaks s (WeakPtr_new M p 0 (weaks s) (the_objects s))"
| "weak_step debug N M (WCopy j) s = with_weaks s (WeakPtr_copy M j (weaks s) (the_objects s))"
| "weak_step debug N M (WMove j) s = Some (s\<lparr>weaks := WeakPtr_move j (weaks s)\<rparr>)"
| "weak_step debug N M (WDestroy i) s = with_weaks s (WeakPtr_destroy M i (weaks s) (the_objects s))"
| "weak_step debug N M (WReset i) s = with_weaks s (Reset M i (weaks s) (the_objects s))"
| "weak_step debug N M (WAssign i p) s = with_weaks s (WeakPtr_assign M i p (weaks s) (the_objects s))"
| "weak_step debug N M (WAssignCopy i j) s = with_weaks s (WeakPtr_assign_copy M i j (weaks s) (the_objects s))"
| "weak_step debug N M (WAssignMove i j) s = with_weaks s (WeakPtr_assign_move M i j (weaks s) (the_objects s))"
| "weak_step debug N M (WSwap i j) s = Some (s\<lparr>weaks := WeakPtr_swap i j (weaks s)\<rparr>)"
| "weak_step debug N M (WLock i) s =
     map_option (\<lambda>(p, h). s\<lparr>strongs := strongs s @ [p], the_objects := h\<rparr>) (GetStrongPtr M i (weaks s) (the_objects s))"

fun weak_legal :: "weak_op \<Rightarrow> 'h weak_state \<Rightarrow> bool" where
  "weak_legal (Strong c) s \<longleftrightarrow> legal c (strongs s) (raws s)"
| "weak_legal (WNew p) s \<longleftrightarrow> p = 0 \<or> p \<in> set (strongs s) \<or> p \<in> set (raws s)"
| "weak_legal (WCopy j) s \<longleftrightarrow> j < length (weaks s)"
| "weak_legal (WMove j) s \<longleftrightarrow> j < length (weaks s)"
| "weak_legal (WDestroy i) s \<longleftrightarrow> i < length (weaks s)"
| "weak_legal (WReset i) s \<longleftrightarrow> i < length (weaks s)"
| "weak_legal (WAssign i p) s \<longleftrightarrow> i < length (weaks s) \<and> (p = 0 \<or> p \<in> set (strongs s) \<or> p \<in> set (raws s))"
| "weak_legal (WAssignCopy i j) s \<longleftrightarrow> i < length (weaks s) \<and> j < length (weaks s)"
| "weak_legal (WAssignMove i j) s \<longleftrightarrow> i < length (weaks s) \<and> j < length (weaks s)"
| "weak_legal (WSwap i j) s \<longleftrightarrow> i < length (weaks s) \<and> j < length (weaks s)"
| "weak_legal (WLock i) s \<longleftrightarrow> i < length (weaks s)"

fun weak_run :: "bool \<Rightarrow> 'h methods \<Rightarrow> 'h weak_methods \<Rightarrow> weak_op list \<Rightarrow> 'h weak_state \<Rightarrow> 'h weak_state option" where
  "weak_run debug N M [] s = Some s"
| "weak_run debug N M (op # ops) s = Option.bind (weak_step debug N M op s) (weak_run debug N M ops)"

fun weak_legal_run :: "bool \<Rightarrow> 'h methods \<Rightarrow> 'h weak_methods \<Rightarrow> weak_op list \<Rightarrow> 'h weak_state \<Rightarrow> bool" where
  "weak_legal_run debug N M [] s \<longleftrightarrow> True"
| "weak_legal_run debug N M (op # ops) s \<longleftrightarrow> weak_legal op s \<and> (case weak_step debug N M op s of
       None \<Rightarrow> True
     | Some s' \<Rightarrow> weak_legal_run debug N M ops s')"

section \<open>Weak pointers are safe\<close>

text \<open>
  The strong references are those of the counted pointers, the weak references those of the weak
  pointers.
\<close>

definition weak_count :: "WeakPtr list \<Rightarrow> ptr \<Rightarrow> nat" where
  "weak_count ws a = count_list (map w_ptr ws) a"

definition weak_inv :: "('h \<Rightarrow> ptr \<Rightarrow> nat) \<Rightarrow> ('h \<Rightarrow> bool) \<Rightarrow> ('h \<Rightarrow> ptr \<Rightarrow> nat) \<Rightarrow> 'h weak_state \<Rightarrow> bool" where
  "weak_inv refs ok weak_refs s \<longleftrightarrow>
     owned_by refs ok (owners (strongs s) (raws s)) (the_objects s) \<and>
     (\<forall>a. a \<noteq> 0 \<longrightarrow> weak_refs (the_objects s) a = weak_count (weaks s) a) \<and>
     (\<forall>w \<in> set (weaks s). w_weakRef w = w_ptr w)"

definition weak_total :: "'h weak_state \<Rightarrow> nat" where
  "weak_total s = length (strongs s) + length (raws s) + length (weaks s)"

lemma weak_count_update:
  assumes "i < length ws"
  shows "weak_count (ws[i := w]) a + (if w_ptr (ws ! i) = a then 1 else 0) = weak_count ws a + (if w_ptr w = a then 1 else 0)"
  using count_list_update [of i "map w_ptr ws" "w_ptr w" a] assms by (simp add: weak_count_def map_update)

lemma weak_count_append [simp]: "weak_count (ws @ [w]) a = weak_count ws a + (if w_ptr w = a then 1 else 0)"
  by (simp add: weak_count_def)

lemma weak_count_le: "weak_count ws a \<le> length ws"
  unfolding weak_count_def using count_le_length [of "map w_ptr ws" a] by simp

lemma weak_count_nth: "i < length ws \<Longrightarrow> 0 < weak_count ws (w_ptr (ws ! i))"
  unfolding weak_count_def by (rule count_list_pos) simp

sublocale weak_counted \<subseteq> keep: ref_counted AddRef Release refs "\<lambda>h. ok h \<and> weak_refs h = W" limit for W
  using AddRef_law Release_law AddRef_weak Release_weak by unfold_locales metis+

context weak_counted
begin

abbreviation (input) weak_M :: "'a weak_methods" where
  "weak_M \<equiv> \<lparr>do_AddWeakRef = AddWeakRef, do_ReleaseWeakRef = ReleaseWeakRef, do_Lock = Lock\<rparr>"

lemma strong_step:
  assumes "weak_inv refs ok weak_refs s" and "legal c (strongs s) (raws s)" and "weak_total s + 1 < limit"
  shows "\<exists>s'. weak_step debug (AddRef, Release) weak_M (Strong c) s = Some s' \<and> weak_inv refs ok weak_refs s' \<and>
    weak_total s' \<le> weak_total s + 1"
proof -
  have "owned_by refs (\<lambda>h. ok h \<and> weak_refs h = weak_refs (the_objects s)) (owners (strongs s) (raws s)) (the_objects s)"
    using assms(1) by (simp add: weak_inv_def owned_by_def)
  moreover have "length (strongs s) + length (raws s) < limit" using assms(3) by (simp add: weak_total_def)
  ultimately obtain ps h where "cnt_step debug (AddRef, Release) c (strongs s) (the_objects s) = Some (ps, h)"
    "owned_by refs (\<lambda>h. ok h \<and> weak_refs h = weak_refs (the_objects s)) (owners ps (raw_after c (strongs s) (raws s))) h"
    "length ps + length (raw_after c (strongs s) (raws s)) \<le> length (strongs s) + length (raws s) + 1"
    using keep.step_owned [of "weak_refs (the_objects s)" "strongs s" "raws s" "the_objects s" c debug] assms(2) by blast
  with assms(1) show ?thesis by (auto simp: weak_inv_def owned_by_def weak_total_def)
qed

text \<open>One weak reference more, one less.\<close>

lemma add_weak:
  assumes "weak_inv refs ok weak_refs s" and "weak_total s + 1 < limit"
    and "r \<noteq> 0 \<Longrightarrow> r \<in> set (strongs s) \<or> r \<in> set (raws s) \<or> 0 < weak_count (weaks s) r"
  shows "\<exists>h'. CheckedAddWeakRef weak_M r (the_objects s) = Some h' \<and>
    owned_by refs ok (owners (strongs s) (raws s)) h' \<and>
    (\<forall>a. a \<noteq> 0 \<longrightarrow> weak_refs h' a = weak_count (weaks s) a + (if a = r then 1 else 0))"
proof (cases "r = 0")
  case True
  then show ?thesis using assms(1) by (simp add: CheckedAddWeakRef_def weak_inv_def)
next
  case False
  let ?h = "the_objects s"
  have "0 < refs ?h r + weak_refs ?h r"
    using assms(1,3) False owners_pos [of r "strongs s" "raws s"] by (auto simp: weak_inv_def owned_by_def)
  moreover have "weak_refs ?h r + 1 < limit"
    using assms(1,2) False weak_count_le [of "weaks s" r] by (simp add: weak_inv_def weak_total_def)
  ultimately show ?thesis
    using AddWeakRef_law [of ?h r] assms(1) False by (auto simp: CheckedAddWeakRef_def weak_inv_def owned_by_def)
qed

lemma release_weak:
  assumes "weak_inv refs ok weak_refs s" and "i < length (weaks s)"
  shows "\<exists>h'. CheckedReleaseWeakRef weak_M (w_weakRef (weaks s ! i)) (the_objects s) = Some h' \<and>
    owned_by refs ok (owners (strongs s) (raws s)) h' \<and>
    (\<forall>a. a \<noteq> 0 \<longrightarrow> weak_refs h' a = weak_count (weaks s) a - (if a = w_ptr (weaks s ! i) then 1 else 0))"
proof -
  have "w_weakRef (weaks s ! i) = w_ptr (weaks s ! i)" using assms by (simp add: weak_inv_def)
  then show ?thesis
    using assms ReleaseWeakRef_law [of "the_objects s" "w_ptr (weaks s ! i)"] weak_count_nth [OF assms(2)]
    by (auto simp: CheckedReleaseWeakRef_def weak_inv_def owned_by_def)
qed

lemma weaks_inv:
  assumes "owned_by refs ok (owners (strongs s) (raws s)) h'" and "\<forall>w \<in> set ws. w_weakRef w = w_ptr w"
    and "\<And>a. a \<noteq> 0 \<Longrightarrow> weak_refs h' a = weak_count ws a"
  shows "weak_inv refs ok weak_refs (s\<lparr>weaks := ws, the_objects := h'\<rparr>)"
  using assms by (simp add: weak_inv_def)

lemma same_blocks:
  assumes "weak_inv refs ok weak_refs s" and "set ws \<subseteq> insert null_weak (set (weaks s))"
    and "\<And>a. a \<noteq> 0 \<Longrightarrow> weak_count ws a = weak_count (weaks s) a"
  shows "weak_inv refs ok weak_refs (s\<lparr>weaks := ws\<rparr>)"
  using assms by (auto simp: weak_inv_def null_weak_def)

lemma new_weak:
  assumes inv: "weak_inv refs ok weak_refs s" and small: "weak_total s + 1 < limit"
    and "p \<noteq> 0 \<Longrightarrow> p \<in> set (strongs s) \<or> p \<in> set (raws s) \<or> 0 < weak_count (weaks s) p"
  shows "\<exists>s'. with_weaks s (WeakPtrBase_new weak_M p p (weaks s) (the_objects s)) = Some s' \<and> weak_inv refs ok weak_refs s' \<and>
    weak_total s' \<le> weak_total s + 1"
proof -
  obtain h' where h': "CheckedAddWeakRef weak_M p (the_objects s) = Some h'"
    "owned_by refs ok (owners (strongs s) (raws s)) h'"
    "\<And>a. a \<noteq> 0 \<Longrightarrow> weak_refs h' a = weak_count (weaks s) a + (if a = p then 1 else 0)"
    using add_weak [OF inv small assms(3)] by blast
  have "weak_inv refs ok weak_refs (s\<lparr>weaks := weaks s @ [\<lparr>w_ptr = p, w_weakRef = p\<rparr>], the_objects := h'\<rparr>)"
    using inv h' by (intro weaks_inv) (auto simp: weak_inv_def)
  then show ?thesis using h'(1) by (auto simp: WeakPtrBase_new_def with_weaks_def Let_def weak_total_def)
qed

lemma reset_weak:
  assumes inv: "weak_inv refs ok weak_refs s" and i: "i < length (weaks s)"
  shows "\<exists>s'. with_weaks s (map_option (Pair ((weaks s)[i := null_weak]))
      (CheckedReleaseWeakRef weak_M (w_weakRef (weaks s ! i)) (the_objects s))) = Some s' \<and> weak_inv refs ok weak_refs s' \<and>
    weak_total s' \<le> weak_total s + 1"
proof -
  obtain h' where h': "CheckedReleaseWeakRef weak_M (w_weakRef (weaks s ! i)) (the_objects s) = Some h'"
    "owned_by refs ok (owners (strongs s) (raws s)) h'"
    "\<And>a. a \<noteq> 0 \<Longrightarrow> weak_refs h' a = weak_count (weaks s) a - (if a = w_ptr (weaks s ! i) then 1 else 0)"
    using release_weak [OF inv i] by blast
  have "weak_inv refs ok weak_refs (s\<lparr>weaks := (weaks s)[i := null_weak], the_objects := h'\<rparr>)"
  proof (rule weaks_inv [OF h'(2)])
    show "\<forall>w \<in> set ((weaks s)[i := null_weak]). w_weakRef w = w_ptr w"
      using inv set_update_subset_insert [of "weaks s" i null_weak] by (auto simp: weak_inv_def null_weak_def)
    show "weak_refs h' a = weak_count ((weaks s)[i := null_weak]) a" if "a \<noteq> 0" for a
      using h'(3) [OF that] weak_count_update [OF i, of null_weak a] that by (auto simp: null_weak_def split: if_splits)
  qed
  then show ?thesis using h'(1) by (auto simp: with_weaks_def weak_total_def)
qed

lemma assign_weak:
  assumes inv: "weak_inv refs ok weak_refs s" and i: "i < length (weaks s)" and small: "weak_total s + 1 < limit"
    and p: "p \<noteq> w_ptr (weaks s ! i)"
    and alive: "p \<noteq> 0 \<Longrightarrow> p \<in> set (strongs s) \<or> p \<in> set (raws s) \<or> 0 < weak_count (weaks s) p"
  shows "\<exists>s'. with_weaks s (Assign weak_M i p p (weaks s) (the_objects s)) = Some s' \<and> weak_inv refs ok weak_refs s' \<and>
    weak_total s' \<le> weak_total s + 1"
proof -
  obtain s1 where s1: "with_weaks s (map_option (Pair ((weaks s)[i := null_weak]))
      (CheckedReleaseWeakRef weak_M (w_weakRef (weaks s ! i)) (the_objects s))) = Some s1" "weak_inv refs ok weak_refs s1"
    using reset_weak [OF inv i] by blast
  then obtain h1 where h1: "CheckedReleaseWeakRef weak_M (w_weakRef (weaks s ! i)) (the_objects s) = Some h1"
    "s1 = s\<lparr>weaks := (weaks s)[i := null_weak], the_objects := h1\<rparr>"
    by (auto simp: with_weaks_def)
  have count: "weak_count (weaks s1) a = weak_count (weaks s) a - (if w_ptr (weaks s ! i) = a then 1 else 0)" if "a \<noteq> 0" for a
    using weak_count_update [OF i, of null_weak a] h1(2) that by (auto simp: null_weak_def split: if_splits)
  have "p \<noteq> 0 \<Longrightarrow> p \<in> set (strongs s1) \<or> p \<in> set (raws s1) \<or> 0 < weak_count (weaks s1) p"
    using alive count [of p] h1(2) p by auto
  moreover have "weak_total s1 + 1 < limit" using small h1(2) by (simp add: weak_total_def)
  ultimately obtain h2 where h2: "CheckedAddWeakRef weak_M p h1 = Some h2"
    "owned_by refs ok (owners (strongs s) (raws s)) h2"
    "\<And>a. a \<noteq> 0 \<Longrightarrow> weak_refs h2 a = weak_count (weaks s1) a + (if a = p then 1 else 0)"
    using add_weak [OF s1(2), of p] h1(2) by auto
  have "weak_inv refs ok weak_refs (s\<lparr>weaks := (weaks s)[i := \<lparr>w_ptr = p, w_weakRef = p\<rparr>], the_objects := h2\<rparr>)"
  proof (rule weaks_inv [OF h2(2)])
    show "\<forall>w \<in> set ((weaks s)[i := \<lparr>w_ptr = p, w_weakRef = p\<rparr>]). w_weakRef w = w_ptr w"
      using inv set_update_subset_insert [of "weaks s" i] by (fastforce simp: weak_inv_def)
    show "weak_refs h2 a = weak_count ((weaks s)[i := \<lparr>w_ptr = p, w_weakRef = p\<rparr>]) a" if "a \<noteq> 0" for a
      using h2(3) [OF that] count [OF that] weak_count_update [OF i, of "\<lparr>w_ptr = p, w_weakRef = p\<rparr>" a] p
      by (auto split: if_splits)
  qed
  then show ?thesis using h1(1) h2(1) by (auto simp: Assign_def with_weaks_def weak_total_def)
qed

lemma assign_move_weak:
  assumes inv: "weak_inv refs ok weak_refs s" and ij: "i < length (weaks s)" "j < length (weaks s)"
    and differ: "w_ptr (weaks s ! i) \<noteq> w_ptr (weaks s ! j)"
  shows "\<exists>s'. with_weaks s (map_option (Pair ((weaks s)[i := weaks s ! j, j := null_weak]))
      (CheckedReleaseWeakRef weak_M (w_weakRef (weaks s ! i)) (the_objects s))) = Some s' \<and> weak_inv refs ok weak_refs s' \<and>
    weak_total s' \<le> weak_total s + 1"
proof -
  let ?ws = "(weaks s)[i := weaks s ! j, j := null_weak]"
  obtain h' where h': "CheckedReleaseWeakRef weak_M (w_weakRef (weaks s ! i)) (the_objects s) = Some h'"
    "owned_by refs ok (owners (strongs s) (raws s)) h'"
    "\<And>a. a \<noteq> 0 \<Longrightarrow> weak_refs h' a = weak_count (weaks s) a - (if a = w_ptr (weaks s ! i) then 1 else 0)"
    using release_weak [OF inv ij(1)] by blast
  have "weak_inv refs ok weak_refs (s\<lparr>weaks := ?ws, the_objects := h'\<rparr>)"
  proof (rule weaks_inv [OF h'(2)])
    have "set ?ws \<subseteq> insert null_weak (set (weaks s))"
      using set_update_subset_insert [of "weaks s" i] set_update_subset_insert [of _ j null_weak] ij nth_mem by fastforce
    then show "\<forall>w \<in> set ?ws. w_weakRef w = w_ptr w" using inv by (auto simp: weak_inv_def null_weak_def)
    have "i \<noteq> j" using differ by auto
    then show "weak_refs h' a = weak_count ?ws a" if "a \<noteq> 0" for a
      using h'(3) [OF that] weak_count_update [OF ij(1), of "weaks s ! j" a]
        weak_count_update [of j "(weaks s)[i := weaks s ! j]" null_weak a] ij differ that
      by (auto simp: null_weak_def split: if_splits)
  qed
  then show ?thesis using h'(1) by (auto simp: with_weaks_def weak_total_def)
qed

lemma lock_weak:
  assumes inv: "weak_inv refs ok weak_refs s" and i: "i < length (weaks s)" and small: "weak_total s + 1 < limit"
  defines "p \<equiv> w_ptr (weaks s ! i)"
  shows "\<exists>s'. weak_step debug (AddRef, Release) weak_M (WLock i) s = Some s' \<and> weak_inv refs ok weak_refs s' \<and>
    weak_total s' \<le> weak_total s + 1 \<and>
    strongs s' = strongs s @ [if p \<in> set (strongs s) \<or> p \<in> set (raws s) then p else 0]"
proof (cases "p = 0")
  case True
  moreover have "w_weakRef (weaks s ! i) = p" using inv i by (simp add: weak_inv_def p_def)
  ultimately show ?thesis using inv
    by (auto simp: GetStrongPtr_def weak_inv_def owned_by_def weak_total_def owners_def)
next
  case False
  let ?h = "the_objects s"
  have r: "w_weakRef (weaks s ! i) = p" using inv i by (simp add: weak_inv_def p_def)
  have refs: "refs ?h p = owners (strongs s) (raws s) p" using inv False by (simp add: weak_inv_def owned_by_def)
  have "0 < refs ?h p + weak_refs ?h p"
    using inv False weak_count_nth [OF i] by (simp add: weak_inv_def p_def)
  moreover have "refs ?h p < limit" using refs owners_le [of "strongs s" "raws s" p] small by (simp add: weak_total_def)
  ultimately obtain h' where h': "Lock p ?h = Some (0 < refs ?h p, h')" "ok h'" "weak_refs h' = weak_refs ?h"
    "refs h' = (if 0 < refs ?h p then (refs ?h)(p := refs ?h p + 1) else refs ?h)"
    using Lock_law [of ?h p] inv by (auto simp: weak_inv_def owned_by_def)
  have "0 < refs ?h p \<longleftrightarrow> p \<in> set (strongs s) \<or> p \<in> set (raws s)"
    unfolding refs owners_def by (metis add_gr_0 count_list_0_iff gr0I less_numeral_extra(3))
  then show ?thesis using False h' r inv
    by (auto simp: GetStrongPtr_def weak_inv_def owned_by_def weak_total_def owners_def simp flip: p_def)
qed

lemma weak_step_safe:
  assumes inv: "weak_inv refs ok weak_refs s" and legal: "weak_legal op s" and small: "weak_total s + 1 < limit"
  shows "\<exists>s'. weak_step debug (AddRef, Release) weak_M op s = Some s' \<and> weak_inv refs ok weak_refs s' \<and>
    weak_total s' \<le> weak_total s + 1"
proof -
  have block: "w_weakRef (weaks s ! j) = w_ptr (weaks s ! j)" if "j < length (weaks s)" for j
    using inv that by (simp add: weak_inv_def)
  have swap: "weak_count (WeakPtr_swap i j (weaks s)) a = weak_count (weaks s) a" if "i < length (weaks s)" "j < length (weaks s)" for i j a
    using that weak_count_update [of i "weaks s" "weaks s ! j" a] weak_count_update [of j "(weaks s)[i := weaks s ! j]" "weaks s ! i" a]
    by (auto simp: WeakPtr_swap_def nth_list_update split: if_splits)
  have move: "weak_count (WeakPtr_move j (weaks s)) a = weak_count (weaks s) a" if "j < length (weaks s)" "a \<noteq> 0" for j a
    using that weak_count_update [of j "weaks s" null_weak a] by (auto simp: WeakPtr_move_def null_weak_def split: if_splits)
  show ?thesis
  proof (cases op)
    case (Strong c)
    then show ?thesis using strong_step [OF inv _ small] legal by simp
  next
    case (WNew p)
    then show ?thesis using new_weak [OF inv small, of p] legal by (auto simp: WeakPtr_new_def)
  next
    case (WCopy j)
    then show ?thesis using new_weak [OF inv small, of "w_ptr (weaks s ! j)"] legal weak_count_nth [of j "weaks s"] block [of j]
      by (simp add: WeakPtr_copy_def)
  next
    case (WMove j)
    moreover have "set (WeakPtr_move j (weaks s)) \<subseteq> insert null_weak (set (weaks s))"
      using WMove legal set_update_subset_insert [of "weaks s" j null_weak] by (auto simp: WeakPtr_move_def)
    ultimately show ?thesis using legal same_blocks [OF inv, of "WeakPtr_move j (weaks s)"] move [of j]
      by (simp add: weak_total_def WeakPtr_move_def)
  next
    case (WAssign i p)
    then show ?thesis using assign_weak [OF inv _ small, of i p] legal inv
      by (cases "w_ptr (weaks s ! i) = p") (auto simp: WeakPtr_assign_def with_weaks_def)
  next
    case (WAssignCopy i j)
    then show ?thesis using assign_weak [OF inv _ small, of i "w_ptr (weaks s ! j)"] legal inv block [of j] weak_count_nth [of j "weaks s"]
      by (cases "w_ptr (weaks s ! i) = w_ptr (weaks s ! j)") (auto simp: WeakPtr_assign_copy_def with_weaks_def)
  next
    case (WAssignMove i j)
    then show ?thesis using assign_move_weak [OF inv, of i j] legal inv
      by (cases "w_ptr (weaks s ! i) = w_ptr (weaks s ! j)") (auto simp: WeakPtr_assign_move_def with_weaks_def)
  next
    case (WSwap i j)
    moreover have "set (WeakPtr_swap i j (weaks s)) \<subseteq> set (weaks s)"
      using WSwap legal by (simp add: WeakPtr_swap_def)
    ultimately show ?thesis using legal same_blocks [OF inv, of "WeakPtr_swap i j (weaks s)"] swap [of i j]
      by (auto simp: weak_total_def WeakPtr_swap_def)
  next
    case (WLock i)
    then show ?thesis using lock_weak [OF inv _ small, of i debug] legal by auto
  qed (use reset_weak [OF inv] legal in \<open>auto simp: Reset_def WeakPtr_destroy_def\<close>)
qed

lemma weak_run_safe:
  assumes "weak_inv refs ok weak_refs s" and "weak_legal_run debug (AddRef, Release) weak_M ops s"
    and "weak_total s + length ops < limit"
  shows "\<exists>s'. weak_run debug (AddRef, Release) weak_M ops s = Some s' \<and> weak_inv refs ok weak_refs s'"
  using assms
proof (induction ops arbitrary: s)
  case Nil
  then show ?case by simp
next
  case (Cons op ops)
  then obtain s' where "weak_step debug (AddRef, Release) weak_M op s = Some s'" "weak_inv refs ok weak_refs s'"
    "weak_total s' \<le> weak_total s + 1"
    using weak_step_safe [of s op debug] by auto
  with Cons show ?case by simp
qed

end

section \<open>Properties of weak pointers\<close>

abbreviation object_methods :: "bool \<Rightarrow> weak_heap methods" where
  "object_methods debug \<equiv> (ObjectWeakRef_AddRef debug, ObjectWeakRef_Release debug)"

abbreviation block_methods :: "bool \<Rightarrow> weak_heap weak_methods" where
  "block_methods debug \<equiv> \<lparr>do_AddWeakRef = ObjectWeakRef_AddWeakRef debug,
     do_ReleaseWeakRef = ObjectWeakRef_ReleaseWeakRef debug, do_Lock = IncrementRefCountIfNotZero\<rparr>"

lemma weak_block_exists:
  assumes "weak_inv strong_refs weak_ok pointer_weak_refs s" "a \<noteq> 0"
  shows "blocks (the_objects s) a \<noteq> None \<longleftrightarrow>
      a \<in> set (strongs s) \<or> a \<in> set (raws s) \<or> (\<exists>w \<in> set (weaks s). w_ptr w = a)" (is ?exists)
    and "(\<exists>b. blocks (the_objects s) a = Some b \<and> constructed b) \<longleftrightarrow> a \<in> set (strongs s) \<or> a \<in> set (raws s)" (is ?lives)
proof -
  let ?h = "the_objects s"
  have counts: "strong_refs ?h a = owners (strongs s) (raws s) a" "pointer_weak_refs ?h a = weak_count (weaks s) a" and ok: "weak_ok ?h"
    using assms by (simp_all add: weak_inv_def owned_by_def)
  have strong: "0 < strong_refs ?h a \<longleftrightarrow> a \<in> set (strongs s) \<or> a \<in> set (raws s)"
    unfolding counts owners_def by (metis add_gr_0 count_list_0_iff gr0I less_numeral_extra(3))
  have weak: "0 < pointer_weak_refs ?h a \<longleftrightarrow> (\<exists>w \<in> set (weaks s). w_ptr w = a)"
    unfolding counts weak_count_def by (metis (no_types, lifting) count_list_0_iff gr0I imageE image_eqI less_numeral_extra(3) set_map)
  show ?lives
    unfolding strong [symmetric] strong_block using ok by (auto simp: weak_ok_def counts_ok_def)
  have "blocks ?h a \<noteq> None \<longleftrightarrow> 0 < strong_refs ?h a + pointer_weak_refs ?h a"
    using ok weak_positive by (fastforce simp: weak_counts split: option.splits)
  then show ?exists using strong weak by auto
qed


text \<open>An object that was just made, owned by a raw pointer.\<close>

definition made_object :: "weak_heap weak_state" where
  "made_object = \<lparr>strongs = [], raws = [8], weaks = [],
     the_objects = the (run_constructor 8 (AllocateMemory 8 \<lparr>blocks = Map.empty, destroyed = []\<rparr>))\<rparr>"

lemma made_object_inv: "weak_inv strong_refs weak_ok pointer_weak_refs made_object"
  by (auto simp: weak_inv_def made_object_def run_constructor_def AllocateMemory_def owned_by_def owners_def weak_count_def
      weak_counts count_limit_def split: option.splits if_splits)

lemmas weak_simps = made_object_def run_constructor_def AllocateMemory_def with_weaks_def WeakPtr_new_def WeakPtrBase_new_def
  WeakPtr_copy_def WeakPtr_assign_copy_def Assign_def CheckedAddWeakRef_def CheckedReleaseWeakRef_def GetStrongPtr_def
  null_weak_def WeakPtr_destroy_def Reset_def set_block_def free_block_def


text \<open>
  A weak pointer gives a strong pointer to its object exactly if the object still has an owner, and
  null otherwise.
\<close>

theorem get_strong_ptr_iff_owned:
  assumes "weak_inv strong_refs weak_ok pointer_weak_refs s" and "i < length (weaks s)" and "weak_total s + 1 < count_limit"
  shows "\<exists>h'. GetStrongPtr (block_methods debug) i (weaks s) (the_objects s) =
      Some (if w_ptr (weaks s ! i) \<in> set (strongs s) \<or> w_ptr (weaks s ! i) \<in> set (raws s) then w_ptr (weaks s ! i) else 0, h')"
  using weak_object.lock_weak [OF assms, of debug debug] by (auto split: prod.splits)

theorem get_strong_ptr_iff_owned_witness:
  "\<exists>h'. GetStrongPtr (block_methods False) 0 (weaks (the (weak_step False (object_methods False) (block_methods False) (WNew 8) made_object)))
     (the_objects (the (weak_step False (object_methods False) (block_methods False) (WNew 8) made_object))) = Some (8, h')"
proof -
  let ?s = "the (weak_step False (object_methods False) (block_methods False) (WNew 8) made_object)"
  have "weak_inv strong_refs weak_ok pointer_weak_refs ?s"
    using weak_object.weak_step_safe [OF made_object_inv, of "WNew 8" False False]
    by (auto simp: weak_total_def made_object_def count_limit_def)
  moreover have "0 < length (weaks ?s)" "weak_total ?s + 1 < count_limit" "w_ptr (weaks ?s ! 0) = 8" "raws ?s = [8]"
    by (simp_all add: weak_simps weak_ops weak_total_def count_limit_def)
  ultimately show ?thesis using get_strong_ptr_iff_owned [of ?s 0 False] by simp
qed

text \<open>
  making an object that fails frees its memory. When the constructor throws, the guard frees the
  block without running a destructor; when the initialisation throws, the guard releases the
  object, which runs its destructor once and frees the block.
\<close>

theorem memory_guard_frees:
  assumes "a \<noteq> 0"
  shows "WeakRefCountMemoryGuard_destroy debug \<lparr>ObjMemory = a, Obj = 0\<rparr> (AllocateMemory a h) = Some (free_block a h) \<and>
    Option.bind (run_constructor a (AllocateMemory a h)) (WeakRefCountMemoryGuard_destroy debug \<lparr>ObjMemory = 0, Obj = a\<rparr>) =
      Some ((free_block a h)\<lparr>destroyed := a # destroyed h\<rparr>)"
  using assms by (simp add: WeakRefCountMemoryGuard_destroy_def AllocateMemory_def run_constructor_def weak_ops
      set_block_def free_block_def)

theorem memory_guard_frees_witness:
  "WeakRefCountMemoryGuard_destroy True \<lparr>ObjMemory = 8, Obj = 0\<rparr> (AllocateMemory 8 \<lparr>blocks = Map.empty, destroyed = []\<rparr>) =
     Some (free_block 8 \<lparr>blocks = Map.empty, destroyed = []\<rparr>)"
  using memory_guard_frees [of 8 True] by simp

end
