(* ===== verification/HttpTypes.thy ===== *)
theory HttpTypes
  imports JSValue
begin

text \<open>
  The runtime options (\<^verbatim>\<open>Shared/RuntimeOptions.cpp\<close>) and the HTTP messages that the filters of
  \<^verbatim>\<open>Shared/Networking\<close> work on. A header collection is the list of its entries; names are
  compared without case, which for the C locale changes the letters A to Z only. The address
  parser, the media-type parser and the lexical conversions belong to Windows and Boost and are
  arguments.
\<close>

section \<open>Runtime options\<close>

record runtime_options =
  g_runtimeOptionInts :: "string \<rightharpoonup> int32"
  g_runtimeOptionStrings :: "string \<rightharpoonup> string"

definition SetRuntimeOptionBool :: "string \<Rightarrow> bool \<Rightarrow> runtime_options \<Rightarrow> runtime_options" where
  "SetRuntimeOptionBool name v opts =
     opts\<lparr>g_runtimeOptionInts := (g_runtimeOptionInts opts)(name := (if v then Some 1 else None))\<rparr>"

definition SetRuntimeOptionInt :: "string \<Rightarrow> int32 \<Rightarrow> runtime_options \<Rightarrow> runtime_options" where
  "SetRuntimeOptionInt name v opts =
     opts\<lparr>g_runtimeOptionInts := (g_runtimeOptionInts opts)(name := (if v \<noteq> 0 then Some v else None))\<rparr>"

text \<open>The C++ wrapper does not pass on an empty string.\<close>

definition SetRuntimeOptionString :: "string \<Rightarrow> string \<Rightarrow> runtime_options \<Rightarrow> runtime_options" where
  "SetRuntimeOptionString name v opts =
     (if v \<noteq> [] then opts\<lparr>g_runtimeOptionStrings := (g_runtimeOptionStrings opts)(name \<mapsto> v)\<rparr> else opts)"

definition GetRuntimeOptionBool :: "string \<Rightarrow> runtime_options \<Rightarrow> bool" where
  "GetRuntimeOptionBool name opts = (case g_runtimeOptionInts opts name of Some n \<Rightarrow> n \<noteq> 0 | None \<Rightarrow> False)"

definition GetRuntimeOptionInt :: "string \<Rightarrow> runtime_options \<Rightarrow> int32" where
  "GetRuntimeOptionInt name opts = (case g_runtimeOptionInts opts name of Some n \<Rightarrow> n | None \<Rightarrow> 0)"

definition GetRuntimeOptionString :: "string \<Rightarrow> runtime_options \<Rightarrow> string" where
  "GetRuntimeOptionString name opts = (case g_runtimeOptionStrings opts name of Some s \<Rightarrow> s | None \<Rightarrow> [])"

lemma runtime_option_after_set [simp]:
  "GetRuntimeOptionInt name (SetRuntimeOptionInt name v opts) = v"
  "GetRuntimeOptionBool name (SetRuntimeOptionBool name b opts) = b"
  "GetRuntimeOptionBool name (SetRuntimeOptionInt name v opts) \<longleftrightarrow> v \<noteq> 0"
  "name \<noteq> name' \<Longrightarrow> GetRuntimeOptionInt name (SetRuntimeOptionInt name' v opts) = GetRuntimeOptionInt name opts"
  "name \<noteq> name' \<Longrightarrow> GetRuntimeOptionBool name (SetRuntimeOptionBool name' b opts) = GetRuntimeOptionBool name opts"
  by (simp_all add: GetRuntimeOptionInt_def SetRuntimeOptionInt_def GetRuntimeOptionBool_def SetRuntimeOptionBool_def)

section \<open>Strings without case\<close>

definition iequals :: "string \<Rightarrow> string \<Rightarrow> bool" where
  "iequals a b \<longleftrightarrow> LowerString a = LowerString b"

definition istarts_with :: "string \<Rightarrow> string \<Rightarrow> bool" where
  "istarts_with s prefix \<longleftrightarrow> length prefix \<le> length s \<and> iequals (take (length prefix) s) prefix"

text \<open>Lookup in a set that is ordered by the case-insensitive comparer.\<close>

definition ifind :: "string \<Rightarrow> string list \<Rightarrow> bool" where
  "ifind s xs \<longleftrightarrow> list_ex (iequals s) xs"

lemma iequals_refl [simp]: "iequals a a"
  by (simp add: iequals_def)

lemma iequals_sym: "iequals a b \<longleftrightarrow> iequals b a"
  by (auto simp: iequals_def)

lemma iequals_trans: "iequals a b \<Longrightarrow> iequals b c \<Longrightarrow> iequals a c"
  by (simp add: iequals_def)

lemma ifind_cong: "iequals a b \<Longrightarrow> ifind a xs = ifind b xs"
  by (auto simp: ifind_def list_ex_iff iequals_def)

lemma ifind_member: "x \<in> set xs \<Longrightarrow> ifind x xs"
  by (auto simp: ifind_def list_ex_iff intro!: bexI [of _ x])

section \<open>Messages\<close>

datatype http_error =
    E_INVALIDARG string
  | INET_E_REDIRECTING
  | HTTP_REDIRECT_FAILED
  | E_BOUNDS
  | Uri_error
  | Null_access
  | Transport_error nat

type_synonym 'a hresult = "http_error + 'a"

record uri =
  SchemeName :: string
  Host :: string
  Port :: int
  UserName :: string
  Password :: string

type_synonym headers = "(string \<times> string) list"

text \<open>\<open>RequestArgs\<close> is the value \<^verbatim>\<open>WithCredentials\<close> of the request arguments, if the property is there.\<close>

record request_props =
  OriginPolicy_prop :: "int32 option"
  RequestArgs :: "bool option"
  TaintedOrigin :: "bool option"

record http_request =
  Method :: string
  RequestUri :: uri
  Headers :: headers
  Content :: "headers option"
  Properties :: request_props

record http_response =
  StatusCode :: nat
  RHeaders :: headers
  Location :: "uri option"
  RequestMessage :: http_request

text \<open>The code outside of the repository that the filters call.\<close>

record http_env =
  parse_uri :: "string \<Rightarrow> uri option"
  AbsoluteCanonicalUri :: "uri \<Rightarrow> uri"
  DisplayUri :: "uri \<Rightarrow> uri"
  AbsoluteUri :: "uri \<Rightarrow> uri"
  lexical_double :: "string \<Rightarrow> bool"
  lexical_int :: "string \<Rightarrow> bool"
  parse_media :: "string \<Rightarrow> string option"

section \<open>Header collections\<close>

definition HasKey :: "string \<Rightarrow> headers \<Rightarrow> bool" where
  "HasKey k hs \<longleftrightarrow> list_ex (\<lambda>(k', _). iequals k' k) hs"

definition header_Remove :: "string \<Rightarrow> headers \<Rightarrow> headers" where
  "header_Remove k hs = filter (\<lambda>(k', _). \<not> iequals k' k) hs"

definition header_Insert :: "string \<Rightarrow> string \<Rightarrow> headers \<Rightarrow> headers" where
  "header_Insert k v hs = header_Remove k hs @ [(k, v)]"

definition header_Append :: "string \<Rightarrow> string \<Rightarrow> headers \<Rightarrow> headers" where
  "header_Append k v hs = hs @ [(k, v)]"

definition removeAll_headers :: "string list \<Rightarrow> headers \<Rightarrow> headers" where
  "removeAll_headers ks hs = fold header_Remove ks hs"

lemma removeAll_headers_filter: "removeAll_headers ks hs = filter (\<lambda>(k, _). \<not> ifind k ks) hs"
  unfolding removeAll_headers_def
  by (induction ks arbitrary: hs)
     (auto simp: header_Remove_def ifind_def case_prod_unfold iequals_def intro!: filter_cong)

text \<open>
  A loop that queues the names of some entries and then removes them by name leaves exactly the
  entries it did not want to remove, if the choice depends on the name up to case.
\<close>

lemma remove_by_name:
  assumes "\<And>k k' v v'. iequals k k' \<Longrightarrow> P (k, v) = P (k', v')"
  shows "removeAll_headers (map fst (filter P hs)) hs = filter (\<lambda>h. \<not> P h) hs"
proof -
  have "ifind k (map fst (filter P hs)) \<longleftrightarrow> P (k, v)" if "(k, v) \<in> set hs" for k v
    using that assms by (fastforce simp: ifind_def list_ex_iff iequals_def)
  then show ?thesis unfolding removeAll_headers_filter by (intro filter_cong) auto
qed

lemma removeAll_subset: "set (removeAll_headers ks hs) \<subseteq> set hs"
  by (auto simp: removeAll_headers_filter)

end
