(* ===== verification/OriginPolicy.thy ===== *)
theory OriginPolicy
  imports HttpTypes
begin

text \<open>
  The origin policy of the HTTP client (\<^verbatim>\<open>Shared/Networking/OriginPolicyHttpFilter.cpp\<close>): the request
  is checked against the same-origin policy or against the rules of cross-origin resource sharing,
  a preflight request is sent where those need one, and the response is checked and stripped of
  the headers a script may not see. The filter below it is an argument.
\<close>

section \<open>Tables\<close>

definition s_forbiddenMethods :: "string list" where
  "s_forbiddenMethods = [''CONNECT'', ''TRACE'', ''TRACK'']"

definition s_simpleCorsMethods :: "string list" where
  "s_simpleCorsMethods = [''GET'', ''HEAD'', ''POST'']"

definition s_simpleCorsRequestHeaderNames :: "string list" where
  "s_simpleCorsRequestHeaderNames = [''Accept'', ''Accept-Language'', ''Content-Language'', ''Content-Type'', ''DPR'',
     ''Downlink'', ''Save-Data'', ''Viewport-Width'', ''Width'']"

definition s_simpleCorsResponseHeaderNames :: "string list" where
  "s_simpleCorsResponseHeaderNames = [''Cache-Control'', ''Content-Language'', ''Content-Type'', ''Expires'',
     ''Last-Modified'', ''Pragma'']"

definition s_simpleCorsContentTypeValues :: "string list" where
  "s_simpleCorsContentTypeValues = [''application/x-www-form-urlencoded'', ''multipart/form-data'', ''text/plain'']"

definition s_corsForbiddenRequestHeaderNames :: "string list" where
  "s_corsForbiddenRequestHeaderNames = [''Accept-Charset'', ''Accept-Encoding'', ''Access-Control-Request-Headers'',
     ''Access-Control-Request-Method'', ''Connection'', ''Content-Length'', ''Cookie'', ''Cookie2'', ''Date'', ''DNT'',
     ''Expect'', ''Host'', ''Keep-Alive'', ''Origin'', ''Referer'', ''TE'', ''Trailer'', ''Transfer-Encoding'',
     ''Upgrade'', ''Via'']"

definition s_cookieSettingResponseHeaders :: "string list" where
  "s_cookieSettingResponseHeaders = [''Set-Cookie'', ''Set-Cookie2'']"

definition s_corsForbiddenRequestHeaderNamePrefixes :: "string list" where
  "s_corsForbiddenRequestHeaderNamePrefixes = [''Proxy-'', ''Sec-'']"

section \<open>Checks on requests\<close>

definition IsSameOrigin :: "uri option \<Rightarrow> uri option \<Rightarrow> bool" where
  "IsSameOrigin u1 u2 = (case (u1, u2) of
       (Some a, Some b) \<Rightarrow> SchemeName a = SchemeName b \<and> Host a = Host b \<and> Port a = Port b
     | _ \<Rightarrow> False)"

text \<open>The entries of the request itself; a content type on the allow list makes the check fail.\<close>

definition simple_request_header :: "string \<times> string \<Rightarrow> bool" where
  "simple_request_header h = (case h of (k, v) \<Rightarrow>
     ifind k s_simpleCorsRequestHeaderNames \<and>
     (iequals k ''Content-Type'' \<longrightarrow> \<not> ifind v s_simpleCorsContentTypeValues))"

definition simple_content_header :: "string \<times> string \<Rightarrow> bool" where
  "simple_content_header h = (case h of (k, v) \<Rightarrow>
     (ifind k s_simpleCorsRequestHeaderNames \<or> iequals k ''Content-Length'') \<and>
     (iequals k ''Content-Type'' \<longrightarrow> ifind v s_simpleCorsContentTypeValues))"

definition IsSimpleCorsRequest :: "http_request \<Rightarrow> bool" where
  "IsSimpleCorsRequest r \<longleftrightarrow>
     list_all simple_request_header (Headers r) \<and>
     (case Content r of None \<Rightarrow> True | Some hs \<Rightarrow> list_all simple_content_header hs) \<and>
     ifind (Method r) s_simpleCorsMethods"

definition GetOrigin :: "uri \<Rightarrow> string" where
  "GetOrigin u =
     (let result = SchemeName u @ ''://'' @ Host u
      in if \<not> (Port u = 80 \<and> SchemeName u = ''http'') \<and> \<not> (Port u = 443 \<and> SchemeName u = ''https'')
         then result @ '':'' @ int_to_string (Port u) else result)"

definition forbidden_header :: "string \<Rightarrow> bool" where
  "forbidden_header k \<longleftrightarrow> ifind k s_corsForbiddenRequestHeaderNames \<or>
     list_ex (istarts_with k) s_corsForbiddenRequestHeaderNamePrefixes"

definition AreSafeRequestHeaders :: "headers \<Rightarrow> bool" where
  "AreSafeRequestHeaders hs \<longleftrightarrow> list_all (\<lambda>(k, _). \<not> forbidden_header k) hs"

definition IsCorsUnsafeRequestHeaderByte :: "char \<Rightarrow> bool" where
  "IsCorsUnsafeRequestHeaderByte ch =
     (let c = (of_char ch :: nat)
      in c < 0x20 \<and> c \<noteq> 0x09 \<or> c \<in> {0x22, 0x28, 0x29, 0x3a, 0x3c, 0x3e, 0x3f, 0x40, 0x5b, 0x5c, 0x5d, 0x7b, 0x7d, 0x7f})"

definition language_byte :: "char \<Rightarrow> bool" where
  "language_byte ch =
     (let c = (of_char ch :: nat)
      in 0x30 \<le> c \<and> c \<le> 0x39 \<or> 0x41 \<le> c \<and> c \<le> 0x5A \<or> 0x61 \<le> c \<and> c \<le> 0x7A \<or>
         c \<in> {0x20, 0x2A, 0x2C, 0x2D, 0x2E, 0x3B, 0x3D})"

definition safeHeaderNames :: "string list" where
  "safeHeaderNames = [''accept'', ''accept-language'', ''content-language'', ''content-type'', ''save-data'',
     ''device-memory'', ''dpr'', ''width'', ''viewport-width'', ''sec-ch-lang'', ''sec-ch-ua'', ''sec-ch-ua-platform'',
     ''sec-ch-ua-arch'', ''sec-ch-ua-model'', ''sec-ch-ua-mobile'', ''sec-ch-ua-full-version'', ''sec-ch-ua-platform-version'']"

definition IsCorsSafelistedRequestHeader :: "http_env \<Rightarrow> string \<Rightarrow> string \<Rightarrow> bool" where
  "IsCorsSafelistedRequestHeader env name v =
     (let nameLower = LowerString name; valueLower = LowerString v
      in if length v > 128 then False
         else if nameLower \<notin> set safeHeaderNames then False
         else if nameLower = ''device-memory'' \<or> nameLower = ''dpr'' then lexical_double env v
         else if nameLower = ''width'' \<or> nameLower = ''viewport-width'' then lexical_int env v
         else if nameLower = ''save-data'' then valueLower = ''on''
         else if nameLower = ''accept'' then \<not> list_ex IsCorsUnsafeRequestHeaderByte valueLower
         else if nameLower = ''accept-language'' \<or> nameLower = ''content-language'' then list_all language_byte valueLower
         else if nameLower = ''content-type'' then
           if list_ex IsCorsUnsafeRequestHeaderByte valueLower then False
           else (case parse_media env valueLower of
                   Some m \<Rightarrow> m \<in> set s_simpleCorsContentTypeValues
                 | None \<Rightarrow> False)
         else True)"

text \<open>The result is a set of names; the list has them in the order of the headers.\<close>

definition maxSafelistValueSize :: nat where
  "maxSafelistValueSize = 1024"

definition CorsUnsafeNotForbiddenRequestHeaderNames :: "http_env \<Rightarrow> headers \<Rightarrow> string list" where
  "CorsUnsafeNotForbiddenRequestHeaderNames env hs =
     (let allowed = filter (\<lambda>(k, _). \<not> forbidden_header k) hs;
          unsafe = map fst (filter (\<lambda>(k, v). \<not> IsCorsSafelistedRequestHeader env k v) allowed);
          safe = filter (\<lambda>(k, v). IsCorsSafelistedRequestHeader env k v) allowed
      in if sum_list (map (length \<circ> snd) safe) > maxSafelistValueSize then unsafe @ map fst safe else unsafe)"

section \<open>Access control headers\<close>

text \<open>
  The token iterator with the separator \<^verbatim>\<open>\s*,\s*\<close>: white space around a comma belongs to the
  separator, a last empty token is dropped, and text without a comma is one token.
\<close>

function split_commas :: "bool \<Rightarrow> string \<Rightarrow> string list" where
  "split_commas first s =
     (case dropWhile (\<lambda>c. c \<noteq> CHR '','') s of
        [] \<Rightarrow> if s = [] \<and> \<not> first then [] else [s]
      | _ # rest \<Rightarrow>
          rev (dropWhile whitespace (rev (takeWhile (\<lambda>c. c \<noteq> CHR '','') s))) # split_commas False (dropWhile whitespace rest))"
  by pat_completeness auto
termination
proof (relation "measure (\<lambda>(_, s). length s)")
  fix first s x and rest :: string
  assume "dropWhile (\<lambda>c. c \<noteq> CHR '','') s = x # rest"
  then have "length rest < length s"
    by (metis Suc_le_lessD length_Cons length_dropWhile_le)
  then show "((False, dropWhile whitespace rest), (first, s)) \<in> measure (\<lambda>(_, s). length s)"
    using length_dropWhile_le [of whitespace rest] by simp
qed simp

declare split_commas.simps [simp del]

definition parse_list :: "string \<Rightarrow> string list" where
  "parse_list s = split_commas True s"

record access_control =
  AllowedOrigin :: string
  AllowedCredentials :: string
  AllowedHeaders :: "string list"
  AllowedMethods :: "string list"
  ExposedHeaders :: "string list"

definition access_control_empty :: access_control where
  "access_control_empty = \<lparr>AllowedOrigin = [], AllowedCredentials = [], AllowedHeaders = [], AllowedMethods = [], ExposedHeaders = []\<rparr>"

text \<open>The age of the preflight is read and never used; it is left out.\<close>

definition extract_header :: "string \<times> string \<Rightarrow> access_control \<Rightarrow> access_control" where
  "extract_header h a = (case h of (k, v) \<Rightarrow>
     if iequals k ''Access-Control-Allow-Headers'' then a\<lparr>AllowedHeaders := AllowedHeaders a @ parse_list v\<rparr>
     else if iequals k ''Access-Control-Allow-Methods'' then a\<lparr>AllowedMethods := AllowedMethods a @ parse_list v\<rparr>
     else if iequals k ''Access-Control-Allow-Origin'' then a\<lparr>AllowedOrigin := v\<rparr>
     else if iequals k ''Access-Control-Expose-Headers'' then a\<lparr>ExposedHeaders := ExposedHeaders a @ parse_list v\<rparr>
     else if iequals k ''Access-Control-Allow-Credentials'' then a\<lparr>AllowedCredentials := v\<rparr>
     else a)"

definition ExtractAccessControlValues :: "headers \<Rightarrow> access_control" where
  "ExtractAccessControlValues hs = fold extract_header hs access_control_empty"

section \<open>Validation\<close>

definition hbind :: "'a hresult \<Rightarrow> ('a \<Rightarrow> 'b hresult) \<Rightarrow> 'b hresult" where
  "hbind r k = (case r of Inl e \<Rightarrow> Inl e | Inr a \<Rightarrow> k a)"

definition throw_if :: "bool \<Rightarrow> http_error \<Rightarrow> 'a hresult \<Rightarrow> 'a hresult" where
  "throw_if condition e rest = (if condition then Inl e else rest)"

lemma hbind_simps [simp]: "hbind (Inl e) k = Inl e" "hbind (Inr a) k = k a"
  by (simp_all add: hbind_def)

lemma hbind_Inr: "hbind r k = Inr b \<longleftrightarrow> (\<exists>a. r = Inr a \<and> k a = Inr b)"
  by (cases r) (simp_all add: hbind_def)

lemma throw_if_Inr [simp]: "throw_if c e rest = Inr b \<longleftrightarrow> \<not> c \<and> rest = Inr b"
  by (simp add: throw_if_def)

datatype origin_policy = PolicyNone | SameOrigin | SimpleCrossOriginResourceSharing | CrossOriginResourceSharing

abbreviation is_cors :: "origin_policy \<Rightarrow> bool" where
  "is_cors p \<equiv> p = SimpleCrossOriginResourceSharing \<or> p = CrossOriginResourceSharing"

text \<open>The property was boxed as a signed number and is read as an unsigned one.\<close>

definition read_policy :: "request_props \<Rightarrow> origin_policy hresult" where
  "read_policy props = (case OriginPolicy_prop props of
       None \<Rightarrow> Inl E_BOUNDS
     | Some n \<Rightarrow>
         if n = 0 then Inr PolicyNone else if n = 1 then Inr SameOrigin
         else if n = 2 then Inr SimpleCrossOriginResourceSharing
         else if n = 3 then Inr CrossOriginResourceSharing
         else Inl (E_INVALIDARG ''Invalid OriginPolicy type''))"

definition scheme_of :: "uri option \<Rightarrow> string hresult" where
  "scheme_of u = (case u of None \<Rightarrow> Inl Null_access | Some a \<Rightarrow> Inr (SchemeName a))"

definition ValidateRequest :: "runtime_options \<Rightarrow> uri option \<Rightarrow> http_request \<Rightarrow> origin_policy hresult" where
  "ValidateRequest opts m_origin r =
     hbind (read_policy (Properties r)) (\<lambda>policy. case policy of
       PolicyNone \<Rightarrow> Inr PolicyNone
     | SameOrigin \<Rightarrow>
         throw_if (\<not> IsSameOrigin m_origin (Some (RequestUri r))) (E_INVALIDARG ''SOP (same-origin policy) is enforced'')
           (Inr SameOrigin)
     | SimpleCrossOriginResourceSharing \<Rightarrow>
         hbind (if GetRuntimeOptionBool ''Http.BlockMixedContentSimpleCors'' opts
                then hbind (scheme_of m_origin) (\<lambda>s. Inr (s \<noteq> SchemeName (RequestUri r))) else Inr False) (\<lambda>mixed.
         throw_if mixed (E_INVALIDARG ''The origin and request URLs must have the same scheme'')
           (if IsSameOrigin m_origin (Some (RequestUri r)) then Inr SameOrigin
            else throw_if (\<not> IsSimpleCorsRequest r)
              (E_INVALIDARG ''The request does not meet the requirements'') (Inr SimpleCrossOriginResourceSharing)))
     | CrossOriginResourceSharing \<Rightarrow>
         hbind (scheme_of m_origin) (\<lambda>s.
         throw_if (s \<noteq> SchemeName (RequestUri r)) (E_INVALIDARG ''The origin and request URLs must have the same scheme'')
           (throw_if (\<not> AreSafeRequestHeaders (Headers r)) (E_INVALIDARG ''Request header not allowed'')
           (throw_if (ifind (Method r) s_forbiddenMethods) (E_INVALIDARG ''Request method not allowed'')
             (Inr (if IsSameOrigin m_origin (Some (RequestUri r)) then SameOrigin
                   else if IsSimpleCorsRequest r then SimpleCrossOriginResourceSharing
                   else CrossOriginResourceSharing))))))"

definition read_args :: "request_props \<Rightarrow> bool hresult" where
  "read_args props = (case RequestArgs props of None \<Rightarrow> Inl E_BOUNDS | Some w \<Rightarrow> Inr w)"

text \<open>
  The address in the header is parsed whenever it is not empty, so that a wild card or a list of
  addresses, which no address parser takes, ends in the error of the parser.
\<close>

definition origin_mismatch :: "http_env \<Rightarrow> uri option \<Rightarrow> string \<Rightarrow> bool hresult" where
  "origin_mismatch env origin allowedOrigin =
     (if allowedOrigin = [] then Inr True
      else case parse_uri env allowedOrigin of
             None \<Rightarrow> Inl Uri_error
           | Some u \<Rightarrow> Inr (\<not> IsSameOrigin origin (Some u)))"

definition ValidateAllowOrigin ::
  "http_env \<Rightarrow> uri option \<Rightarrow> string \<Rightarrow> string \<Rightarrow> request_props \<Rightarrow> unit hresult" where
  "ValidateAllowOrigin env m_origin allowedOrigin allowCredentials props =
     throw_if (allowedOrigin = ''null'') (E_INVALIDARG ''Access-Control-Allow-Origin is null'')
       (hbind (read_args props) (\<lambda>withCredentials.
         if \<not> withCredentials \<and> allowedOrigin = ''*'' then Inr ()
         else
           (let origin = (if TaintedOrigin props = Some True then None else m_origin)
            in hbind (origin_mismatch env origin allowedOrigin) (\<lambda>mismatch.
               throw_if mismatch (E_INVALIDARG ''origin not allowed'')
                 (if \<not> withCredentials then Inr ()
                  else throw_if (allowCredentials \<noteq> ''true'') (E_INVALIDARG ''credentials not allowed'') (Inr ()))))))"

definition ValidatePreflightResponse ::
  "http_env \<Rightarrow> uri option \<Rightarrow> http_request \<Rightarrow> http_response \<Rightarrow> unit hresult" where
  "ValidatePreflightResponse env m_origin r resp =
     throw_if (StatusCode resp \<in> {301, 307, 308}) INET_E_REDIRECTING
       (let c = ExtractAccessControlValues (RHeaders resp)
        in hbind (ValidateAllowOrigin env m_origin (AllowedOrigin c) (AllowedCredentials c) (Properties r)) (\<lambda>_.
           hbind (read_args (Properties r)) (\<lambda>withCredentials.
             let requestMethodAllowed =
                   list_ex (\<lambda>m. if m = ''*'' then \<not> withCredentials else iequals m (Method r)) (AllowedMethods c) \<or>
                   ifind (Method r) s_simpleCorsMethods
             in throw_if (\<not> requestMethodAllowed) (E_INVALIDARG ''Method is not allowed'')
                  (if \<not> withCredentials \<and> ifind ''*'' (AllowedHeaders c) then
                     throw_if (HasKey ''Authorization'' (Headers r) \<and> \<not> ifind ''Authorization'' (AllowedHeaders c))
                       (E_INVALIDARG ''Authorization is not allowed'') (Inr ())
                   else
                     throw_if (list_ex (\<lambda>n. \<not> ifind n (AllowedHeaders c))
                         (CorsUnsafeNotForbiddenRequestHeaderNames env (Headers r)))
                       (E_INVALIDARG ''Request header field is not allowed'') (Inr ())))))"

section \<open>Responses\<close>

text \<open>
  The search for \<^verbatim>\<open>HttpOnly\<close> in a cookie: at the start and closed by a semicolon, between two
  semicolons, or after a semicolon at the very end; white space may stand around it.
\<close>

definition http_only_closed :: "string \<Rightarrow> bool" where
  "http_only_closed s \<longleftrightarrow> istarts_with s ''HttpOnly'' \<and>
     (case dropWhile whitespace (drop 8 s) of c # _ \<Rightarrow> c = CHR '';'' | [] \<Rightarrow> False)"

definition http_only_after :: "string \<Rightarrow> bool" where
  "http_only_after s \<longleftrightarrow> (let t = dropWhile whitespace s in http_only_closed t \<or> iequals t ''HttpOnly'')"

fun http_only_search :: "string \<Rightarrow> bool" where
  "http_only_search [] \<longleftrightarrow> False"
| "http_only_search (c # s) \<longleftrightarrow> c = CHR '';'' \<and> http_only_after s \<or> http_only_search s"

definition is_http_only :: "string \<Rightarrow> bool" where
  "is_http_only s \<longleftrightarrow> http_only_closed s \<or> http_only_search s"

definition RemoveHttpOnlyCookiesFromResponseHeaders :: "bool \<Rightarrow> http_response \<Rightarrow> http_response" where
  "RemoveHttpOnlyCookiesFromResponseHeaders all_cookies resp =
     resp\<lparr>RHeaders := removeAll_headers
       (map fst (filter (\<lambda>(k, v). ifind k s_cookieSettingResponseHeaders \<and> (all_cookies \<or> is_http_only v)) (RHeaders resp)))
       (RHeaders resp)\<rparr>"

text \<open>
  The strict check of the simple case compares the object of the origin with a new object made
  from the header, which is a comparison of identities and never true.
\<close>

fun strict_origin_allowed :: "http_env \<Rightarrow> headers \<Rightarrow> bool hresult" where
  "strict_origin_allowed env [] = Inr False"
| "strict_origin_allowed env ((k, v) # hs) =
     (if iequals k ''Access-Control-Allow-Origin'' then
        if v = ''*'' then hbind (strict_origin_allowed env hs) (\<lambda>_. Inr True)
        else case parse_uri env v of None \<Rightarrow> Inl Uri_error | Some u \<Rightarrow> strict_origin_allowed env hs
      else strict_origin_allowed env hs)"

definition filter_response :: "origin_policy \<Rightarrow> bool \<Rightarrow> access_control \<Rightarrow> http_response \<Rightarrow> http_response" where
  "filter_response policy withCredentials c resp =
     (if policy = SimpleCrossOriginResourceSharing then
        resp\<lparr>RHeaders := removeAll_headers
          (map fst (filter (\<lambda>(k, _). \<not> ifind k s_simpleCorsResponseHeaderNames) (RHeaders resp))) (RHeaders resp)\<rparr>
      else if withCredentials \<or> \<not> ifind ''*'' (ExposedHeaders c) then
        resp\<lparr>RHeaders := removeAll_headers
          (map fst (filter (\<lambda>(k, _). \<not> ifind k s_simpleCorsResponseHeaderNames \<and> \<not> ifind k (ExposedHeaders c)) (RHeaders resp)))
          (RHeaders resp)\<rparr>
      else resp)"

definition ValidateResponse ::
  "http_env \<Rightarrow> runtime_options \<Rightarrow> uri option \<Rightarrow> origin_policy \<Rightarrow> http_response \<Rightarrow> http_response hresult" where
  "ValidateResponse env opts m_origin policy resp =
     (if is_cors policy then
        (let c = ExtractAccessControlValues (RHeaders resp); props = Properties (RequestMessage resp)
         in hbind (read_args props) (\<lambda>withCredentials.
            hbind (if GetRuntimeOptionBool ''Http.StrictOriginCheckSimpleCors'' opts \<and> policy = SimpleCrossOriginResourceSharing
                   then hbind (strict_origin_allowed env (RHeaders resp)) (\<lambda>ok.
                     throw_if (\<not> ok) (E_INVALIDARG ''The server does not support CORS or the origin is not allowed'') (Inr ()))
                   else ValidateAllowOrigin env m_origin (AllowedOrigin c) (AllowedCredentials c) props) (\<lambda>_.
              Inr (RemoveHttpOnlyCookiesFromResponseHeaders
                (\<not> withCredentials \<and> GetRuntimeOptionBool ''Http.RemoveCookiesFromResponse'' opts)
                (filter_response policy withCredentials c resp)))))
      else Inr (RemoveHttpOnlyCookiesFromResponseHeaders False resp))"

section \<open>Requests\<close>

fun join_names :: "string list \<Rightarrow> string" where
  "join_names [] = []"
| "join_names [n] = n"
| "join_names (n # ns) = n @ '', '' @ join_names ns"

definition preflight_request :: "uri \<Rightarrow> http_request \<Rightarrow> http_request" where
  "preflight_request origin r =
     \<lparr>Method = ''OPTIONS'', RequestUri = RequestUri r,
      Headers = header_Insert ''Sec-Fetch-Mode'' ''CORS'' (header_Insert ''Origin'' (GetOrigin origin)
        (header_Insert ''Access-Control-Request-Headers''
          (join_names (map fst (Headers r @ (case Content r of None \<Rightarrow> [] | Some hs \<Rightarrow> hs))))
        (header_Insert ''Access-Control-Request-Method'' (Method r) (header_Insert ''Accept'' ''*/*'' [])))),
      Content = None, Properties = \<lparr>OriginPolicy_prop = None, RequestArgs = None, TaintedOrigin = None\<rparr>\<rparr>"

text \<open>
  What happened on the wire, newest first, and whether the filter below follows redirects itself,
  if it can be told to.
\<close>

record filter_state =
  sent :: "http_request list"
  AllowAutoRedirect :: "bool option"

type_synonym inner_filter = "bool option \<Rightarrow> http_request \<Rightarrow> http_response hresult"

definition send_inner :: "inner_filter \<Rightarrow> http_request \<Rightarrow> filter_state \<Rightarrow> http_response hresult \<times> filter_state" where
  "send_inner inner r st = (inner (AllowAutoRedirect st) r, st\<lparr>sent := r # sent st\<rparr>)"

definition set_auto_redirect :: "bool \<Rightarrow> filter_state \<Rightarrow> filter_state" where
  "set_auto_redirect b st = st\<lparr>AllowAutoRedirect := map_option (\<lambda>_. b) (AllowAutoRedirect st)\<rparr>"

text \<open>The preflight; the origin of the filter is not null here.\<close>

definition send_preflight ::
  "http_env \<Rightarrow> inner_filter \<Rightarrow> uri option \<Rightarrow> http_request \<Rightarrow> filter_state \<Rightarrow> unit hresult \<times> filter_state" where
  "send_preflight env inner m_origin r st = (case m_origin of
       None \<Rightarrow> (Inl Null_access, set_auto_redirect False st)
     | Some origin \<Rightarrow>
         (case send_inner inner (preflight_request origin r) (set_auto_redirect False st) of
            (Inl e, st') \<Rightarrow> (Inl e, st')
          | (Inr resp, st') \<Rightarrow> (ValidatePreflightResponse env m_origin r resp, set_auto_redirect True st')))"

definition prepare_request :: "http_env \<Rightarrow> runtime_options \<Rightarrow> uri option \<Rightarrow> http_request \<Rightarrow> http_request hresult" where
  "prepare_request env opts m_origin r =
     (let r1 = r\<lparr>Properties := (Properties r)\<lparr>OriginPolicy_prop := Some (GetRuntimeOptionInt ''Http.OriginPolicy'' opts)\<rparr>\<rparr>
      in throw_if (GetRuntimeOptionBool ''Http.StrictScheme'' opts \<and> SchemeName (RequestUri r) \<noteq> ''https'' \<and>
             SchemeName (RequestUri r) \<noteq> ''http'')
           (if m_origin = None then Null_access else E_INVALIDARG ''Invalid URL scheme'')
         (hbind (if GetRuntimeOptionBool ''Http.OmitCredentials'' opts then Inr r1
                 else hbind (read_args (Properties r1)) (\<lambda>_.
                   Inr (r1\<lparr>Properties := (Properties r1)\<lparr>RequestArgs := Some False\<rparr>\<rparr>)))
            (\<lambda>r2. Inr (r2\<lparr>RequestUri := AbsoluteCanonicalUri env (RequestUri r)\<rparr>))))"

text \<open>A request across origins goes out without the user name and password of its address.\<close>

definition drop_user_info :: "http_env \<Rightarrow> origin_policy \<Rightarrow> http_request \<Rightarrow> http_request" where
  "drop_user_info env policy r =
     (if is_cors policy \<and> (UserName (RequestUri r) \<noteq> [] \<or> Password (RequestUri r) \<noteq> [])
      then r\<lparr>RequestUri := DisplayUri env (RequestUri r)\<rparr> else r)"

definition send_main ::
  "http_env \<Rightarrow> runtime_options \<Rightarrow> inner_filter \<Rightarrow> uri option \<Rightarrow> origin_policy \<Rightarrow> http_request \<Rightarrow> filter_state \<Rightarrow>
   http_response hresult \<times> filter_state" where
  "send_main env opts inner m_origin policy r st = (case m_origin of
       None \<Rightarrow>
         if is_cors policy then (Inl Null_access, st)
         else (case send_inner inner r st of (res, st') \<Rightarrow> (hbind res (ValidateResponse env opts m_origin policy), st'))
     | Some origin \<Rightarrow>
         (case send_inner inner (if is_cors policy then r\<lparr>Headers := header_Insert ''Origin'' (GetOrigin origin) (Headers r)\<rparr> else r) st of
            (res, st') \<Rightarrow> (hbind res (ValidateResponse env opts m_origin policy), st')))"

definition SendRequestAsync ::
  "http_env \<Rightarrow> runtime_options \<Rightarrow> inner_filter \<Rightarrow> uri option \<Rightarrow> http_request \<Rightarrow> filter_state \<Rightarrow>
   http_response hresult \<times> filter_state" where
  "SendRequestAsync env opts inner m_origin request st =
     (case hbind (prepare_request env opts m_origin request) (\<lambda>r.
             hbind (ValidateRequest opts m_origin r) (\<lambda>policy. Inr (policy, drop_user_info env policy r))) of
        Inl e \<Rightarrow> (Inl e, st)
      | Inr (policy, r) \<Rightarrow>
          if policy = CrossOriginResourceSharing then
            (case send_preflight env inner m_origin r st of
               (Inl e, st') \<Rightarrow> (Inl e, st')
             | (Inr _, st') \<Rightarrow> send_main env opts inner m_origin policy r st')
          else send_main env opts inner m_origin policy r st)"

text \<open>A redirect, before it is followed; the result says whether to follow it.\<close>

definition OnRedirecting :: "uri option \<Rightarrow> http_request \<Rightarrow> http_response \<Rightarrow> bool \<times> http_request" where
  "OnRedirecting m_origin r resp =
     (if \<not> IsSameOrigin (Location resp) (Some (RequestUri r)) \<and> \<not> IsSameOrigin m_origin (Some (RequestUri r)) then
        (let r' = r\<lparr>Headers := header_Insert ''Origin'' ''null'' (Headers r)\<rparr>
         in if RequestArgs (Properties r) \<noteq> None
            then (True, r'\<lparr>Properties := (Properties r')\<lparr>TaintedOrigin := Some True\<rparr>\<rparr>) else (False, r'))
      else (True, r))"

section \<open>The checks of the Fetch standard\<close>

text \<open>
  The check of a response against an origin, as the standard states it: the wild card admits
  requests without credentials, otherwise the header names the origin of the request, which has
  to be untainted, and credentials have to be admitted by name.
\<close>

definition cors_check :: "http_env \<Rightarrow> uri option \<Rightarrow> bool \<Rightarrow> string \<Rightarrow> string \<Rightarrow> bool" where
  "cors_check env origin withCredentials allowedOrigin allowCredentials \<longleftrightarrow>
     allowedOrigin \<noteq> ''null'' \<and>
     (\<not> withCredentials \<and> allowedOrigin = ''*'' \<or>
      (\<exists>o' u. origin = Some o' \<and> allowedOrigin \<noteq> [] \<and> parse_uri env allowedOrigin = Some u \<and>
         SchemeName u = SchemeName o' \<and> Host u = Host o' \<and> Port u = Port o' \<and>
         (withCredentials \<longrightarrow> allowCredentials = ''true'')))"

definition untainted :: "uri option \<Rightarrow> request_props \<Rightarrow> uri option" where
  "untainted m_origin props = (if TaintedOrigin props = Some True then None else m_origin)"

lemma ValidateAllowOrigin_ok:
  "ValidateAllowOrigin env m_origin allowed cred props = Inr () \<longleftrightarrow>
     (\<exists>w. RequestArgs props = Some w \<and> cors_check env (untainted m_origin props) w allowed cred)"
  by (auto simp: ValidateAllowOrigin_def throw_if_def cors_check_def untainted_def read_args_def origin_mismatch_def
      IsSameOrigin_def hbind_def split: option.splits if_splits)

text \<open>The permissions of a preflight response.\<close>

definition method_permitted :: "bool \<Rightarrow> access_control \<Rightarrow> string \<Rightarrow> bool" where
  "method_permitted withCredentials c m \<longleftrightarrow>
     ifind m s_simpleCorsMethods \<or> (\<exists>a \<in> set (AllowedMethods c). iequals a m \<and> a \<noteq> ''*'' \<or> a = ''*'' \<and> \<not> withCredentials)"

definition headers_permitted :: "http_env \<Rightarrow> bool \<Rightarrow> access_control \<Rightarrow> headers \<Rightarrow> bool" where
  "headers_permitted env withCredentials c hs \<longleftrightarrow>
     (if \<not> withCredentials \<and> ifind ''*'' (AllowedHeaders c)
      then HasKey ''Authorization'' hs \<longrightarrow> ifind ''Authorization'' (AllowedHeaders c)
      else \<forall>n \<in> set (CorsUnsafeNotForbiddenRequestHeaderNames env hs). ifind n (AllowedHeaders c))"

lemma ValidatePreflightResponse_ok:
  "ValidatePreflightResponse env m_origin r resp = Inr () \<longleftrightarrow>
     StatusCode resp \<notin> {301, 307, 308} \<and>
     (\<exists>w. RequestArgs (Properties r) = Some w \<and>
       (let c = ExtractAccessControlValues (RHeaders resp)
        in cors_check env (untainted m_origin (Properties r)) w (AllowedOrigin c) (AllowedCredentials c) \<and>
           method_permitted w c (Method r) \<and> headers_permitted env w c (Headers r)))"
proof -
  let ?c = "ExtractAccessControlValues (RHeaders resp)"
  have *: "list_ex (\<lambda>m. if m = ''*'' then \<not> w else iequals m (Method r)) (AllowedMethods ?c) \<or> ifind (Method r) s_simpleCorsMethods
      \<longleftrightarrow> method_permitted w ?c (Method r)" for w
    by (auto simp: method_permitted_def list_ex_iff split: if_splits)
  have **: "(if \<not> w \<and> ifind ''*'' (AllowedHeaders ?c)
       then throw_if (HasKey ''Authorization'' (Headers r) \<and> \<not> ifind ''Authorization'' (AllowedHeaders ?c)) e1 (Inr ())
       else throw_if (list_ex (\<lambda>n. \<not> ifind n (AllowedHeaders ?c)) (CorsUnsafeNotForbiddenRequestHeaderNames env (Headers r))) e2 (Inr ()))
      = Inr () \<longleftrightarrow> headers_permitted env w ?c (Headers r)" for w e1 e2
    by (simp add: headers_permitted_def list_ex_iff throw_if_def)
  show ?thesis
  proof (cases "RequestArgs (Properties r)")
    case None
    then show ?thesis
      by (simp add: ValidatePreflightResponse_def Let_def hbind_Inr ValidateAllowOrigin_ok)
  next
    case (Some w)
    then show ?thesis
      by (simp only: ValidatePreflightResponse_def Let_def hbind_Inr ValidateAllowOrigin_ok read_args_def throw_if_Inr * **)
         (simp add: ValidateAllowOrigin_ok conj_commute conj_left_commute)
  qed
qed


section \<open>Guarded requests\<close>

lemma send_main_sent:
  "send_main env opts inner m_origin policy r st = (res, st') \<Longrightarrow>
     sent st' = sent st \<or>
     (\<exists>hs. sent st' = r\<lparr>Headers := hs\<rparr> # sent st \<and> (\<not> is_cors policy \<longrightarrow> hs = Headers r) \<and>
       (\<forall>k v. (k, v) \<in> set hs \<longrightarrow> (k, v) \<in> set (Headers r) \<or> k = ''Origin''))"
  by (auto simp: send_main_def send_inner_def header_Insert_def header_Remove_def split: option.splits if_splits prod.splits)

lemma send_preflight_sent:
  assumes "send_preflight env inner m_origin r st = (res, st')"
  shows "sent st' = sent st \<or> (\<exists>origin. m_origin = Some origin \<and> sent st' = preflight_request origin r # sent st)"
    and "res = Inr () \<Longrightarrow> \<exists>origin resp. m_origin = Some origin \<and> sent st' = preflight_request origin r # sent st \<and>
      inner (map_option (\<lambda>_. False) (AllowAutoRedirect st)) (preflight_request origin r) = Inr resp \<and>
      ValidatePreflightResponse env m_origin r resp = Inr ()"
  using assms by (auto simp: send_preflight_def send_inner_def set_auto_redirect_def split: option.splits prod.splits sum.splits)

lemma drop_user_info_fields [simp]:
  "Method (drop_user_info env p r) = Method r" "Headers (drop_user_info env p r) = Headers r"
  "Content (drop_user_info env p r) = Content r" "Properties (drop_user_info env p r) = Properties r"
  "\<not> is_cors p \<Longrightarrow> drop_user_info env p r = r"
  by (simp_all add: drop_user_info_def)

lemma ValidateRequest_policy:
  assumes "ValidateRequest opts m_origin r = Inr p"
  shows "p = SameOrigin \<Longrightarrow> IsSameOrigin m_origin (Some (RequestUri r))"
    and "p = SimpleCrossOriginResourceSharing \<Longrightarrow> IsSimpleCorsRequest r"
    and "p = PolicyNone \<Longrightarrow> OriginPolicy_prop (Properties r) = Some 0"
    and "p = CrossOriginResourceSharing \<Longrightarrow> AreSafeRequestHeaders (Headers r) \<and> \<not> ifind (Method r) s_forbiddenMethods"
proof -
  obtain q where q: "read_policy (Properties r) = Inr q" using assms by (auto simp: ValidateRequest_def hbind_Inr)
  have none: "q = PolicyNone \<Longrightarrow> OriginPolicy_prop (Properties r) = Some 0"
    using q by (auto simp: read_policy_def split: option.splits if_splits)
  have "(p = SameOrigin \<longrightarrow> IsSameOrigin m_origin (Some (RequestUri r))) \<and>
      (p = SimpleCrossOriginResourceSharing \<longrightarrow> IsSimpleCorsRequest r) \<and> (p = PolicyNone \<longrightarrow> q = PolicyNone) \<and>
      (p = CrossOriginResourceSharing \<longrightarrow> AreSafeRequestHeaders (Headers r) \<and> \<not> ifind (Method r) s_forbiddenMethods)"
    using assms unfolding ValidateRequest_def q hbind_simps
    by (cases q) (auto simp: hbind_Inr split: if_splits)
  then show "p = SameOrigin \<Longrightarrow> IsSameOrigin m_origin (Some (RequestUri r))"
    and "p = SimpleCrossOriginResourceSharing \<Longrightarrow> IsSimpleCorsRequest r"
    and "p = PolicyNone \<Longrightarrow> OriginPolicy_prop (Properties r) = Some 0"
    and "p = CrossOriginResourceSharing \<Longrightarrow> AreSafeRequestHeaders (Headers r) \<and> \<not> ifind (Method r) s_forbiddenMethods"
    using none by blast+
qed

lemma prepare_request_props:
  "prepare_request env opts m_origin r = Inr r' \<Longrightarrow>
     OriginPolicy_prop (Properties r') = Some (GetRuntimeOptionInt ''Http.OriginPolicy'' opts)"
  by (auto simp: prepare_request_def Let_def hbind_Inr split: if_splits)

text \<open>
  What a request needs to leave the filter: the address of the origin itself, a simple request,
  or a preflight answered with the permission for it.
\<close>

definition preflighted :: "http_env \<Rightarrow> inner_filter \<Rightarrow> bool option \<Rightarrow> uri option \<Rightarrow> http_request \<Rightarrow> http_request list \<Rightarrow> bool" where
  "preflighted env inner redirect m_origin r before \<longleftrightarrow>
     (\<exists>origin resp rest. m_origin = Some origin \<and> before = preflight_request origin r # rest \<and>
        inner (map_option (\<lambda>_. False) redirect) (preflight_request origin r) = Inr resp \<and>
        ValidatePreflightResponse env m_origin r resp = Inr ())"

definition guarded ::
  "http_env \<Rightarrow> inner_filter \<Rightarrow> bool option \<Rightarrow> uri option \<Rightarrow> http_request \<Rightarrow> http_request list \<Rightarrow> bool" where
  "guarded env inner redirect m_origin r before \<longleftrightarrow>
     IsSameOrigin m_origin (Some (RequestUri r)) \<or> IsSimpleCorsRequest r \<or>
     AreSafeRequestHeaders (Headers r) \<and> \<not> ifind (Method r) s_forbiddenMethods \<and> preflighted env inner redirect m_origin r before"


text \<open>A filter of the origin \<^verbatim>\<open>http://a.com\<close> and a server \<^verbatim>\<open>http://b.com\<close> that admits it.\<close>

definition a_com :: uri where
  "a_com = \<lparr>SchemeName = ''http'', Host = ''a.com'', Port = 80, UserName = [], Password = []\<rparr>"

definition b_com :: uri where
  "b_com = \<lparr>SchemeName = ''http'', Host = ''b.com'', Port = 80, UserName = [], Password = []\<rparr>"

definition sample_env :: http_env where
  "sample_env = \<lparr>parse_uri = (\<lambda>s. if s = ''http://a.com'' then Some a_com else if s = ''http://b.com'' then Some b_com else None),
     AbsoluteCanonicalUri = id, DisplayUri = (\<lambda>u. u\<lparr>UserName := [], Password := []\<rparr>), AbsoluteUri = id,
     lexical_double = (\<lambda>_. False), lexical_int = (\<lambda>_. False), parse_media = Some\<rparr>"

definition sample_request :: "string \<Rightarrow> headers \<Rightarrow> http_request" where
  "sample_request m hs = \<lparr>Method = m, RequestUri = b_com, Headers = hs, Content = None,
     Properties = \<lparr>OriginPolicy_prop = None, RequestArgs = Some False, TaintedOrigin = None\<rparr>\<rparr>"

definition sample_server :: inner_filter where
  "sample_server redirect r = Inr \<lparr>StatusCode = 200,
     RHeaders = [(''Access-Control-Allow-Origin'', ''http://a.com''), (''Access-Control-Allow-Methods'', ''PUT, DELETE''),
       (''Access-Control-Allow-Headers'', ''x-test''), (''X-Secret'', ''1''), (''Content-Type'', ''text/plain'')],
     Location = None, RequestMessage = r\<rparr>"

definition policy_options :: "int32 \<Rightarrow> runtime_options" where
  "policy_options n = SetRuntimeOptionInt ''Http.OriginPolicy'' n
     \<lparr>g_runtimeOptionInts = Map.empty, g_runtimeOptionStrings = Map.empty\<rparr>"

lemmas sample_defs = sample_env_def sample_request_def sample_server_def policy_options_def a_com_def b_com_def

lemma sample_options [simp]:
  "GetRuntimeOptionInt ''Http.OriginPolicy'' (policy_options n) = n"
  "GetRuntimeOptionBool ''Http.StrictScheme'' (policy_options n) = False"
  "GetRuntimeOptionBool ''Http.OmitCredentials'' (policy_options n) = False"
  "GetRuntimeOptionBool ''Http.StrictOriginCheckSimpleCors'' (policy_options n) = False"
  by (simp_all add: policy_options_def) (simp_all add: SetRuntimeOptionInt_def GetRuntimeOptionBool_def)


section \<open>Filtered responses\<close>

definition visible_header :: "origin_policy \<Rightarrow> bool \<Rightarrow> access_control \<Rightarrow> string \<Rightarrow> bool" where
  "visible_header policy withCredentials c k \<longleftrightarrow>
     \<not> is_cors policy \<or> ifind k s_simpleCorsResponseHeaderNames \<or>
     policy = CrossOriginResourceSharing \<and>
       (ifind k (ExposedHeaders c) \<or> \<not> withCredentials \<and> ifind ''*'' (ExposedHeaders c))"

text \<open>A cookie is withheld if all are, or if an entry with its name is marked \<^verbatim>\<open>HttpOnly\<close>.\<close>

definition withheld_cookie :: "bool \<Rightarrow> headers \<Rightarrow> string \<Rightarrow> bool" where
  "withheld_cookie all_cookies hs k \<longleftrightarrow> ifind k s_cookieSettingResponseHeaders \<and>
     (\<exists>(k', v) \<in> set hs. iequals k k' \<and> (all_cookies \<or> is_http_only v))"

lemma RemoveHttpOnly_filter:
  "RHeaders (RemoveHttpOnlyCookiesFromResponseHeaders b resp) =
     filter (\<lambda>(k, _). \<not> withheld_cookie b (RHeaders resp) k) (RHeaders resp)"
proof -
  have "ifind k (map fst (filter (\<lambda>(k, v). ifind k s_cookieSettingResponseHeaders \<and> (b \<or> is_http_only v)) (RHeaders resp)))
      \<longleftrightarrow> withheld_cookie b (RHeaders resp) k" for k
    using ifind_cong [of k] by (fastforce simp: ifind_def list_ex_iff withheld_cookie_def)
  then show ?thesis by (simp add: RemoveHttpOnlyCookiesFromResponseHeaders_def removeAll_headers_filter)
qed

lemma filtered_status [simp]:
  "StatusCode (RemoveHttpOnlyCookiesFromResponseHeaders b resp) = StatusCode resp"
  "StatusCode (filter_response policy w c resp) = StatusCode resp"
  by (simp_all add: RemoveHttpOnlyCookiesFromResponseHeaders_def filter_response_def)

lemma filter_response_headers:
  assumes "is_cors policy"
  shows "RHeaders (filter_response policy w c resp) = filter (\<lambda>(k, _). visible_header policy w c k) (RHeaders resp)"
proof -
  have "removeAll_headers (map fst (filter (\<lambda>(k, _). \<not> Q k) hs)) hs = filter (\<lambda>(k, _). Q k) hs"
    if "\<And>k k'. iequals k k' \<Longrightarrow> Q k = Q k'" for Q :: "string \<Rightarrow> bool" and hs
    using remove_by_name [of "\<lambda>(k, _). \<not> Q k" hs] that by (auto simp: case_prod_unfold)
  note by_name = this [of "\<lambda>k. ifind k s_simpleCorsResponseHeaderNames"]
    this [of "\<lambda>k. ifind k s_simpleCorsResponseHeaderNames \<or> ifind k (ExposedHeaders c)"]
  show ?thesis
    using assms by_name ifind_cong by (auto simp: filter_response_def visible_header_def)
qed

text \<open>
  An accepted response shows a script exactly the headers it may see: with a cross-origin policy the
  safelisted ones and, for full CORS, those the server exposes, the wild card counting only without
  credentials; and never a cookie header with an \<^verbatim>\<open>HttpOnly\<close> cookie, nor any cookie at all when
  cookies are to be removed and the request had no credentials.
\<close>

theorem response_headers_filtered:
  assumes "ValidateResponse env opts m_origin policy resp = Inr resp'"
  shows "\<exists>w. (is_cors policy \<longrightarrow> RequestArgs (Properties (RequestMessage resp)) = Some w) \<and>
    (let shown = filter (\<lambda>(k, _). visible_header policy w (ExtractAccessControlValues (RHeaders resp)) k) (RHeaders resp);
         all_cookies = is_cors policy \<and> \<not> w \<and> GetRuntimeOptionBool ''Http.RemoveCookiesFromResponse'' opts
     in RHeaders resp' = filter (\<lambda>(k, _). \<not> withheld_cookie all_cookies shown k) shown \<and> StatusCode resp' = StatusCode resp)"
proof (cases "is_cors policy")
  case True
  then obtain w where w: "RequestArgs (Properties (RequestMessage resp)) = Some w"
    "resp' = RemoveHttpOnlyCookiesFromResponseHeaders (\<not> w \<and> GetRuntimeOptionBool ''Http.RemoveCookiesFromResponse'' opts)
      (filter_response policy w (ExtractAccessControlValues (RHeaders resp)) resp)"
    using assms by (auto simp: ValidateResponse_def Let_def hbind_Inr read_args_def split: option.splits)
  then show ?thesis
    using True by (intro exI [of _ w]) (simp add: Let_def RemoveHttpOnly_filter filter_response_headers)
next
  case False
  then have "resp' = RemoveHttpOnlyCookiesFromResponseHeaders False resp" using assms by (auto simp: ValidateResponse_def)
  with False show ?thesis
    by (intro exI [of _ False])
       (simp add: Let_def RemoveHttpOnly_filter visible_header_def case_prod_unfold)
qed

definition cookie_response :: http_response where
  "cookie_response = \<lparr>StatusCode = 200, RHeaders = [(''X-A'', ''1''), (''set-cookie'', ''id=1; httponly''), (''Set-Cookie2'', ''a=2'')],
     Location = None, RequestMessage = sample_request ''GET'' []\<rparr>"

theorem response_headers_filtered_witness:
  "\<exists>resp'. ValidateResponse sample_env (policy_options 1) (Some b_com) SameOrigin cookie_response = Inr resp' \<and>
     StatusCode resp' = 200"
proof -
  have "ValidateResponse sample_env (policy_options 1) (Some b_com) SameOrigin cookie_response =
      Inr (RemoveHttpOnlyCookiesFromResponseHeaders False cookie_response)" by (simp add: ValidateResponse_def)
  with response_headers_filtered [OF this] show ?thesis by (simp add: Let_def cookie_response_def)
qed

section \<open>Where the filter differs from its rules\<close>

lemmas string_simps = ifind_def iequals_def LowerString_def lower_code_def istarts_with_def

text \<open>
  The content type among the headers of the request itself is tested the wrong way round: a
  request with one of the three simple types is refused as not simple, one with any other type is
  taken as simple.
\<close>

theorem content_type_test_inverted:
  "\<not> IsSimpleCorsRequest (sample_request ''POST'' [(''Content-Type'', ''text/plain'')]) \<and>
   IsSimpleCorsRequest (sample_request ''POST'' [(''Content-Type'', ''application/json'')])"
  by (simp add: IsSimpleCorsRequest_def sample_request_def simple_request_header_def s_simpleCorsRequestHeaderNames_def
      s_simpleCorsContentTypeValues_def s_simpleCorsMethods_def string_simps)

text \<open>
  with the strict check a response that admits exactly the origin of the filter is refused; only the
  wild card passes.
\<close>

theorem strict_check_refuses_own_origin:
  "strict_origin_allowed sample_env [(''Access-Control-Allow-Origin'', ''http://a.com'')] = Inr False \<and>
   strict_origin_allowed sample_env [(''Access-Control-Allow-Origin'', ''*'')] = Inr True"
  by (simp add: sample_env_def)

text \<open>
  a preflight that cannot be sent leaves the filter below with automatic redirects switched off, and
  one that is sent switches them on again.
\<close>

theorem failed_preflight_leaves_redirects_off:
  "AllowAutoRedirect (snd (send_preflight env (\<lambda>_ _. Inl e) (Some origin) r \<lparr>sent = [], AllowAutoRedirect = Some True\<rparr>)) = Some False \<and>
   AllowAutoRedirect (snd (send_preflight env (\<lambda>_ _. Inr resp) (Some origin) r \<lparr>sent = [], AllowAutoRedirect = Some True\<rparr>)) = Some True"
  by (simp add: send_preflight_def send_inner_def set_auto_redirect_def)

end
