(* ===== verification/RedirectFilter.thy ===== *)
theory RedirectFilter
  imports OriginPolicy
begin

text \<open>
  Redirects of the HTTP client (\<^verbatim>\<open>Shared/Networking/RedirectHttpFilter.cpp\<close>), the request factory it calls
  for every redirect (\<^verbatim>\<open>WinRTHttpResource::CreateRequest\<close>), and the chain the client is built from:
  the origin policy above the redirect filter, which reports redirects back to it. The two filters
  below, with and without credentials, are arguments and may answer differently at every request.
\<close>

section \<open>Making a request\<close>

text \<open>What the request arguments say; whether Windows accepts a header is an argument.\<close>

record request_args =
  ArgHeaders :: headers
  ArgHasBody :: bool
  ArgIsForm :: bool

record header_env =
  media_type :: "string \<Rightarrow> string option"
  append_raw :: "string \<Rightarrow> string \<Rightarrow> bool"
  append_checked :: "string \<Rightarrow> string \<Rightarrow> bool"
  encoding_ok :: "string \<Rightarrow> bool"
  length_ok :: "string \<Rightarrow> bool"

record building =
  b_headers :: headers
  b_contentType :: "string option"
  b_contentEncoding :: string
  b_contentLength :: string

text \<open>One header of the arguments; \<open>None\<close> where the code gives up and returns null.\<close>

definition add_header :: "header_env \<Rightarrow> string \<times> string \<Rightarrow> building \<Rightarrow> building option" where
  "add_header henv h b = (case h of (name, v) \<Rightarrow>
     if iequals name ''Content-Type'' then
       map_option (\<lambda>m. b\<lparr>b_contentType := Some m\<rparr>) (media_type henv v)
     else if iequals name ''Content-Encoding'' then Some (b\<lparr>b_contentEncoding := v\<rparr>)
     else if iequals name ''Content-Length'' then Some (b\<lparr>b_contentLength := v\<rparr>)
     else if iequals name ''Authorization'' \<or> iequals name ''User-Agent'' then
       if append_raw henv name v then Some (b\<lparr>b_headers := header_Append name v (b_headers b)\<rparr>) else None
     else if append_checked henv name v then Some (b\<lparr>b_headers := header_Append name v (b_headers b)\<rparr>) else None)"

fun add_headers :: "header_env \<Rightarrow> headers \<Rightarrow> building \<Rightarrow> building option" where
  "add_headers henv [] b = Some b"
| "add_headers henv (h # hs) b = Option.bind (add_header henv h b) (add_headers henv hs)"

definition content_headers :: "header_env \<Rightarrow> bool \<Rightarrow> building \<Rightarrow> headers option" where
  "content_headers henv is_form b =
     (let ct = (if is_form then None else b_contentType b)
      in if b_contentEncoding b \<noteq> [] \<and> \<not> encoding_ok henv (b_contentEncoding b) then None
         else if b_contentLength b \<noteq> [] \<and> \<not> length_ok henv (b_contentLength b) then None
         else Some ((case ct of None \<Rightarrow> [] | Some m \<Rightarrow> [(''Content-Type'', m)]) @
                    (if b_contentEncoding b \<noteq> [] then [(''Content-Encoding'', b_contentEncoding b)] else []) @
                    (if b_contentLength b \<noteq> [] then [(''Content-Length'', b_contentLength b)] else [])))"

definition CreateRequest ::
  "header_env \<Rightarrow> request_args \<Rightarrow> string \<Rightarrow> uri \<Rightarrow> request_props \<Rightarrow> http_request option hresult" where
  "CreateRequest henv args m u props =
     (if RequestArgs props = None then Inl E_BOUNDS
      else case add_headers henv (ArgHeaders args) \<lparr>b_headers = [], b_contentType = None, b_contentEncoding = [], b_contentLength = []\<rparr> of
             None \<Rightarrow> Inr None
           | Some b \<Rightarrow>
               let make = (\<lambda>c. \<lparr>Method = m, RequestUri = u, Headers = b_headers b, Content = c, Properties = props\<rparr>)
               in if ArgHasBody args
                  then Inr (map_option (\<lambda>c. make (Some c)) (content_headers henv (ArgIsForm args) b))
                  else Inr (Some (make None)))"

text \<open>The bytes of a blob: the vector is made with the size of the blob and the bytes are added behind it.\<close>

definition blob_body :: "8 word list \<Rightarrow> 8 word list" where
  "blob_body bytes = fold (\<lambda>b v. v @ [b]) bytes (replicate (length bytes) 0)"

section \<open>The redirect loop\<close>

text \<open>
  The log has the requests sent, newest first, each with whether it went through the filter without
  credentials; a filter below sees the log, so that its answers may change. \<open>is_post\<close> is the
  comparison of a method with \<^verbatim>\<open>HttpMethod::Post()\<close>.
\<close>

type_synonym redirect_log = "(bool \<times> http_request) list"

record redirect_config =
  m_maximumRedirects :: nat
  m_allowAutoRedirect :: bool
  m_innerFilter :: "redirect_log \<Rightarrow> http_request \<Rightarrow> http_response hresult"
  m_innerFilterWithNoCredentials :: "redirect_log \<Rightarrow> http_request \<Rightarrow> http_response hresult"
  m_requestFactory :: "(header_env \<times> request_args) option"
  m_redirEventSrc :: "uri option option"
  m_defaultUserAgent :: string
  is_post :: "string \<Rightarrow> bool"

definition redirect_status :: "nat \<Rightarrow> bool" where
  "redirect_status s \<longleftrightarrow> s \<in> {300, 301, 302, 303, 307, 308}"

definition redirect_target :: "uri \<Rightarrow> uri \<Rightarrow> bool" where
  "redirect_target here u \<longleftrightarrow>
     (SchemeName u = ''http'' \<or> SchemeName u = ''https'') \<and> \<not> (SchemeName here = ''https'' \<and> SchemeName u = ''http'')"

definition next_method :: "redirect_config \<Rightarrow> nat \<Rightarrow> string \<Rightarrow> string" where
  "next_method cfg status m = (if status \<noteq> 307 \<and> status \<noteq> 308 \<and> \<not> is_post cfg m then ''GET'' else m)"

text \<open>The request after the event source and the factory; \<open>Inr None\<close> where the loop is left.\<close>

definition next_request ::
  "redirect_config \<Rightarrow> string \<Rightarrow> http_request \<Rightarrow> http_response \<Rightarrow> (bool \<times> http_request) hresult" where
  "next_request cfg m r resp =
     (case (case m_redirEventSrc cfg of None \<Rightarrow> (True, r) | Some origin \<Rightarrow> OnRedirecting origin r resp) of
        (go, r1) \<Rightarrow>
          if \<not> go then Inr (False, r1)
          else case m_requestFactory cfg of
                 None \<Rightarrow> Inr (True, r1)
               | Some (henv, args) \<Rightarrow>
                   hbind (CreateRequest henv args m (RequestUri r1) (Properties r1)) (\<lambda>made.
                     case made of None \<Rightarrow> Inl (E_INVALIDARG ''Invalid request handle'') | Some r2 \<Rightarrow> Inr (True, r2)))"

definition send_through :: "redirect_config \<Rightarrow> nat \<Rightarrow> redirect_log \<Rightarrow> http_request \<Rightarrow> http_response hresult" where
  "send_through cfg count log r =
     (if count > 0 then m_innerFilterWithNoCredentials cfg log r else m_innerFilter cfg log r)"

definition with_user_agent :: "redirect_config \<Rightarrow> http_request \<Rightarrow> http_request" where
  "with_user_agent cfg r =
     (if m_defaultUserAgent cfg \<noteq> [] then r\<lparr>Headers := header_Append ''User-Agent'' (m_defaultUserAgent cfg) (Headers r)\<rparr> else r)"

datatype redirect_step =
    Stop "http_response hresult"
  | Follow string http_request
  | Leave http_request http_response

text \<open>What to do with the response to the request \<open>r\<close>; \<open>count\<close> redirects were seen before it.\<close>

definition after_response :: "http_env \<Rightarrow> redirect_config \<Rightarrow> nat \<Rightarrow> string \<Rightarrow> http_request \<Rightarrow> http_response \<Rightarrow> redirect_step" where
  "after_response env cfg count m r resp =
     (if \<not> redirect_status (StatusCode resp) then Leave r resp
      else if count + 1 > m_maximumRedirects cfg then Stop (Inl HTTP_REDIRECT_FAILED)
      else case next_request cfg m r resp of
             Inl e \<Rightarrow> Stop (Inl e)
           | Inr (False, r1) \<Rightarrow> Leave r1 resp
           | Inr (True, r1) \<Rightarrow>
               (case Location resp of
                  None \<Rightarrow> Stop (Inl Null_access)
                | Some u \<Rightarrow>
                    let target = AbsoluteUri env u
                    in if redirect_target (RequestUri r1) target
                       then (let r2 = r1\<lparr>RequestUri := target\<rparr>; m' = next_method cfg (StatusCode resp) m
                             in if m_allowAutoRedirect cfg then Follow m' r2 else Leave r2 resp)
                       else Leave r1 resp))"

function redirect_loop ::
  "http_env \<Rightarrow> redirect_config \<Rightarrow> nat \<Rightarrow> string \<Rightarrow> http_request \<Rightarrow> redirect_log \<Rightarrow> http_response hresult \<times> redirect_log" where
  "redirect_loop env cfg count m r log =
     (let r1 = with_user_agent cfg r; log1 = (count > 0, r1) # log
      in case send_through cfg count log r1 of
           Inl e \<Rightarrow> (Inl e, log1)
         | Inr resp \<Rightarrow>
             (case after_response env cfg count m r1 resp of
                Stop res \<Rightarrow> (res, log1)
              | Leave r2 resp' \<Rightarrow> (Inr (resp'\<lparr>RequestMessage := r2\<rparr>), log1)
              | Follow m' r2 \<Rightarrow> redirect_loop env cfg (count + 1) m' r2 log1))"
  by pat_completeness auto

lemma after_response_count: "after_response env cfg count m r resp = Follow m' r' \<Longrightarrow> count < m_maximumRedirects cfg"
  by (auto simp: after_response_def Let_def split: if_splits sum.splits prod.splits bool.splits option.splits)

termination redirect_loop
  by (relation "measure (\<lambda>(env, cfg, count, _). m_maximumRedirects cfg - count)")
     (auto dest: after_response_count)

declare redirect_loop.simps [simp del]

definition Redirect_SendRequestAsync ::
  "http_env \<Rightarrow> redirect_config \<Rightarrow> http_request \<Rightarrow> redirect_log \<Rightarrow> http_response hresult \<times> redirect_log" where
  "Redirect_SendRequestAsync env cfg request log = redirect_loop env cfg 0 (Method request) request log"

section \<open>Facts about one redirect\<close>

lemma OnRedirecting_fields:
  assumes "OnRedirecting origin r resp = (go, r')"
  shows "RequestUri r' = RequestUri r" "Method r' = Method r"
    "TaintedOrigin (Properties r) = Some True \<Longrightarrow> TaintedOrigin (Properties r') = Some True"
    "go \<Longrightarrow> \<not> IsSameOrigin (Location resp) (Some (RequestUri r)) \<Longrightarrow> \<not> IsSameOrigin origin (Some (RequestUri r)) \<Longrightarrow>
      TaintedOrigin (Properties r') = Some True"
  using assms by (auto simp: OnRedirecting_def Let_def split: if_splits)

lemma CreateRequest_fields:
  "CreateRequest henv args m u props = Inr (Some r) \<Longrightarrow> RequestUri r = u \<and> Method r = m \<and> Properties r = props"
  by (auto simp: CreateRequest_def Let_def split: if_splits option.splits)

lemma next_request_fields:
  assumes "next_request cfg m r resp = Inr (go, r')"
  shows "RequestUri r' = RequestUri r"
    and "TaintedOrigin (Properties r) = Some True \<Longrightarrow> TaintedOrigin (Properties r') = Some True"
    and "go \<Longrightarrow> m_redirEventSrc cfg = Some origin \<Longrightarrow> \<not> IsSameOrigin (Location resp) (Some (RequestUri r)) \<Longrightarrow>
      \<not> IsSameOrigin origin (Some (RequestUri r)) \<Longrightarrow> TaintedOrigin (Properties r') = Some True"
proof -
  obtain go1 r1 where e: "(case m_redirEventSrc cfg of None \<Rightarrow> (True, r) | Some origin \<Rightarrow> OnRedirecting origin r resp) = (go1, r1)"
    by fastforce
  have r1: "RequestUri r1 = RequestUri r" "TaintedOrigin (Properties r) = Some True \<Longrightarrow> TaintedOrigin (Properties r1) = Some True"
    "go1 \<Longrightarrow> m_redirEventSrc cfg = Some origin \<Longrightarrow> \<not> IsSameOrigin (Location resp) (Some (RequestUri r)) \<Longrightarrow>
      \<not> IsSameOrigin origin (Some (RequestUri r)) \<Longrightarrow> TaintedOrigin (Properties r1) = Some True"
    using e OnRedirecting_fields [of _ r resp go1 r1] by (auto split: option.splits)
  have "RequestUri r' = RequestUri r1 \<and> Properties r' = Properties r1 \<and> (go \<longrightarrow> go1)"
    using assms e CreateRequest_fields
    by (auto simp: next_request_def hbind_Inr split: if_splits option.splits)
  with r1 show "RequestUri r' = RequestUri r"
    and "TaintedOrigin (Properties r) = Some True \<Longrightarrow> TaintedOrigin (Properties r') = Some True"
    and "go \<Longrightarrow> m_redirEventSrc cfg = Some origin \<Longrightarrow> \<not> IsSameOrigin (Location resp) (Some (RequestUri r)) \<Longrightarrow>
      \<not> IsSameOrigin origin (Some (RequestUri r)) \<Longrightarrow> TaintedOrigin (Properties r') = Some True"
    by auto
qed

lemma with_user_agent_fields [simp]:
  "RequestUri (with_user_agent cfg r) = RequestUri r" "Properties (with_user_agent cfg r) = Properties r"
  "Method (with_user_agent cfg r) = Method r"
  by (simp_all add: with_user_agent_def)

lemma after_response_follow:
  assumes "after_response env cfg count m r resp = Follow m' r'"
  obtains r1 u where "next_request cfg m r resp = Inr (True, r1)" "Location resp = Some u"
    "redirect_target (RequestUri r1) (AbsoluteUri env u)" "r' = r1\<lparr>RequestUri := AbsoluteUri env u\<rparr>"
    "m' = next_method cfg (StatusCode resp) m" "count < m_maximumRedirects cfg"
  using assms after_response_count [OF assms]
  by (auto simp: after_response_def Let_def split: if_splits sum.splits prod.splits bool.splits option.splits)

lemma after_response_leave:
  assumes "after_response env cfg count m r resp = Leave r' resp'"
  shows "resp' = resp" "TaintedOrigin (Properties r) = Some True \<Longrightarrow> TaintedOrigin (Properties r') = Some True"
  using assms next_request_fields(2) [of cfg m r resp]
  by (auto simp: after_response_def Let_def split: if_splits sum.splits prod.splits bool.splits option.splits)

section \<open>Properties\<close>


text \<open>Two requests that follow each other: an address is never left for one with less protection.\<close>

definition no_downgrade :: "redirect_log \<Rightarrow> bool" where
  "no_downgrade log \<longleftrightarrow>
     successively (\<lambda>later earlier. SchemeName (RequestUri (snd earlier)) = ''https'' \<longrightarrow> SchemeName (RequestUri (snd later)) = ''https'') log"

lemma loop_shape:
  assumes "redirect_loop env cfg count m r log = (res, log')"
  shows "\<exists>new. log' = new @ (count > 0, with_user_agent cfg r) # log \<and>
    no_downgrade (new @ [(count > 0, with_user_agent cfg r)])"
  using assms
proof (induction env cfg count m r log rule: redirect_loop.induct)
  case (1 env cfg count m r log)
  let ?r = "with_user_agent cfg r" and ?log = "(count > 0, with_user_agent cfg r) # log"
  have stop: "log' = ?log \<Longrightarrow> ?case" by (intro exI [of _ "[]"]) (simp add: no_downgrade_def)
  show ?case
  proof (cases "send_through cfg count log ?r")
    case (Inl e)
    then show ?thesis using "1.prems"(1) stop by (simp add: redirect_loop.simps [of _ _ _ _ r])
  next
    case (Inr resp)
    show ?thesis
    proof (cases "after_response env cfg count m ?r resp")
      case (Follow m' r2)
      have "redirect_loop env cfg (count + 1) m' r2 ?log = (res, log')"
        using "1.prems"(1) Inr Follow by (simp add: redirect_loop.simps [of _ _ _ _ r])
      then obtain new where new: "log' = new @ (True, with_user_agent cfg r2) # ?log"
        "no_downgrade (new @ [(True, with_user_agent cfg r2)])"
        using "1.IH" [OF refl refl Inr Follow] by auto
      obtain r1 u where f: "next_request cfg m ?r resp = Inr (True, r1)" "redirect_target (RequestUri r1) (AbsoluteUri env u)"
        "r2 = r1\<lparr>RequestUri := AbsoluteUri env u\<rparr>" using Follow by (rule after_response_follow)
      have "redirect_target (RequestUri r) (RequestUri r2)" using f next_request_fields(1) [OF f(1)] by simp
      then have "SchemeName (RequestUri r) = ''https'' \<longrightarrow> SchemeName (RequestUri r2) = ''https''"
        by (auto simp: redirect_target_def)
      then have "no_downgrade ((new @ [(True, with_user_agent cfg r2)]) @ [(count > 0, ?r)])"
        using new(2) unfolding no_downgrade_def by (subst successively_append_iff) auto
      then show ?thesis using new(1) by (intro exI [of _ "new @ [(True, with_user_agent cfg r2)]"]) simp
    qed (use "1.prems"(1) Inr stop in \<open>simp_all add: redirect_loop.simps [of _ _ _ _ r]\<close>)
  qed
qed

text \<open>
  A chain of redirects never leads from an address with https to one with http.
\<close>

theorem redirects_never_downgrade:
  "no_downgrade (snd (Redirect_SendRequestAsync env cfg request []))"
proof -
  obtain res log' where "redirect_loop env cfg 0 (Method request) request [] = (res, log')" by fastforce
  with loop_shape [OF this] show ?thesis by (auto simp: Redirect_SendRequestAsync_def)
qed

section \<open>Tainted origins\<close>

definition tainting_hop :: "uri option \<Rightarrow> http_request \<Rightarrow> http_request \<Rightarrow> bool" where
  "tainting_hop origin earlier later \<longleftrightarrow>
     \<not> IsSameOrigin (Some (RequestUri later)) (Some (RequestUri earlier)) \<and> \<not> IsSameOrigin origin (Some (RequestUri earlier))"

text \<open>Does the log have such a step, reading it from the newest request?\<close>

fun has_tainting_hop :: "uri option \<Rightarrow> redirect_log \<Rightarrow> bool" where
  "has_tainting_hop origin (y # x # log) \<longleftrightarrow> tainting_hop origin (snd x) (snd y) \<or> has_tainting_hop origin (x # log)"
| "has_tainting_hop origin _ \<longleftrightarrow> False"

lemma loop_taints:
  assumes "redirect_loop env cfg count m r log = (Inr resp, log')" and "m_redirEventSrc cfg = Some origin"
    and "\<And>u v. IsSameOrigin (Some (AbsoluteUri env u)) v = IsSameOrigin (Some u) v"
    and "TaintedOrigin (Properties r) = Some True \<or>
      has_tainting_hop origin log' \<and> \<not> has_tainting_hop origin ((count > 0, with_user_agent cfg r) # log)"
  shows "TaintedOrigin (Properties (RequestMessage resp)) = Some True"
  using assms
proof (induction env cfg count m r log rule: redirect_loop.induct)
  case (1 env cfg count m r log)
  let ?r = "with_user_agent cfg r" and ?log = "(count > 0, with_user_agent cfg r) # log"
  obtain resp1 where Inr: "send_through cfg count log ?r = Inr resp1"
    using "1.prems"(1) by (cases "send_through cfg count log ?r") (simp_all add: redirect_loop.simps [of _ _ _ _ r])
  show ?case
  proof (cases "after_response env cfg count m ?r resp1")
    case (Stop res)
    then have "res = Inr resp" using "1.prems"(1) Inr by (simp add: redirect_loop.simps [of _ _ _ _ r])
    then have False using Stop
      by (auto simp: after_response_def Let_def split: if_splits sum.splits prod.splits bool.splits option.splits)
    then show ?thesis ..
  next
    case (Leave r2 resp2)
    then have "resp = resp2\<lparr>RequestMessage := r2\<rparr>" "log' = ?log"
      using "1.prems"(1) Inr by (simp_all add: redirect_loop.simps [of _ _ _ _ r])
    then show ?thesis using "1.prems"(4) after_response_leave(2) [OF Leave] by auto
  next
    case (Follow m' r2)
    have loop: "redirect_loop env cfg (count + 1) m' r2 ?log = (Inr resp, log')"
      using "1.prems"(1) Inr Follow by (simp add: redirect_loop.simps [of _ _ _ _ r])
    obtain r1 u where f: "next_request cfg m ?r resp1 = Inr (True, r1)" "Location resp1 = Some u"
      "r2 = r1\<lparr>RequestUri := AbsoluteUri env u\<rparr>" using Follow by (rule after_response_follow)
    have "TaintedOrigin (Properties r2) = Some True \<or>
        has_tainting_hop origin log' \<and> \<not> has_tainting_hop origin ((True, with_user_agent cfg r2) # ?log)"
    proof (cases "TaintedOrigin (Properties r) = Some True \<or> tainting_hop origin ?r (with_user_agent cfg r2)")
      case True
      then have "TaintedOrigin (Properties r1) = Some True"
        using next_request_fields(2,3) [OF f(1)] f(2,3) "1.prems"(2,3) by (auto simp: tainting_hop_def)
      then show ?thesis using f(3) by simp
    next
      case False
      then show ?thesis using "1.prems"(4) by auto
    qed
    then show ?thesis using "1.IH" [OF refl refl Inr Follow loop "1.prems"(2,3)] by simp
  qed
qed


section \<open>A chain of servers\<close>

text \<open>
  Every request is answered by the entry of a script that its place in the chain selects: a
  status and the place it points to; the last answer admits every origin.
\<close>

definition c_com :: uri where
  "c_com = \<lparr>SchemeName = ''http'', Host = ''c.com'', Port = 80, UserName = [], Password = []\<rparr>"

definition script_server :: "nat list \<Rightarrow> redirect_log \<Rightarrow> http_request \<Rightarrow> http_response hresult" where
  "script_server script log r = Inr \<lparr>StatusCode = (if length log < length script then script ! length log else 200),
     RHeaders = [(''Access-Control-Allow-Origin'', ''*'')], Location = Some c_com, RequestMessage = r\<rparr>"

definition accept_all :: header_env where
  "accept_all = \<lparr>media_type = Some, append_raw = (\<lambda>_ _. True), append_checked = (\<lambda>_ _. True), encoding_ok = (\<lambda>_. True),
     length_ok = (\<lambda>_. True)\<rparr>"

definition chain_config :: "nat list \<Rightarrow> headers \<Rightarrow> redirect_config" where
  "chain_config script hs = \<lparr>m_maximumRedirects = 20, m_allowAutoRedirect = True, m_innerFilter = script_server script,
     m_innerFilterWithNoCredentials = script_server script,
     m_requestFactory = Some (accept_all, \<lparr>ArgHeaders = hs, ArgHasBody = False, ArgIsForm = False\<rparr>),
     m_redirEventSrc = Some (Some a_com), m_defaultUserAgent = [], is_post = (\<lambda>m. m = ''POST'')\<rparr>"

lemmas chain_simps = redirect_loop.simps Redirect_SendRequestAsync_def chain_config_def script_server_def send_through_def
  with_user_agent_def after_response_def redirect_status_def next_request_def OnRedirecting_def CreateRequest_def
  redirect_target_def next_method_def sample_env_def sample_request_def a_com_def b_com_def c_com_def Let_def IsSameOrigin_def


lemma chain_result:
  "Redirect_SendRequestAsync sample_env (chain_config [302] []) (sample_request ''GET'' []) [] =
     (Inr \<lparr>StatusCode = 200, RHeaders = [(''Access-Control-Allow-Origin'', ''*'')], Location = Some c_com,
        RequestMessage = \<lparr>Method = ''GET'', RequestUri = c_com, Headers = [], Content = None,
          Properties = \<lparr>OriginPolicy_prop = None, RequestArgs = Some False, TaintedOrigin = Some True\<rparr>\<rparr>\<rparr>,
      [(True, \<lparr>Method = ''GET'', RequestUri = c_com, Headers = [], Content = None,
          Properties = \<lparr>OriginPolicy_prop = None, RequestArgs = Some False, TaintedOrigin = Some True\<rparr>\<rparr>),
       (False, sample_request ''GET'' [])])"
  by (simp add: chain_simps)


text \<open>
  a redirect changes the method one request late and for the wrong methods: after two redirects with
  the code 303 the requests go out as \<^verbatim>\<open>PUT\<close>, \<^verbatim>\<open>PUT\<close>, \<^verbatim>\<open>GET\<close>, and a \<^verbatim>\<open>POST\<close> stays a
  \<^verbatim>\<open>POST\<close>.
\<close>

theorem redirect_method_late:
  "map (Method \<circ> snd) (rev (snd (Redirect_SendRequestAsync sample_env (chain_config [303, 303] []) (sample_request ''PUT'' []) []))) =
     [''PUT'', ''PUT'', ''GET''] \<and>
   map (Method \<circ> snd) (rev (snd (Redirect_SendRequestAsync sample_env (chain_config [303, 303] []) (sample_request ''POST'' []) []))) =
     [''POST'', ''POST'', ''POST'']"
  by (intro conjI) (simp add: chain_simps)+

text \<open>
  A redirect across origins sends the \<^verbatim>\<open>Authorization\<close> header of the caller to the new place, and the
  \<^verbatim>\<open>Origin\<close> header that the origin policy has just masked is not sent, since the request is made
  anew from the arguments.
\<close>

theorem redirect_repeats_authorization:
  "map (Headers \<circ> snd) (snd (Redirect_SendRequestAsync sample_env (chain_config [302] [(''Authorization'', ''secret'')])
     (sample_request ''GET'' [(''Authorization'', ''secret''), (''Origin'', ''http://a.com'')]) [])) =
   [[(''Authorization'', ''secret'')], [(''Authorization'', ''secret''), (''Origin'', ''http://a.com'')]]"
  by (simp add: chain_simps accept_all_def add_header_def header_Append_def header_Insert_def header_Remove_def iequals_def
      LowerString_def lower_code_def)

lemma fold_snoc: "fold (\<lambda>b v. v @ [b]) xs acc = acc @ xs"
  by (induction xs arbitrary: acc) auto

text \<open>
  the body made from a blob is not the blob: as many zero bytes as the blob has stand before it.
\<close>

theorem blob_body_padded:
  "blob_body bytes = replicate (length bytes) 0 @ bytes"
  by (simp add: blob_body_def fold_snoc)

text \<open>The option that is named for omitting credentials keeps them, and without it they are dropped.\<close>

lemma omit_credentials_inverted:
  "map_sum id (RequestArgs \<circ> Properties) (prepare_request sample_env (policy_options 3) (Some a_com)
     (sample_request ''GET'' [] \<lparr>Properties := \<lparr>OriginPolicy_prop = None, RequestArgs = Some True, TaintedOrigin = None\<rparr>\<rparr>)) = Inr (Some False) \<and>
   map_sum id (RequestArgs \<circ> Properties) (prepare_request sample_env (SetRuntimeOptionBool ''Http.OmitCredentials'' True (policy_options 3)) (Some a_com)
     (sample_request ''GET'' [] \<lparr>Properties := \<lparr>OriginPolicy_prop = None, RequestArgs = Some True, TaintedOrigin = None\<rparr>\<rparr>)) = Inr (Some True)"
  by (simp add: prepare_request_def Let_def throw_if_def read_args_def sample_env_def sample_request_def)

end
