(* ===== verification/TaskQueue.thy ===== *)
theory TaskQueue
  imports Prelude
begin

text \<open>
  The two-buffer task queue of a dispatch queue (\<^verbatim>\<open>Mso/src/dispatchQueue/taskQueue.h\<close> and
  \<^verbatim>\<open>taskQueue.cpp\<close>), and the contract \<open>fifo_queue\<close> under which the dispatch queue uses it.
\<close>

section \<open>The read buffer\<close>

text \<open>
  The entries below \<open>m_index\<close> are moved-from; they stay in the vector until the next swap and are
  never read again.
\<close>

record 'a TaskReadBuffer =
  m_buffer :: "'a list"
  m_index :: nat

definition ReadBuffer_TryDequeue :: "'a TaskReadBuffer \<Rightarrow> 'a option \<times> 'a TaskReadBuffer" where
  "ReadBuffer_TryDequeue b =
     (if m_index b < length (m_buffer b)
      then (Some (m_buffer b ! m_index b), b\<lparr>m_index := m_index b + 1\<rparr>)
      else (None, b))"

text \<open>The result is the buffer and the vector that was swapped with it.\<close>

definition SwapBuffer :: "'a list \<Rightarrow> 'a TaskReadBuffer \<Rightarrow> 'a TaskReadBuffer \<times> 'a list" where
  "SwapBuffer buffer b = (b\<lparr>m_buffer := buffer, m_index := 0\<rparr>, drop (m_index b) (m_buffer b))"

definition ReadBuffer_Size :: "'a TaskReadBuffer \<Rightarrow> nat" where
  "ReadBuffer_Size b = length (m_buffer b) - m_index b"

definition ReadBuffer_IsEmpty :: "'a TaskReadBuffer \<Rightarrow> bool" where
  "ReadBuffer_IsEmpty b \<longleftrightarrow> m_index b = length (m_buffer b)"

section \<open>The queue\<close>

text \<open>
  \<open>m_strongOwnerPtr\<close> says whether the strong pointer to the owner is set. The argument \<open>owner_alive\<close>
  of \<open>Enqueue\<close> is the result of \<^verbatim>\<open>m_weakOwnerPtr.GetStrongPtr()\<close>: whether the owner lives.
\<close>

record 'a TaskQueue =
  m_writeBuffer :: "'a list"
  m_readBuffer :: "'a TaskReadBuffer"
  m_strongOwnerPtr :: bool

definition TaskQueue_new :: "'a TaskQueue" where
  "TaskQueue_new = \<lparr>m_writeBuffer = [], m_readBuffer = \<lparr>m_buffer = [], m_index = 0\<rparr>, m_strongOwnerPtr = False\<rparr>"

definition Queue_IsEmpty :: "'a TaskQueue \<Rightarrow> bool" where
  "Queue_IsEmpty q \<longleftrightarrow> ReadBuffer_IsEmpty (m_readBuffer q) \<and> m_writeBuffer q = []"

definition Queue_Size :: "'a TaskQueue \<Rightarrow> nat" where
  "Queue_Size q = ReadBuffer_Size (m_readBuffer q) + length (m_writeBuffer q)"

definition Enqueue :: "bool \<Rightarrow> 'a \<Rightarrow> 'a TaskQueue \<Rightarrow> 'a TaskQueue" where
  "Enqueue owner_alive t q =
     (let queueWasEmpty = Queue_IsEmpty q;
          q' = q\<lparr>m_writeBuffer := m_writeBuffer q @ [t]\<rparr>
      in if queueWasEmpty then q'\<lparr>m_strongOwnerPtr := owner_alive\<rparr> else q')"

definition Queue_TryDequeue :: "'a TaskQueue \<Rightarrow> 'a option \<times> 'a TaskQueue" where
  "Queue_TryDequeue q =
     (let q1 = (if ReadBuffer_IsEmpty (m_readBuffer q) \<and> m_writeBuffer q \<noteq> []
                then (let (r, w) = SwapBuffer (m_writeBuffer q) (m_readBuffer q)
                      in q\<lparr>m_readBuffer := r, m_writeBuffer := w\<rparr>)
                else q);
          (result, r) = ReadBuffer_TryDequeue (m_readBuffer q1);
          q2 = q1\<lparr>m_readBuffer := r\<rparr>
      in (result, if result \<noteq> None \<and> Queue_IsEmpty q2 then q2\<lparr>m_strongOwnerPtr := False\<rparr> else q2))"

definition DequeueAll :: "'a list \<Rightarrow> 'a TaskQueue \<Rightarrow> bool \<times> 'a list \<times> 'a TaskQueue" where
  "DequeueAll tasks q =
     (if Queue_IsEmpty q then (False, tasks, q)
      else
        (let (tasks1, q1) =
               (if \<not> ReadBuffer_IsEmpty (m_readBuffer q)
                then (let (r, readBuffer) = SwapBuffer [] (m_readBuffer q)
                      in (tasks @ readBuffer, q\<lparr>m_readBuffer := r\<rparr>))
                else (tasks, q));
             (tasks2, q2) =
               (if m_writeBuffer q1 \<noteq> [] then (tasks1 @ m_writeBuffer q1, q1\<lparr>m_writeBuffer := []\<rparr>)
                else (tasks1, q1))
         in (True, tasks2, q2\<lparr>m_strongOwnerPtr := False\<rparr>)))"

text \<open>The destructor crashes unless the queue is empty.\<close>

definition TaskQueue_destroy :: "'a TaskQueue \<Rightarrow> unit option" where
  "TaskQueue_destroy q = (if Queue_IsEmpty q then Some () else None)"

section \<open>The contract of a first-in first-out queue\<close>

text \<open>
  What the dispatch queue relies on: the operations act on the list of the waiting tasks.
  \<open>holds\<close> says that the queue keeps its owner alive.
\<close>

locale fifo_queue =
  fixes new :: 'q
    and enq :: "'a \<Rightarrow> 'q \<Rightarrow> 'q"
    and deq :: "'q \<Rightarrow> 'a option \<times> 'q"
    and deq_all :: "'a list \<Rightarrow> 'q \<Rightarrow> bool \<times> 'a list \<times> 'q"
    and is_empty :: "'q \<Rightarrow> bool"
    and sz :: "'q \<Rightarrow> nat"
    and waiting :: "'q \<Rightarrow> 'a list"
    and inv :: "'q \<Rightarrow> bool"
    and holds :: "'q \<Rightarrow> bool"
  assumes new_law: "inv new \<and> waiting new = [] \<and> \<not> holds new"
    and enq_law: "inv q \<Longrightarrow> inv (enq x q) \<and> waiting (enq x q) = waiting q @ [x]"
    and deq_empty_law: "inv q \<Longrightarrow> waiting q = [] \<Longrightarrow> deq q = (None, q)"
    and deq_law: "inv q \<Longrightarrow> waiting q = x # xs \<Longrightarrow>
          \<exists>q'. deq q = (Some x, q') \<and> inv q' \<and> waiting q' = xs"
    and deq_all_law: "inv q \<Longrightarrow>
          \<exists>q'. deq_all ts q = (waiting q \<noteq> [], ts @ waiting q, q') \<and> inv q' \<and> waiting q' = []"
    and is_empty_law: "inv q \<Longrightarrow> is_empty q \<longleftrightarrow> waiting q = []"
    and sz_law: "inv q \<Longrightarrow> sz q = length (waiting q)"
    and holds_law: "inv q \<Longrightarrow> holds q \<longleftrightarrow> waiting q \<noteq> []"
begin

lemma deq_cases:
  assumes "inv q"
  obtains (empty) "waiting q = []" "deq q = (None, q)"
  | (first) x q' where "deq q = (Some x, q')" "inv q'" "waiting q = x # waiting q'"
proof (cases "waiting q")
  case Nil
  then show ?thesis using assms deq_empty_law empty by blast
next
  case (Cons x xs)
  then show ?thesis using assms deq_law[OF assms Cons] first by auto
qed

text \<open>A history of enqueue (\<open>Some x\<close>) and dequeue (\<open>None\<close>) operations and what it dequeues.\<close>

primrec history :: "'a option list \<Rightarrow> 'q \<Rightarrow> 'a list \<times> 'q" where
  "history [] q = ([], q)"
| "history (c # cs) q = (case c of
     Some x \<Rightarrow> history cs (enq x q)
   | None \<Rightarrow> (case deq q of
       (None, q') \<Rightarrow> history cs q'
     | (Some x, q') \<Rightarrow> (case history cs q' of (ys, q'') \<Rightarrow> (x # ys, q''))))"

lemma history_inv:
  "inv q \<Longrightarrow> history cs q = (ys, q') \<Longrightarrow>
     inv q' \<and> waiting q @ List.map_filter id cs = ys @ waiting q'"
proof (induction cs arbitrary: q ys)
  case Nil
  then show ?case by (simp add: map_filter_simps)
next
  case (Cons c cs)
  show ?case
  proof (cases c)
    case None
    from Cons.prems(1) show ?thesis
    proof (cases rule: deq_cases)
      case empty
      then show ?thesis using Cons.IH[of q ys] Cons.prems None by (simp add: map_filter_simps)
    next
      case (first x q1)
      obtain zs where "history cs q1 = (zs, q')" "ys = x # zs"
        using Cons.prems(2) first(1) None by (auto split: prod.splits)
      then show ?thesis using Cons.IH[of q1 zs] first None by (simp add: map_filter_simps)
    qed
  next
    case (Some x)
    then show ?thesis using Cons.IH[of "enq x q" ys] Cons.prems enq_law[of q x]
      by (simp add: map_filter_simps)
  qed
qed

lemma history_fifo:
  "history cs new = (ys, q) \<Longrightarrow> List.map_filter id cs = ys @ waiting q \<and> (holds q \<longleftrightarrow> waiting q \<noteq> [])"
  using history_inv[of new cs ys q] new_law holds_law by simp

end

section \<open>The task queue keeps the contract\<close>

definition queue_waiting :: "'a TaskQueue \<Rightarrow> 'a list" where
  "queue_waiting q = drop (m_index (m_readBuffer q)) (m_buffer (m_readBuffer q)) @ m_writeBuffer q"

definition queue_inv :: "'a TaskQueue \<Rightarrow> bool" where
  "queue_inv q \<longleftrightarrow> m_index (m_readBuffer q) \<le> length (m_buffer (m_readBuffer q)) \<and>
     (m_strongOwnerPtr q \<longleftrightarrow> queue_waiting q \<noteq> [])"

lemmas queue_defs = queue_inv_def queue_waiting_def Queue_IsEmpty_def Queue_Size_def Enqueue_def
  Queue_TryDequeue_def DequeueAll_def SwapBuffer_def ReadBuffer_TryDequeue_def ReadBuffer_Size_def
  ReadBuffer_IsEmpty_def TaskQueue_new_def

lemma Queue_IsEmpty_iff: "queue_inv q \<Longrightarrow> Queue_IsEmpty q \<longleftrightarrow> queue_waiting q = []"
  by (auto simp: queue_defs)

lemma Enqueue_waiting: "queue_inv q \<Longrightarrow> queue_inv (Enqueue True t q) \<and> queue_waiting (Enqueue True t q) = queue_waiting q @ [t]"
  by (auto simp: queue_defs)

lemma Queue_TryDequeue_None:
  assumes "queue_inv q" "queue_waiting q = []"
  shows "Queue_TryDequeue q = (None, q)"
  using assms by (auto simp: queue_defs)

lemma Queue_TryDequeue_Some:
  assumes "queue_inv q" "queue_waiting q = x # xs"
  shows "\<exists>q'. Queue_TryDequeue q = (Some x, q') \<and> queue_inv q' \<and> queue_waiting q' = xs"
proof (cases "ReadBuffer_IsEmpty (m_readBuffer q)")
  case True
  then have "m_writeBuffer q = x # xs" using assms by (simp add: queue_defs)
  with True assms(1) show ?thesis by (cases xs) (auto simp: queue_defs Let_def)
next
  case False
  then have "m_index (m_readBuffer q) < length (m_buffer (m_readBuffer q))" using assms(1) by (simp add: queue_defs)
  with assms False show ?thesis by (auto simp: queue_defs Let_def Cons_nth_drop_Suc[symmetric])
qed

lemma DequeueAll_waiting:
  assumes "queue_inv q"
  shows "\<exists>q'. DequeueAll ts q = (queue_waiting q \<noteq> [], ts @ queue_waiting q, q') \<and> queue_inv q' \<and> queue_waiting q' = []"
  using assms by (auto simp: queue_defs)

interpretation task_queue: fifo_queue TaskQueue_new "Enqueue True" Queue_TryDequeue DequeueAll
  Queue_IsEmpty Queue_Size queue_waiting queue_inv m_strongOwnerPtr
proof unfold_locales
  show "queue_inv TaskQueue_new \<and> queue_waiting TaskQueue_new = [] \<and> \<not> m_strongOwnerPtr TaskQueue_new"
    by (simp add: queue_defs)
  show "Queue_Size q = length (queue_waiting q)" if "queue_inv q" for q :: "'a TaskQueue"
    using that by (simp add: queue_defs)
  show "m_strongOwnerPtr q \<longleftrightarrow> queue_waiting q \<noteq> []" if "queue_inv q" for q :: "'a TaskQueue"
    using that by (simp add: queue_inv_def)
qed (fact Enqueue_waiting Queue_TryDequeue_None Queue_TryDequeue_Some DequeueAll_waiting Queue_IsEmpty_iff)+

section \<open>Properties\<close>

text \<open>A history of queue operations: \<open>Some t\<close> enqueues \<open>t\<close>, \<open>None\<close> tries to dequeue.\<close>

fun queue_history :: "'a option list \<Rightarrow> 'a TaskQueue \<Rightarrow> 'a list \<times> 'a TaskQueue" where
  "queue_history [] q = ([], q)"
| "queue_history (Some t # cs) q = queue_history cs (Enqueue True t q)"
| "queue_history (None # cs) q = (case Queue_TryDequeue q of
     (None, q') \<Rightarrow> queue_history cs q'
   | (Some t, q') \<Rightarrow> (case queue_history cs q' of (ts, q'') \<Rightarrow> (t # ts, q'')))"

lemma queue_history_history: "queue_history cs q = task_queue.history cs q"
  by (induction cs q rule: queue_history.induct) (auto split: prod.splits option.splits)



end
