(* ===== verification/DispatchTask.thy ===== *)
theory DispatchTask
  imports Prelude
begin

text \<open>
  The tasks of a dispatch queue: the task objects made by \<^verbatim>\<open>MakeDispatchTask\<close> and
  \<^verbatim>\<open>MakeDispatchCleanupTask\<close> (\<^verbatim>\<open>Mso/dispatchQueue/dispatchQueue.h\<close>), task batches
  (\<^verbatim>\<open>taskBatch.cpp\<close>), the per-thread task context with its deferred tasks (\<^verbatim>\<open>taskContext.cpp\<close>),
  and the loop of \<^verbatim>\<open>QueueService::InvokeTask\<close>.
\<close>

section \<open>Tasks\<close>

text \<open>
  A \<^verbatim>\<open>DispatchTask\<close> is a counted pointer to a functor and may be null. User functions are named by
  numbers; the operations below return the list of the user functions they call, in order. The
  flag of \<open>DispatchTaskImpl\<close> is \<^verbatim>\<open>m_isCalled\<close>. A plain lambda has no cancellation listener.
\<close>

datatype task =
    NullTask
  | LambdaTask nat
  | DispatchTaskImpl nat nat bool
  | CleanupTaskImpl nat
  | TaskBatch "task list"

text \<open>The destructor that runs when the last pointer to the task goes away.\<close>

fun task_destroy :: "task \<Rightarrow> nat list" where
  "task_destroy NullTask = []"
| "task_destroy (LambdaTask f) = []"
| "task_destroy (DispatchTaskImpl invoke onCancel isCalled) = (if \<not> isCalled then [onCancel] else [])"
| "task_destroy (CleanupTaskImpl f) = []"
| "task_destroy (TaskBatch ts) = concat (map task_destroy ts)"

text \<open>\<open>None\<close> is the crash on a null functor.\<close>

fun task_Invoke :: "task \<Rightarrow> (nat list \<times> task) option"
  and TaskBatch_Invoke :: "task list \<Rightarrow> (nat list \<times> task list) option" where
  "task_Invoke NullTask = None"
| "task_Invoke (LambdaTask f) = Some ([f], LambdaTask f)"
| "task_Invoke (DispatchTaskImpl invoke onCancel isCalled) = Some ([invoke], DispatchTaskImpl invoke onCancel True)"
| "task_Invoke (CleanupTaskImpl f) = Some ([f], CleanupTaskImpl f)"
| "task_Invoke (TaskBatch ts) = map_option (\<lambda>(fs, ts'). (fs, TaskBatch ts')) (TaskBatch_Invoke ts)"
| "TaskBatch_Invoke [] = Some ([], [])"
| "TaskBatch_Invoke (t # ts) = (case task_Invoke t of
     None \<Rightarrow> None
   | Some (fs, t') \<Rightarrow> (case TaskBatch_Invoke ts of
       None \<Rightarrow> None
     | Some (gs, ts') \<Rightarrow> Some (fs @ task_destroy t' @ gs, NullTask # ts')))"

text \<open>
  \<^verbatim>\<open>OnCancel\<close> of the listener that \<^verbatim>\<open>query_cast\<close> finds. A null pointer and a plain lambda have none.
\<close>

fun task_OnCancel :: "task \<Rightarrow> nat list \<times> task"
  and TaskBatch_OnCancel :: "task list \<Rightarrow> nat list \<times> task list" where
  "task_OnCancel NullTask = ([], NullTask)"
| "task_OnCancel (LambdaTask f) = ([], LambdaTask f)"
| "task_OnCancel (DispatchTaskImpl invoke onCancel isCalled) = ([onCancel], DispatchTaskImpl invoke onCancel True)"
| "task_OnCancel (CleanupTaskImpl f) = ([f], CleanupTaskImpl f)"
| "task_OnCancel (TaskBatch ts) = (case TaskBatch_OnCancel ts of (fs, ts') \<Rightarrow> (fs, TaskBatch ts'))"
| "TaskBatch_OnCancel [] = ([], [])"
| "TaskBatch_OnCancel (t # ts) = (case task_OnCancel t of (fs, t') \<Rightarrow>
     (case TaskBatch_OnCancel ts of (gs, ts') \<Rightarrow> (fs @ task_destroy t' @ gs, NullTask # ts')))"

text \<open>\<^verbatim>\<open>QueueService::CancelTask\<close>: the task is moved into a local variable and destroyed at the end.\<close>

definition CancelTask :: "task \<Rightarrow> nat list" where
  "CancelTask t = (case task_OnCancel t of (fs, t') \<Rightarrow> fs @ task_destroy t')"

section \<open>The task context\<close>

text \<open>The context of the task that a queue runs on a thread, and its queue of deferred tasks.\<close>

record TaskContext =
  m_deferQueue :: "task list"
  m_readIndex :: nat

definition TaskContext_new :: TaskContext where
  "TaskContext_new = \<lparr>m_deferQueue = [], m_readIndex = 0\<rparr>"

definition Defer :: "task \<Rightarrow> TaskContext \<Rightarrow> TaskContext" where
  "Defer t c = c\<lparr>m_deferQueue := m_deferQueue c @ [t]\<rparr>"

definition TakeNextDeferredTask :: "TaskContext \<Rightarrow> task \<times> TaskContext" where
  "TakeNextDeferredTask c =
     (if m_readIndex c < length (m_deferQueue c)
      then (m_deferQueue c ! m_readIndex c,
            c\<lparr>m_deferQueue := (m_deferQueue c)[m_readIndex c := NullTask], m_readIndex := m_readIndex c + 1\<rparr>)
      else (NullTask, c))"

section \<open>Invoking a task with its deferred tasks\<close>

text \<open>
  The user code is a parameter: \<open>deferred f\<close> lists the tasks that the function \<open>f\<close> passes to
  \<^verbatim>\<open>DeferElsePost\<close> of the queue that runs it. The loop of \<^verbatim>\<open>InvokeTask\<close> does not end when the tasks
  defer new ones for ever. Assigning the next task to the variable destroys the previous one; at
  the end the context is destroyed with the tasks left in it.
\<close>

type_synonym user_code = "nat \<Rightarrow> task list"

definition run_functions :: "user_code \<Rightarrow> nat list \<Rightarrow> TaskContext \<Rightarrow> TaskContext" where
  "run_functions deferred fs c = fold Defer (concat (map deferred fs)) c"

partial_function (option) invoke_loop ::
  "user_code \<Rightarrow> task \<Rightarrow> TaskContext \<Rightarrow> nat list \<Rightarrow> nat list option" where
  "invoke_loop deferred t c log =
     (if t = NullTask then Some (log @ concat (map task_destroy (m_deferQueue c)))
      else (case task_Invoke t of
        None \<Rightarrow> None
      | Some (fs, t') \<Rightarrow>
          (let (next, c1) = TakeNextDeferredTask (run_functions deferred fs c);
               ds = task_destroy t'
           in invoke_loop deferred next (run_functions deferred ds c1) (log @ fs @ ds))))"

definition InvokeTask :: "user_code \<Rightarrow> task \<Rightarrow> nat list option" where
  "InvokeTask deferred t = (if t = NullTask then None else invoke_loop deferred t TaskContext_new [])"

section \<open>What a task runs\<close>

text \<open>The functions of a task that an invocation, and a cancellation, is meant to call.\<close>

fun invoke_functions :: "task \<Rightarrow> nat list" where
  "invoke_functions NullTask = []"
| "invoke_functions (LambdaTask f) = [f]"
| "invoke_functions (DispatchTaskImpl invoke onCancel isCalled) = [invoke]"
| "invoke_functions (CleanupTaskImpl f) = [f]"
| "invoke_functions (TaskBatch ts) = concat (map invoke_functions ts)"

fun cancel_functions :: "task \<Rightarrow> nat list" where
  "cancel_functions NullTask = []"
| "cancel_functions (LambdaTask f) = []"
| "cancel_functions (DispatchTaskImpl invoke onCancel isCalled) = [onCancel]"
| "cancel_functions (CleanupTaskImpl f) = [f]"
| "cancel_functions (TaskBatch ts) = concat (map cancel_functions ts)"

text \<open>A task that was neither invoked nor cancelled and has no null task inside.\<close>

fun fresh_task :: "task \<Rightarrow> bool" where
  "fresh_task NullTask \<longleftrightarrow> False"
| "fresh_task (LambdaTask f) \<longleftrightarrow> True"
| "fresh_task (DispatchTaskImpl invoke onCancel isCalled) \<longleftrightarrow> \<not> isCalled"
| "fresh_task (CleanupTaskImpl f) \<longleftrightarrow> True"
| "fresh_task (TaskBatch ts) \<longleftrightarrow> list_all fresh_task ts"

lemma invoke_fresh:
  "fresh_task t \<Longrightarrow> \<exists>t'. task_Invoke t = Some (invoke_functions t, t') \<and> task_destroy t' = []"
  "list_all fresh_task ts \<Longrightarrow>
     \<exists>ts'. TaskBatch_Invoke ts = Some (concat (map invoke_functions ts), ts') \<and> concat (map task_destroy ts') = []"
  by (induction t and ts rule: task_Invoke_TaskBatch_Invoke.induct) (auto, fastforce)

lemma cancel_fresh:
  "fresh_task t \<Longrightarrow> \<exists>t'. task_OnCancel t = (cancel_functions t, t') \<and> task_destroy t' = []"
  "list_all fresh_task ts \<Longrightarrow>
     \<exists>ts'. TaskBatch_OnCancel ts = (concat (map cancel_functions ts), ts') \<and> concat (map task_destroy ts') = []"
  by (induction t and ts rule: task_OnCancel_TaskBatch_OnCancel.induct) auto

lemma CancelTask_fresh: "fresh_task t \<Longrightarrow> CancelTask t = cancel_functions t"
  using cancel_fresh(1)[of t] by (auto simp: CancelTask_def)

section \<open>Deferred tasks run breadth first\<close>

definition children :: "user_code \<Rightarrow> task \<Rightarrow> task list" where
  "children deferred t = concat (map deferred (invoke_functions t))"

primrec deferral_level :: "user_code \<Rightarrow> task \<Rightarrow> nat \<Rightarrow> task list" where
  "deferral_level deferred t 0 = [t]"
| "deferral_level deferred t (Suc n) = concat (map (children deferred) (deferral_level deferred t n))"

definition fresh_code :: "user_code \<Rightarrow> bool" where
  "fresh_code deferred \<longleftrightarrow> (\<forall>f. list_all fresh_task (deferred f))"

text \<open>The tasks the loop has still to invoke, in the order in which it takes them.\<close>

definition pending :: "task \<Rightarrow> TaskContext \<Rightarrow> task list" where
  "pending t c = (if t = NullTask then [] else t # drop (m_readIndex c) (m_deferQueue c))"

definition context_inv :: "task \<Rightarrow> TaskContext \<Rightarrow> bool" where
  "context_inv t c \<longleftrightarrow> m_readIndex c \<le> length (m_deferQueue c) \<and> list_all fresh_task (pending t c) \<and>
     list_all (\<lambda>t. t = NullTask) (take (m_readIndex c) (m_deferQueue c)) \<and>
     (t = NullTask \<longrightarrow> m_readIndex c = length (m_deferQueue c))"

lemma fold_Defer: "fold Defer ts c = c\<lparr>m_deferQueue := m_deferQueue c @ ts\<rparr>"
  by (induction ts arbitrary: c) (auto simp: Defer_def)

lemma children_fresh: "fresh_code deferred \<Longrightarrow> list_all fresh_task (children deferred t)"
  by (auto simp: children_def fresh_code_def list_all_iff)

lemma level_fresh:
  "fresh_code deferred \<Longrightarrow> fresh_task t \<Longrightarrow> list_all fresh_task (deferral_level deferred t n)"
  by (induction n) (use children_fresh in \<open>auto simp: list_all_iff\<close>)

lemma fresh_not_null: "fresh_task t \<Longrightarrow> t \<noteq> NullTask"
  by auto

lemma take_upd_Suc: "i < length xs \<Longrightarrow> take (Suc i) (xs[i := x]) = take i xs @ [x]"
  by (simp add: take_Suc_conv_app_nth)

lemma TakeNext_pending:
  assumes idx: "m_readIndex c \<le> length (m_deferQueue c)"
    and fresh: "list_all fresh_task (drop (m_readIndex c) (m_deferQueue c))"
    and nulls: "list_all (\<lambda>t. t = NullTask) (take (m_readIndex c) (m_deferQueue c))"
    and take: "TakeNextDeferredTask c = (t, c')"
  shows "context_inv t c' \<and> pending t c' = drop (m_readIndex c) (m_deferQueue c)"
proof (cases "m_readIndex c < length (m_deferQueue c)")
  case True
  then have nth: "drop (m_readIndex c) (m_deferQueue c) = m_deferQueue c ! m_readIndex c # drop (Suc (m_readIndex c)) (m_deferQueue c)"
    by (simp add: Cons_nth_drop_Suc)
  then have "m_deferQueue c ! m_readIndex c \<noteq> NullTask" using fresh by auto
  with True take nth fresh nulls show ?thesis
    by (auto simp: TakeNextDeferredTask_def context_inv_def pending_def take_upd_Suc)
next
  case False
  with take idx nulls show ?thesis
    by (auto simp: TakeNextDeferredTask_def context_inv_def pending_def)
qed

lemma invoke_loop_step:
  assumes inv: "context_inv t c" and code: "fresh_code deferred" and pend: "pending t c = x # ys"
  shows "\<exists>t' c'. invoke_loop deferred t c log = invoke_loop deferred t' c' (log @ invoke_functions x) \<and>
     context_inv t' c' \<and> pending t' c' = ys @ children deferred x"
proof -
  have t: "t \<noteq> NullTask" "x = t" "ys = drop (m_readIndex c) (m_deferQueue c)"
    using pend by (auto simp: pending_def split: if_splits)
  then have fresh: "fresh_task t" "list_all fresh_task ys"
    using inv by (auto simp: context_inv_def pending_def)
  obtain s where s: "task_Invoke t = Some (invoke_functions t, s)" "task_destroy s = []"
    using invoke_fresh(1)[OF fresh(1)] by blast
  define c1 where "c1 = run_functions deferred (invoke_functions t) c"
  have c1: "m_readIndex c1 = m_readIndex c" "m_deferQueue c1 = m_deferQueue c @ children deferred t"
    by (simp_all add: c1_def run_functions_def fold_Defer children_def)
  obtain t' c' where take: "TakeNextDeferredTask c1 = (t', c')" by fastforce
  have "context_inv t' c' \<and> pending t' c' = drop (m_readIndex c1) (m_deferQueue c1)"
    using inv fresh t children_fresh[OF code, of t] c1
    by (intro TakeNext_pending take) (auto simp: context_inv_def)
  then have next_state: "context_inv t' c'" "pending t' c' = ys @ children deferred x"
    using inv t c1 by (auto simp: context_inv_def)
  have "invoke_loop deferred t c log = invoke_loop deferred t' c' (log @ invoke_functions x)"
    using t s take by (subst invoke_loop.simps) (simp add: c1_def run_functions_def)
  with next_state show ?thesis by blast
qed

lemma invoke_loop_prefix:
  assumes "context_inv t c" "fresh_code deferred" "pending t c = xs @ ys"
  shows "\<exists>t' c'. invoke_loop deferred t c log = invoke_loop deferred t' c' (log @ concat (map invoke_functions xs)) \<and>
     context_inv t' c' \<and> pending t' c' = ys @ concat (map (children deferred) xs)"
  using assms
proof (induction xs arbitrary: t c log ys)
  case Nil
  then show ?case by auto
next
  case (Cons x xs)
  obtain t1 c1 where one: "invoke_loop deferred t c log = invoke_loop deferred t1 c1 (log @ invoke_functions x)"
      "context_inv t1 c1" "pending t1 c1 = (xs @ ys) @ children deferred x"
    using invoke_loop_step[of t c deferred x "xs @ ys" log] Cons.prems by auto
  then show ?case
    using Cons.IH[of t1 c1 "ys @ children deferred x" "log @ invoke_functions x"] Cons.prems(2) by auto
qed

lemma invoke_loop_levels:
  assumes inv: "context_inv t c" and code: "fresh_code deferred" and "pending t c = deferral_level deferred t0 k"
    and "deferral_level deferred t0 (k + n) = []"
  shows "invoke_loop deferred t c log =
     Some (log @ concat (map (\<lambda>j. concat (map invoke_functions (deferral_level deferred t0 j))) [k..<k + n]))"
  using assms
proof (induction n arbitrary: t c log k)
  case 0
  then have "t = NullTask" by (auto simp: pending_def split: if_splits)
  moreover have "concat (map task_destroy (m_deferQueue c)) = []"
    using 0 \<open>t = NullTask\<close> by (fastforce simp: context_inv_def list_all_iff)
  ultimately show ?case by (subst invoke_loop.simps) simp
next
  case (Suc n)
  obtain t1 c1 where
      one: "invoke_loop deferred t c log =
        invoke_loop deferred t1 c1 (log @ concat (map invoke_functions (deferral_level deferred t0 k)))"
      and "context_inv t1 c1" "pending t1 c1 = deferral_level deferred t0 (Suc k)"
    using invoke_loop_prefix[of t c deferred "deferral_level deferred t0 k" "[]" log] Suc.prems by auto
  then show ?case
    using Suc.IH[of t1 c1 "Suc k" "log @ concat (map invoke_functions (deferral_level deferred t0 k))"] Suc.prems
    by (simp add: upt_conv_Cons del: upt_Suc)
qed

section \<open>Properties\<close>

text \<open>
  A task, a batch with nested batches included, calls each of its functions at most once in its
  life: an invocation calls the invoke functions in order and the later destruction calls none; a
  cancellation calls the cancel functions in order and the later destruction calls none.
\<close>

theorem task_settled_once:
  assumes "fresh_task t"
  shows "(\<exists>t'. task_Invoke t = Some (invoke_functions t, t') \<and> task_destroy t' = []) \<and>
    (\<exists>t'. task_OnCancel t = (cancel_functions t, t') \<and> task_destroy t' = []) \<and>
    CancelTask t = cancel_functions t"
  using invoke_fresh(1)[OF assms] cancel_fresh(1)[OF assms] CancelTask_fresh[OF assms] by blast

theorem task_settled_once_witness:
  "let t = TaskBatch [LambdaTask 1, TaskBatch [DispatchTaskImpl 2 3 False], CleanupTaskImpl 4] in
     fresh_task t \<and> CancelTask t = [3, 4] \<and> (\<exists>t'. task_Invoke t = Some ([1, 2, 4], t') \<and> task_destroy t' = [])"
  using task_settled_once[of "TaskBatch [LambdaTask 1, TaskBatch [DispatchTaskImpl 2 3 False], CleanupTaskImpl 4]"]
  by (simp add: Let_def)

text \<open>
  C16: When the tasks that a task defers, the tasks these defer, and so on, come to an end, invoking
  the task returns. It has then run the task and every deferred task exactly once, breadth first:
  all tasks of one level of deferral, in the order of their deferral, before those of the next.
\<close>

theorem invoke_task_breadth_first:
  assumes "fresh_task t" and "fresh_code deferred" and "deferral_level deferred t n = []"
  shows "InvokeTask deferred t =
    Some (concat (map (\<lambda>j. concat (map invoke_functions (deferral_level deferred t j))) [0..<n]))"
proof -
  have "context_inv t TaskContext_new" "pending t TaskContext_new = deferral_level deferred t 0"
    using assms(1) fresh_not_null[OF assms(1)] by (auto simp: context_inv_def pending_def TaskContext_new_def)
  then show ?thesis
    using invoke_loop_levels[of t TaskContext_new deferred t 0 n "[]"] assms fresh_not_null[OF assms(1)]
    by (simp add: InvokeTask_def)
qed

text \<open>Function 1 defers tasks 2 and 3; function 2 defers task 4.\<close>

theorem invoke_task_breadth_first_witness:
  "let code = (\<lambda>f. if f = 1 then [LambdaTask 2, DispatchTaskImpl 3 9 False] else if f = 2 then [CleanupTaskImpl 4] else []) in
     fresh_code code \<and> deferral_level code (LambdaTask 1) 3 = [] \<and> InvokeTask code (LambdaTask 1) = Some [1, 2, 3, 4]"
  using invoke_task_breadth_first[of "LambdaTask 1"
      "\<lambda>f. if f = 1 then [LambdaTask 2, DispatchTaskImpl 3 9 False] else if f = 2 then [CleanupTaskImpl 4] else []" 3]
  by (simp add: Let_def fresh_code_def numeral_3_eq_3 children_def upt_conv_Cons)

end
