(* ===== verification/QueueService.thy ===== *)
theory QueueService
  imports TaskQueue DispatchTask
begin

text \<open>
  The dispatch queue service (\<^verbatim>\<open>Mso/src/dispatchQueue/queueService.h\<close>, \<^verbatim>\<open>queueService.cpp\<close>) and the
  guards of its public API (\<^verbatim>\<open>Mso/dispatchQueue/dispatchQueue.h\<close>). Every operation holds the queue's
  mutex while it reads and changes the state, so it is one function of the state; what it does
  after the mutex is released is returned as a list of calls.
\<close>

section \<open>State\<close>

datatype PendingTaskAction = Complete | Cancel

datatype TaskYieldReason = QueueShutdown | QueueSuspended | TimeExpired

datatype LocalValueSwapAction = Lock | Unlock

text \<open>A task batch that is being filled, with the batch that encloses it.\<close>

datatype batch = Batch "task list" "batch option"

text \<open>
  A queue local value. A pointer to a value is a number, 0 the null pointer. A swap callback takes
  the stored pointer and the thread local one (\<open>None\<close> when the callback gets a null address, which
  asks it to delete the value), and gives back both. \<open>None\<close> is a null callback.
\<close>

type_synonym swap_callback = "nat \<Rightarrow> nat option \<Rightarrow> nat \<times> nat option"

record QueueLocalValueEntry =
  m_swapLocalValue :: "swap_callback option"
  m_data :: nat
  m_isLocked :: bool

record queue_service =
  m_queue :: "task TaskQueue"
  m_shutdownAction :: "PendingTaskAction option"
  m_suspendCounter :: int32
  m_taskBatches :: "(nat \<times> batch option) list"
  m_localValues :: "(int \<times> QueueLocalValueEntry) list"

definition QueueService_new :: queue_service where
  "QueueService_new = \<lparr>m_queue = TaskQueue_new, m_shutdownAction = None, m_suspendCounter = 0,
     m_taskBatches = [], m_localValues = []\<rparr>"

text \<open>
  The calls made after the mutex is released: to the scheduler, and to user functions of cancelled
  tasks. An operation that crashes gives \<open>None\<close>.
\<close>

datatype call = SchedulerPost | SchedulerShutdown | UserFunction nat

section \<open>Task batches\<close>

fun AddTask :: "task \<Rightarrow> batch \<Rightarrow> batch" where
  "AddTask t (Batch ts enclosing) = Batch (ts @ [t]) enclosing"

fun SetEnclosingBatch :: "batch option \<Rightarrow> batch \<Rightarrow> batch" where
  "SetEnclosingBatch b (Batch ts enclosing) = Batch ts b"

fun TakeEnclosingBatch :: "batch \<Rightarrow> batch option \<times> batch" where
  "TakeEnclosingBatch (Batch ts enclosing) = (enclosing, Batch ts None)"

fun batch_task :: "batch \<Rightarrow> task" where
  "batch_task (Batch ts enclosing) = TaskBatch ts"

text \<open>
  \<^verbatim>\<open>try_emplace\<close> moves the new batch into the map when the thread has no entry, which leaves the
  local pointer null; it leaves the pointer alone when there is an entry.
\<close>

definition BeginTaskBatching :: "nat \<Rightarrow> queue_service \<Rightarrow> queue_service option" where
  "BeginTaskBatching tid s =
     (let fresh = Some (Batch [] None);
          second = (map_of (m_taskBatches s) tid = None);
          taskBatch = (if second then None else fresh);
          batches = try_emplace tid fresh (m_taskBatches s)
      in if second
         then (case taskBatch of
             None \<Rightarrow> None
           | Some b \<Rightarrow>
               (let b' = SetEnclosingBatch (the (map_of batches tid)) b
                in Some (s\<lparr>m_taskBatches := insert_or_assign tid (Some b') batches\<rparr>)))
         else Some (s\<lparr>m_taskBatches := batches\<rparr>))"

definition EndTaskBatching :: "nat \<Rightarrow> queue_service \<Rightarrow> (task \<times> queue_service) option" where
  "EndTaskBatching tid s = (case map_of (m_taskBatches s) tid of
     Some None \<Rightarrow> None
   | Some (Some b) \<Rightarrow>
       (case TakeEnclosingBatch b of
          (Some enclosing, b') \<Rightarrow>
            Some (batch_task b', s\<lparr>m_taskBatches := insert_or_assign tid (Some enclosing) (m_taskBatches s)\<rparr>)
        | (None, b') \<Rightarrow> Some (batch_task b', s\<lparr>m_taskBatches := erase_key tid (m_taskBatches s)\<rparr>))
   | None \<Rightarrow> Some (batch_task (Batch [] None), s))"

definition HasTaskBatching :: "nat \<Rightarrow> queue_service \<Rightarrow> bool" where
  "HasTaskBatching tid s \<longleftrightarrow> map_of (m_taskBatches s) tid \<noteq> None"

section \<open>Posting\<close>

definition Post :: "nat \<Rightarrow> task \<Rightarrow> queue_service \<Rightarrow> (queue_service \<times> call list) option" where
  "Post tid t s =
     (if t = NullTask then None
      else (case map_of (m_taskBatches s) tid of
        Some None \<Rightarrow> None
      | Some (Some b) \<Rightarrow> Some (s\<lparr>m_taskBatches := insert_or_assign tid (Some (AddTask t b)) (m_taskBatches s)\<rparr>, [])
      | None \<Rightarrow>
          (let isShutdown = (m_shutdownAction s \<noteq> None)
           in if \<not> isShutdown
              then Some (s\<lparr>m_queue := Enqueue True t (m_queue s)\<rparr>,
                         if m_suspendCounter s = 0 then [SchedulerPost] else [])
              else Some (s, map UserFunction (CancelTask t)))))"

text \<open>
  \<open>access\<close> is \<^verbatim>\<open>HasThreadAccess()\<close> of the scheduler and \<open>current\<close> says whether the queue is the
  current queue of the thread. An immediate invocation gives the functions it runs. When a task
  of the queue is active already, the tasks these functions defer go to the context of that task.
\<close>

definition InvokeElsePost ::
  "user_code \<Rightarrow> bool \<Rightarrow> bool \<Rightarrow> nat \<Rightarrow> task \<Rightarrow> queue_service \<Rightarrow> (queue_service \<times> call list) option" where
  "InvokeElsePost deferred access current tid t s =
     (if access then
        (if current
         then map_option (\<lambda>(fs, t'). (s, map UserFunction (fs @ task_destroy t'))) (task_Invoke t)
         else map_option (\<lambda>fs. (s, map UserFunction fs)) (InvokeTask deferred t))
      else Post tid t s)"

definition DeferElsePost ::
  "bool \<Rightarrow> nat \<Rightarrow> task \<Rightarrow> TaskContext \<Rightarrow> queue_service \<Rightarrow> (TaskContext \<times> queue_service \<times> call list) option" where
  "DeferElsePost current tid t c s =
     (if current then Some (Defer t c, s, [])
      else map_option (\<lambda>(s', cs). (c, s', cs)) (Post tid t s))"

section \<open>Suspending and shutting down\<close>

text \<open>The increment of the signed counter overflows at its largest value, which is undefined.\<close>

definition Suspend :: "queue_service \<Rightarrow> queue_service option" where
  "Suspend s = (if sint (m_suspendCounter s) = 2 ^ 31 - 1 then None
                else Some (s\<lparr>m_suspendCounter := m_suspendCounter s + 1\<rparr>))"

definition Resume :: "queue_service \<Rightarrow> (queue_service \<times> call list) option" where
  "Resume s =
     (if 0 < sint (m_suspendCounter s)
      then (let s' = s\<lparr>m_suspendCounter := m_suspendCounter s - 1\<rparr>;
                postCount = (if m_suspendCounter s' = 0 then Queue_Size (m_queue s') else 0)
            in Some (s', replicate postCount SchedulerPost))
      else None)"

definition Shutdown :: "PendingTaskAction \<Rightarrow> queue_service \<Rightarrow> queue_service \<times> call list" where
  "Shutdown pendingTaskAction s =
     (let s1 = s\<lparr>m_shutdownAction := Some pendingTaskAction\<rparr>;
          (tasksToCancel, s2) =
            (if pendingTaskAction = Cancel
             then (case DequeueAll [] (m_queue s1) of (_, ts, q) \<Rightarrow> (ts, s1\<lparr>m_queue := q\<rparr>))
             else ([], s1))
      in (s2, map UserFunction (concat (map CancelTask tasksToCancel)) @ [SchedulerShutdown]))"

text \<open>The wait for the scheduler's threads that follows is not part of the queue's state.\<close>

definition AwaitTermination :: "queue_service \<Rightarrow> queue_service \<times> call list" where
  "AwaitTermination s = Shutdown Complete s"

definition ShouldYield :: "queue_service \<Rightarrow> TaskYieldReason option" where
  "ShouldYield s = (if m_shutdownAction s \<noteq> None then Some QueueShutdown
                    else if 0 < sint (m_suspendCounter s) then Some QueueSuspended else None)"

definition HasTasks :: "queue_service \<Rightarrow> bool" where
  "HasTasks s \<longleftrightarrow> m_suspendCounter s = 0 \<and> \<not> Queue_IsEmpty (m_queue s)"

definition TryDequeTask :: "queue_service \<Rightarrow> task option \<times> queue_service" where
  "TryDequeTask s = (if m_suspendCounter s = 0
     then (case Queue_TryDequeue (m_queue s) of (r, q) \<Rightarrow> (r, s\<lparr>m_queue := q\<rparr>))
     else (None, s))"

section \<open>Queue local values\<close>

text \<open>
  The callback for a value type; \<open>fresh\<close> is the address that \<^verbatim>\<open>new TValue\<close> returns. A value that
  is deleted is not tracked.
\<close>

definition SwapDispatchLocalValue :: "nat \<Rightarrow> swap_callback" where
  "SwapDispatchLocalValue fresh localValue tlsValue = (case tlsValue of
     None \<Rightarrow> (0, None)
   | Some tls \<Rightarrow>
       (let localValue' = (if tls = 0 \<and> localValue = 0 then fresh else localValue)
        in (tls, Some localValue')))"

definition Entry_TrySwapLocalValue ::
  "nat \<Rightarrow> LocalValueSwapAction \<Rightarrow> QueueLocalValueEntry \<Rightarrow> (bool \<times> nat \<times> QueueLocalValueEntry) option" where
  "Entry_TrySwapLocalValue tls action e =
     (let swap = (\<lambda>e'. case m_swapLocalValue e' of
            None \<Rightarrow> None
          | Some callback \<Rightarrow>
              (case callback (m_data e') (Some tls) of (d, tls') \<Rightarrow> Some (True, the tls', e'\<lparr>m_data := d\<rparr>)))
      in if action = Lock \<and> \<not> m_isLocked e then swap (e\<lparr>m_isLocked := True\<rparr>)
         else if action = Unlock \<and> m_isLocked e then swap (e\<lparr>m_isLocked := False\<rparr>)
         else Some (False, tls, e))"

definition Entry_destroy :: "QueueLocalValueEntry \<Rightarrow> QueueLocalValueEntry option" where
  "Entry_destroy e = map_option (\<lambda>callback. e\<lparr>m_data := fst (callback (m_data e) None)\<rparr>) (m_swapLocalValue e)"

text \<open>\<open>key\<close> is the distance of the thread local variable from the anchor, \<open>tls\<close> its value.\<close>

definition TrySwapLocalValue ::
  "swap_callback option \<Rightarrow> int \<Rightarrow> nat \<Rightarrow> LocalValueSwapAction \<Rightarrow> queue_service \<Rightarrow> (bool \<times> nat \<times> queue_service) option" where
  "TrySwapLocalValue callback key tls action s =
     (let values = try_emplace key \<lparr>m_swapLocalValue = callback, m_data = 0, m_isLocked = False\<rparr> (m_localValues s)
      in (case Entry_TrySwapLocalValue tls action (the (map_of values key)) of
            None \<Rightarrow> None
          | Some (r, tls', e) \<Rightarrow> Some (r, tls', s\<lparr>m_localValues := insert_or_assign key e values\<rparr>)))"

definition TryLockQueueLocalValue ::
  "swap_callback \<Rightarrow> int \<Rightarrow> nat \<Rightarrow> queue_service \<Rightarrow> (bool \<times> nat \<times> queue_service) option" where
  "TryLockQueueLocalValue callback key tls s = TrySwapLocalValue (Some callback) key tls Lock s"

definition UnlockLocalValue :: "int \<Rightarrow> nat \<Rightarrow> queue_service \<Rightarrow> (nat \<times> queue_service) option" where
  "UnlockLocalValue key tls s = map_option snd (TrySwapLocalValue None key tls Unlock s)"

section \<open>Guards of the public API\<close>

text \<open>
  \<^verbatim>\<open>DispatchQueue::Suspend\<close> makes a guard from the queue; the constructor only copies the pointer.
  A guard is \<open>True\<close> when it holds the queue.
\<close>

definition SuspendGuard_new :: "queue_service \<Rightarrow> bool \<times> queue_service" where
  "SuspendGuard_new s = (True, s)"

definition SuspendGuard_copy :: "bool \<Rightarrow> queue_service \<Rightarrow> (bool \<times> queue_service) option" where
  "SuspendGuard_copy other s = (if other then map_option (\<lambda>s'. (True, s')) (Suspend s) else Some (False, s))"

text \<open>The queue that the assigned guard held is not resumed.\<close>

definition SuspendGuard_assign :: "bool \<Rightarrow> bool \<Rightarrow> queue_service \<Rightarrow> (bool \<times> queue_service) option" where
  "SuspendGuard_assign guard other s = (if other then map_option (\<lambda>s'. (True, s')) (Suspend s) else Some (False, s))"

definition SuspendGuard_destroy :: "bool \<Rightarrow> queue_service \<Rightarrow> (queue_service \<times> call list) option" where
  "SuspendGuard_destroy guard s = (if guard then Resume s else Some (s, []))"

definition TaskBatchGuard_new :: "queue_service \<Rightarrow> bool \<times> queue_service" where
  "TaskBatchGuard_new s = (True, s)"

definition TaskBatchGuard_Post :: "nat \<Rightarrow> bool \<Rightarrow> queue_service \<Rightarrow> (bool \<times> queue_service \<times> call list) option" where
  "TaskBatchGuard_Post tid guard s =
     (if guard then
        (case EndTaskBatching tid s of
           None \<Rightarrow> None
         | Some (t, s') \<Rightarrow> map_option (\<lambda>(s'', cs). (False, s'', cs)) (Post tid t s'))
      else Some (False, s, []))"

definition TaskBatchGuard_InvokeElsePost ::
  "user_code \<Rightarrow> bool \<Rightarrow> bool \<Rightarrow> nat \<Rightarrow> bool \<Rightarrow> queue_service \<Rightarrow> (bool \<times> queue_service \<times> call list) option" where
  "TaskBatchGuard_InvokeElsePost deferred access current tid guard s =
     (if guard then
        (case EndTaskBatching tid s of
           None \<Rightarrow> None
         | Some (t, s') \<Rightarrow>
             map_option (\<lambda>(s'', cs). (False, s'', cs)) (InvokeElsePost deferred access current tid t s'))
      else Some (False, s, []))"

definition TaskBatchGuard_DeferElsePost ::
  "bool \<Rightarrow> nat \<Rightarrow> TaskContext \<Rightarrow> bool \<Rightarrow> queue_service \<Rightarrow> (bool \<times> TaskContext \<times> queue_service \<times> call list) option" where
  "TaskBatchGuard_DeferElsePost current tid c guard s =
     (if guard then
        (case EndTaskBatching tid s of
           None \<Rightarrow> None
         | Some (t, s') \<Rightarrow> map_option (\<lambda>r. (False, r)) (DeferElsePost current tid t c s'))
      else Some (False, c, s, []))"

definition TaskBatchGuard_Cancel :: "nat \<Rightarrow> bool \<Rightarrow> queue_service \<Rightarrow> (bool \<times> queue_service \<times> call list) option" where
  "TaskBatchGuard_Cancel tid guard s =
     (if guard then
        map_option (\<lambda>(t, s'). (False, s', map UserFunction (CancelTask t))) (EndTaskBatching tid s)
      else Some (False, s, []))"

section \<open>Client operations and their history\<close>

text \<open>
  The operations a client calls, with a history of the tasks: those the queue accepted, those a
  scheduler took to run them, those a shutdown cancelled, and those refused after a shutdown.
\<close>

datatype client_op =
    OpPost nat task
  | OpSuspend
  | OpResume
  | OpShutdown PendingTaskAction
  | OpBeginBatch nat
  | OpEndBatch nat
  | OpLock swap_callback int nat
  | OpUnlock int nat

record service_log =
  svc :: queue_service
  accepted :: "task list"
  started :: "task list"
  cancelled :: "task list"
  refused :: "task list"

definition log_new :: service_log where
  "log_new = \<lparr>svc = QueueService_new, accepted = [], started = [], cancelled = [], refused = []\<rparr>"

definition log_post :: "nat \<Rightarrow> task \<Rightarrow> service_log \<Rightarrow> service_log" where
  "log_post tid t l =
     (if HasTaskBatching tid (svc l) then l
      else if m_shutdownAction (svc l) = None then l\<lparr>accepted := accepted l @ [t]\<rparr>
      else l\<lparr>refused := refused l @ [t]\<rparr>)"

fun client_run :: "client_op \<Rightarrow> service_log \<Rightarrow> (service_log \<times> call list) option" where
  "client_run (OpPost tid t) l = map_option (\<lambda>(s, cs). ((log_post tid t l)\<lparr>svc := s\<rparr>, cs)) (Post tid t (svc l))"
| "client_run OpSuspend l = map_option (\<lambda>s. (l\<lparr>svc := s\<rparr>, [])) (Suspend (svc l))"
| "client_run OpResume l = map_option (\<lambda>(s, cs). (l\<lparr>svc := s\<rparr>, cs)) (Resume (svc l))"
| "client_run (OpShutdown a) l = (case Shutdown a (svc l) of (s, cs) \<Rightarrow>
     Some (l\<lparr>svc := s, cancelled := cancelled l @ (if a = Cancel then fst (snd (DequeueAll [] (m_queue (svc l)))) else [])\<rparr>, cs))"
| "client_run (OpBeginBatch tid) l = map_option (\<lambda>s. (l\<lparr>svc := s\<rparr>, [])) (BeginTaskBatching tid (svc l))"
| "client_run (OpEndBatch tid) l = map_option (\<lambda>(t, s). (l\<lparr>svc := s\<rparr>, [])) (EndTaskBatching tid (svc l))"
| "client_run (OpLock callback key tls) l =
     map_option (\<lambda>(r, tls', s). (l\<lparr>svc := s\<rparr>, [])) (TryLockQueueLocalValue callback key tls (svc l))"
| "client_run (OpUnlock key tls) l = map_option (\<lambda>(tls', s). (l\<lparr>svc := s\<rparr>, [])) (UnlockLocalValue key tls (svc l))"

text \<open>\<^verbatim>\<open>TryDequeTask\<close> called by a scheduler.\<close>

definition log_dequeue :: "service_log \<Rightarrow> task option \<times> service_log" where
  "log_dequeue l = (case TryDequeTask (svc l) of
     (None, s) \<Rightarrow> (None, l\<lparr>svc := s\<rparr>)
   | (Some t, s) \<Rightarrow> (Some t, l\<lparr>svc := s, started := started l @ [t]\<rparr>))"

definition waiting_tasks :: "service_log \<Rightarrow> task list" where
  "waiting_tasks l = queue_waiting (m_queue (svc l))"

text \<open>
  The invariant of the history: every accepted task was started, was cancelled or waits, in this
  order. A thread never has a batch, because starting one crashes.
\<close>

definition log_inv :: "service_log \<Rightarrow> bool" where
  "log_inv l \<longleftrightarrow> queue_inv (m_queue (svc l)) \<and> accepted l = started l @ cancelled l @ waiting_tasks l \<and>
     (cancelled l \<noteq> [] \<longrightarrow> m_shutdownAction (svc l) \<noteq> None \<and> waiting_tasks l = []) \<and>
     m_taskBatches (svc l) = [] \<and> 0 \<le> sint (m_suspendCounter (svc l))"

lemma log_inv_new: "log_inv log_new"
  by (simp add: log_inv_def log_new_def QueueService_new_def waiting_tasks_def task_queue.new_law)

lemma HasTasks_iff: "log_inv l \<Longrightarrow> HasTasks (svc l) \<longleftrightarrow> m_suspendCounter (svc l) = 0 \<and> waiting_tasks l \<noteq> []"
  by (auto simp: HasTasks_def log_inv_def waiting_tasks_def Queue_IsEmpty_iff)

lemma sint_incr: "sint (c :: int32) \<noteq> 2 ^ 31 - 1 \<Longrightarrow> sint (c + 1) = sint c + 1"
  using sint_greater_eq[of c] sint_less[of c]
  by (simp add: sint_word_ariths(1) signed_take_bit_int_eq_self)

lemma sint_decr: "0 < sint (c :: int32) \<Longrightarrow> sint (c - 1) = sint c - 1"
  using sint_less[of c] by (simp add: sint_word_ariths(2) signed_take_bit_int_eq_self)

lemma BeginTaskBatching_crash: "BeginTaskBatching tid s = None \<longleftrightarrow> \<not> HasTaskBatching tid s"
  by (auto simp: BeginTaskBatching_def HasTaskBatching_def Let_def)

lemma TrySwapLocalValue_keeps:
  "TrySwapLocalValue callback key tls action s = Some (r, tls', s') \<Longrightarrow> \<exists>vs. s' = s\<lparr>m_localValues := vs\<rparr>"
  by (auto simp: TrySwapLocalValue_def Let_def split: option.splits)

lemma client_run_local:
  assumes "client_run op l = Some (l', cs)" and "(\<exists>f k v. op = OpLock f k v) \<or> (\<exists>k v. op = OpUnlock k v)"
  shows "\<exists>vs. l' = l\<lparr>svc := (svc l)\<lparr>m_localValues := vs\<rparr>\<rparr> \<and> cs = []"
  using assms by (auto simp: TryLockQueueLocalValue_def UnlockLocalValue_def dest!: TrySwapLocalValue_keeps)

lemma log_inv_client:
  assumes "log_inv l" and "client_run op l = Some (l', cs)"
  shows "log_inv l'"
proof (cases op)
  case (OpPost tid t)
  then show ?thesis
    using assms task_queue.enq_law[of "m_queue (svc l)" t]
    by (auto simp: log_inv_def Post_def log_post_def HasTaskBatching_def waiting_tasks_def Let_def
        split: if_splits option.splits)
next
  case OpSuspend
  then show ?thesis
    using assms by (auto simp: log_inv_def Suspend_def waiting_tasks_def sint_incr split: if_splits)
next
  case OpResume
  then show ?thesis
    using assms by (auto simp: log_inv_def Resume_def waiting_tasks_def sint_decr Let_def split: if_splits)
next
  case (OpShutdown a)
  obtain q' where "DequeueAll [] (m_queue (svc l)) = (waiting_tasks l \<noteq> [], waiting_tasks l, q')"
      "queue_inv q'" "queue_waiting q' = []"
    using task_queue.deq_all_law[of "m_queue (svc l)" "[]"] assms(1) by (auto simp: log_inv_def waiting_tasks_def)
  then show ?thesis
    using assms OpShutdown by (auto simp: log_inv_def Shutdown_def waiting_tasks_def Let_def split: if_splits)
next
  case (OpBeginBatch tid)
  then show ?thesis
    using assms BeginTaskBatching_crash[of tid "svc l"] by (auto simp: log_inv_def HasTaskBatching_def)
next
  case (OpEndBatch tid)
  then show ?thesis
    using assms by (auto simp: log_inv_def EndTaskBatching_def)
next
  case (OpLock callback key tls)
  then show ?thesis using assms(1) client_run_local[OF assms(2)]
    by (auto simp: log_inv_def waiting_tasks_def)
next
  case (OpUnlock key tls)
  then show ?thesis using assms(1) client_run_local[OF assms(2)]
    by (auto simp: log_inv_def waiting_tasks_def)
qed

section \<open>What a scheduler relies on\<close>

text \<open>
  The contract between the service and its scheduler. \<open>client s n s'\<close> is a client operation that
  calls the scheduler \<open>n\<close> times to post work. A client operation that makes tasks available posts.
\<close>

locale task_source =
  fixes client :: "'s \<Rightarrow> nat \<Rightarrow> 's \<Rightarrow> bool"
    and dequeue :: "'s \<Rightarrow> 'a option \<times> 's"
    and has :: "'s \<Rightarrow> bool"
    and inv :: "'s \<Rightarrow> bool"
    and total :: "'s \<Rightarrow> nat"
  assumes client_law: "inv s \<Longrightarrow> client s n s' \<Longrightarrow> inv s' \<and> (has s' \<longrightarrow> has s \<or> 0 < n)"
    and dequeue_None: "inv s \<Longrightarrow> \<not> has s \<Longrightarrow> dequeue s = (None, s)"
    and dequeue_Some: "inv s \<Longrightarrow> has s \<Longrightarrow> \<exists>t s'. dequeue s = (Some t, s') \<and> inv s' \<and> total s = Suc (total s')"
begin

lemma dequeue_inv: "inv s \<Longrightarrow> dequeue s = (r, s') \<Longrightarrow> inv s'"
  by (cases "has s") (use dequeue_None dequeue_Some in fastforce)+

lemma dequeue_None_iff: "inv s \<Longrightarrow> dequeue s = (None, s') \<Longrightarrow> \<not> has s \<and> s' = s"
  by (cases "has s") (use dequeue_None dequeue_Some in fastforce)+

text \<open>A scheduler is awake enough when it has something under way whenever there are tasks.\<close>

definition covered :: "'s \<Rightarrow> nat \<Rightarrow> bool" where
  "covered s pending_work \<longleftrightarrow> (has s \<longrightarrow> 0 < pending_work)"

lemma covered_client: "inv s \<Longrightarrow> client s n s' \<Longrightarrow> covered s k \<Longrightarrow> covered s' (k + n)"
  using client_law by (auto simp: covered_def)

end

definition post_count :: "call list \<Rightarrow> nat" where
  "post_count cs = length (filter (\<lambda>c. c = SchedulerPost) cs)"

definition client_posts :: "service_log \<Rightarrow> nat \<Rightarrow> service_log \<Rightarrow> bool" where
  "client_posts l n l' \<longleftrightarrow> (\<exists>op cs. client_run op l = Some (l', cs) \<and> post_count cs = n)"

lemma post_count_simps [simp]:
  "post_count [] = 0" "post_count (c # cs) = (if c = SchedulerPost then 1 else 0) + post_count cs"
  "post_count (cs @ cs') = post_count cs + post_count cs'" "post_count (replicate n SchedulerPost) = n"
  by (induction n) (auto simp: post_count_def)

lemma post_count_UserFunction [simp]: "post_count (map UserFunction fs) = 0"
  by (induction fs) auto

lemma client_run_wakes:
  assumes inv: "log_inv l" and run: "client_run op l = Some (l', cs)" and has: "HasTasks (svc l')"
  shows "HasTasks (svc l) \<or> 0 < post_count cs"
proof -
  note defs = HasTasks_def log_inv_def
  show ?thesis
  proof (cases op)
    case (OpPost tid t)
    then show ?thesis using inv run has
      by (auto simp: defs Post_def Let_def split: if_splits option.splits)
  next
    case OpSuspend
    then show ?thesis using inv run has sint_incr[of "m_suspendCounter (svc l)"]
      by (auto simp: defs Suspend_def split: if_splits)
  next
    case OpResume
    then show ?thesis using inv run has task_queue.sz_law[of "m_queue (svc l)"]
      by (auto simp: defs Resume_def Let_def Queue_IsEmpty_iff split: if_splits)
  next
    case (OpShutdown a)
    obtain q' where "DequeueAll [] (m_queue (svc l)) = (waiting_tasks l \<noteq> [], waiting_tasks l, q')"
        "queue_inv q'" "queue_waiting q' = []"
      using task_queue.deq_all_law[of "m_queue (svc l)" "[]"] inv by (auto simp: log_inv_def waiting_tasks_def)
    then show ?thesis using inv run has OpShutdown
      by (auto simp: defs Shutdown_def Let_def Queue_IsEmpty_iff split: if_splits)
  next
    case (OpBeginBatch tid)
    then show ?thesis using inv run BeginTaskBatching_crash[of tid "svc l"] by (auto simp: defs HasTaskBatching_def)
  next
    case (OpEndBatch tid)
    then show ?thesis using inv run has by (auto simp: defs EndTaskBatching_def)
  next
    case (OpLock callback key tls)
    then show ?thesis using has client_run_local[OF run] by (auto simp: defs)
  next
    case (OpUnlock key tls)
    then show ?thesis using has client_run_local[OF run] by (auto simp: defs)
  qed
qed

lemma log_dequeue_None: "log_inv l \<Longrightarrow> \<not> HasTasks (svc l) \<Longrightarrow> log_dequeue l = (None, l)"
  using task_queue.deq_empty_law[of "m_queue (svc l)"]
  by (auto simp: log_dequeue_def TryDequeTask_def HasTasks_iff log_inv_def waiting_tasks_def)

lemma log_dequeue_Some:
  assumes "log_inv l" "HasTasks (svc l)"
  shows "\<exists>t l'. log_dequeue l = (Some t, l') \<and> log_inv l' \<and> waiting_tasks l = t # waiting_tasks l' \<and>
    started l' = started l @ [t] \<and> m_suspendCounter (svc l') = m_suspendCounter (svc l)"
proof -
  obtain t ts where w: "waiting_tasks l = t # ts" and susp: "m_suspendCounter (svc l) = 0"
    using assms by (cases "waiting_tasks l") (auto simp: HasTasks_iff)
  then obtain q' where "Queue_TryDequeue (m_queue (svc l)) = (Some t, q')" "queue_inv q'" "queue_waiting q' = ts"
    using task_queue.deq_law[of "m_queue (svc l)" t ts] assms(1) by (auto simp: log_inv_def waiting_tasks_def)
  then show ?thesis
    using assms(1) w susp by (auto simp: log_dequeue_def TryDequeTask_def log_inv_def waiting_tasks_def)
qed

interpretation service_source: task_source client_posts log_dequeue "\<lambda>l. HasTasks (svc l)" log_inv
  "\<lambda>l. length (waiting_tasks l)"
proof unfold_locales
  show "log_inv l' \<and> (HasTasks (svc l') \<longrightarrow> HasTasks (svc l) \<or> 0 < n)"
    if "log_inv l" "client_posts l n l'" for l n l'
  proof -
    from that(2) obtain op cs where run: "client_run op l = Some (l', cs)" "post_count cs = n"
      unfolding client_posts_def by (elim exE conjE)
    then show ?thesis
      using log_inv_client[OF that(1) run(1)] client_run_wakes[OF that(1) run(1)] by simp
  qed
  show "log_dequeue l = (None, l)" if "log_inv l" "\<not> HasTasks (svc l)" for l
    using that by (rule log_dequeue_None)
  show "\<exists>t l'. log_dequeue l = (Some t, l') \<and> log_inv l' \<and> length (waiting_tasks l) = Suc (length (waiting_tasks l'))"
    if "log_inv l" "HasTasks (svc l)" for l
    using log_dequeue_Some[OF that] by auto
qed

section \<open>Properties\<close>

text \<open>
  The guards of the public API do not guard. A guard from \<^verbatim>\<open>DispatchQueue::Suspend\<close> leaves the
  queue running and, unless the queue was suspended some other way, its destructor crashes; a guard that is
  overwritten does not resume the queue. A guard from
  \<^verbatim>\<open>StartTaskBatching\<close> starts no batch, so that tasks posted while it lives go straight to the queue
  and it posts an empty batch at its end; and \<^verbatim>\<open>BeginTaskBatching\<close> crashes whenever the thread has no
  batch yet.
\<close>

theorem api_guards_do_not_guard:
  "(\<forall>s. snd (SuspendGuard_new s) = s) \<and>
   (\<forall>s. m_suspendCounter s = 0 \<longrightarrow>
      (let (guard, s1) = SuspendGuard_new s in SuspendGuard_destroy guard s1 = None)) \<and>
   (\<forall>guard s. SuspendGuard_assign guard False s = Some (False, s)) \<and>
   (\<forall>tid s. snd (TaskBatchGuard_new s) = s) \<and>
   (\<forall>tid s. BeginTaskBatching tid s = None \<longleftrightarrow> \<not> HasTaskBatching tid s) \<and>
   (\<forall>tid s. \<not> HasTaskBatching tid s \<longrightarrow> EndTaskBatching tid s = Some (TaskBatch [], s))"
  by (simp add: SuspendGuard_new_def SuspendGuard_destroy_def SuspendGuard_assign_def Resume_def TaskBatchGuard_new_def
      BeginTaskBatching_crash EndTaskBatching_def HasTaskBatching_def)

theorem api_guards_do_not_guard_witness:
  "SuspendGuard_destroy True QueueService_new = None \<and> BeginTaskBatching 7 QueueService_new = None \<and>
   EndTaskBatching 7 QueueService_new = Some (TaskBatch [], QueueService_new)"
  using api_guards_do_not_guard
  by (simp add: QueueService_new_def HasTaskBatching_def SuspendGuard_new_def)

text \<open>
  Locking a queue local value for the first time creates it and hands it to the thread; while it
  is locked no other lock succeeds or changes anything; unlocking stores what the thread left and
  clears the thread's variable, and the next lock hands out what was stored. Unlocking a value that
  was never locked instead leaves an entry without a callback, on which the next lock crashes.
\<close>

theorem queue_local_value_exclusive:
  assumes "smap (m_localValues s)" and "map_of (m_localValues s) key = None" and "fresh \<noteq> 0" and "v \<noteq> 0"
  shows "(\<exists>s1 s2 s3. TryLockQueueLocalValue (SwapDispatchLocalValue fresh) key 0 s = Some (True, fresh, s1) \<and>
      (\<forall>callback tls. TryLockQueueLocalValue callback key tls s1 = Some (False, tls, s1)) \<and>
      UnlockLocalValue key v s1 = Some (0, s2) \<and>
      TryLockQueueLocalValue (SwapDispatchLocalValue fresh') key 0 s2 = Some (True, v, s3)) \<and>
    (\<exists>s1. UnlockLocalValue key tls s = Some (tls, s1) \<and> TryLockQueueLocalValue callback key 0 s1 = None)"
proof -
  have emplace: "try_emplace key e' (insert_or_assign key e vs) = insert_or_assign key e vs" for e e' vs
    by (induction vs) auto
  have twice: "insert_or_assign key e' (insert_or_assign key e vs) = insert_or_assign key e' vs" for e e' vs
    by (induction vs) auto
  show ?thesis
    using assms
    by (auto simp: TryLockQueueLocalValue_def UnlockLocalValue_def TrySwapLocalValue_def Entry_TrySwapLocalValue_def
        map_of_try_emplace map_of_insert_or_assign emplace twice SwapDispatchLocalValue_def Let_def split: option.splits)
qed

theorem queue_local_value_exclusive_witness:
  "\<exists>s1 s2 s3. TryLockQueueLocalValue (SwapDispatchLocalValue 8) 4 0 QueueService_new = Some (True, 8, s1) \<and>
      (\<forall>callback tls. TryLockQueueLocalValue callback 4 tls s1 = Some (False, tls, s1)) \<and>
      UnlockLocalValue 4 5 s1 = Some (0, s2) \<and>
      TryLockQueueLocalValue (SwapDispatchLocalValue 9) 4 0 s2 = Some (True, 5, s3)"
  by (rule queue_local_value_exclusive[THEN conjunct1]) (simp_all add: QueueService_new_def)

end
