(* ===== verification/ThreadPool.thy ===== *)
theory ThreadPool
  imports QueueService "HOL-Library.Multiset"
begin

text \<open>
  The scheduler on top of the system thread pool
  (\<^verbatim>\<open>Mso/src/dispatchQueue/threadPoolScheduler_win.cpp\<close>) as a step relation: the clients of the
  queue, the threads inside \<^verbatim>\<open>ThreadPoolSchedulerWin::Post\<close> and the threads inside
  \<^verbatim>\<open>WorkCallback\<close> interleave between any two accesses to the shared state.
\<close>

section \<open>State\<close>

text \<open>
  A thread inside \<open>Post\<close> is about to load the number of used threads, holds the number it has seen
  and is about to exchange it, or has reserved a thread and is about to submit the work. A thread
  inside \<open>WorkCallback\<close> is about to take a task, runs one, is about to give up its place, or is
  about to look for more tasks. Threads have no identity here: the state counts them.
\<close>

datatype post_pc = PostLoad | PostCas int32 | PostSubmit

datatype worker_pc = Draining | Running task | Finishing | Checking

text \<open>\<open>submitted\<close> counts the submitted work items whose callback has not begun yet.\<close>

record pool =
  pool_log :: service_log
  m_usedThreads :: int32
  m_maxThreads :: int32
  submitted :: nat
  callers :: "post_pc multiset"
  workers :: "worker_pc multiset"

definition MaxConcurrentThreads :: int32 where
  "MaxConcurrentThreads = 64"

definition ThreadPoolScheduler_new :: "int32 \<Rightarrow> pool" where
  "ThreadPoolScheduler_new maxThreads =
     \<lparr>pool_log = log_new, m_usedThreads = 0,
      m_maxThreads = (if maxThreads = 0 then MaxConcurrentThreads else maxThreads),
      submitted = 0, callers = {#}, workers = {#}\<rparr>"

definition IsSerial :: "pool \<Rightarrow> bool" where
  "IsSerial p \<longleftrightarrow> m_maxThreads p = 1"

section \<open>Steps\<close>

text \<open>
  The check of a number of used threads that a thread inside \<open>Post\<close> has just read: it returns, or
  tries to exchange the number.
\<close>

definition post_check :: "int32 \<Rightarrow> pool \<Rightarrow> post_pc multiset" where
  "post_check usedThreads p = (if usedThreads = m_maxThreads p then {#} else {#PostCas usedThreads#})"

text \<open>
  The steps of the scheduler. The weak exchange may fail without a reason. The time check after a
  task may go either way. \<open>InvokeTask\<close> runs between the steps that make and end \<open>Running\<close>; what
  the task does to the queue are client operations.
\<close>

inductive scheduler_step :: "pool \<Rightarrow> pool \<Rightarrow> bool" where
  load: "callers p = add_mset PostLoad C \<Longrightarrow>
     scheduler_step p (p\<lparr>callers := C + post_check (m_usedThreads p) p\<rparr>)"
| cas: "callers p = add_mset (PostCas u) C \<Longrightarrow> m_usedThreads p = u \<Longrightarrow>
     scheduler_step p (p\<lparr>m_usedThreads := u + 1, callers := add_mset PostSubmit C\<rparr>)"
| cas_failed: "callers p = add_mset (PostCas u) C \<Longrightarrow>
     scheduler_step p (p\<lparr>callers := C + post_check (m_usedThreads p) p\<rparr>)"
| submit: "callers p = add_mset PostSubmit C \<Longrightarrow>
     scheduler_step p (p\<lparr>callers := C, submitted := submitted p + 1\<rparr>)"
| callback: "submitted p = Suc n \<Longrightarrow>
     scheduler_step p (p\<lparr>submitted := n, workers := add_mset Draining (workers p)\<rparr>)"
| take_task: "workers p = add_mset Draining W \<Longrightarrow> log_dequeue (pool_log p) = (Some t, l) \<Longrightarrow>
     scheduler_step p (p\<lparr>pool_log := l, workers := add_mset (Running t) W\<rparr>)"
| no_task: "workers p = add_mset Draining W \<Longrightarrow> log_dequeue (pool_log p) = (None, l) \<Longrightarrow>
     scheduler_step p (p\<lparr>pool_log := l, workers := add_mset Finishing W\<rparr>)"
| next_task: "workers p = add_mset (Running t) W \<Longrightarrow>
     scheduler_step p (p\<lparr>workers := add_mset Draining W\<rparr>)"
| time_expired: "workers p = add_mset (Running t) W \<Longrightarrow>
     scheduler_step p (p\<lparr>workers := add_mset Finishing W\<rparr>)"
| release: "workers p = add_mset Finishing W \<Longrightarrow>
     scheduler_step p (p\<lparr>m_usedThreads := m_usedThreads p - 1, workers := add_mset Checking W\<rparr>)"
| post_again: "workers p = add_mset Checking W \<Longrightarrow> HasTasks (svc (pool_log p)) \<Longrightarrow>
     scheduler_step p (p\<lparr>callers := add_mset PostLoad (callers p), workers := W\<rparr>)"
| leave: "workers p = add_mset Checking W \<Longrightarrow> \<not> HasTasks (svc (pool_log p)) \<Longrightarrow>
     scheduler_step p (p\<lparr>workers := W\<rparr>)"

text \<open>A client operation; each of its calls to the scheduler enters \<open>Post\<close>.\<close>

inductive pool_step :: "pool \<Rightarrow> pool \<Rightarrow> bool" where
  scheduler: "scheduler_step p p' \<Longrightarrow> pool_step p p'"
| client: "client_run op (pool_log p) = Some (l, cs) \<Longrightarrow>
     pool_step p (p\<lparr>pool_log := l, callers := callers p + replicate_mset (post_count cs) PostLoad\<rparr>)"

definition pool_reachable :: "int32 \<Rightarrow> pool \<Rightarrow> bool" where
  "pool_reachable maxThreads = pool_step\<^sup>*\<^sup>* (ThreadPoolScheduler_new maxThreads)"

section \<open>The invariant\<close>

text \<open>The workers that hold a place, and the tasks that run.\<close>

definition holds_place :: "worker_pc \<Rightarrow> bool" where
  "holds_place w \<longleftrightarrow> w \<noteq> Checking"

definition is_running :: "worker_pc \<Rightarrow> bool" where
  "is_running w \<longleftrightarrow> (\<exists>t. w = Running t)"

lemma pc_simps [simp]:
  "holds_place Draining" "holds_place (Running t)" "holds_place Finishing" "\<not> holds_place Checking"
  "\<not> is_running Draining" "is_running (Running t)" "\<not> is_running Finishing" "\<not> is_running Checking"
  by (auto simp: holds_place_def is_running_def)

definition places :: "pool \<Rightarrow> nat" where
  "places p = count (callers p) PostSubmit + submitted p + size (filter_mset holds_place (workers p))"

definition work :: "pool \<Rightarrow> nat" where
  "work p = size (callers p) + submitted p + size (workers p)"

definition pool_inv :: "pool \<Rightarrow> bool" where
  "pool_inv p \<longleftrightarrow> log_inv (pool_log p) \<and> 0 < m_maxThreads p \<and> unat (m_usedThreads p) = places p \<and>
     m_usedThreads p \<le> m_maxThreads p \<and> (\<forall>u. PostCas u \<in># callers p \<longrightarrow> u \<noteq> m_maxThreads p) \<and>
     service_source.covered (pool_log p) (work p)"

lemma places_le_work: "places p \<le> work p"
  unfolding places_def work_def
  by (intro add_mono count_le_size order_refl size_mset_mono multiset_filter_subset)

lemma no_tasks_new: "\<not> HasTasks (svc log_new)"
  by (simp add: HasTasks_def log_new_def QueueService_new_def queue_defs)

lemma pool_inv_new: "pool_inv (ThreadPoolScheduler_new n)"
  by (auto simp: pool_inv_def ThreadPoolScheduler_new_def log_inv_new places_def MaxConcurrentThreads_def
      service_source.covered_def no_tasks_new word_gt_0)

text \<open>A thread inside \<open>Post\<close> that returns because all places are taken leaves someone at work.\<close>

lemma pool_inv_check:
  assumes inv: "pool_inv p" and c: "callers p = add_mset x C" and x: "x \<noteq> PostSubmit"
  shows "pool_inv (p\<lparr>callers := C + post_check (m_usedThreads p) p\<rparr>)"
proof -
  let ?p = "p\<lparr>callers := C + post_check (m_usedThreads p) p\<rparr>"
  have places: "places ?p = places p"
    using c x by (auto simp: places_def post_check_def)
  have "service_source.covered (pool_log p) (work ?p)"
  proof (cases "m_usedThreads p = m_maxThreads p")
    case True
    then have "0 < places ?p"
      using inv places by (auto simp: pool_inv_def word_gt_0 simp flip: unat_eq_0)
    then show ?thesis
      using places_le_work[of ?p] by (simp add: service_source.covered_def)
  next
    case False
    then show ?thesis by (simp add: service_source.covered_def work_def post_check_def)
  qed
  then show ?thesis
    using inv places c by (auto simp: pool_inv_def post_check_def split: if_splits)
qed

text \<open>A step that keeps the task history and the places taken, and leaves work, keeps the invariant.\<close>

lemma pool_inv_move:
  assumes "pool_inv p" and "pool_log p' = pool_log p" and "m_usedThreads p' = m_usedThreads p"
    and "m_maxThreads p' = m_maxThreads p" and "places p' = places p"
    and "\<And>u. PostCas u \<in># callers p' \<Longrightarrow> PostCas u \<in># callers p"
    and "HasTasks (svc (pool_log p)) \<Longrightarrow> 0 < work p'"
  shows "pool_inv p'"
  using assms by (auto simp: pool_inv_def service_source.covered_def)

lemmas count_simps = places_def work_def

lemma pool_inv_cas:
  assumes inv: "pool_inv p" and c: "callers p = add_mset (PostCas u) C" and u: "m_usedThreads p = u"
  shows "pool_inv (p\<lparr>m_usedThreads := u + 1, callers := add_mset PostSubmit C\<rparr>)"
proof -
  have "u < m_maxThreads p" using assms by (auto simp: pool_inv_def order_less_le)
  then have less: "unat u < unat (m_maxThreads p)" by (simp add: word_less_nat_alt)
  then have suc: "unat (u + 1) = unat u + 1"
    using unsigned_less[where ?'a = nat, of "m_maxThreads p"] by (simp add: unat_word_ariths)
  with less have "u + 1 \<le> m_maxThreads p" by (simp add: word_le_nat_alt)
  with suc show ?thesis
    using assms by (auto simp: pool_inv_def service_source.covered_def count_simps)
qed

lemma pool_inv_release:
  assumes inv: "pool_inv p" and w: "workers p = add_mset Finishing W"
  shows "pool_inv (p\<lparr>m_usedThreads := m_usedThreads p - 1, workers := add_mset Checking W\<rparr>)"
proof -
  have "0 < unat (m_usedThreads p)" using assms by (auto simp: pool_inv_def places_def)
  then have "unat (m_usedThreads p - 1) = unat (m_usedThreads p) - 1"
    by (metis unat_minus_one unat_gt_0)
  then show ?thesis
    using assms by (auto simp: pool_inv_def service_source.covered_def count_simps word_le_nat_alt)
qed

lemma pool_inv_take:
  assumes inv: "pool_inv p" and w: "workers p = add_mset Draining W" and deq: "log_dequeue (pool_log p) = (r, l)"
    and x: "holds_place x"
  shows "pool_inv (p\<lparr>pool_log := l, workers := add_mset x W\<rparr>)"
  using assms service_source.dequeue_inv[OF _ deq]
  by (auto simp: pool_inv_def service_source.covered_def count_simps)

lemma pool_inv_scheduler:
  assumes "scheduler_step p p'" and "pool_inv p"
  shows "pool_inv p'"
  using assms
proof (cases rule: scheduler_step.cases)
  case (load C)
  then show ?thesis using assms(2) by (auto intro: pool_inv_check)
next
  case (cas u C)
  then show ?thesis using assms(2) by (auto intro: pool_inv_cas)
next
  case (cas_failed u C)
  then show ?thesis using assms(2) by (auto intro: pool_inv_check)
next
  case (take_task W t l)
  then show ?thesis using assms(2) by (auto intro: pool_inv_take)
next
  case (no_task W l)
  then show ?thesis using assms(2) by (auto intro: pool_inv_take)
next
  case (release W)
  then show ?thesis using assms(2) by (auto intro: pool_inv_release)
qed (auto intro!: pool_inv_move[OF assms(2)] simp: count_simps)

lemma pool_inv_client:
  assumes inv: "pool_inv p" and run: "client_run op (pool_log p) = Some (l, cs)"
  shows "pool_inv (p\<lparr>pool_log := l, callers := callers p + replicate_mset (post_count cs) PostLoad\<rparr>)"
proof -
  let ?p = "p\<lparr>pool_log := l, callers := callers p + replicate_mset (post_count cs) PostLoad\<rparr>"
  have "work ?p = work p + post_count cs" "places ?p = places p" by (simp_all add: count_simps)
  moreover have "client_posts (pool_log p) (post_count cs) l"
    using run by (auto simp: client_posts_def)
  ultimately show ?thesis
    using inv service_source.covered_client[of "pool_log p" "post_count cs" l "work p"] service_source.client_law
    by (auto simp: pool_inv_def)
qed

lemma pool_inv_reachable: "pool_reachable n p \<Longrightarrow> pool_inv p"
  unfolding pool_reachable_def
  by (induction rule: rtranclp_induct)
    (auto intro: pool_inv_new pool_inv_scheduler pool_inv_client elim!: pool_step.cases)

section \<open>Draining the queue\<close>

text \<open>
  How far each thread is from taking a task, when there are tasks, and from leaving, when there are
  none. Both numbers go down along the code.
\<close>

fun caller_weight :: "bool \<Rightarrow> post_pc \<Rightarrow> nat" where
  "caller_weight has PostLoad = (if has then 5 else 8)"
| "caller_weight has (PostCas u) = (if has then 4 else 7)"
| "caller_weight has PostSubmit = (if has then 3 else 6)"

fun worker_weight :: "bool \<Rightarrow> worker_pc \<Rightarrow> nat" where
  "worker_weight has (Running t) = (if has then 2 else 5)"
| "worker_weight has Draining = (if has then 1 else 4)"
| "worker_weight has Finishing = (if has then 7 else 3)"
| "worker_weight has Checking = (if has then 6 else 2)"

definition pool_weight :: "pool \<Rightarrow> nat" where
  "pool_weight p = (let has = HasTasks (svc (pool_log p)) in
     sum_mset (image_mset (caller_weight has) (callers p)) + submitted p * (if has then 2 else 5) +
     sum_mset (image_mset (worker_weight has) (workers p)))"

definition pool_order :: "(pool \<times> pool) set" where
  "pool_order = measures [\<lambda>p. length (waiting_tasks (pool_log p)), pool_weight]"

lemma pool_order_iff:
  "(p', p) \<in> pool_order \<longleftrightarrow>
     length (waiting_tasks (pool_log p')) < length (waiting_tasks (pool_log p)) \<or>
     length (waiting_tasks (pool_log p')) = length (waiting_tasks (pool_log p)) \<and> pool_weight p' < pool_weight p"
  by (auto simp: pool_order_def)

lemma caller_drains:
  assumes "callers p = add_mset c C"
  shows "\<exists>p'. scheduler_step\<^sup>*\<^sup>* p p' \<and> (p', p) \<in> pool_order"
proof (cases c)
  case PostLoad
  then show ?thesis
    using scheduler_step.load[of p C] assms
    by (intro exI[of _ "p\<lparr>callers := C + post_check (m_usedThreads p) p\<rparr>"])
      (auto simp: pool_order_iff pool_weight_def post_check_def Let_def)
next
  case PostSubmit
  then show ?thesis
    using scheduler_step.submit[of p C] assms
    by (intro exI[of _ "p\<lparr>callers := C, submitted := submitted p + 1\<rparr>"])
      (auto simp: pool_order_iff pool_weight_def Let_def)
next
  case (PostCas u)
  let ?p1 = "p\<lparr>callers := C + post_check (m_usedThreads p) p\<rparr>"
  have one: "scheduler_step p ?p1" using scheduler_step.cas_failed[of p u C] assms PostCas by simp
  show ?thesis
  proof (cases "m_usedThreads p = m_maxThreads p")
    case True
    with one PostCas assms show ?thesis
      by (intro exI[of _ ?p1]) (auto simp: pool_order_iff pool_weight_def post_check_def Let_def)
  next
    case False
    let ?p2 = "?p1\<lparr>m_usedThreads := m_usedThreads p + 1, callers := add_mset PostSubmit C\<rparr>"
    have "scheduler_step ?p1 ?p2"
      using scheduler_step.cas[of ?p1 "m_usedThreads p" C] False by (simp add: post_check_def)
    with one have "scheduler_step\<^sup>*\<^sup>* p ?p2" by simp
    with PostCas assms show ?thesis
      by (intro exI[of _ ?p2]) (auto simp: pool_order_iff pool_weight_def Let_def)
  qed
qed

lemma worker_drains:
  assumes inv: "pool_inv p" and w: "workers p = add_mset w W"
  shows "\<exists>p'. scheduler_step\<^sup>*\<^sup>* p p' \<and> (p', p) \<in> pool_order"
proof (cases w)
  case Draining
  have log: "log_inv (pool_log p)" using inv by (simp add: pool_inv_def)
  show ?thesis
  proof (cases "HasTasks (svc (pool_log p))")
    case True
    then obtain t l where deq: "log_dequeue (pool_log p) = (Some t, l)"
        "waiting_tasks (pool_log p) = t # waiting_tasks l"
      using log_dequeue_Some[OF log] by blast
    then show ?thesis
      using scheduler_step.take_task[of p W t l] w Draining
      by (intro exI[of _ "p\<lparr>pool_log := l, workers := add_mset (Running t) W\<rparr>"]) (auto simp: pool_order_iff)
  next
    case False
    then show ?thesis
      using scheduler_step.no_task[of p W "pool_log p"] log_dequeue_None[OF log] w Draining
      by (intro exI[of _ "p\<lparr>pool_log := pool_log p, workers := add_mset Finishing W\<rparr>"])
        (auto simp: pool_order_iff pool_weight_def)
  qed
next
  case (Running t)
  then show ?thesis
    using scheduler_step.next_task[of p t W] w
    by (intro exI[of _ "p\<lparr>workers := add_mset Draining W\<rparr>"]) (auto simp: pool_order_iff pool_weight_def Let_def)
next
  case Finishing
  then show ?thesis
    using scheduler_step.release[of p W] w
    by (intro exI[of _ "p\<lparr>m_usedThreads := m_usedThreads p - 1, workers := add_mset Checking W\<rparr>"])
      (auto simp: pool_order_iff pool_weight_def Let_def)
next
  case Checking
  show ?thesis
  proof (cases "HasTasks (svc (pool_log p))")
    case True
    with Checking show ?thesis
      using scheduler_step.post_again[of p W] w
      by (intro exI[of _ "p\<lparr>callers := add_mset PostLoad (callers p), workers := W\<rparr>"])
        (auto simp: pool_order_iff pool_weight_def)
  next
    case False
    with Checking show ?thesis
      using scheduler_step.leave[of p W] w
      by (intro exI[of _ "p\<lparr>workers := W\<rparr>"]) (auto simp: pool_order_iff pool_weight_def)
  qed
qed

lemma pool_drains_step:
  assumes "pool_inv p" and "0 < work p"
  shows "\<exists>p'. scheduler_step\<^sup>*\<^sup>* p p' \<and> (p', p) \<in> pool_order"
proof -
  consider (caller) c C where "callers p = add_mset c C" | (item) n where "submitted p = Suc n"
    | (worker) w W where "workers p = add_mset w W"
    using assms(2) unfolding work_def
    by (metis add_is_0 less_irrefl_nat multiset_cases not0_implies_Suc size_empty)
  then show ?thesis
  proof cases
    case caller
    then show ?thesis by (rule caller_drains)
  next
    case item
    then show ?thesis
      using scheduler_step.callback[of p n]
      by (intro exI[of _ "p\<lparr>submitted := n, workers := add_mset Draining (workers p)\<rparr>"])
        (auto simp: pool_order_iff pool_weight_def Let_def)
  next
    case worker
    with assms(1) show ?thesis by (rule worker_drains)
  qed
qed

lemma scheduler_steps_inv: "scheduler_step\<^sup>*\<^sup>* p p' \<Longrightarrow> pool_inv p \<Longrightarrow> pool_inv p'"
  by (induction rule: rtranclp_induct) (auto intro: pool_inv_scheduler)

lemma log_dequeue_keeps:
  "log_dequeue l = (r, l') \<Longrightarrow> accepted l' = accepted l \<and> cancelled l' = cancelled l \<and>
     m_suspendCounter (svc l') = m_suspendCounter (svc l)"
  by (auto simp: log_dequeue_def TryDequeTask_def split: prod.splits option.splits if_splits)

lemma scheduler_step_keeps:
  "scheduler_step p p' \<Longrightarrow> accepted (pool_log p') = accepted (pool_log p) \<and>
     cancelled (pool_log p') = cancelled (pool_log p) \<and> m_maxThreads p' = m_maxThreads p \<and>
     m_suspendCounter (svc (pool_log p')) = m_suspendCounter (svc (pool_log p))"
  by (induction rule: scheduler_step.induct) (auto dest: log_dequeue_keeps)

lemma scheduler_steps_keep:
  "scheduler_step\<^sup>*\<^sup>* p p' \<Longrightarrow> accepted (pool_log p') = accepted (pool_log p) \<and>
     cancelled (pool_log p') = cancelled (pool_log p) \<and>
     m_suspendCounter (svc (pool_log p')) = m_suspendCounter (svc (pool_log p))"
  by (induction rule: rtranclp_induct) (auto dest: scheduler_step_keeps)

lemma pool_drains:
  assumes "pool_inv p"
  shows "\<exists>p'. scheduler_step\<^sup>*\<^sup>* p p' \<and> work p' = 0"
  using assms
proof (induction p rule: wf_induct_rule[OF wf_measures[of "[\<lambda>p. length (waiting_tasks (pool_log p)), pool_weight]"],
      folded pool_order_def])
  case (1 p)
  show ?case
  proof (cases "work p = 0")
    case True
    then show ?thesis by blast
  next
    case False
    then obtain p1 where "scheduler_step\<^sup>*\<^sup>* p p1" "(p1, p) \<in> pool_order"
      using pool_drains_step[OF 1(2)] by blast
    then show ?thesis
      using 1(1)[of p1] 1(2) scheduler_steps_inv by (meson rtranclp_trans)
  qed
qed

lemma idle_pool_settled:
  "pool_inv p \<Longrightarrow> work p = 0 \<Longrightarrow> m_suspendCounter (svc (pool_log p)) = 0 \<Longrightarrow> waiting_tasks (pool_log p) = []"
  by (auto simp: pool_inv_def service_source.covered_def HasTasks_iff)

lemma reachable_max: "pool_reachable n p \<Longrightarrow> m_maxThreads p = (if n = 0 then 64 else n)"
  unfolding pool_reachable_def
  by (induction rule: rtranclp_induct)
    (auto simp: ThreadPoolScheduler_new_def MaxConcurrentThreads_def dest: scheduler_step_keeps elim!: pool_step.cases)

text \<open>A serial queue after a client has posted one task.\<close>

definition posted_once :: pool where
  "posted_once = (case client_run (OpPost 0 (LambdaTask 5)) log_new of
     Some (l, cs) \<Rightarrow> (ThreadPoolScheduler_new 1)\<lparr>pool_log := l, callers := {#PostLoad#}\<rparr>)"

lemma posted_once_run:
  "pool_reachable 1 posted_once" "accepted (pool_log posted_once) = [LambdaTask 5]"
  "m_suspendCounter (svc (pool_log posted_once)) = 0" "cancelled (pool_log posted_once) = []"
proof -
  have run: "client_run (OpPost 0 (LambdaTask 5)) (pool_log (ThreadPoolScheduler_new 1)) = Some (pool_log posted_once, [SchedulerPost])"
    and acc: "accepted (pool_log posted_once) = [LambdaTask 5]"
      "m_suspendCounter (svc (pool_log posted_once)) = 0" "cancelled (pool_log posted_once) = []"
    by (simp_all add: posted_once_def ThreadPoolScheduler_new_def log_new_def QueueService_new_def Post_def
        log_post_def HasTaskBatching_def)
  have "pool_step (ThreadPoolScheduler_new 1) posted_once"
    using pool_step.client[OF run] by (simp add: posted_once_def ThreadPoolScheduler_new_def log_new_def
        QueueService_new_def Post_def)
  then show "pool_reachable 1 posted_once" by (simp add: pool_reachable_def)
  show "accepted (pool_log posted_once) = [LambdaTask 5]" "m_suspendCounter (svc (pool_log posted_once)) = 0"
    "cancelled (pool_log posted_once) = []"
    by (fact acc)+
qed

section \<open>Properties\<close>

text \<open>
  C14: In every run of a queue on the thread pool, with any clients and any interleaving, the tasks
  are started in the order in which the queue accepted them, each exactly once, and every accepted
  task is started, cancelled by a shutdown or waits. At most as many tasks run at a time as the
  queue was made for, or 64; one for a serial queue.
\<close>

theorem thread_pool_runs_tasks_once:
  assumes "pool_reachable n p"
  shows "accepted (pool_log p) = started (pool_log p) @ cancelled (pool_log p) @ waiting_tasks (pool_log p) \<and>
    size (filter_mset is_running (workers p)) \<le> (if n = 0 then 64 else unat n) \<and>
    (IsSerial p \<longrightarrow> size (filter_mset is_running (workers p)) \<le> 1)"
proof -
  have inv: "pool_inv p" using assms by (rule pool_inv_reachable)
  have "size (filter_mset is_running (workers p)) \<le> size (filter_mset holds_place (workers p))"
    by (intro size_mset_mono filter_mset_mono_strong) (auto simp: is_running_def)
  also have "\<dots> \<le> places p" by (simp add: places_def)
  also have "\<dots> \<le> unat (m_maxThreads p)" using inv by (simp add: pool_inv_def word_le_nat_alt)
  finally have limit: "size (filter_mset is_running (workers p)) \<le> unat (m_maxThreads p)" .
  moreover have "unat (m_maxThreads p) = (if n = 0 then 64 else unat n)"
    using reachable_max[OF assms] by simp
  ultimately show ?thesis
    using inv by (auto simp: pool_inv_def log_inv_def IsSerial_def)
qed

theorem thread_pool_runs_tasks_once_witness:
  "pool_reachable 1 posted_once \<and>
   [LambdaTask 5] = started (pool_log posted_once) @ cancelled (pool_log posted_once) @ waiting_tasks (pool_log posted_once)"
  using thread_pool_runs_tasks_once[OF posted_once_run(1)] posted_once_run by simp

text \<open>
  C13: No wake-up is lost. When no thread is inside the scheduler and no work is submitted, every
  accepted task was started or cancelled, unless the queue is suspended; and from every state of
  every run in which the queue is not suspended the scheduler alone can reach such a state.
\<close>

theorem thread_pool_no_lost_wakeup:
  assumes "pool_reachable n p" and "m_suspendCounter (svc (pool_log p)) = 0"
  shows "(work p = 0 \<longrightarrow> accepted (pool_log p) = started (pool_log p) @ cancelled (pool_log p)) \<and>
    (\<exists>p'. scheduler_step\<^sup>*\<^sup>* p p' \<and> work p' = 0 \<and>
       accepted (pool_log p) = started (pool_log p') @ cancelled (pool_log p))"
proof -
  have settled: "accepted (pool_log q) = started (pool_log q) @ cancelled (pool_log q)"
    if "pool_inv q" "work q = 0" "m_suspendCounter (svc (pool_log q)) = 0" for q
    using idle_pool_settled[OF that] that(1) by (simp add: pool_inv_def log_inv_def)
  have inv: "pool_inv p" using assms(1) by (rule pool_inv_reachable)
  obtain p' where p': "scheduler_step\<^sup>*\<^sup>* p p'" "work p' = 0" using pool_drains[OF inv] by blast
  have "accepted (pool_log p) = started (pool_log p') @ cancelled (pool_log p)"
    using settled[OF scheduler_steps_inv[OF p'(1) inv] p'(2)] scheduler_steps_keep[OF p'(1)] assms(2) by simp
  with p' settled[OF inv] assms(2) show ?thesis by blast
qed

theorem thread_pool_no_lost_wakeup_witness:
  "\<exists>p'. scheduler_step\<^sup>*\<^sup>* posted_once p' \<and> work p' = 0 \<and> started (pool_log p') = [LambdaTask 5]"
  using thread_pool_no_lost_wakeup[OF posted_once_run(1,3)] posted_once_run by auto

end
