(* ===== verification/Looper.thy ===== *)
theory Looper
  imports QueueService "HOL-Library.Multiset"
begin

text \<open>
  The scheduler with a thread of its own (\<^verbatim>\<open>Mso/src/dispatchQueue/looperScheduler.cpp\<close>) as a step
  relation between the loop, the clients of the queue and the threads inside the scheduler's
  \<^verbatim>\<open>Post\<close> and \<^verbatim>\<open>Shutdown\<close>.
\<close>

section \<open>State and steps\<close>

text \<open>
  Where the loop is: about to take a task, running one, about to read \<open>m_isShutdown\<close>, about to wait
  for the event, about to reset it, or finished. The callbacks of the settings are client code
  between these steps. A call inside the scheduler is about to set the event, or about to set
  \<open>m_isShutdown\<close> before that.
\<close>

datatype loop_pc = LoopTake | LoopRun task | LoopCheck | LoopWait | LoopReset | LoopDone

datatype looper_call = SetEvent | SetShutdown

record looper =
  looper_log :: service_log
  m_wakeUpEvent :: bool
  m_isShutdown :: bool
  loop :: loop_pc
  calls :: "looper_call multiset"

definition LooperScheduler_new :: looper where
  "LooperScheduler_new = \<lparr>looper_log = log_new, m_wakeUpEvent = False, m_isShutdown = False,
     loop = LoopTake, calls = {#}\<rparr>"

fun looper_calls :: "call list \<Rightarrow> looper_call multiset" where
  "looper_calls [] = {#}"
| "looper_calls (SchedulerPost # cs) = add_mset SetEvent (looper_calls cs)"
| "looper_calls (SchedulerShutdown # cs) = add_mset SetShutdown (looper_calls cs)"
| "looper_calls (UserFunction f # cs) = looper_calls cs"

inductive looper_step :: "looper \<Rightarrow> looper \<Rightarrow> bool" where
  client: "client_run op (looper_log p) = Some (l, cs) \<Longrightarrow>
     looper_step p (p\<lparr>looper_log := l, calls := calls p + looper_calls cs\<rparr>)"
| shutdown: "calls p = add_mset SetShutdown C \<Longrightarrow>
     looper_step p (p\<lparr>m_isShutdown := True, calls := add_mset SetEvent C\<rparr>)"
| set_event: "calls p = add_mset SetEvent C \<Longrightarrow>
     looper_step p (p\<lparr>m_wakeUpEvent := True, calls := C\<rparr>)"
| take_task: "loop p = LoopTake \<Longrightarrow> log_dequeue (looper_log p) = (Some t, l) \<Longrightarrow>
     looper_step p (p\<lparr>looper_log := l, loop := LoopRun t\<rparr>)"
| no_task: "loop p = LoopTake \<Longrightarrow> log_dequeue (looper_log p) = (None, l) \<Longrightarrow>
     looper_step p (p\<lparr>looper_log := l, loop := LoopCheck\<rparr>)"
| task_done: "loop p = LoopRun t \<Longrightarrow> looper_step p (p\<lparr>loop := LoopTake\<rparr>)"
| check: "loop p = LoopCheck \<Longrightarrow> looper_step p (p\<lparr>loop := (if m_isShutdown p then LoopDone else LoopWait)\<rparr>)"
| wait: "loop p = LoopWait \<Longrightarrow> m_wakeUpEvent p \<Longrightarrow> looper_step p (p\<lparr>loop := LoopReset\<rparr>)"
| reset: "loop p = LoopReset \<Longrightarrow> looper_step p (p\<lparr>m_wakeUpEvent := False, loop := LoopTake\<rparr>)"

definition looper_reachable :: "looper \<Rightarrow> bool" where
  "looper_reachable = looper_step\<^sup>*\<^sup>* LooperScheduler_new"

section \<open>The invariant\<close>

text \<open>What will make the loop look at the queue again.\<close>

definition wakeups :: "looper \<Rightarrow> nat" where
  "wakeups p = count (calls p) SetEvent + (if m_wakeUpEvent p then 1 else 0) +
     (case loop p of LoopTake \<Rightarrow> 1 | LoopRun t \<Rightarrow> 1 | LoopReset \<Rightarrow> 1 | LoopDone \<Rightarrow> 1 | _ \<Rightarrow> 0)"

definition looper_inv :: "looper \<Rightarrow> bool" where
  "looper_inv p \<longleftrightarrow> log_inv (looper_log p) \<and> service_source.covered (looper_log p) (wakeups p) \<and>
     (loop p = LoopDone \<longrightarrow> m_isShutdown p)"

lemma looper_calls_count: "count (looper_calls cs) SetEvent = post_count cs"
  by (induction cs rule: looper_calls.induct) auto

lemma looper_inv_new: "looper_inv LooperScheduler_new"
  by (simp add: looper_inv_def LooperScheduler_new_def log_inv_new wakeups_def service_source.covered_def)

lemma looper_inv_client:
  assumes inv: "looper_inv p" and run: "client_run op (looper_log p) = Some (l, cs)"
  shows "looper_inv (p\<lparr>looper_log := l, calls := calls p + looper_calls cs\<rparr>)"
proof -
  have "wakeups (p\<lparr>looper_log := l, calls := calls p + looper_calls cs\<rparr>) = wakeups p + post_count cs"
    by (simp add: wakeups_def looper_calls_count)
  moreover have "client_posts (looper_log p) (post_count cs) l" using run by (auto simp: client_posts_def)
  ultimately show ?thesis
    using inv service_source.covered_client[of "looper_log p" "post_count cs" l "wakeups p"] service_source.client_law
    by (auto simp: looper_inv_def)
qed

lemma looper_inv_dequeue:
  assumes inv: "looper_inv p" and deq: "log_dequeue (looper_log p) = (r, l)"
    and "r = None \<longrightarrow> x = LoopCheck" "\<forall>t. r = Some t \<longrightarrow> x = LoopRun t"
  shows "looper_inv (p\<lparr>looper_log := l, loop := x\<rparr>)"
  using assms service_source.dequeue_inv[OF _ deq] service_source.dequeue_None_iff[of "looper_log p" l]
  by (cases r) (auto simp: looper_inv_def wakeups_def service_source.covered_def)

lemma looper_inv_step: "looper_step p p' \<Longrightarrow> looper_inv p \<Longrightarrow> looper_inv p'"
proof (induction rule: looper_step.induct)
  case (client op p l cs)
  then show ?case by (intro looper_inv_client)
next
  case (take_task p t l)
  then show ?case by (intro looper_inv_dequeue) auto
next
  case (no_task p l)
  then show ?case by (intro looper_inv_dequeue) auto
qed (auto simp: looper_inv_def wakeups_def service_source.covered_def)

lemma looper_inv_reachable: "looper_reachable p \<Longrightarrow> looper_inv p"
  unfolding looper_reachable_def
  by (induction rule: rtranclp_induct) (auto intro: looper_inv_new looper_inv_step)

section \<open>A lost task\<close>

text \<open>
  The run: the loop finds the queue empty; a client posts a task and shuts the queue down with
  \<open>Complete\<close>; both calls reach the scheduler; the loop reads \<open>m_isShutdown\<close>.
\<close>

definition lost_log :: service_log where
  "lost_log = (case client_run (OpPost 0 (LambdaTask 5)) log_new of
     Some (l, cs) \<Rightarrow> (case client_run (OpShutdown Complete) l of Some (l', cs') \<Rightarrow> l'))"

definition lost :: looper where
  "lost = \<lparr>looper_log = lost_log, m_wakeUpEvent = True, m_isShutdown = True, loop = LoopDone, calls = {#}\<rparr>"

lemmas lost_defs = lost_log_def LooperScheduler_new_def log_new_def QueueService_new_def Post_def Shutdown_def
  log_post_def HasTaskBatching_def log_dequeue_def TryDequeTask_def

lemma looper_steps: "looper_reachable p \<Longrightarrow> looper_step p p' \<Longrightarrow> looper_reachable p'"
  unfolding looper_reachable_def by (rule rtranclp.rtrancl_into_rtrancl)

lemma lost_reachable: "looper_reachable lost"
proof -
  define l1 where "l1 = fst (the (client_run (OpPost 0 (LambdaTask 5)) log_new))"
  have runs: "client_run (OpPost 0 (LambdaTask 5)) log_new = Some (l1, [SchedulerPost])"
      "client_run (OpShutdown Complete) l1 = Some (lost_log, [SchedulerShutdown])"
    by (simp_all add: l1_def lost_defs)
  let ?p = "\<lambda>l e sd pc cs. \<lparr>looper_log = l, m_wakeUpEvent = e, m_isShutdown = sd, loop = pc, calls = cs\<rparr>"
  have "looper_reachable LooperScheduler_new" by (simp add: looper_reachable_def)
  moreover have "looper_step LooperScheduler_new (?p log_new False False LoopCheck {#})"
    using looper_step.no_task[of LooperScheduler_new log_new] log_dequeue_None[OF log_inv_new]
    by (simp add: LooperScheduler_new_def HasTasks_def log_new_def QueueService_new_def queue_defs)
  ultimately have "looper_reachable (?p log_new False False LoopCheck {#})" by (rule looper_steps)
  then have "looper_reachable (?p l1 False False LoopCheck {#SetEvent#})"
    by (rule looper_steps) (use looper_step.client[of "OpPost 0 (LambdaTask 5)" "?p log_new False False LoopCheck {#}"] runs(1) in \<open>simp del: client_run.simps\<close>)
  then have "looper_reachable (?p l1 True False LoopCheck {#})"
    by (rule looper_steps) (use looper_step.set_event[of "?p l1 False False LoopCheck {#SetEvent#}" "{#}"] in simp)
  then have "looper_reachable (?p lost_log True False LoopCheck {#SetShutdown#})"
    by (rule looper_steps) (use looper_step.client[of "OpShutdown Complete" "?p l1 True False LoopCheck {#}"] runs(2) in \<open>simp del: client_run.simps\<close>)
  then have "looper_reachable (?p lost_log True True LoopCheck {#SetEvent#})"
    by (rule looper_steps) (use looper_step.shutdown[of "?p lost_log True False LoopCheck {#SetShutdown#}" "{#}"] in simp)
  then have "looper_reachable (?p lost_log True True LoopCheck {#})"
    by (rule looper_steps) (use looper_step.set_event[of "?p lost_log True True LoopCheck {#SetEvent#}" "{#}"] in simp)
  then show ?thesis
    by (rule looper_steps) (use looper_step.check[of "?p lost_log True True LoopCheck {#}"] in \<open>simp add: lost_def\<close>)
qed

section \<open>Properties\<close>

text \<open>
  C17: In every run of a looper queue the tasks are started in the order in which they were accepted
  and each exactly once, and the loop never sleeps on a task: when it waits on a cleared event and no
  call is inside the scheduler, the queue is suspended or every accepted task was started or
  cancelled. The loop ends only after a shutdown.
\<close>

theorem looper_no_lost_wakeup:
  assumes "looper_reachable p"
  shows "accepted (looper_log p) = started (looper_log p) @ cancelled (looper_log p) @ waiting_tasks (looper_log p) \<and>
    (loop p = LoopWait \<and> \<not> m_wakeUpEvent p \<and> calls p = {#} \<longrightarrow>
       m_suspendCounter (svc (looper_log p)) \<noteq> 0 \<or>
       accepted (looper_log p) = started (looper_log p) @ cancelled (looper_log p)) \<and>
    (loop p = LoopDone \<longrightarrow> m_isShutdown p)"
  using looper_inv_reachable[OF assms]
  by (auto simp: looper_inv_def wakeups_def service_source.covered_def HasTasks_iff log_inv_def)

theorem looper_no_lost_wakeup_witness:
  "looper_reachable lost \<and> loop lost = LoopDone \<and> m_isShutdown lost"
  using looper_no_lost_wakeup[OF lost_reachable] lost_reachable by (simp add: lost_def)

text \<open>
  A shutdown that promises to complete the pending tasks can lose one. In some run a client
  posts a task and then shuts the queue down with \<open>Complete\<close>, and the loop ends with the task
  accepted, not suspended, never started: it read \<open>m_isShutdown\<close> after it had found the queue empty
  and before it looked again.
\<close>

theorem looper_shutdown_loses_task:
  "\<exists>p. looper_reachable p \<and> loop p = LoopDone \<and> calls p = {#} \<and>
     m_shutdownAction (svc (looper_log p)) = Some Complete \<and> m_suspendCounter (svc (looper_log p)) = 0 \<and>
     accepted (looper_log p) = [LambdaTask 5] \<and> started (looper_log p) = [] \<and> cancelled (looper_log p) = []"
  using lost_reachable by (intro exI[of _ lost]) (simp add: lost_def lost_defs)

end
