(* ===== verification/StdHeap.thy ===== *)
theory StdHeap
  imports Prelude "HOL-Library.Multiset"
begin

text \<open>
  The heap algorithms of the C++ standard library that the timer queue uses: a vector is a heap
  when no element compares less than one of its two children, so that the first element is a
  greatest one. Elements are compared through a key here, the smaller key being the greater
  element. The contract \<open>std_heap\<close> is what the standard promises.
\<close>

section \<open>The algorithms\<close>

definition parent :: "nat \<Rightarrow> nat" where
  "parent i = (i - 1) div 2"

definition is_heap :: "('a \<Rightarrow> int) \<Rightarrow> 'a list \<Rightarrow> bool" where
  "is_heap key xs \<longleftrightarrow> (\<forall>i < length xs. 0 < i \<longrightarrow> key (xs ! parent i) \<le> key (xs ! i))"

definition swap_at :: "nat \<Rightarrow> nat \<Rightarrow> 'a list \<Rightarrow> 'a list" where
  "swap_at i j xs = xs[i := xs ! j, j := xs ! i]"

text \<open>The element at \<open>i\<close> rises while its parent compares less.\<close>

function sift_up :: "('a \<Rightarrow> int) \<Rightarrow> nat \<Rightarrow> 'a list \<Rightarrow> 'a list" where
  "sift_up key i xs =
     (if 0 < i \<and> key (xs ! i) < key (xs ! parent i) then sift_up key (parent i) (swap_at i (parent i) xs) else xs)"
  by pat_completeness auto
termination by (relation "measure (\<lambda>(key, i, xs). i)") (auto simp: parent_def)

declare sift_up.simps [simp del]

text \<open>The last element joins the heap of the others.\<close>

definition push_heap :: "('a \<Rightarrow> int) \<Rightarrow> 'a list \<Rightarrow> 'a list" where
  "push_heap key xs = sift_up key (length xs - 1) xs"

fun make_heap_onto :: "('a \<Rightarrow> int) \<Rightarrow> 'a list \<Rightarrow> 'a list \<Rightarrow> 'a list" where
  "make_heap_onto key h [] = h"
| "make_heap_onto key h (x # xs) = make_heap_onto key (push_heap key (h @ [x])) xs"

definition make_heap :: "('a \<Rightarrow> int) \<Rightarrow> 'a list \<Rightarrow> 'a list" where
  "make_heap key xs = make_heap_onto key [] xs"

text \<open>The first element changes places with the last, and the others become a heap.\<close>

definition pop_heap :: "('a \<Rightarrow> int) \<Rightarrow> 'a list \<Rightarrow> 'a list" where
  "pop_heap key xs = make_heap key (butlast (swap_at 0 (length xs - 1) xs)) @ [xs ! 0]"

section \<open>What the standard promises\<close>

locale std_heap =
  fixes key :: "'a \<Rightarrow> int"
    and heap :: "'a list \<Rightarrow> bool"
    and push pop make :: "'a list \<Rightarrow> 'a list"
  assumes push_law: "heap xs \<Longrightarrow> heap (push (xs @ [x])) \<and> mset (push (xs @ [x])) = add_mset x (mset xs)"
    and pop_law: "heap xs \<Longrightarrow> xs \<noteq> [] \<Longrightarrow>
          heap (butlast (pop xs)) \<and> add_mset (hd xs) (mset (butlast (pop xs))) = mset xs"
    and make_law: "heap (make xs) \<and> mset (make xs) = mset xs"
    and front_law: "heap xs \<Longrightarrow> x \<in> set xs \<Longrightarrow> key (hd xs) \<le> key x"
begin

text \<open>Repeatedly taking the front gives the elements in the order of their keys.\<close>

function drain :: "'a list \<Rightarrow> 'a list" where
  "drain xs = (if heap xs \<and> xs \<noteq> [] then hd xs # drain (butlast (pop xs)) else [])"
  by pat_completeness auto
termination
proof (relation "measure length")
  fix xs :: "'a list"
  assume "heap xs \<and> xs \<noteq> []"
  then have "size (add_mset (hd xs) (mset (butlast (pop xs)))) = size (mset xs)"
    using pop_law by simp
  then show "(butlast (pop xs), xs) \<in> measure length" by simp
qed simp

declare drain.simps [simp del]

lemma front_below: "heap xs \<Longrightarrow> xs \<noteq> [] \<Longrightarrow> y \<in> set (butlast (pop xs)) \<Longrightarrow> key (hd xs) \<le> key y"
  using front_law pop_law by (metis set_mset_mset insert_iff set_mset_add_mset_insert)

lemma drain_sorts: "heap xs \<Longrightarrow> mset (drain xs) = mset xs \<and> sorted (map key (drain xs))"
proof (induction xs rule: drain.induct)
  case (1 xs)
  show ?case
  proof (cases "xs = []")
    case True
    then show ?thesis by (simp add: drain.simps[of "[]"])
  next
    case False
    let ?ys = "butlast (pop xs)"
    have ih: "mset (drain ?ys) = mset ?ys" "sorted (map key (drain ?ys))"
      using 1 False pop_law by auto
    have "set (drain ?ys) = set ?ys" using ih(1) by (metis set_mset_mset)
    then show ?thesis
      using ih 1(2) False pop_law front_below by (subst (1 2) drain.simps) auto
  qed
qed

end

section \<open>The algorithms keep the promise\<close>

lemma swap_at_length [simp]: "length (swap_at i j xs) = length xs"
  by (simp add: swap_at_def)

lemma mset_swap_at: "i < length xs \<Longrightarrow> j < length xs \<Longrightarrow> mset (swap_at i j xs) = mset xs"
  unfolding swap_at_def by (rule mset_swap)

lemma swap_at_nth: "i < length xs \<Longrightarrow> j < length xs \<Longrightarrow>
    swap_at i j xs ! k = (if k = j then xs ! i else if k = i then xs ! j else xs ! k)"
  by (auto simp: swap_at_def nth_list_update)

lemma parent_less: "0 < i \<Longrightarrow> parent i < i"
  by (auto simp: parent_def)

lemma sift_up_mset: "i < length xs \<Longrightarrow> mset (sift_up key i xs) = mset xs"
proof (induction key i xs rule: sift_up.induct)
  case (1 key i xs)
  show ?case
  proof (cases "0 < i \<and> key (xs ! i) < key (xs ! parent i)")
    case True
    then have "parent i < length xs" using 1(2) parent_less[of i] by simp
    with True 1 show ?thesis
      by (subst sift_up.simps) (simp add: mset_swap_at)
  next
    case False
    then show ?thesis by (subst sift_up.simps) auto
  qed
qed

lemma set_sift_up: "i < length xs \<Longrightarrow> set (sift_up key i xs) = set xs"
  using sift_up_mset by (metis set_mset_mset)

text \<open>A heap but for the element at \<open>i\<close>, which may be too small for its place.\<close>

definition heap_but :: "('a \<Rightarrow> int) \<Rightarrow> nat \<Rightarrow> 'a list \<Rightarrow> bool" where
  "heap_but key i xs \<longleftrightarrow>
     (\<forall>j < length xs. 0 < j \<and> j \<noteq> i \<longrightarrow> key (xs ! parent j) \<le> key (xs ! j)) \<and>
     (\<forall>j < length xs. 0 < j \<and> parent j = i \<and> 0 < i \<longrightarrow> key (xs ! parent i) \<le> key (xs ! j))"

lemma heap_but_swap:
  assumes hb: "heap_but key i xs" and i: "0 < i" "i < length xs" and less: "key (xs ! i) < key (xs ! parent i)"
  shows "heap_but key (parent i) (swap_at i (parent i) xs)"
proof -
  have p: "parent i < i" "parent i < length xs" using i parent_less[of i] by auto
  note nth = swap_at_nth[OF i(2) p(2)]
  have "key (swap_at i (parent i) xs ! parent j) \<le> key (swap_at i (parent i) xs ! j)"
    if "j < length xs" "0 < j" "j \<noteq> parent i" for j
  proof -
    consider "j = i" | "j \<noteq> i" "parent j = i" | "j \<noteq> i" "parent j = parent i" | "j \<noteq> i" "parent j \<noteq> i" "parent j \<noteq> parent i"
      by blast
    then show ?thesis
    proof cases
      case 3
      then have "key (xs ! parent i) \<le> key (xs ! j)" using hb that unfolding heap_but_def by force
      with 3 less that p show ?thesis unfolding nth by auto
    qed (use hb less that p i in \<open>auto simp: nth heap_but_def\<close>)
  qed
  moreover have "key (swap_at i (parent i) xs ! parent (parent i)) \<le> key (swap_at i (parent i) xs ! j)"
    if "j < length xs" "0 < j" "parent j = parent i" "0 < parent i" for j
  proof -
    have "parent (parent i) < parent i" using that parent_less by simp
    moreover have "key (xs ! parent (parent i)) \<le> key (xs ! parent i)"
      using hb that p unfolding heap_but_def by auto
    moreover have "key (xs ! parent i) \<le> key (xs ! j)" if "j \<noteq> i"
      using hb \<open>j < length xs\<close> \<open>0 < j\<close> \<open>parent j = parent i\<close> that unfolding heap_but_def by force
    moreover have "j \<noteq> parent i" using that parent_less[of j] by auto
    ultimately show ?thesis using p unfolding nth by (auto intro: order_trans)
  qed
  ultimately show ?thesis by (simp add: heap_but_def)
qed

lemma sift_up_heap: "heap_but key i xs \<Longrightarrow> i < length xs \<Longrightarrow> is_heap key (sift_up key i xs)"
proof (induction key i xs rule: sift_up.induct)
  case (1 key i xs)
  show ?case
  proof (cases "0 < i \<and> key (xs ! i) < key (xs ! parent i)")
    case True
    then have "parent i < length xs" using 1(3) parent_less[of i] by simp
    with True 1 show ?thesis
      by (subst sift_up.simps) (simp add: heap_but_swap)
  next
    case False
    with 1(2) have "is_heap key xs" by (fastforce simp: is_heap_def heap_but_def)
    with False show ?thesis by (subst sift_up.simps) auto
  qed
qed

lemma is_heap_snoc: "is_heap key xs \<Longrightarrow> heap_but key (length xs) (xs @ [x])"
  unfolding is_heap_def heap_but_def
  by (auto simp: nth_append parent_def less_Suc_eq)

lemma push_heap_spec:
  "is_heap key xs \<Longrightarrow> is_heap key (push_heap key (xs @ [x])) \<and> mset (push_heap key (xs @ [x])) = add_mset x (mset xs)"
  by (simp add: push_heap_def sift_up_heap is_heap_snoc sift_up_mset)

lemma make_heap_onto_spec:
  "is_heap key h \<Longrightarrow> is_heap key (make_heap_onto key h xs) \<and> mset (make_heap_onto key h xs) = mset h + mset xs"
  by (induction xs arbitrary: h) (auto simp: push_heap_spec)

lemma make_heap_spec: "is_heap key (make_heap key xs) \<and> mset (make_heap key xs) = mset xs"
  using make_heap_onto_spec[of key "[]" xs] by (simp add: make_heap_def is_heap_def)

lemma heap_front:
  assumes "is_heap key xs" and "i < length xs"
  shows "key (xs ! 0) \<le> key (xs ! i)"
  using assms(2)
proof (induction i rule: less_induct)
  case (less i)
  show ?case
  proof (cases "i = 0")
    case False
    then have "key (xs ! parent i) \<le> key (xs ! i)" using assms(1) less.prems by (simp add: is_heap_def)
    with less False parent_less[of i] show ?thesis by (fastforce intro: order_trans)
  qed simp
qed

lemma pop_heap_spec:
  assumes "is_heap key xs" and "xs \<noteq> []"
  shows "is_heap key (butlast (pop_heap key xs)) \<and> add_mset (hd xs) (mset (butlast (pop_heap key xs))) = mset xs"
proof -
  let ?s = "swap_at 0 (length xs - 1) xs"
  have s: "?s \<noteq> []" using assms(2) by (metis swap_at_length length_0_conv)
  have "last ?s = hd xs"
    using assms(2) s by (simp add: last_conv_nth hd_conv_nth swap_at_nth)
  then have "mset ?s = add_mset (hd xs) (mset (butlast ?s))"
    using s by (metis add.commute append_butlast_last_id mset_append mset_single_iff_right union_mset_add_mset_left add_mset_add_single)
  moreover have "mset ?s = mset xs" using assms(2) by (intro mset_swap_at) auto
  ultimately show ?thesis
    by (simp add: pop_heap_def make_heap_spec)
qed

interpretation keyed_heap: std_heap key "is_heap key" "push_heap key" "pop_heap key" "make_heap key" for key
proof unfold_locales
  show "key (hd xs) \<le> key x" if heap: "is_heap key xs" and mem: "x \<in> set xs" for xs x
  proof -
    obtain i where "i < length xs" "x = xs ! i" using mem by (auto simp: in_set_conv_nth)
    moreover have "xs \<noteq> []" using mem by auto
    ultimately show ?thesis using heap_front[OF heap, of i] by (simp add: hd_conv_nth)
  qed
qed (erule push_heap_spec, erule (1) pop_heap_spec, rule make_heap_spec)

end
