(* ===== verification/DoubleArith.thy ===== *)
theory DoubleArith
  imports CppNumber
begin

text \<open>
  Arithmetic on doubles: every operation computes the exact result and rounds it once, as IEEE-754
  demands. Zero results of a sum have the sign of both operands, or plus.
\<close>

definition to_double :: "bool \<Rightarrow> nat \<Rightarrow> int \<Rightarrow> double" where
  "to_double s m e = (if 0 \<le> e then to_binary64 s (m * 2 ^ nat e) 1 else to_binary64 s m (2 ^ nat (- e)))"

fun dneg :: "double \<Rightarrow> double" where
  "dneg NaN = NaN"
| "dneg (Infinity s) = Infinity (\<not> s)"
| "dneg (Finite s m e) = Finite (\<not> s) m e"

fun dadd :: "double \<Rightarrow> double \<Rightarrow> double" where
  "dadd (Finite s m e) (Finite t n f) =
     (let x = min e f; r = scaled x (Finite s m e) + scaled x (Finite t n f)
      in if r = 0 then Finite (s \<and> t) 0 0 else to_double (r < 0) (nat \<bar>r\<bar>) x)"
| "dadd (Infinity s) (Infinity t) = (if s = t then Infinity s else NaN)"
| "dadd NaN _ = NaN"
| "dadd _ NaN = NaN"
| "dadd (Infinity s) _ = Infinity s"
| "dadd _ (Infinity t) = Infinity t"

definition dsub :: "double \<Rightarrow> double \<Rightarrow> double" where
  "dsub x y = dadd x (dneg y)"

fun dmul :: "double \<Rightarrow> double \<Rightarrow> double" where
  "dmul (Finite s m e) (Finite t n f) = to_double (s \<noteq> t) (m * n) (e + f)"
| "dmul (Infinity s) (Infinity t) = Infinity (s \<noteq> t)"
| "dmul (Infinity s) (Finite t n f) = (if n = 0 then NaN else Infinity (s \<noteq> t))"
| "dmul (Finite s m e) (Infinity t) = (if m = 0 then NaN else Infinity (s \<noteq> t))"
| "dmul _ _ = NaN"

fun ddiv :: "double \<Rightarrow> double \<Rightarrow> double" where
  "ddiv (Finite s m e) (Finite t n f) =
     (if n = 0 then (if m = 0 then NaN else Infinity (s \<noteq> t))
      else (case (ratio (Finite s m e), ratio (Finite t n f)) of ((a, b), (c, d)) \<Rightarrow>
        to_binary64 (s \<noteq> t) (a * d) (b * c)))"
| "ddiv (Infinity s) (Finite t n f) = Infinity (s \<noteq> t)"
| "ddiv (Finite s m e) (Infinity t) = Finite (s \<noteq> t) 0 0"
| "ddiv _ _ = NaN"

text \<open>\<^verbatim>\<open>std::fmod\<close>: the exact remainder, with the sign of the first operand.\<close>

fun dfmod :: "double \<Rightarrow> double \<Rightarrow> double" where
  "dfmod (Finite s m e) (Finite t n f) =
     (if n = 0 then NaN
      else (let x = min e f
            in to_double s (nat \<bar>scaled x (Finite s m e)\<bar> mod nat \<bar>scaled x (Finite t n f)\<bar>) x))"
| "dfmod (Finite s m e) (Infinity t) = Finite s m e"
| "dfmod _ _ = NaN"

definition dlt :: "double \<Rightarrow> double \<Rightarrow> bool" where
  "dlt x y \<longleftrightarrow> dle x y \<and> \<not> deq x y"

text \<open>What a C++ program cannot tell apart with \<^verbatim>\<open>==\<close>, and two values that are both not a number.\<close>

definition same_double :: "double \<Rightarrow> double \<Rightarrow> bool" where
  "same_double x y \<longleftrightarrow> x = y \<or> deq x y"

lemma same_double_refl [simp]: "same_double x x"
  by (simp add: same_double_def)

end
