(* ===== verification/Timing.thy ===== *)
theory Timing
  imports StdHeap DoubleArith
begin

text \<open>
  The timers of JavaScript (\<^verbatim>\<open>Microsoft.ReactNative/Modules/Timing.h\<close>, \<^verbatim>\<open>Timing.cpp\<close>): the timer queue,
  a heap by target time, and the module that lets a dispatcher timer or posted render frames tick
  while there are timers. All its state is used on the user interface thread. Times and periods
  are counts of 100 nanoseconds.
\<close>

section \<open>Timers and the timer queue\<close>

record Timer =
  Id :: "32 word"
  TargetTime :: int
  Period :: int
  Repeat :: bool

definition IsAnimationFrameRequest :: "int \<Rightarrow> bool \<Rightarrow> bool" where
  "IsAnimationFrameRequest period repeat \<longleftrightarrow> \<not> repeat \<and> period = 10000"

text \<open>Signed 64-bit arithmetic that overflows is undefined, here \<open>None\<close>.\<close>

definition in_int64 :: "int \<Rightarrow> bool" where
  "in_int64 i \<longleftrightarrow> - (2 ^ 63) \<le> i \<and> i < 2 ^ 63"

definition TimeSpanFromMs :: "double \<Rightarrow> int option" where
  "TimeSpanFromMs ms = (case int64_of_double ms of
     None \<Rightarrow> None
   | Some dur \<Rightarrow> (let ticks = sint dur * 10000 in if in_int64 ticks then Some ticks else None))"

definition TimerQueue_Push :: "32 word \<Rightarrow> int \<Rightarrow> int \<Rightarrow> bool \<Rightarrow> Timer list \<Rightarrow> Timer list" where
  "TimerQueue_Push ident targetTime period repeat q =
     push_heap TargetTime (q @ [\<lparr>Id = ident, TargetTime = targetTime, Period = period, Repeat = repeat\<rparr>])"

definition TimerQueue_Pop :: "Timer list \<Rightarrow> Timer list" where
  "TimerQueue_Pop q = butlast (pop_heap TargetTime q)"

definition TimerQueue_Front :: "Timer list \<Rightarrow> Timer option" where
  "TimerQueue_Front q = (case q of [] \<Rightarrow> None | t # ts \<Rightarrow> Some t)"

fun erase_id :: "32 word \<Rightarrow> Timer list \<Rightarrow> Timer list" where
  "erase_id ident [] = []"
| "erase_id ident (t # ts) = (if Id t = ident then ts else t # erase_id ident ts)"

definition TimerQueue_Remove :: "32 word \<Rightarrow> Timer list \<Rightarrow> Timer list" where
  "TimerQueue_Remove ident q = make_heap TargetTime (erase_id ident q)"

section \<open>The module\<close>

text \<open>
  \<open>fires_at\<close> is the time of the next tick of the dispatcher timer, \<open>frames\<close> the number of render
  frames posted to the dispatcher and not yet run, \<open>listening\<close> whether there is a context or a
  registry to send fired timers to. The revoker of rendering events is never set in this version.
\<close>

record dispatcher_timer =
  running :: bool
  fires_at :: int

record timing =
  m_timerQueue :: "Timer list"
  m_dispatcherQueueTimer :: "dispatcher_timer option"
  m_usingRendering :: bool
  m_usePostForRendering :: bool
  frames :: nat
  listening :: bool

definition Timing_Initialize :: "bool \<Rightarrow> timing" where
  "Timing_Initialize listener = \<lparr>m_timerQueue = [], m_dispatcherQueueTimer = None, m_usingRendering = False,
     m_usePostForRendering = True, frames = 0, listening = listener\<rparr>"

definition DetachBridgeless :: "timing \<Rightarrow> timing" where
  "DetachBridgeless m = m\<lparr>listening := False\<rparr>"

definition StopTimer :: "timing \<Rightarrow> timing" where
  "StopTimer m = m\<lparr>m_dispatcherQueueTimer := map_option (\<lambda>d. d\<lparr>running := False\<rparr>) (m_dispatcherQueueTimer m)\<rparr>"

definition StopTicks :: "timing \<Rightarrow> timing" where
  "StopTicks m = StopTimer (m\<lparr>m_usingRendering := False\<rparr>)"

definition StartDispatcherTimer :: "int \<Rightarrow> timing \<Rightarrow> timing option" where
  "StartDispatcherTimer now m = (case TimerQueue_Front (m_timerQueue m) of
     None \<Rightarrow> None
   | Some nextTimer \<Rightarrow>
       Some (m\<lparr>m_usingRendering := False,
         m_dispatcherQueueTimer := Some \<lparr>running = True, fires_at = now + max (TargetTime nextTimer - now) 0\<rparr>\<rparr>))"

text \<open>\<open>alive\<close> says whether the user interface dispatcher still exists.\<close>

definition PostRenderFrame :: "bool \<Rightarrow> timing \<Rightarrow> timing" where
  "PostRenderFrame alive m = m\<lparr>m_usingRendering := True, frames := (if alive then frames m + 1 else frames m)\<rparr>"

definition StartRendering :: "bool \<Rightarrow> timing \<Rightarrow> timing" where
  "StartRendering alive m =
     (let m1 = StopTimer m in if m_usePostForRendering m1 then PostRenderFrame alive m1 else m1)"

text \<open>
  The loop of \<^verbatim>\<open>OnTick\<close>: \<open>None\<close> when it does not end or a sum of times overflows. The result is the
  queue, the timers to fire and whether an animation frame is among them.
\<close>

partial_function (option) tick_loop ::
  "int \<Rightarrow> Timer list \<Rightarrow> 32 word list \<Rightarrow> bool \<Rightarrow> (Timer list \<times> 32 word list \<times> bool) option" where
  "tick_loop now q readyTimers emitted = (case TimerQueue_Front q of
     None \<Rightarrow> Some (q, readyTimers, emitted)
   | Some next \<Rightarrow>
       if \<not> TargetTime next < now then Some (q, readyTimers, emitted)
       else if Repeat next then
         (if in_int64 (now + Period next)
          then tick_loop now (TimerQueue_Push (Id next) (now + Period next) (Period next) True (TimerQueue_Pop q))
                 (readyTimers @ [Id next]) emitted
          else None)
       else tick_loop now (TimerQueue_Pop q) (readyTimers @ [Id next])
              (if IsAnimationFrameRequest (Period next) (Repeat next) then True else emitted))"

text \<open>\<open>now'\<close> is the time read again when the dispatcher timer is started.\<close>

definition OnTick :: "bool \<Rightarrow> int \<Rightarrow> int \<Rightarrow> timing \<Rightarrow> (timing \<times> 32 word list) option" where
  "OnTick alive now now' m = (case tick_loop now (m_timerQueue m) [] False of
     None \<Rightarrow> None
   | Some (q, readyTimers, emitted) \<Rightarrow>
       (let m1 = m\<lparr>m_timerQueue := q\<rparr>;
            fired = (if listening m then readyTimers else [])
        in if q = [] then Some (StopTicks m1, fired)
           else if m_usePostForRendering m1 \<and> m_usingRendering m1 \<and> emitted then Some (PostRenderFrame alive m1, fired)
           else if \<not> m_usingRendering m1 \<or> \<not> emitted
           then map_option (\<lambda>m2. (m2, fired)) (StartDispatcherTimer now' m1)
           else Some (m1, fired)))"

text \<open>The callback of a posted render frame.\<close>

definition OnRenderFrame :: "bool \<Rightarrow> int \<Rightarrow> int \<Rightarrow> timing \<Rightarrow> (timing \<times> 32 word list) option" where
  "OnRenderFrame alive now now' m = OnTick alive now now' (m\<lparr>m_usingRendering := False, frames := frames m - 1\<rparr>)"

definition msFrom1601to1970 :: int where
  "msFrom1601to1970 = 11644473600000"

definition createTimerOnQueue ::
  "bool \<Rightarrow> int \<Rightarrow> 32 word \<Rightarrow> double \<Rightarrow> double \<Rightarrow> bool \<Rightarrow> timing \<Rightarrow> (timing \<times> 32 word list) option" where
  "createTimerOnQueue alive now ident duration jsSchedulingTime repeat m =
     (if deq duration dzero \<and> \<not> repeat then Some (m, if listening m then [ident] else [])
      else (case (TimeSpanFromMs duration, TimeSpanFromMs (dadd jsSchedulingTime (double_of_int msFrom1601to1970))) of
        (Some period, Some scheduledTime) \<Rightarrow>
          if \<not> in_int64 (scheduledTime + period) then None
          else
            (let initialTargetTime = scheduledTime + period;
                 m1 = m\<lparr>m_timerQueue := TimerQueue_Push ident initialTargetTime period repeat (m_timerQueue m)\<rparr>
             in if \<not> m_usingRendering m1 then
                  (if IsAnimationFrameRequest period repeat then Some (StartRendering alive m1, [])
                   else (case TimerQueue_Front (m_timerQueue m1) of
                       None \<Rightarrow> None
                     | Some front \<Rightarrow>
                         if initialTargetTime \<le> TargetTime front
                         then map_option (\<lambda>m2. (m2, [])) (StartDispatcherTimer now m1) else Some (m1, [])))
                else Some (m1, []))
      | _ \<Rightarrow> None))"

definition deleteTimerOnQueue :: "32 word \<Rightarrow> timing \<Rightarrow> timing" where
  "deleteTimerOnQueue ident m =
     (let m1 = m\<lparr>m_timerQueue := TimerQueue_Remove ident (m_timerQueue m)\<rparr>
      in if m_timerQueue m1 = [] then StopTicks m1 else m1)"

section \<open>The queue\<close>

abbreviation timer_heap :: "Timer list \<Rightarrow> bool" where
  "timer_heap \<equiv> is_heap TargetTime"

lemma Push_spec:
  "timer_heap q \<Longrightarrow> timer_heap (TimerQueue_Push i t p r q) \<and>
     mset (TimerQueue_Push i t p r q) = add_mset \<lparr>Id = i, TargetTime = t, Period = p, Repeat = r\<rparr> (mset q)"
  unfolding TimerQueue_Push_def by (rule keyed_heap.push_law)

lemma Pop_spec:
  "timer_heap q \<Longrightarrow> q \<noteq> [] \<Longrightarrow> timer_heap (TimerQueue_Pop q) \<and> add_mset (hd q) (mset (TimerQueue_Pop q)) = mset q"
  unfolding TimerQueue_Pop_def by (rule keyed_heap.pop_law)

lemma Remove_spec: "timer_heap (TimerQueue_Remove i q) \<and> mset (TimerQueue_Remove i q) = mset (erase_id i q)"
  unfolding TimerQueue_Remove_def by (rule keyed_heap.make_law)

lemma set_erase_id: "set (erase_id i q) \<subseteq> set q"
  by (induction q) auto

lemma set_Remove: "set (TimerQueue_Remove i q) \<subseteq> set q"
  using Remove_spec[of i q] set_erase_id[of i q] by (metis set_mset_mset)

lemma Front_Some: "TimerQueue_Front q = Some t \<longleftrightarrow> q \<noteq> [] \<and> t = hd q"
  by (auto simp: TimerQueue_Front_def split: list.splits)

lemma Front_None: "TimerQueue_Front q = None \<longleftrightarrow> q = []"
  by (auto simp: TimerQueue_Front_def split: list.splits)

lemma front_least: "timer_heap q \<Longrightarrow> t \<in> set q \<Longrightarrow> TargetTime (hd q) \<le> TargetTime t"
  by (rule keyed_heap.front_law)

lemma Push_nonempty: "timer_heap q \<Longrightarrow> TimerQueue_Push i t p r q \<noteq> []"
  using Push_spec[of q i t p r] by (metis add_mset_not_empty mset.simps(1))

section \<open>One tick\<close>

definition due :: "int \<Rightarrow> Timer \<Rightarrow> bool" where
  "due now t \<longleftrightarrow> TargetTime t < now"

definition renew :: "int \<Rightarrow> Timer \<Rightarrow> Timer" where
  "renew now t = t\<lparr>TargetTime := now + Period t\<rparr>"

text \<open>The repeating timers whose next target time is not in the past.\<close>

definition regular :: "int \<Rightarrow> Timer \<Rightarrow> bool" where
  "regular now t \<longleftrightarrow> (Repeat t \<longrightarrow> 0 \<le> Period t \<and> in_int64 (now + Period t))"

lemma tick_loop_stop:
  "timer_heap q \<Longrightarrow> filter_mset (due now) (mset q) = {#} \<Longrightarrow> tick_loop now q ready e = Some (q, ready, e)"
  by (subst tick_loop.simps)
    (auto simp: Front_None Front_Some due_def filter_mset_eq_mempty_iff split: option.splits)

text \<open>What one round does: the front goes to the timers to fire, and comes back if it repeats.\<close>

definition after_front :: "int \<Rightarrow> Timer list \<Rightarrow> Timer list" where
  "after_front now q = (if Repeat (hd q)
     then TimerQueue_Push (Id (hd q)) (now + Period (hd q)) (Period (hd q)) True (TimerQueue_Pop q)
     else TimerQueue_Pop q)"

lemma tick_loop_round:
  assumes "q \<noteq> []" and "due now (hd q)" and "regular now (hd q)"
  shows "tick_loop now q ready e = tick_loop now (after_front now q) (ready @ [Id (hd q)])
    (e \<or> IsAnimationFrameRequest (Period (hd q)) (Repeat (hd q)))"
  using assms
  by (subst tick_loop.simps)
    (auto simp: TimerQueue_Front_def due_def regular_def after_front_def IsAnimationFrameRequest_def split: list.splits)

lemma after_front_spec:
  assumes "timer_heap q" and "q \<noteq> []" and "due now (hd q)" and "regular now (hd q)"
  shows "timer_heap (after_front now q) \<and>
    mset (after_front now q) = (if Repeat (hd q) then {#renew now (hd q)#} else {#}) + (mset q - {#hd q#})"
proof -
  have pop: "timer_heap (TimerQueue_Pop q)" "mset (TimerQueue_Pop q) = mset q - {#hd q#}"
    using Pop_spec[OF assms(1,2)] by (metis, metis add_mset_remove_trivial)
  have "\<lparr>Id = Id (hd q), TargetTime = now + Period (hd q), Period = Period (hd q), Repeat = True\<rparr> = renew now (hd q)"
    if "Repeat (hd q)"
    using that by (cases "hd q") (simp add: renew_def)
  then show ?thesis
    using Push_spec[OF pop(1)] pop by (simp add: after_front_def)
qed

lemma not_due_renew: "regular now t \<Longrightarrow> Repeat t \<Longrightarrow> \<not> due now (renew now t)"
  by (simp add: regular_def due_def renew_def)

lemma tick_loop_spec:
  assumes "timer_heap q" and "\<forall>t \<in> set q. due now t \<longrightarrow> regular now t"
  shows "\<exists>ts q'. tick_loop now q ready e =
      Some (q', ready @ map Id ts, e \<or> (\<exists>t \<in> set ts. IsAnimationFrameRequest (Period t) (Repeat t))) \<and>
    mset ts = filter_mset (due now) (mset q) \<and> sorted (map TargetTime ts) \<and> timer_heap q' \<and>
    mset q' = filter_mset (\<lambda>t. \<not> due now t) (mset q) +
      image_mset (renew now) (filter_mset Repeat (filter_mset (due now) (mset q)))"
  using assms
proof (induction "size (filter_mset (due now) (mset q))" arbitrary: q ready e)
  case 0
  then have none: "filter_mset (due now) (mset q) = {#}" by simp
  then have "filter_mset (\<lambda>t. \<not> due now t) (mset q) = mset q"
    by (simp add: filter_mset_eq_conv filter_mset_eq_mempty_iff)
  then show ?case
    using tick_loop_stop[OF 0(2) none] none 0(2) by (auto intro!: exI[of _ "[] :: Timer list"] simp: filter_mset_eq_mempty_iff)
next
  case (Suc n)
  let ?h = "hd q" and ?q = "after_front now q"
  have ne: "q \<noteq> []" using Suc(2) by auto
  obtain d where d: "d \<in># filter_mset (due now) (mset q)" using Suc(2) by (metis nonempty_has_size multiset_nonemptyE zero_less_Suc)
  then have h: "due now ?h" using front_least[OF Suc(3), of d] by (auto simp: due_def)
  have reg: "regular now ?h" using Suc(4) ne h by simp
  obtain M where M: "mset q = add_mset ?h M" using Pop_spec[OF Suc(3) ne] by metis
  have spec: "timer_heap ?q" "mset ?q = (if Repeat ?h then {#renew now ?h#} else {#}) + M"
    using after_front_spec[OF Suc(3) ne h reg] M by auto
  have due_q: "filter_mset (due now) (mset ?q) = filter_mset (due now) M"
    using not_due_renew[OF reg] by (simp add: spec(2))
  have set_q: "t \<in> set ?q \<Longrightarrow> due now t \<Longrightarrow> t \<in> set q" for t
    using arg_cong[OF spec(2), of set_mset] arg_cong[OF M, of set_mset] not_due_renew[OF reg]
    by (auto split: if_splits)
  obtain ts q' where ih: "tick_loop now ?q (ready @ [Id ?h]) (e \<or> IsAnimationFrameRequest (Period ?h) (Repeat ?h)) =
        Some (q', (ready @ [Id ?h]) @ map Id ts, (e \<or> IsAnimationFrameRequest (Period ?h) (Repeat ?h)) \<or>
          (\<exists>t \<in> set ts. IsAnimationFrameRequest (Period t) (Repeat t)))"
      "mset ts = filter_mset (due now) (mset ?q)" "sorted (map TargetTime ts)" "timer_heap q'"
      "mset q' = filter_mset (\<lambda>t. \<not> due now t) (mset ?q) +
        image_mset (renew now) (filter_mset Repeat (filter_mset (due now) (mset ?q)))"
    using Suc(1)[of ?q "ready @ [Id ?h]" "e \<or> IsAnimationFrameRequest (Period ?h) (Repeat ?h)"] Suc(2,4) spec(1) set_q due_q M h
    by auto
  have "t \<in> set q" if "t \<in> set ts" for t
    using that arg_cong[OF ih(2), of set_mset] arg_cong[OF M, of set_mset] by (auto simp: due_q)
  then have "sorted (map TargetTime (?h # ts))"
    using ih(3) front_least[OF Suc(3)] by auto
  moreover have "mset (?h # ts) = filter_mset (due now) (mset q)"
    using ih(2) due_q M h by simp
  moreover have "mset q' = filter_mset (\<lambda>t. \<not> due now t) (mset q) +
      image_mset (renew now) (filter_mset Repeat (filter_mset (due now) (mset q)))"
    using ih(5) due_q spec(2) M h not_due_renew[OF reg] by auto
  ultimately show ?case
    using tick_loop_round[OF ne h reg, of ready e] ih(1,4)
    by (intro exI[of _ "?h # ts"] exI[of _ q']) auto
qed

lemma tick_loop_returns:
  assumes "tick_loop now q ready e = Some r"
  shows "timer_heap q \<longrightarrow> (\<forall>t \<in> set q. due now t \<longrightarrow> regular now t)"
proof (rule tick_loop.raw_induct[where P = "\<lambda>now q ready e r. timer_heap q \<longrightarrow> (\<forall>t \<in> set q. due now t \<longrightarrow> regular now t)",
      OF _ assms], goal_cases)
  case (1 loop now q ready e r)
  note ih = 1(1)[THEN mp] and body = 1(2)
  have "\<forall>t \<in> set q. due now t \<longrightarrow> regular now t" if heap: "timer_heap q"
  proof (cases "q \<noteq> [] \<and> due now (hd q)")
    case False
    then have "\<not> due now t" if "t \<in> set q" for t
      using front_least[OF heap that] that by (auto simp: due_def)
    then show ?thesis by blast
  next
    case True
    let ?h = "hd q"
    have pop: "timer_heap (TimerQueue_Pop q)" "mset q = add_mset ?h (mset (TimerQueue_Pop q))"
      using Pop_spec[OF heap] True by auto
    have set_q: "set q = insert ?h (set (TimerQueue_Pop q))"
      using arg_cong[OF pop(2), of set_mset] by (simp only: set_mset_mset set_mset_add_mset_insert)
    show ?thesis
    proof (cases "Repeat ?h")
      case False
      then have "loop now (TimerQueue_Pop q) (ready @ [Id ?h]) (if IsAnimationFrameRequest (Period ?h) False then True else e) = Some r"
        using body True by (auto simp: TimerQueue_Front_def due_def split: list.splits)
      from ih[OF this pop(1)] show ?thesis using set_q False by (auto simp: regular_def)
    next
      case rep: True
      let ?q = "TimerQueue_Push (Id ?h) (now + Period ?h) (Period ?h) True (TimerQueue_Pop q)"
      have "loop now ?q (ready @ [Id ?h]) e = Some r" and range: "in_int64 (now + Period ?h)"
        using body True rep by (auto simp: TimerQueue_Front_def due_def split: list.splits if_splits)
      from ih[OF this(1)] have later: "\<forall>t \<in> set ?q. due now t \<longrightarrow> regular now t"
        using Push_spec[OF pop(1)] by blast
      let ?t = "\<lparr>Id = Id ?h, TargetTime = now + Period ?h, Period = Period ?h, Repeat = True\<rparr>"
      have "set ?q = insert ?t (set (TimerQueue_Pop q))"
        using Push_spec[OF pop(1)] by (metis set_mset_add_mset_insert set_mset_mset)
      then have "due now ?t \<longrightarrow> regular now ?t" "\<forall>t \<in> set (TimerQueue_Pop q). due now t \<longrightarrow> regular now t"
        using later by auto
      then show ?thesis using set_q range rep by (auto simp: due_def regular_def)
    qed
  qed
  then show ?case by blast
qed

lemma OnTick_None_iff:
  assumes "timer_heap (m_timerQueue m)"
  shows "OnTick alive now now' m = None \<longleftrightarrow> \<not> (\<forall>t \<in> set (m_timerQueue m). due now t \<longrightarrow> regular now t)"
proof -
  have "OnTick alive now now' m = None \<longleftrightarrow> tick_loop now (m_timerQueue m) [] False = None"
    by (auto simp: OnTick_def StartDispatcherTimer_def TimerQueue_Front_def Let_def split: option.splits list.splits)
  moreover have "tick_loop now (m_timerQueue m) [] False \<noteq> None"
    if "\<forall>t \<in> set (m_timerQueue m). due now t \<longrightarrow> regular now t"
    using tick_loop_spec[OF assms that, of "[]" False] by auto
  moreover have "\<forall>t \<in> set (m_timerQueue m). due now t \<longrightarrow> regular now t"
    if "tick_loop now (m_timerQueue m) [] False \<noteq> None"
    using that tick_loop_returns assms by blast
  ultimately show ?thesis by blast
qed

section \<open>Something always ticks\<close>

text \<open>
  The life of the module while the dispatcher of the user interface lives: timers are made and
  deleted, the dispatcher timer ticks and posted frames run. Every operation reads a clock that
  does not go back; \<open>clock\<close> is the last time read.
\<close>

inductive timing_step :: "timing \<times> int \<Rightarrow> timing \<times> int \<Rightarrow> bool" where
  create: "createTimerOnQueue True now i duration js repeat m = Some (m', ids) \<Longrightarrow> clock \<le> now \<Longrightarrow>
     timing_step (m, clock) (m', now)"
| delete: "timing_step (m, clock) (deleteTimerOnQueue i m, clock)"
| tick: "m_dispatcherQueueTimer m = Some d \<Longrightarrow> running d \<Longrightarrow> OnTick True now now' m = Some (m', ids) \<Longrightarrow>
     clock \<le> now \<Longrightarrow> now \<le> now' \<Longrightarrow> timing_step (m, clock) (m', now')"
| frame: "0 < frames m \<Longrightarrow> OnRenderFrame True now now' m = Some (m', ids) \<Longrightarrow> clock \<le> now \<Longrightarrow> now \<le> now' \<Longrightarrow>
     timing_step (m, clock) (m', now')"
| detach: "timing_step (m, clock) (DetachBridgeless m, clock)"

definition timing_reachable :: "timing \<Rightarrow> int \<Rightarrow> bool" where
  "timing_reachable m clock \<longleftrightarrow> (\<exists>listener start. timing_step\<^sup>*\<^sup>* (Timing_Initialize listener, start) (m, clock))"

text \<open>The dispatcher timer runs and ticks when the first timer is due, or at once when it is late.\<close>

definition armed :: "timing \<Rightarrow> int \<Rightarrow> bool" where
  "armed m clock \<longleftrightarrow> (\<exists>d. m_dispatcherQueueTimer m = Some d \<and> running d \<and>
     (\<forall>t \<in> set (m_timerQueue m). fires_at d \<le> max (TargetTime t) clock))"

definition timing_inv :: "timing \<Rightarrow> int \<Rightarrow> bool" where
  "timing_inv m clock \<longleftrightarrow> timer_heap (m_timerQueue m) \<and> m_usePostForRendering m \<and>
     (m_usingRendering m \<longrightarrow> 0 < frames m) \<and> (m_timerQueue m \<noteq> [] \<longrightarrow> 0 < frames m \<or> armed m clock)"

lemma armed_later: "armed m clock \<Longrightarrow> clock \<le> clock' \<Longrightarrow> armed m clock'"
  by (fastforce simp: armed_def intro: order_trans max.mono)

lemma StartDispatcherTimer_armed:
  assumes "timer_heap (m_timerQueue m)" and "StartDispatcherTimer now m = Some m'"
  shows "armed m' now \<and> m_timerQueue m' = m_timerQueue m \<and> \<not> m_usingRendering m' \<and>
    m_usePostForRendering m' = m_usePostForRendering m \<and> frames m' = frames m"
  using assms front_least[OF assms(1)]
  by (force simp: StartDispatcherTimer_def armed_def Front_Some max_def split: option.splits)

lemma timing_inv_tick:
  assumes heap: "timer_heap (m_timerQueue m)" and post: "m_usePostForRendering m"
    and using_frames: "m_usingRendering m \<longrightarrow> 0 < frames m"
    and tick: "OnTick True now now' m = Some (m', ids)"
  shows "timing_inv m' now'"
proof -
  obtain q ready e where loop: "tick_loop now (m_timerQueue m) [] False = Some (q, ready, e)"
    using tick by (auto simp: OnTick_def split: option.splits)
  have "\<forall>t \<in> set (m_timerQueue m). due now t \<longrightarrow> regular now t"
    using tick_loop_returns[OF loop] heap by blast
  from tick_loop_spec[OF heap this, of "[]" False] loop have q: "timer_heap q" by auto
  let ?m = "m\<lparr>m_timerQueue := q\<rparr>"
  show ?thesis
  proof (cases "q = []")
    case True
    then show ?thesis
      using tick loop q post by (auto simp: OnTick_def timing_inv_def StopTicks_def StopTimer_def)
  next
    case False
    show ?thesis
    proof (cases "m_usingRendering m \<and> e")
      case True
      then show ?thesis
        using tick loop q post False by (auto simp: OnTick_def timing_inv_def PostRenderFrame_def)
    next
      case False
      then have "StartDispatcherTimer now' ?m = Some m'"
        using tick loop \<open>q \<noteq> []\<close> by (auto simp: OnTick_def)
      from StartDispatcherTimer_armed[OF _ this] show ?thesis
        using q post by (simp add: timing_inv_def)
    qed
  qed
qed

lemma timing_inv_create:
  assumes inv: "timing_inv m clock" and create: "createTimerOnQueue True now i duration js repeat m = Some (m', ids)"
    and "clock \<le> now"
  shows "timing_inv m' now"
proof (cases "deq duration dzero \<and> \<not> repeat")
  case True
  then show ?thesis
    using assms armed_later[of m clock now] by (auto simp: createTimerOnQueue_def timing_inv_def)
next
  case False
  then obtain p s where ps: "TimeSpanFromMs duration = Some p"
      "TimeSpanFromMs (dadd js (double_of_int msFrom1601to1970)) = Some s" and range: "in_int64 (s + p)"
    using create by (auto simp: createTimerOnQueue_def split: option.splits if_splits)
  let ?q = "TimerQueue_Push i (s + p) p repeat (m_timerQueue m)"
  let ?m = "m\<lparr>m_timerQueue := ?q\<rparr>"
  have heap: "timer_heap ?q" and ne: "?q \<noteq> []"
    using inv Push_spec Push_nonempty by (auto simp: timing_inv_def)
  have set_q: "set ?q = insert \<lparr>Id = i, TargetTime = s + p, Period = p, Repeat = repeat\<rparr> (set (m_timerQueue m))"
    using Push_spec[of "m_timerQueue m" i "s + p" p repeat] inv
    by (metis set_mset_add_mset_insert set_mset_mset timing_inv_def)
  consider (rendering) "m_usingRendering m" "m' = ?m"
    | (frame) "\<not> m_usingRendering m" "m' = StartRendering True ?m"
    | (start) "\<not> m_usingRendering m" "StartDispatcherTimer now ?m = Some m'"
    | (keep) "\<not> m_usingRendering m" "m' = ?m" "TargetTime (hd ?q) < s + p"
    using create False ps range ne
    by (auto simp: createTimerOnQueue_def Front_None Front_Some Let_def split: if_splits option.splits)
  then show ?thesis
  proof cases
    case rendering
    then show ?thesis using inv heap by (simp add: timing_inv_def)
  next
    case frame
    then show ?thesis using inv heap
      by (auto simp: timing_inv_def StartRendering_def StopTimer_def PostRenderFrame_def)
  next
    case start
    from StartDispatcherTimer_armed[OF _ start(2)] show ?thesis using inv heap by (simp add: timing_inv_def)
  next
    case keep
    have hd_q: "hd ?q \<in> set (m_timerQueue m)" using ne keep(3) set_q hd_in_set[of ?q] by auto
    then have "m_timerQueue m \<noteq> []" by auto
    then have "0 < frames m \<or> armed m now" using inv armed_later assms(3) by (auto simp: timing_inv_def)
    moreover have "armed ?m now" if arm: "armed m now"
    proof -
      obtain d where "m_dispatcherQueueTimer m = Some d" "running d"
          "\<forall>t \<in> set (m_timerQueue m). fires_at d \<le> max (TargetTime t) now"
        using arm by (auto simp: armed_def)
      moreover from this have "fires_at d \<le> max (s + p) now" using hd_q keep(3) by force
      ultimately show ?thesis by (simp add: armed_def set_q)
    qed
    ultimately show ?thesis using inv keep heap by (auto simp: timing_inv_def)
  qed
qed

lemma armed_subset: "armed m clock \<Longrightarrow> set q \<subseteq> set (m_timerQueue m) \<Longrightarrow> armed (m\<lparr>m_timerQueue := q\<rparr>) clock"
  by (fastforce simp: armed_def)

lemma timing_inv_delete: "timing_inv m clock \<Longrightarrow> timing_inv (deleteTimerOnQueue i m) clock"
  using Remove_spec[of i "m_timerQueue m"] set_Remove[of i "m_timerQueue m"] armed_subset[of m clock]
  by (auto simp: timing_inv_def deleteTimerOnQueue_def StopTicks_def StopTimer_def Let_def)

lemma timing_inv_step: "timing_step s s' \<Longrightarrow> timing_inv (fst s) (snd s) \<Longrightarrow> timing_inv (fst s') (snd s')"
proof (induction rule: timing_step.induct)
  case (create now i duration js repeat m m' ids clock)
  then show ?case by (auto intro: timing_inv_create)
next
  case (delete m clock i)
  then show ?case by (simp add: timing_inv_delete)
next
  case (tick m d now now' m' ids clock)
  then show ?case by (auto simp: timing_inv_def[of m] intro: timing_inv_tick)
next
  case (frame m now now' m' ids clock)
  then show ?case
    unfolding OnRenderFrame_def by (auto simp: timing_inv_def[of m] intro: timing_inv_tick[rotated 3])
next
  case (detach m clock)
  then show ?case by (simp add: timing_inv_def DetachBridgeless_def armed_def)
qed

lemma timing_inv_reachable: "timing_reachable m clock \<Longrightarrow> timing_inv m clock"
proof -
  assume "timing_reachable m clock"
  then obtain listener start where "timing_step\<^sup>*\<^sup>* (Timing_Initialize listener, start) (m, clock)"
    by (auto simp: timing_reachable_def)
  moreover have "timing_inv (Timing_Initialize listener) start"
    by (simp add: timing_inv_def Timing_Initialize_def is_heap_def)
  ultimately have "timing_inv (fst (m, clock)) (snd (m, clock))"
    by (induction rule: rtranclp_induct) (auto intro: timing_inv_step)
  then show "timing_inv m clock" by simp
qed

lemma OnTick_fires:
  assumes heap: "timer_heap (m_timerQueue m)" and tick: "OnTick alive now now' m = Some (m', ids)"
  shows "\<exists>ts. ids = (if listening m then map Id ts else []) \<and>
    mset ts = filter_mset (due now) (mset (m_timerQueue m)) \<and> sorted (map TargetTime ts) \<and>
    timer_heap (m_timerQueue m') \<and>
    mset (m_timerQueue m') = filter_mset (\<lambda>t. \<not> due now t) (mset (m_timerQueue m)) +
      image_mset (renew now) (filter_mset Repeat (filter_mset (due now) (mset (m_timerQueue m))))"
proof -
  obtain q ready e where loop: "tick_loop now (m_timerQueue m) [] False = Some (q, ready, e)"
    using tick by (auto simp: OnTick_def split: option.splits)
  have out: "m_timerQueue m' = q" "ids = (if listening m then ready else [])"
    using tick loop by (auto simp: OnTick_def StopTicks_def StopTimer_def PostRenderFrame_def StartDispatcherTimer_def
        Let_def split: if_splits option.splits)
  have "\<forall>t \<in> set (m_timerQueue m). due now t \<longrightarrow> regular now t"
    using tick_loop_returns[OF loop] heap by blast
  from tick_loop_spec[OF heap this, of "[]" False] loop out show ?thesis by auto
qed

section \<open>Properties\<close>

text \<open>
  C19: A tick fires exactly the timers whose target time has passed, each once and in the order of
  their target times, and keeps the others; a repeating timer comes back one period from now. The
  tick returns unless a repeating timer that has come due has a negative period, with which its
  loop never ends, or a period so long that the next target time overflows.
\<close>

theorem timer_tick_fires_due:
  assumes "timer_heap (m_timerQueue m)"
  shows "(OnTick alive now now' m = None \<longleftrightarrow>
      (\<exists>t \<in> set (m_timerQueue m). TargetTime t < now \<and> Repeat t \<and> (Period t < 0 \<or> \<not> in_int64 (now + Period t)))) \<and>
    (\<forall>m' ids. OnTick alive now now' m = Some (m', ids) \<longrightarrow>
      (\<exists>ts. ids = (if listening m then map Id ts else []) \<and>
        mset ts = filter_mset (\<lambda>t. TargetTime t < now) (mset (m_timerQueue m)) \<and> sorted (map TargetTime ts) \<and>
        mset (m_timerQueue m') = filter_mset (\<lambda>t. \<not> TargetTime t < now) (mset (m_timerQueue m)) +
          image_mset (\<lambda>t. t\<lparr>TargetTime := now + Period t\<rparr>)
            (filter_mset Repeat (filter_mset (\<lambda>t. TargetTime t < now) (mset (m_timerQueue m))))))"
proof -
  have rewrite: "due now = (\<lambda>t. TargetTime t < now)" "renew now = (\<lambda>t. t\<lparr>TargetTime := now + Period t\<rparr>)"
    by (auto simp: due_def renew_def)
  have returns: "OnTick alive now now' m = None \<longleftrightarrow>
      (\<exists>t \<in> set (m_timerQueue m). TargetTime t < now \<and> Repeat t \<and> (Period t < 0 \<or> \<not> in_int64 (now + Period t)))"
    using OnTick_None_iff[OF assms, of alive now now'] by (auto simp: due_def regular_def)
  have fires: "\<exists>ts. ids = (if listening m then map Id ts else []) \<and>
      mset ts = filter_mset (\<lambda>t. TargetTime t < now) (mset (m_timerQueue m)) \<and> sorted (map TargetTime ts) \<and>
      mset (m_timerQueue m') = filter_mset (\<lambda>t. \<not> TargetTime t < now) (mset (m_timerQueue m)) +
        image_mset (\<lambda>t. t\<lparr>TargetTime := now + Period t\<rparr>)
          (filter_mset Repeat (filter_mset (\<lambda>t. TargetTime t < now) (mset (m_timerQueue m))))"
    if "OnTick alive now now' m = Some (m', ids)" for m' ids
    using OnTick_fires[OF assms that] unfolding rewrite by blast
  show ?thesis using returns fires by blast
qed

definition two_timers :: timing where
  "two_timers = (Timing_Initialize True)\<lparr>m_timerQueue :=
     [\<lparr>Id = 7, TargetTime = 5, Period = 20, Repeat = True\<rparr>, \<lparr>Id = 8, TargetTime = 90, Period = 50, Repeat = False\<rparr>]\<rparr>"

theorem timer_tick_fires_due_witness:
  "timer_heap (m_timerQueue two_timers) \<and> (\<exists>m'. OnTick True 10 11 two_timers = Some (m', [7]))"
proof -
  have heap: "timer_heap (m_timerQueue two_timers)"
    by (auto simp: two_timers_def is_heap_def parent_def less_Suc_eq)
  have "OnTick True 10 11 two_timers \<noteq> None"
    using timer_tick_fires_due[OF heap, of True 10 11] by (auto simp: two_timers_def in_int64_def)
  then obtain m' ids where tick: "OnTick True 10 11 two_timers = Some (m', ids)" by auto
  then obtain ts where "ids = map Id ts" "mset ts = {#\<lparr>Id = 7, TargetTime = 5, Period = 20, Repeat = True\<rparr>#}"
    using timer_tick_fires_due[OF heap, of True 10 11] by (auto simp: two_timers_def Timing_Initialize_def)
  then show ?thesis using heap tick by auto
qed

text \<open>
  In every life of the module, as long as there are timers a render frame is posted or the
  dispatcher timer runs, set to tick no later than the earliest timer is due, or than the last
  time the clock was read when that is past.
\<close>

theorem timers_always_ticking:
  assumes "timing_reachable m clock" and "m_timerQueue m \<noteq> []"
  shows "0 < frames m \<or> (\<exists>d. m_dispatcherQueueTimer m = Some d \<and> running d \<and>
    (\<forall>t \<in> set (m_timerQueue m). fires_at d \<le> max (TargetTime t) clock))"
  using timing_inv_reachable[OF assms(1)] assms(2) by (auto simp: timing_inv_def armed_def)

theorem timers_always_ticking_witness:
  "\<exists>m. timing_reachable m 3 \<and> m_timerQueue m \<noteq> [] \<and>
     (0 < frames m \<or> (\<exists>d. m_dispatcherQueueTimer m = Some d \<and> running d \<and>
       (\<forall>t \<in> set (m_timerQueue m). fires_at d \<le> max (TargetTime t) 3)))"
proof -
  have span: "TimeSpanFromMs (Finite False 5 0) = Some 50000"
      "TimeSpanFromMs (dadd (Finite False 1 0) (double_of_int msFrom1601to1970)) = Some 116444736000010000"
    by (simp_all add: TimeSpanFromMs_def int64_of_double_def in_int64_def msFrom1601to1970_def double_of_int_def
        to_double_def to_binary64_def round_fp_def ilog2_def ge_pow2_def round_div_def Let_def)
  let ?t = "\<lparr>Id = 7, TargetTime = 116444736000060000, Period = 50000, Repeat = False\<rparr>"
  have "push_heap TargetTime [?t] = [?t]"
    by (simp add: push_heap_def sift_up.simps)
  then have "\<exists>m'. createTimerOnQueue True 3 7 (Finite False 5 0) (Finite False 1 0) False (Timing_Initialize True) = Some (m', []) \<and>
      m_timerQueue m' = [?t]"
    using span by (simp add: createTimerOnQueue_def Timing_Initialize_def TimerQueue_Push_def in_int64_def
        IsAnimationFrameRequest_def TimerQueue_Front_def StartDispatcherTimer_def)
  then obtain m' where m': "timing_step (Timing_Initialize True, 0) (m', 3)" "m_timerQueue m' \<noteq> []"
    using timing_step.create[of 3 7 _ _ False "Timing_Initialize True" _ _ 0] by fastforce
  then have "timing_reachable m' 3" unfolding timing_reachable_def by blast
  with m'(2) timers_always_ticking[of m' 3] show ?thesis by blast
qed

end
