(* ===== verification/Notifications.thy ===== *)
theory Notifications
  imports Prelude
begin

text \<open>
  The notification service (\<^verbatim>\<open>Microsoft.ReactNative/IReactNotificationService.h\<close> and \<^verbatim>\<open>.cpp\<close>):
  services form trees, a subscription to a service is registered through views in all its
  ancestors, and notifications are sent from the root. Objects are numbered in the order of their
  creation and stay in the state once made; names and handlers are numbers.
\<close>

section \<open>State\<close>

text \<open>
  An entry is a subscription (\<open>e_child = None\<close>) or a view on the entry of a child service.
  \<open>e_handler\<close> is \<^verbatim>\<open>m_handler\<close> of a subscription, \<open>e_isSubscribed\<close> belongs to a view, \<open>e_name\<close> to a
  subscription. \<open>e_posts\<close> says that the handler is called through a dispatcher.
\<close>

record entry =
  e_service :: nat
  e_parent :: "nat option"
  e_child :: "nat option"
  e_name :: nat
  e_posts :: bool
  e_handler :: "nat option"
  e_isSubscribed :: bool

record service =
  s_parent :: "nat option"
  s_subscriptions :: "(nat \<times> nat list) list"
  s_alive :: bool

record notifier =
  services :: "nat \<rightharpoonup> service"
  entries :: "nat \<rightharpoonup> entry"
  next_service :: nat
  next_entry :: nat

definition notifier_empty :: notifier where
  "notifier_empty = \<lparr>services = Map.empty, entries = Map.empty, next_service = 0, next_entry = 0\<rparr>"

definition snapshot :: "notifier \<Rightarrow> nat \<Rightarrow> nat \<Rightarrow> nat list" where
  "snapshot st s n = (case services st s of
     None \<Rightarrow> [] | Some v \<Rightarrow> (case map_of (s_subscriptions v) n of None \<Rightarrow> [] | Some is \<Rightarrow> is))"

definition set_entry :: "nat \<Rightarrow> (entry \<Rightarrow> entry) \<Rightarrow> notifier \<Rightarrow> notifier" where
  "set_entry i f st = st\<lparr>entries := (entries st)(i := map_option f (entries st i))\<rparr>"

section \<open>Operations\<close>

definition NotificationService_new :: "nat option \<Rightarrow> notifier \<Rightarrow> notifier \<times> nat" where
  "NotificationService_new parent st =
     (let s = next_service st
      in (st\<lparr>services := (services st)(s \<mapsto> \<lparr>s_parent = parent, s_subscriptions = [], s_alive = True\<rparr>),
             next_service := s + 1\<rparr>, s))"

text \<open>
  The successful round of \<^verbatim>\<open>ModifySubscriptions\<close>; the rounds that lose against another thread are
  treated below.
\<close>

definition new_subscriptions :: "nat \<Rightarrow> (nat list \<Rightarrow> nat list) \<Rightarrow> (nat \<times> nat list) list \<Rightarrow> (nat \<times> nat list) list" where
  "new_subscriptions n modifySnapshot subs =
     (let newSnapshot = modifySnapshot (case map_of subs n of None \<Rightarrow> [] | Some is \<Rightarrow> is)
      in if newSnapshot = [] then erase_key n subs else insert_or_assign n newSnapshot subs)"

definition ModifySubscriptions :: "nat \<Rightarrow> nat \<Rightarrow> (nat list \<Rightarrow> nat list) \<Rightarrow> notifier \<Rightarrow> notifier" where
  "ModifySubscriptions s n f st =
     st\<lparr>services := (services st)(s := map_option (\<lambda>v. v\<lparr>s_subscriptions := new_subscriptions n f (s_subscriptions v)\<rparr>) (services st s))\<rparr>"

definition AddSubscription :: "nat \<Rightarrow> nat \<Rightarrow> nat \<Rightarrow> notifier \<Rightarrow> notifier" where
  "AddSubscription s n i st = ModifySubscriptions s n (\<lambda>is. is @ [i]) st"

definition parent_of :: "notifier \<Rightarrow> nat \<Rightarrow> nat option" where
  "parent_of st s = (case services st s of None \<Rightarrow> None | Some v \<Rightarrow> s_parent v)"

definition add_entry :: "entry \<Rightarrow> notifier \<Rightarrow> notifier \<times> nat" where
  "add_entry e st = (st\<lparr>entries := (entries st)(next_entry st \<mapsto> e), next_entry := next_entry st + 1\<rparr>, next_entry st)"

text \<open>
  \<^verbatim>\<open>AddSubscriptionToParent\<close> and \<^verbatim>\<open>AddSubscriptionFromChild\<close> call each other up the tree; a parent
  exists before its children, so that its number is smaller.
\<close>

definition add_view :: "nat \<Rightarrow> nat \<Rightarrow> nat \<Rightarrow> notifier \<Rightarrow> notifier \<times> nat" where
  "add_view p n i st =
     (let (st1, j) = add_entry \<lparr>e_service = p, e_parent = None, e_child = Some i, e_name = n, e_posts = False,
            e_handler = None, e_isSubscribed = True\<rparr> st;
          st2 = set_entry i (\<lambda>e. e\<lparr>e_parent := Some j\<rparr>) st1
      in (AddSubscription p n j st2, j))"

function AddSubscriptionToParent :: "nat \<Rightarrow> nat \<Rightarrow> nat \<Rightarrow> notifier \<Rightarrow> notifier" where
  "AddSubscriptionToParent s n i st = (case parent_of st s of
     None \<Rightarrow> st
   | Some p \<Rightarrow> if p < s then (case add_view p n i st of (st', j) \<Rightarrow> AddSubscriptionToParent p n j st') else st)"
  by pat_completeness auto
termination by (relation "measure (\<lambda>(s, n, i, st). s)") auto

declare AddSubscriptionToParent.simps [simp del]

definition Subscribe :: "nat \<Rightarrow> nat \<Rightarrow> bool \<Rightarrow> nat \<Rightarrow> notifier \<Rightarrow> notifier \<times> nat" where
  "Subscribe s n posts handler st =
     (let (st1, i) = add_entry \<lparr>e_service = s, e_parent = None, e_child = None, e_name = n, e_posts = posts,
            e_handler = Some handler, e_isSubscribed = False\<rparr> st
      in (AddSubscriptionToParent s n i (AddSubscription s n i st1), i))"

text \<open>\<^verbatim>\<open>NotificationName\<close> of a view asks the child.\<close>

function leaf :: "notifier \<Rightarrow> nat \<Rightarrow> nat" where
  "leaf st i = (case entries st i of
     None \<Rightarrow> i
   | Some e \<Rightarrow> (case e_child e of None \<Rightarrow> i | Some c \<Rightarrow> if c < i then leaf st c else i))"
  by pat_completeness auto
termination by (relation "measure (\<lambda>(st, i). i)") auto

declare leaf.simps [simp del]

definition NotificationName :: "notifier \<Rightarrow> nat \<Rightarrow> nat" where
  "NotificationName st i = (case entries st (leaf st i) of None \<Rightarrow> 0 | Some e \<Rightarrow> e_name e)"

definition service_Unsubscribe :: "nat \<Rightarrow> nat \<Rightarrow> notifier \<Rightarrow> notifier" where
  "service_Unsubscribe s i st = ModifySubscriptions s (NotificationName st i) (remove1 i) st"

text \<open>The part of \<^verbatim>\<open>Unsubscribe\<close> of a subscription or a view that follows the call to the parent.\<close>

definition unsubscribe_here :: "nat \<Rightarrow> notifier \<Rightarrow> notifier" where
  "unsubscribe_here i st = (case entries st i of
     None \<Rightarrow> st
   | Some e \<Rightarrow>
       (let isSubscribed = (if e_child e = None then e_handler e \<noteq> None else e_isSubscribed e);
            st1 = set_entry i (\<lambda>e. e\<lparr>e_handler := None, e_isSubscribed := False\<rparr>) st
        in if isSubscribed \<and> (case services st (e_service e) of None \<Rightarrow> False | Some v \<Rightarrow> s_alive v)
           then service_Unsubscribe (e_service e) i st1 else st1))"

function Unsubscribe :: "nat \<Rightarrow> notifier \<Rightarrow> notifier" where
  "Unsubscribe i st = (case entries st i of
     None \<Rightarrow> st
   | Some e \<Rightarrow> (case e_parent e of
       None \<Rightarrow> unsubscribe_here i st
     | Some p \<Rightarrow> if i < p \<and> p < next_entry st then unsubscribe_here i (Unsubscribe p st) else st))"
  by pat_completeness auto
termination by (relation "measure (\<lambda>(i, st). next_entry st - i)") auto

declare Unsubscribe.simps [simp del]

definition UnsubscribeAll :: "nat \<Rightarrow> notifier \<Rightarrow> notifier" where
  "UnsubscribeAll s st = (case services st s of
     None \<Rightarrow> st
   | Some v \<Rightarrow>
       fold Unsubscribe (concat (map snd (s_subscriptions v)))
         (st\<lparr>services := (services st)(s \<mapsto> v\<lparr>s_subscriptions := []\<rparr>)\<rparr>))"

definition NotificationService_destroy :: "nat \<Rightarrow> notifier \<Rightarrow> notifier" where
  "NotificationService_destroy s st =
     (let st1 = UnsubscribeAll s st
      in st1\<lparr>services := (services st1)(s := map_option (\<lambda>v. v\<lparr>s_alive := False\<rparr>) (services st1 s))\<rparr>)"

text \<open>
  \<^verbatim>\<open>CallHandler\<close>: a view passes the call down. The result is the handler and whether it is called
  through a dispatcher.
\<close>

definition CallHandler :: "notifier \<Rightarrow> nat \<Rightarrow> (nat \<times> bool) list" where
  "CallHandler st i = (case entries st (leaf st i) of
     None \<Rightarrow> []
   | Some e \<Rightarrow> (case e_handler e of None \<Rightarrow> [] | Some h \<Rightarrow> [(h, e_posts e)]))"

function SendNotification :: "nat \<Rightarrow> nat \<Rightarrow> notifier \<Rightarrow> (nat \<times> bool) list" where
  "SendNotification s n st = (case parent_of st s of
     Some p \<Rightarrow> if p < s then SendNotification p n st else []
   | None \<Rightarrow> concat (map (CallHandler st) (snapshot st s n)))"
  by pat_completeness auto
termination by (relation "measure (\<lambda>(s, n, st). s)") auto

declare SendNotification.simps [simp del]

section \<open>Well-formed notifiers\<close>

definition subscribed :: "notifier \<Rightarrow> nat \<Rightarrow> bool" where
  "subscribed st i = (case entries st i of None \<Rightarrow> False
     | Some e \<Rightarrow> if e_child e = None then e_handler e \<noteq> None else e_isSubscribed e)"

definition alive :: "notifier \<Rightarrow> nat \<Rightarrow> bool" where
  "alive st s = (case services st s of None \<Rightarrow> False | Some v \<Rightarrow> s_alive v)"

text \<open>The links between the entries and the services.\<close>

definition wf_entry :: "notifier \<Rightarrow> nat \<Rightarrow> entry \<Rightarrow> bool" where
  "wf_entry st i e \<longleftrightarrow> i < next_entry st \<and> services st (e_service e) \<noteq> None \<and>
     (\<forall>c. e_child e = Some c \<longrightarrow> c < i \<and> (\<exists>d. entries st c = Some d \<and> e_parent d = Some i)) \<and>
     (\<forall>p. e_parent e = Some p \<longrightarrow> i < p \<and> (\<exists>d. entries st p = Some d \<and> e_child d = Some i \<and>
        parent_of st (e_service e) = Some (e_service d)))"

definition wf_entries :: "notifier \<Rightarrow> bool" where
  "wf_entries st \<longleftrightarrow> (\<forall>i e. entries st i = Some e \<longrightarrow> wf_entry st i e)"

definition wf_services :: "notifier \<Rightarrow> bool" where
  "wf_services st \<longleftrightarrow> (\<forall>s v. services st s = Some v \<longrightarrow> s < next_service st \<and> smap (s_subscriptions v) \<and>
     (\<forall>p. s_parent v = Some p \<longrightarrow> p < s \<and> services st p \<noteq> None \<and> (s_alive v \<longrightarrow> alive st p)))"

definition wf_lists :: "notifier \<Rightarrow> bool" where
  "wf_lists st \<longleftrightarrow> (\<forall>s n. distinct (snapshot st s n) \<and> (\<forall>i \<in> set (snapshot st s n).
     (\<exists>e. entries st i = Some e \<and> e_service e = s) \<and> NotificationName st i = n \<and> subscribed st i \<and> alive st s))"

text \<open>Between the operations every entry of a service with a parent has a view there.\<close>

definition linked :: "notifier \<Rightarrow> bool" where
  "linked st \<longleftrightarrow> (\<forall>i e. entries st i = Some e \<longrightarrow> e_parent e = None \<longrightarrow> parent_of st (e_service e) = None)"

definition wf_notifier :: "notifier \<Rightarrow> bool" where
  "wf_notifier st \<longleftrightarrow> wf_entries st \<and> wf_services st \<and> wf_lists st \<and> linked st"

section \<open>Snapshots\<close>

lemma map_of_new_subscriptions:
  "smap subs \<Longrightarrow> (case map_of (new_subscriptions n f subs) m of None \<Rightarrow> [] | Some is \<Rightarrow> is) =
     (if m = n then f (case map_of subs n of None \<Rightarrow> [] | Some is \<Rightarrow> is)
      else (case map_of subs m of None \<Rightarrow> [] | Some is \<Rightarrow> is))"
  by (auto simp: new_subscriptions_def Let_def map_of_erase_key map_of_insert_or_assign)

lemma smap_new_subscriptions: "smap subs \<Longrightarrow> smap (new_subscriptions n f subs)"
  by (auto simp: new_subscriptions_def Let_def)

lemma snapshot_Modify:
  assumes "wf_services st" and "services st s \<noteq> None"
  shows "snapshot (ModifySubscriptions s n f st) s' n' =
    (if s' = s \<and> n' = n then f (snapshot st s n) else snapshot st s' n')"
  using assms map_of_new_subscriptions
  by (auto simp: snapshot_def ModifySubscriptions_def wf_services_def)

lemma Modify_simps [simp]:
  "entries (ModifySubscriptions s n f st) = entries st"
  "next_entry (ModifySubscriptions s n f st) = next_entry st"
  "next_service (ModifySubscriptions s n f st) = next_service st"
  "parent_of (ModifySubscriptions s n f st) = parent_of st"
  "alive (ModifySubscriptions s n f st) = alive st"
  "services (ModifySubscriptions s n f st) s' = None \<longleftrightarrow> services st s' = None"
  by (auto simp: ModifySubscriptions_def parent_of_def alive_def fun_eq_iff split: option.splits)

lemma wf_services_Modify:
  assumes "wf_services st" shows "wf_services (ModifySubscriptions s n f st)"
proof -
  have "alive (ModifySubscriptions s n f st) = alive st" by simp
  then show ?thesis
    using assms smap_new_subscriptions
    by (fastforce simp: wf_services_def ModifySubscriptions_def split: if_splits)
qed

lemma set_entry_simps [simp]:
  "services (set_entry i f st) = services st" "next_entry (set_entry i f st) = next_entry st"
  "next_service (set_entry i f st) = next_service st" "snapshot (set_entry i f st) = snapshot st"
  "parent_of (set_entry i f st) = parent_of st" "alive (set_entry i f st) = alive st"
  by (simp_all add: set_entry_def snapshot_def parent_of_def alive_def fun_eq_iff)

section \<open>States of the same shape\<close>

text \<open>Two states with the same objects and links, which differ in what is subscribed.\<close>

definition same_links :: "notifier \<Rightarrow> notifier \<Rightarrow> bool" where
  "same_links st st' \<longleftrightarrow> next_entry st' = next_entry st \<and>
     (\<forall>i. map_option (\<lambda>e. e\<lparr>e_handler := None, e_isSubscribed := False\<rparr>) (entries st' i) =
          map_option (\<lambda>e. e\<lparr>e_handler := None, e_isSubscribed := False\<rparr>) (entries st i)) \<and>
     parent_of st' = parent_of st \<and> alive st' = alive st \<and> (\<forall>s. services st' s = None \<longleftrightarrow> services st s = None)"

lemma same_links_refl: "same_links st st"
  by (simp add: same_links_def)

lemma same_links_trans: "same_links st st' \<Longrightarrow> same_links st' st'' \<Longrightarrow> same_links st st''"
  by (auto simp: same_links_def)

lemma same_links_entry:
  assumes "same_links st st'" and "entries st i = Some e"
  shows "\<exists>e'. entries st' i = Some e' \<and> e_service e' = e_service e \<and> e_parent e' = e_parent e \<and>
    e_child e' = e_child e \<and> e_name e' = e_name e \<and> e_posts e' = e_posts e"
proof -
  have "map_option (\<lambda>e. e\<lparr>e_handler := None, e_isSubscribed := False\<rparr>) (entries st' i) =
      Some (e\<lparr>e_handler := None, e_isSubscribed := False\<rparr>)"
    using assms by (auto simp: same_links_def)
  then obtain e' where "entries st' i = Some e'" "e'\<lparr>e_handler := None, e_isSubscribed := False\<rparr> =
      e\<lparr>e_handler := None, e_isSubscribed := False\<rparr>" by auto
  then show ?thesis by (cases e; cases e') simp
qed

lemma same_links_None: "same_links st st' \<Longrightarrow> entries st' i = None \<longleftrightarrow> entries st i = None"
  unfolding same_links_def by (metis option.map_disc_iff)

lemma same_links_leaf: "same_links st st' \<Longrightarrow> leaf st' i = leaf st i"
proof (induction st i rule: leaf.induct)
  case (1 st i)
  show ?case
  proof (cases "entries st i")
    case None
    then show ?thesis using same_links_None[OF 1(2), of i] by (simp add: leaf.simps)
  next
    case (Some e)
    then obtain e' where "entries st' i = Some e'" "e_child e' = e_child e"
      using same_links_entry[OF 1(2) Some] by blast
    then show ?thesis using Some 1 by (simp add: leaf.simps[of _ i] split: option.splits)
  qed
qed

lemma same_links_name: "same_links st st' \<Longrightarrow> NotificationName st' i = NotificationName st i"
  using same_links_leaf[of st st' i] same_links_entry[of st st' "leaf st i"] same_links_None[of st st' "leaf st i"]
  by (fastforce simp: NotificationName_def split: option.splits)

lemma same_links_wf_entries:
  assumes same: "same_links st st'" and wf: "wf_entries st"
  shows "wf_entries st'"
  unfolding wf_entries_def
proof (intro allI impI)
  fix i e' assume e': "entries st' i = Some e'"
  then obtain e where e: "entries st i = Some e" using same_links_None[OF same, of i] by fastforce
  then have w: "wf_entry st i e" using wf by (simp add: wf_entries_def)
  have eq: "e_service e' = e_service e" "e_parent e' = e_parent e" "e_child e' = e_child e"
    using same_links_entry[OF same e] e' by auto
  show "wf_entry st' i e'"
    using w same same_links_entry[OF same] unfolding wf_entry_def eq same_links_def by metis
qed

lemma same_links_linked: "same_links st st' \<Longrightarrow> linked st \<Longrightarrow> linked st'"
  unfolding linked_def
proof (intro allI impI)
  fix i e' assume same: "same_links st st'" and linked: "\<forall>i e. entries st i = Some e \<longrightarrow> e_parent e = None \<longrightarrow> parent_of st (e_service e) = None"
    and e': "entries st' i = Some e'" "e_parent e' = None"
  then obtain e where e: "entries st i = Some e" using same_links_None[OF same, of i] by fastforce
  then show "parent_of st' (e_service e') = None"
    using linked e' same_links_entry[OF same e] same by (auto simp: same_links_def)
qed

section \<open>Unsubscribing\<close>

text \<open>The entries above an entry, itself first.\<close>

function chain :: "notifier \<Rightarrow> nat \<Rightarrow> nat list" where
  "chain st i = (case entries st i of
     None \<Rightarrow> []
   | Some e \<Rightarrow> i # (case e_parent e of None \<Rightarrow> [] | Some p \<Rightarrow> if i < p \<and> p < next_entry st then chain st p else []))"
  by pat_completeness auto
termination by (relation "measure (\<lambda>(st, i). next_entry st - i)") auto

declare chain.simps [simp del]

lemma wf_parent:
  assumes "wf_entries st" "entries st i = Some e" "e_parent e = Some p"
  shows "i < p \<and> p < next_entry st \<and> (\<exists>d. entries st p = Some d \<and> e_child d = Some i \<and>
    parent_of st (e_service e) = Some (e_service d))"
proof -
  have "wf_entry st i e" using assms by (simp add: wf_entries_def)
  then obtain d where d: "i < p" "entries st p = Some d" "e_child d = Some i"
      "parent_of st (e_service e) = Some (e_service d)"
    using assms(3) by (auto simp: wf_entry_def)
  then have "wf_entry st p d" using assms(1) by (simp add: wf_entries_def)
  with d show ?thesis by (auto simp: wf_entry_def)
qed

lemma Unsubscribe_chain: "wf_entries st \<Longrightarrow> Unsubscribe i st = foldr unsubscribe_here (chain st i) st"
proof (induction st i rule: chain.induct)
  case (1 st i)
  show ?case
  proof (cases "entries st i")
    case None
    then show ?thesis by (simp add: chain.simps Unsubscribe.simps)
  next
    case (Some e)
    show ?thesis
    proof (cases "e_parent e")
      case None
      then show ?thesis using Some by (simp add: chain.simps Unsubscribe.simps)
    next
      case (Some p)
      then have "i < p" "p < next_entry st"
        using wf_parent[OF 1(2) \<open>entries st i = Some e\<close>] by auto
      then show ?thesis
        using 1 \<open>entries st i = Some e\<close> Some by (simp add: chain.simps[of st i] Unsubscribe.simps[of i st])
    qed
  qed
qed

lemma clear_twice [simp]:
  "map_option (\<lambda>e. e\<lparr>e_handler := None, e_isSubscribed := False\<rparr>)
     (map_option (\<lambda>e. e\<lparr>e_handler := None, e_isSubscribed := False\<rparr>) x) =
   map_option (\<lambda>e. e\<lparr>e_handler := None, e_isSubscribed := False\<rparr>) x"
  by (cases x) auto

lemma unsubscribe_here_links: "same_links st (unsubscribe_here i st)"
  by (auto simp: same_links_def unsubscribe_here_def service_Unsubscribe_def Let_def split: option.splits)
    (auto simp: set_entry_def split: if_splits)

lemma unsubscribe_here_entry:
  "entries (unsubscribe_here i st) j =
     (if j = i then map_option (\<lambda>e. e\<lparr>e_handler := None, e_isSubscribed := False\<rparr>) (entries st i) else entries st j)"
  by (auto simp: unsubscribe_here_def service_Unsubscribe_def set_entry_def Let_def split: option.splits)

lemma wf_services_here: "wf_services st \<Longrightarrow> wf_services (unsubscribe_here i st)"
proof -
  assume "wf_services st"
  moreover from this have "wf_services (set_entry i f st)" for f
    by (simp add: wf_services_def)
  ultimately show ?thesis
    by (auto simp: unsubscribe_here_def service_Unsubscribe_def Let_def wf_services_Modify split: option.splits)
qed

lemma snapshot_here:
  assumes wf: "wf_services st" and lists: "wf_lists st" and i: "entries st i = Some e"
  shows "snapshot (unsubscribe_here i st) s n = remove1 i (snapshot st s n)"
proof -
  let ?st = "set_entry i (\<lambda>e. e\<lparr>e_handler := None, e_isSubscribed := False\<rparr>) st"
  have name: "NotificationName ?st i = NotificationName st i"
    by (rule same_links_name) (auto simp: same_links_def set_entry_def parent_of_def alive_def fun_eq_iff)
  have sub: "subscribed st i \<longleftrightarrow> (if e_child e = None then e_handler e \<noteq> None else e_isSubscribed e)"
    using i by (simp add: subscribed_def)
  have absent: "i \<notin> set (snapshot st s n)"
    if "s \<noteq> e_service e \<or> n \<noteq> NotificationName st i \<or> \<not> subscribed st i \<or> \<not> alive st (e_service e)"
    using lists i that by (fastforce simp: wf_lists_def)
  show ?thesis
  proof (cases "subscribed st i \<and> alive st (e_service e)")
    case True
    then have "unsubscribe_here i st = service_Unsubscribe (e_service e) i ?st"
      using i sub by (auto simp: unsubscribe_here_def alive_def Let_def split: option.splits)
    moreover have "wf_services ?st" "services ?st (e_service e) \<noteq> None"
      using wf True by (auto simp: wf_services_def alive_def split: option.splits)
    ultimately show ?thesis
      using absent snapshot_Modify[of ?st "e_service e" "NotificationName st i" "remove1 i" s n]
      by (auto simp: service_Unsubscribe_def name remove1_idem)
  next
    case False
    then have "unsubscribe_here i st = ?st"
      using i sub by (auto simp: unsubscribe_here_def alive_def Let_def split: option.splits)
    with absent False show ?thesis by (simp add: remove1_idem)
  qed
qed

lemma wf_lists_here:
  assumes wf: "wf_services st" and lists: "wf_lists st" and i: "entries st i = Some e"
  shows "wf_lists (unsubscribe_here i st)"
  unfolding wf_lists_def
proof (intro allI conjI ballI)
  fix s n
  note snap = snapshot_here[OF assms, of s n] and same = unsubscribe_here_links[of st i]
  show "distinct (snapshot (unsubscribe_here i st) s n)"
    using lists by (simp add: snap wf_lists_def distinct_remove1)
  fix j assume "j \<in> set (snapshot (unsubscribe_here i st) s n)"
  then have j: "j \<in> set (snapshot st s n)" "j \<noteq> i"
    using lists by (auto simp: snap wf_lists_def)
  then show "NotificationName (unsubscribe_here i st) j = n" "alive (unsubscribe_here i st) s"
    using lists same same_links_name[OF same, of j] by (auto simp: wf_lists_def same_links_def)
  show "\<exists>e. entries (unsubscribe_here i st) j = Some e \<and> e_service e = s" "subscribed (unsubscribe_here i st) j"
    using j lists by (auto simp: wf_lists_def unsubscribe_here_entry subscribed_def)
qed

text \<open>The effect of unsubscribing a list of entries.\<close>

lemma unsubscribe_entries:
  assumes "wf_entries st" "wf_services st" "wf_lists st" "\<forall>i \<in> set is. entries st i \<noteq> None"
  shows "let st' = foldr unsubscribe_here is st in same_links st st' \<and> wf_services st' \<and> wf_lists st' \<and>
    (\<forall>s n. snapshot st' s n = filter (\<lambda>j. j \<notin> set is) (snapshot st s n)) \<and>
    (\<forall>j. entries st' j = (if j \<in> set is then map_option (\<lambda>e. e\<lparr>e_handler := None, e_isSubscribed := False\<rparr>) (entries st j)
       else entries st j))"
  using assms
proof (induction "is")
  case Nil
  then show ?case by (simp add: same_links_refl)
next
  case (Cons i "is")
  define st1 where "st1 = foldr unsubscribe_here is st"
  have ih: "same_links st st1" "wf_services st1" "wf_lists st1"
      "\<And>s n. snapshot st1 s n = filter (\<lambda>j. j \<notin> set is) (snapshot st s n)"
      "\<And>j. entries st1 j = (if j \<in> set is then map_option (\<lambda>e. e\<lparr>e_handler := None, e_isSubscribed := False\<rparr>) (entries st j)
       else entries st j)"
    using Cons unfolding st1_def Let_def by auto
  obtain e where e: "entries st1 i = Some e" using same_links_None[OF ih(1), of i] Cons.prems(4) by auto
  have "snapshot (unsubscribe_here i st1) s n = filter (\<lambda>j. j \<notin> set (i # is)) (snapshot st s n)" for s n
  proof -
    have "distinct (snapshot st1 s n)" using ih(3) by (simp add: wf_lists_def)
    then show ?thesis
      using snapshot_here[OF ih(2,3) e, of s n]
      by (simp add: distinct_remove1_removeAll ih(4) removeAll_filter_not_eq conj_commute)
        (auto intro: filter_cong)
  qed
  moreover have "same_links st (unsubscribe_here i st1)"
    using same_links_trans[OF ih(1) unsubscribe_here_links] .
  moreover have "entries (unsubscribe_here i st1) j = (if j \<in> set (i # is)
      then map_option (\<lambda>e. e\<lparr>e_handler := None, e_isSubscribed := False\<rparr>) (entries st j) else entries st j)" for j
    by (auto simp: unsubscribe_here_entry ih(5))
  ultimately show ?case
    using wf_services_here[OF ih(2)] wf_lists_here[OF ih(2,3) e] unfolding Let_def by (simp flip: st1_def)
qed

section \<open>What is delivered\<close>

function root :: "notifier \<Rightarrow> nat \<Rightarrow> nat" where
  "root st s = (case parent_of st s of None \<Rightarrow> s | Some p \<Rightarrow> if p < s then root st p else s)"
  by pat_completeness auto
termination by (relation "measure (\<lambda>(st, s). s)") auto

declare root.simps [simp del]

lemma parent_service_less: "wf_services st \<Longrightarrow> parent_of st s = Some p \<Longrightarrow> p < s \<and> services st p \<noteq> None"
  by (auto simp: wf_services_def parent_of_def split: option.splits)

lemma root_is_root: "wf_services st \<Longrightarrow> parent_of st (root st s) = None"
proof (induction st s rule: root.induct)
  case (1 st s)
  then show ?case using parent_service_less[OF 1(2), of s] by (subst root.simps) (auto split: option.splits)
qed

lemma SendNotification_root:
  "wf_services st \<Longrightarrow> SendNotification s n st = concat (map (CallHandler st) (snapshot st (root st s) n))"
proof (induction st s rule: root.induct)
  case (1 st s)
  then show ?case using parent_service_less[OF 1(2), of s]
    by (subst SendNotification.simps, subst root.simps) (auto split: option.splits)
qed

lemma root_cong: "parent_of st' = parent_of st \<Longrightarrow> root st' s = root st s"
proof (induction st s rule: root.induct)
  case (1 st s)
  then show ?case by (simp add: root.simps[of _ s] split: option.splits)
qed

lemma leaf_leaf: "leaf st (leaf st i) = leaf st i"
proof (induction st i rule: leaf.induct)
  case (1 st i)
  then show ?case
    by (cases "\<exists>e c. entries st i = Some e \<and> e_child e = Some c \<and> c < i")
      (auto simp: leaf.simps[of st i] split: option.splits)
qed

lemma leaf_child: "wf_entries st \<Longrightarrow> entries st i = Some e \<Longrightarrow> e_child e = Some c \<Longrightarrow> leaf st i = leaf st c"
  by (auto simp: leaf.simps[of st i] wf_entries_def wf_entry_def)

lemma chain_parent:
  assumes "wf_entries st" "entries st i = Some e" "e_child e = Some c"
  shows "chain st c = c # chain st i"
proof -
  have "wf_entry st i e" using assms by (simp add: wf_entries_def)
  then obtain d where "c < i" "i < next_entry st" "entries st c = Some d" "e_parent d = Some i"
    using assms(3) by (auto simp: wf_entry_def)
  then show ?thesis by (simp add: chain.simps[of st c])
qed

lemma chain_leaf:
  "wf_entries st \<Longrightarrow> k \<in> set (chain st i) \<Longrightarrow> entries st k \<noteq> None \<and> leaf st k = leaf st i"
proof (induction st i rule: chain.induct)
  case (1 st i)
  obtain e where e: "entries st i = Some e" using 1(3) by (cases "entries st i") (auto simp: chain.simps[of st i])
  show ?case
  proof (cases "k = i")
    case False
    then obtain p where p: "e_parent e = Some p" "i < p" "p < next_entry st" "k \<in> set (chain st p)"
      using 1(3) e by (cases "e_parent e") (auto simp: chain.simps[of st i] split: if_splits)
    moreover obtain d where "entries st p = Some d" "e_child d = Some i"
      using wf_parent[OF 1(2) e p(1)] by blast
    ultimately show ?thesis using 1(1)[OF e p(1)] 1(2) leaf_child[OF 1(2)] by auto
  qed (use e in auto)
qed

text \<open>The chain of a subscription ends in the chain of each of its views.\<close>

lemma chain_of_leaf: "wf_entries st \<Longrightarrow> \<exists>pre. chain st (leaf st i) = pre @ chain st i"
proof (induction st i rule: leaf.induct)
  case (1 st i)
  show ?case
  proof (cases "\<exists>e c. entries st i = Some e \<and> e_child e = Some c \<and> c < i")
    case True
    then obtain e c where e: "entries st i = Some e" "e_child e = Some c" "c < i" by blast
    then obtain pre where "chain st (leaf st c) = pre @ chain st c" using 1 by blast
    then have "chain st (leaf st i) = (pre @ [c]) @ chain st i"
      using leaf_child[OF 1(2) e(1,2)] chain_parent[OF 1(2) e(1,2)] by simp
    then show ?thesis by blast
  next
    case False
    then have "leaf st i = i" by (auto simp: leaf.simps[of st i] split: option.splits)
    then show ?thesis by simp
  qed
qed

lemma root_entry_in_chain:
  assumes wf: "wf_entries st" and j: "entries st j = Some e" "e_parent e = None"
    and i: "entries st i \<noteq> None" and leaf: "leaf st j = leaf st i"
  shows "j \<in> set (chain st i)"
proof -
  have "chain st j = [j]" using j by (simp add: chain.simps)
  moreover have ne: "chain st i \<noteq> []" using i by (auto simp: chain.simps split: option.splits)
  moreover obtain pre pre' where "chain st (leaf st j) = pre @ chain st j" "chain st (leaf st i) = pre' @ chain st i"
    using chain_of_leaf[OF wf] by blast
  ultimately have "j = last (chain st i)" using leaf by (metis last_appendR last_snoc)
  then show ?thesis using ne last_in_set by blast
qed

lemma root_snapshot_entry:
  assumes "wf_notifier st" and "parent_of st r = None" and "j \<in> set (snapshot st r n)"
  shows "\<exists>e. entries st j = Some e \<and> e_parent e = None"
proof -
  obtain e where e: "entries st j = Some e" "e_service e = r"
    using assms(1,3) unfolding wf_notifier_def wf_lists_def by blast
  then have "e_parent e = None"
    using wf_parent[of st j e] assms(1,2) by (cases "e_parent e") (auto simp: wf_notifier_def)
  with e show ?thesis by blast
qed

text \<open>What an operation that unsubscribes the subscriptions \<open>gone\<close> does.\<close>

definition unsubscribes :: "nat set \<Rightarrow> notifier \<Rightarrow> notifier \<Rightarrow> bool" where
  "unsubscribes gone st st' \<longleftrightarrow> wf_notifier st' \<and> same_links st st' \<and>
     (\<forall>r n. parent_of st r = None \<longrightarrow> snapshot st' r n = filter (\<lambda>j. leaf st j \<notin> gone) (snapshot st r n)) \<and>
     (\<forall>j. leaf st j \<notin> gone \<longrightarrow> CallHandler st' j = CallHandler st j)"

lemma unsubscribes_trans:
  assumes "unsubscribes A st st'" and "unsubscribes B st' st''"
  shows "unsubscribes (A \<union> B) st st''"
proof -
  have "leaf st' j = leaf st j" for j using assms(1) same_links_leaf by (auto simp: unsubscribes_def)
  moreover have "parent_of st' = parent_of st" using assms(1) by (simp add: unsubscribes_def same_links_def)
  moreover have "same_links st st''"
    using assms same_links_trans unfolding unsubscribes_def by blast
  moreover have "filter (\<lambda>j. leaf st j \<notin> B) (filter (\<lambda>j. leaf st j \<notin> A) is) = filter (\<lambda>j. leaf st j \<notin> A \<union> B) is" for "is"
    by (auto intro: filter_cong)
  ultimately show ?thesis
    using assms unfolding unsubscribes_def by (simp del: filter_filter)
qed

lemma unsubscribes_send:
  assumes "wf_services st" and "unsubscribes gone st st'"
  shows "SendNotification s n st' =
    concat (map (CallHandler st) (filter (\<lambda>j. leaf st j \<notin> gone) (snapshot st (root st s) n)))"
proof -
  have "parent_of st' = parent_of st" "wf_services st'"
    using assms(2) by (auto simp: unsubscribes_def same_links_def wf_notifier_def)
  then have "SendNotification s n st' = concat (map (CallHandler st') (snapshot st' (root st s) n))"
    using SendNotification_root[of st' s n] root_cong[of st' st s] by simp
  moreover have "snapshot st' (root st s) n = filter (\<lambda>j. leaf st j \<notin> gone) (snapshot st (root st s) n)"
    using assms(2) root_is_root[OF assms(1)] by (simp add: unsubscribes_def)
  moreover have "map (CallHandler st') (filter (\<lambda>j. leaf st j \<notin> gone) is) = map (CallHandler st) (filter (\<lambda>j. leaf st j \<notin> gone) is)" for "is"
    using assms(2) by (simp add: unsubscribes_def)
  ultimately show ?thesis by simp
qed

lemma Unsubscribe_unsubscribes:
  assumes wf: "wf_notifier st" and i: "entries st i \<noteq> None"
  shows "unsubscribes {leaf st i} st (Unsubscribe i st)"
proof -
  have wfs: "wf_entries st" "wf_services st" "wf_lists st" "linked st" using wf by (auto simp: wf_notifier_def)
  define st' where "st' = Unsubscribe i st"
  have "\<forall>k \<in> set (chain st i). entries st k \<noteq> None" using chain_leaf[OF wfs(1)] by blast
  then have eff: "same_links st st'" "wf_services st'" "wf_lists st'"
      "\<And>s n. snapshot st' s n = filter (\<lambda>j. j \<notin> set (chain st i)) (snapshot st s n)"
      "\<And>j. j \<notin> set (chain st i) \<Longrightarrow> entries st' j = entries st j"
    using unsubscribe_entries[OF wfs(1-3), of "chain st i"] unfolding st'_def Unsubscribe_chain[OF wfs(1)] Let_def by auto
  have "wf_notifier st'"
    using eff same_links_wf_entries[OF eff(1) wfs(1)] same_links_linked[OF eff(1) wfs(4)] by (simp add: wf_notifier_def)
  moreover have "snapshot st' r n = filter (\<lambda>j. leaf st j \<noteq> leaf st i) (snapshot st r n)" if "parent_of st r = None" for r n
    unfolding eff(4)
  proof (rule filter_cong[OF refl])
    fix j assume "j \<in> set (snapshot st r n)"
    then show "j \<notin> set (chain st i) \<longleftrightarrow> leaf st j \<noteq> leaf st i"
      using root_snapshot_entry[OF wf that] root_entry_in_chain[OF wfs(1) _ _ i] chain_leaf[OF wfs(1)] by blast
  qed
  moreover have "CallHandler st' j = CallHandler st j" if "leaf st j \<noteq> leaf st i" for j
  proof -
    have "leaf st j \<notin> set (chain st i)" using chain_leaf[OF wfs(1), of "leaf st j" i] that leaf_leaf[of st j] by auto
    then show ?thesis by (simp add: CallHandler_def same_links_leaf[OF eff(1)] eff(5))
  qed
  ultimately show ?thesis using eff(1) by (simp add: unsubscribes_def st'_def)
qed

section \<open>Unsubscribing a whole service\<close>

lemma fold_Unsubscribe:
  assumes "wf_notifier st" and "\<forall>i \<in> set is. entries st i \<noteq> None"
  shows "unsubscribes (leaf st ` set is) st (fold Unsubscribe is st)"
  using assms
proof (induction "is" arbitrary: st)
  case Nil
  then show ?case by (simp add: unsubscribes_def same_links_refl)
next
  case (Cons i "is")
  let ?st = "Unsubscribe i st"
  have one: "unsubscribes {leaf st i} st ?st" using Cons.prems by (intro Unsubscribe_unsubscribes) auto
  then have same: "same_links st ?st" and wf: "wf_notifier ?st" by (auto simp: unsubscribes_def)
  have "unsubscribes (leaf ?st ` set is) ?st (fold Unsubscribe is ?st)"
    using Cons.prems(2) same_links_None[OF same] by (intro Cons.IH wf) auto
  moreover have "leaf ?st ` set is = leaf st ` set is" using same_links_leaf[OF same] by auto
  ultimately have "unsubscribes ({leaf st i} \<union> leaf st ` set is) st (fold Unsubscribe is ?st)"
    using unsubscribes_trans[OF one] by simp
  then show ?case by simp
qed

definition registered :: "notifier \<Rightarrow> nat \<Rightarrow> nat set" where
  "registered st s = {i. \<exists>n. i \<in> set (snapshot st s n)}"

lemma registered_list:
  assumes "services st s = Some v" and "smap (s_subscriptions v)"
  shows "set (concat (map snd (s_subscriptions v))) = registered st s"
proof -
  have entry: "map_of (s_subscriptions v) n = Some is \<longleftrightarrow> (n, is) \<in> set (s_subscriptions v)" for n "is"
    using smap_distinct[OF assms(2)] by (intro map_of_eq_Some_iff) simp
  have "i \<in> set (snapshot st s n) \<longleftrightarrow> (\<exists>is. map_of (s_subscriptions v) n = Some is \<and> i \<in> set is)" for i n
    using assms(1) by (cases "map_of (s_subscriptions v) n") (auto simp: snapshot_def)
  then have "registered st s = {i. \<exists>n is. (n, is) \<in> set (s_subscriptions v) \<and> i \<in> set is}"
    by (simp add: registered_def entry)
  then show ?thesis by (simp add: set_eq_iff Bex_def)
qed

text \<open>The state in which \<open>UnsubscribeAll\<close> has taken the subscriptions of the service.\<close>

lemma emptied_service:
  assumes wf: "wf_notifier st" and v: "services st s = Some v"
  defines "st0 \<equiv> st\<lparr>services := (services st)(s \<mapsto> v\<lparr>s_subscriptions := []\<rparr>)\<rparr>"
  shows "wf_notifier st0 \<and> same_links st st0 \<and> entries st0 = entries st \<and>
    (\<forall>s' n. snapshot st0 s' n = (if s' = s then [] else snapshot st s' n)) \<and>
    set (concat (map snd (s_subscriptions v))) = registered st s \<and>
    (\<forall>i \<in> registered st s. entries st0 i \<noteq> None)"
proof -
  have snap: "snapshot st0 s' n = (if s' = s then [] else snapshot st s' n)" for s' n
    by (simp add: st0_def snapshot_def)
  have base: "entries st0 = entries st" "parent_of st0 = parent_of st" "alive st0 = alive st" "next_entry st0 = next_entry st"
      "\<And>s'. services st0 s' = None \<longleftrightarrow> services st s' = None"
    using v by (auto simp: st0_def parent_of_def alive_def fun_eq_iff)
  then have same: "same_links st st0" by (simp add: same_links_def)
  have wfs: "wf_entries st" "wf_services st" "wf_lists st" "linked st" using wf by (auto simp: wf_notifier_def)
  have "wf_services st0"
    using wfs(2) v base unfolding wf_services_def by (auto simp: st0_def split: if_splits)
  moreover have "wf_lists st0"
    using wfs(3) base same_links_name[OF same] by (auto simp: wf_lists_def snap subscribed_def)
  ultimately have wf0: "wf_notifier st0"
    using same_links_wf_entries[OF same wfs(1)] same_links_linked[OF same wfs(4)] by (simp add: wf_notifier_def)
  have smap: "smap (s_subscriptions v)" using wfs(2) v by (auto simp: wf_services_def)
  have "\<forall>i \<in> registered st s. entries st0 i \<noteq> None"
    using wfs(3) base by (fastforce simp: registered_def wf_lists_def)
  with wf0 same base snap registered_list[OF v smap] show ?thesis by simp
qed

lemma UnsubscribeAll_unsubscribes:
  assumes wf: "wf_notifier st" and s: "services st s \<noteq> None"
  shows "unsubscribes (leaf st ` registered st s) st (UnsubscribeAll s st)"
proof -
  obtain v where v: "services st s = Some v" using s by auto
  define st0 where "st0 = st\<lparr>services := (services st)(s \<mapsto> v\<lparr>s_subscriptions := []\<rparr>)\<rparr>"
  have wf0: "wf_notifier st0" and same: "same_links st st0" and ent: "entries st0 = entries st"
    and snap: "\<And>s' n. snapshot st0 s' n = (if s' = s then [] else snapshot st s' n)"
    and reg: "set (concat (map snd (s_subscriptions v))) = registered st s" "\<forall>i \<in> registered st s. entries st0 i \<noteq> None"
    using emptied_service[OF wf v] unfolding st0_def by blast+
  have "UnsubscribeAll s st = fold Unsubscribe (concat (map snd (s_subscriptions v))) st0"
    using v by (simp add: UnsubscribeAll_def st0_def)
  then have all: "unsubscribes (leaf st0 ` registered st s) st0 (UnsubscribeAll s st)"
    using fold_Unsubscribe[OF wf0, of "concat (map snd (s_subscriptions v))", unfolded reg(1)] reg(2) by simp
  have leaf0: "leaf st0 j = leaf st j" for j using same_links_leaf[OF same] .
  then have call0: "CallHandler st0 j = CallHandler st j" for j by (simp add: CallHandler_def ent)
  have par: "parent_of st0 = parent_of st" using same by (simp add: same_links_def)
  have "snapshot (UnsubscribeAll s st) r n = filter (\<lambda>j. leaf st j \<notin> leaf st ` registered st s) (snapshot st r n)"
    if "parent_of st r = None" for r n
  proof (cases "r = s")
    case True
    then have "filter (\<lambda>j. leaf st j \<notin> leaf st ` registered st s) (snapshot st r n) = []"
      by (auto simp: filter_empty_conv registered_def)
    then show ?thesis using all that True by (simp add: unsubscribes_def par snap)
  next
    case False
    then show ?thesis using all that by (simp add: unsubscribes_def par snap leaf0)
  qed
  then show ?thesis
    using all same_links_trans[OF same] by (auto simp: unsubscribes_def leaf0 call0)
qed

section \<open>Subscribing\<close>

lemma leaf_le: "leaf st i \<le> i"
proof (induction st i rule: leaf.induct)
  case (1 st i)
  show ?case
  proof (cases "\<exists>e c. entries st i = Some e \<and> e_child e = Some c \<and> c < i")
    case True
    then obtain e c where "entries st i = Some e" "e_child e = Some c" "c < i" by blast
    then show ?thesis using 1[of e c] by (subst leaf.simps) simp
  next
    case False
    then show ?thesis by (subst leaf.simps) (auto split: option.splits)
  qed
qed

lemma leaf_cong:
  "(\<And>k. k \<le> i \<Longrightarrow> map_option e_child (entries st' k) = map_option e_child (entries st k)) \<Longrightarrow> leaf st' i = leaf st i"
proof (induction st i rule: leaf.induct)
  case (1 st i)
  have eq: "map_option e_child (entries st' i) = map_option e_child (entries st i)" using 1(2) by simp
  show ?case
  proof (cases "entries st i")
    case None
    then show ?thesis using eq by (simp add: leaf.simps)
  next
    case (Some e)
    then obtain e' where e': "entries st' i = Some e'" "e_child e' = e_child e" using eq by auto
    show ?thesis
    proof (cases "e_child e")
      case None
      then show ?thesis using Some e' by (simp add: leaf.simps)
    next
      case (Some c)
      then show ?thesis
        using 1(1)[OF \<open>entries st i = Some e\<close> Some] 1(2) e' \<open>entries st i = Some e\<close> by (simp add: leaf.simps[of _ i])
    qed
  qed
qed

text \<open>A state in the middle of \<open>Subscribe\<close>: entry \<open>i\<close> of service \<open>s\<close> still needs its view.\<close>

definition subscribing :: "notifier \<Rightarrow> nat \<Rightarrow> nat \<Rightarrow> nat \<Rightarrow> bool" where
  "subscribing st s n i \<longleftrightarrow> wf_entries st \<and> wf_services st \<and> wf_lists st \<and> alive st s \<and> NotificationName st i = n \<and>
     (\<exists>e. entries st i = Some e \<and> e_parent e = None \<and> e_service e = s) \<and>
     (\<forall>k e. entries st k = Some e \<longrightarrow> e_parent e = None \<longrightarrow> k \<noteq> i \<longrightarrow> parent_of st (e_service e) = None)"

text \<open>What adding entries leaves alone.\<close>

definition grows :: "notifier \<Rightarrow> notifier \<Rightarrow> bool" where
  "grows st st' \<longleftrightarrow> next_entry st \<le> next_entry st' \<and> parent_of st' = parent_of st \<and>
     (\<forall>j < next_entry st. leaf st' j = leaf st j \<and> CallHandler st' j = CallHandler st j)"

lemma grows_trans: "grows st st' \<Longrightarrow> grows st' st'' \<Longrightarrow> grows st st''"
  by (auto simp: grows_def)

lemma add_view_spec:
  assumes pre: "subscribing st s n i" and p: "parent_of st s = Some p" and add: "add_view p n i st = (st', j)"
  shows "subscribing st' p n j \<and> grows st st' \<and> leaf st' j = leaf st i \<and>
    (\<forall>s' m. snapshot st' s' m = (if s' = p \<and> m = n then snapshot st p n @ [j] else snapshot st s' m))"
proof -
  obtain e where e: "entries st i = Some e" "e_parent e = None" "e_service e = s"
    and wf: "wf_entries st" "wf_services st" "wf_lists st" and al: "alive st s" and name: "NotificationName st i = n"
    and linked: "\<And>k e. entries st k = Some e \<Longrightarrow> e_parent e = None \<Longrightarrow> k \<noteq> i \<Longrightarrow> parent_of st (e_service e) = None"
    using pre by (auto simp: subscribing_def)
  define d where "d = \<lparr>e_service = p, e_parent = None, e_child = Some i, e_name = n, e_posts = False,
      e_handler = None, e_isSubscribed = True\<rparr>"
  have j: "j = next_entry st" using add by (auto simp: add_view_def add_entry_def)
  have below: "k < j" if "entries st k \<noteq> None" for k
    using wf(1) that j by (auto simp: wf_entries_def wf_entry_def)
  have ij: "i < j" using below e by simp
  have ent: "entries st' k = (if k = j then Some d else if k = i then Some (e\<lparr>e_parent := Some j\<rparr>) else entries st k)" for k
    using add e ij unfolding j by (auto simp: add_view_def add_entry_def AddSubscription_def set_entry_def d_def)
  define st1 where "st1 = set_entry i (\<lambda>e. e\<lparr>e_parent := Some j\<rparr>) (fst (add_entry d st))"
  have st': "st' = ModifySubscriptions p n (\<lambda>is. is @ [j]) st1"
    using add by (auto simp: add_view_def add_entry_def AddSubscription_def st1_def d_def)
  have st1: "services st1 = services st" "next_entry st1 = Suc j" "snapshot st1 = snapshot st" "parent_of st1 = parent_of st"
      "alive st1 = alive st" "next_service st1 = next_service st"
    by (simp_all add: st1_def add_entry_def j snapshot_def parent_of_def alive_def fun_eq_iff)
  have wf1: "wf_services st1" using wf(2) by (simp add: wf_services_def st1)
  have pp: "services st p \<noteq> None" using parent_service_less[OF wf(2) p] by simp
  have alp: "alive st p"
    using wf(2) al p by (auto simp: wf_services_def parent_of_def alive_def[of _ s] split: option.splits)
  have basic: "parent_of st' = parent_of st" "alive st' = alive st" "next_entry st' = Suc j"
      "\<And>s'. services st' s' = None \<longleftrightarrow> services st s' = None"
    by (simp_all add: st' st1)
  have snap: "snapshot st' s' m = (if s' = p \<and> m = n then snapshot st p n @ [j] else snapshot st s' m)" for s' m
    using snapshot_Modify[OF wf1, of p n "\<lambda>is. is @ [j]" s' m] pp by (simp add: st' st1)
  have leaf_old: "leaf st' k = leaf st k" if "k < j" for k
    by (rule leaf_cong) (use that e ent in auto)
  have leaf_j: "leaf st' j = leaf st i"
    using ij leaf_old[OF ij] by (subst leaf.simps) (simp add: ent d_def)
  have fields: "map_option (\<lambda>e. (e_name e, e_handler e, e_posts e)) (entries st' k) =
      map_option (\<lambda>e. (e_name e, e_handler e, e_posts e)) (entries st k)" if "k < j" for k
    using that e ent by auto
  have old: "NotificationName st' k = NotificationName st k \<and> CallHandler st' k = CallHandler st k" if "k < j" for k
    using fields[of "leaf st k"] leaf_le[of st k] leaf_old[OF that] that
    by (cases "entries st (leaf st k)"; cases "entries st' (leaf st k)") (auto simp: NotificationName_def CallHandler_def split: option.splits)
  have "wf_entries st'"
    unfolding wf_entries_def
  proof (intro allI impI)
    fix k f assume f: "entries st' k = Some f"
    show "wf_entry st' k f"
    proof (cases "k = j")
      case True
      then have "f = d" using f ent by simp
      then show ?thesis using True ij pp basic by (auto simp: wf_entry_def d_def ent)
    next
      case False
      then obtain f0 where f0: "entries st k = Some f0" "e_service f = e_service f0" "e_child f = e_child f0"
          "e_parent f = (if k = i then Some j else e_parent f0)"
        using f ent e by (auto split: if_splits)
      then have w: "wf_entry st k f0" using wf(1) by (simp add: wf_entries_def)
      have kj: "k < j" using below f0 by simp
      have "i < next_entry st" using ij j by simp
      have parents: "\<exists>g. entries st' q = Some g \<and> e_child g = Some k \<and> parent_of st' (e_service f) = Some (e_service g)" if q: "e_parent f = Some q" for q
      proof (cases "k = i")
        case True
        then show ?thesis using q f0 e p ent basic by (auto simp: d_def)
      next
        case False
        then show ?thesis using q f0 w ent basic e below by (fastforce simp: wf_entry_def)
      qed
      have "\<exists>g. entries st' c = Some g \<and> e_parent g = Some k" if c: "e_child f = Some c" for c
      proof -
        obtain g where "c < k" "entries st c = Some g" "e_parent g = Some k"
          using w c f0(3) by (auto simp: wf_entry_def)
        moreover from this have "c \<noteq> i" using e by auto
        ultimately show ?thesis using kj by (auto simp: ent)
      qed
      moreover have "k < q" if "e_parent f = Some q" for q
        using that f0(4) w ij by (auto simp: wf_entry_def split: if_splits)
      ultimately show ?thesis
        using parents w f0(2,3) kj basic by (auto simp: wf_entry_def)
    qed
  qed
  moreover have "wf_services st'" using wf_services_Modify[OF wf1] by (simp add: st')
  moreover have "NotificationName st' j = n"
    using old[OF ij] name leaf_j leaf_old[OF ij] by (simp add: NotificationName_def)
  moreover have "wf_lists st'"
    unfolding wf_lists_def
  proof (intro allI)
    fix s' m
    have old_list: "k < j \<and> NotificationName st' k = m \<and> subscribed st' k \<and> alive st' s' \<and> (\<exists>f. entries st' k = Some f \<and> e_service f = s')"
      if k: "k \<in> set (snapshot st s' m)" for k
    proof -
      obtain f where f: "entries st k = Some f" "e_service f = s'" "NotificationName st k = m" "subscribed st k" "alive st s'"
        using wf(3) k unfolding wf_lists_def by blast
      then have "k < j" using below by simp
      with f old[of k] e show ?thesis by (auto simp: ent subscribed_def basic)
    qed
    moreover have "distinct (snapshot st s' m)" using wf(3) by (simp add: wf_lists_def)
    moreover have "subscribed st' j" "\<exists>f. entries st' j = Some f \<and> e_service f = p"
      by (simp_all add: subscribed_def ent d_def)
    ultimately show "distinct (snapshot st' s' m) \<and> (\<forall>k \<in> set (snapshot st' s' m).
        (\<exists>f. entries st' k = Some f \<and> e_service f = s') \<and> NotificationName st' k = m \<and> subscribed st' k \<and> alive st' s')"
      using \<open>NotificationName st' j = n\<close> alp basic(2) unfolding snap by auto
  qed
  moreover have "parent_of st' (e_service f) = None" if "entries st' k = Some f" "e_parent f = None" "k \<noteq> j" for k f
    using that linked[of k f] by (auto simp: ent basic split: if_splits)
  ultimately have "subscribing st' p n j"
    using alp by (auto simp: subscribing_def ent d_def basic)
  moreover have "grows st st'" using old leaf_old j basic by (simp add: grows_def)
  ultimately show ?thesis using leaf_j snap by blast
qed

lemma AddSubscriptionToParent_spec:
  "subscribing st s n i \<Longrightarrow>
     (let st' = AddSubscriptionToParent s n i st in wf_notifier st' \<and> grows st st' \<and>
       (\<forall>r m. parent_of st r = None \<longrightarrow> (\<exists>new. snapshot st' r m = snapshot st r m @ new \<and>
          map (leaf st') new = (if r = root st s \<and> m = n \<and> parent_of st s \<noteq> None then [leaf st i] else []))))"
proof (induction s n i st rule: AddSubscriptionToParent.induct)
  case (1 s n i st)
  have wf: "wf_services st" using 1(2) by (simp add: subscribing_def)
  show ?case
  proof (cases "parent_of st s")
    case None
    then have "wf_notifier st"
      using 1(2) unfolding subscribing_def wf_notifier_def linked_def by (metis option.inject)
    with None show ?thesis
      by (simp add: AddSubscriptionToParent.simps[of s] grows_def)
  next
    case (Some p)
    obtain st1 j where add: "add_view p n i st = (st1, j)" by fastforce
    note spec = add_view_spec[OF 1(2) Some add]
    have p: "p < s" using parent_service_less[OF wf Some] by simp
    define st' where "st' = AddSubscriptionToParent p n j st1"
    have st': "AddSubscriptionToParent s n i st = st'"
      using Some p add by (simp add: AddSubscriptionToParent.simps[of s] st'_def)
    have ih: "wf_notifier st'" "grows st1 st'"
        "\<And>r m. parent_of st1 r = None \<Longrightarrow> \<exists>new. snapshot st' r m = snapshot st1 r m @ new \<and>
          map (leaf st') new = (if r = root st1 p \<and> m = n \<and> parent_of st1 p \<noteq> None then [leaf st1 j] else [])"
      using 1(1)[OF Some p add[symmetric]] spec unfolding st'_def Let_def by blast+
    have par: "parent_of st1 = parent_of st" using spec by (simp add: grows_def)
    then have roots: "root st s = root st p" "root st1 p = root st p"
      using Some p root_cong[OF par] by (simp_all add: root.simps[of st s])
    have jlt: "j < next_entry st1"
      using spec by (auto simp: subscribing_def wf_entries_def wf_entry_def)
    have leaf_j: "leaf st' j = leaf st i" using ih(2) jlt spec by (auto simp: grows_def)
    have "\<exists>new. snapshot st' r m = snapshot st r m @ new \<and>
        map (leaf st') new = (if r = root st s \<and> m = n \<and> parent_of st s \<noteq> None then [leaf st i] else [])"
      if r: "parent_of st r = None" for r m
    proof (cases "parent_of st p")
      case None
      then have "root st p = p" by (simp add: root.simps)
      with None ih(3)[of r m] r par spec leaf_j Some roots show ?thesis by (auto simp: par)
    next
      case (Some pp)
      then have "r \<noteq> p" using r by auto
      with Some ih(3)[of r m] r par spec roots \<open>parent_of st s = _\<close> show ?thesis by (auto simp: par)
    qed
    then show ?thesis
      using ih(1) grows_trans[OF _ ih(2)] spec unfolding st' Let_def by blast
  qed
qed

lemma new_subscription_spec:
  assumes wf: "wf_notifier st" and al: "alive st s"
    and add: "add_entry \<lparr>e_service = s, e_parent = None, e_child = None, e_name = n, e_posts = posts,
        e_handler = Some h, e_isSubscribed = False\<rparr> st = (st1, i)"
  defines "st2 \<equiv> AddSubscription s n i st1"
  shows "subscribing st2 s n i \<and> grows st st2 \<and> CallHandler st2 i = [(h, posts)] \<and> leaf st2 i = i \<and>
    (\<forall>s' m. snapshot st2 s' m = (if s' = s \<and> m = n then snapshot st s n @ [i] else snapshot st s' m))"
proof -
  have wfs: "wf_entries st" "wf_services st" "wf_lists st" "linked st" using wf by (auto simp: wf_notifier_def)
  define d where "d = \<lparr>e_service = s, e_parent = None, e_child = None, e_name = n, e_posts = posts,
        e_handler = Some h, e_isSubscribed = False\<rparr>"
  have i: "i = next_entry st" and st1: "services st1 = services st" "next_entry st1 = Suc i" "snapshot st1 = snapshot st"
      "parent_of st1 = parent_of st" "alive st1 = alive st" "next_service st1 = next_service st"
    and ent1: "entries st1 k = (if k = i then Some d else entries st k)" for k
    using add by (auto simp: add_entry_def d_def snapshot_def parent_of_def alive_def fun_eq_iff)
  have below: "k < i" if "entries st k \<noteq> None" for k
    using wfs(1) that i by (auto simp: wf_entries_def wf_entry_def)
  have wf1: "wf_services st1" using wfs(2) by (simp add: wf_services_def st1)
  have ss: "services st s \<noteq> None" using al by (auto simp: alive_def split: option.splits)
  have ent: "entries st2 k = (if k = i then Some d else entries st k)" for k by (simp add: st2_def AddSubscription_def ent1)
  have basic: "parent_of st2 = parent_of st" "alive st2 = alive st" "next_entry st2 = Suc i"
      "\<And>s'. services st2 s' = None \<longleftrightarrow> services st s' = None"
    by (simp_all add: st2_def AddSubscription_def st1)
  have snap: "snapshot st2 s' m = (if s' = s \<and> m = n then snapshot st s n @ [i] else snapshot st s' m)" for s' m
    using snapshot_Modify[OF wf1, of s n "\<lambda>is. is @ [i]" s' m] ss by (simp add: st2_def AddSubscription_def st1)
  have leaf_old: "leaf st2 k = leaf st k" if "k < i" for k
    by (rule leaf_cong) (use that ent in auto)
  have old: "NotificationName st2 k = NotificationName st k \<and> CallHandler st2 k = CallHandler st k" if "k < i" for k
    using leaf_old[OF that] leaf_le[of st k] that by (auto simp: NotificationName_def CallHandler_def ent)
  have leaf_i: "leaf st2 i = i" by (subst leaf.simps) (simp add: ent d_def)
  have here: "CallHandler st2 i = [(h, posts)]" "NotificationName st2 i = n"
    by (simp_all add: CallHandler_def NotificationName_def leaf_i ent d_def)
  have "wf_entries st2"
    unfolding wf_entries_def
  proof (intro allI impI)
    fix k f assume f: "entries st2 k = Some f"
    show "wf_entry st2 k f"
    proof (cases "k = i")
      case True
      then show ?thesis using f ent ss basic by (auto simp: wf_entry_def d_def)
    next
      case False
      then have f0: "entries st k = Some f" using f ent by simp
      then have "wf_entry st k f" "k < i" using wfs(1) below by (auto simp: wf_entries_def)
      moreover have "q < i" if "entries st q = Some g" for q g using below that by simp
      ultimately show ?thesis using basic by (fastforce simp: wf_entry_def ent)
    qed
  qed
  moreover have "wf_services st2" using wf_services_Modify[OF wf1] by (simp add: st2_def AddSubscription_def)
  moreover have "wf_lists st2"
    unfolding wf_lists_def
  proof (intro allI)
    fix s' m
    have "k < i \<and> NotificationName st2 k = m \<and> subscribed st2 k \<and> alive st2 s' \<and> (\<exists>f. entries st2 k = Some f \<and> e_service f = s')"
      if k: "k \<in> set (snapshot st s' m)" for k
    proof -
      obtain f where f: "entries st k = Some f" "e_service f = s'" "NotificationName st k = m" "subscribed st k" "alive st s'"
        using wfs(3) k unfolding wf_lists_def by blast
      then have "k < i" using below by simp
      with f old[of k] show ?thesis by (auto simp: ent subscribed_def basic)
    qed
    moreover have "distinct (snapshot st s' m)" using wfs(3) by (simp add: wf_lists_def)
    moreover have "subscribed st2 i" "\<exists>f. entries st2 i = Some f \<and> e_service f = s"
      by (simp_all add: subscribed_def ent d_def)
    ultimately show "distinct (snapshot st2 s' m) \<and> (\<forall>k \<in> set (snapshot st2 s' m).
        (\<exists>f. entries st2 k = Some f \<and> e_service f = s') \<and> NotificationName st2 k = m \<and> subscribed st2 k \<and> alive st2 s')"
      using here(2) al basic(2) unfolding snap by auto
  qed
  moreover have "parent_of st2 (e_service f) = None" if "entries st2 k = Some f" "e_parent f = None" "k \<noteq> i" for k f
    using that wfs(4) by (auto simp: ent basic linked_def)
  ultimately have "subscribing st2 s n i"
    using al here(2) by (auto simp: subscribing_def ent d_def basic)
  moreover have "grows st st2" using old leaf_old i basic by (simp add: grows_def)
  ultimately show ?thesis using leaf_i here(1) snap by blast
qed

lemma snapshot_below:
  assumes "wf_notifier st" and "j \<in> set (snapshot st s n)"
  shows "j < next_entry st"
proof -
  obtain e where "entries st j = Some e" using assms unfolding wf_notifier_def wf_lists_def by blast
  then show ?thesis using assms(1) by (auto simp: wf_notifier_def wf_entries_def wf_entry_def)
qed

lemma CallHandler_leaf: "CallHandler st j = CallHandler st (leaf st j)"
  by (simp add: CallHandler_def leaf_leaf)

lemma Subscribe_spec:
  assumes wf: "wf_notifier st" and al: "alive st s" and sub: "Subscribe s n posts h st = (st', i)"
  shows "wf_notifier st' \<and>
    SendNotification s' m st' = SendNotification s' m st @ (if root st s' = root st s \<and> m = n then [(h, posts)] else []) \<and>
    SendNotification s' m (Unsubscribe i st') = SendNotification s' m st"
proof -
  obtain st1 where add: "add_entry \<lparr>e_service = s, e_parent = None, e_child = None, e_name = n, e_posts = posts,
        e_handler = Some h, e_isSubscribed = False\<rparr> st = (st1, i)"
    and st': "st' = AddSubscriptionToParent s n i (AddSubscription s n i st1)"
    using sub by (auto simp: Subscribe_def split: prod.splits)
  define st2 where "st2 = AddSubscription s n i st1"
  have two: "subscribing st2 s n i" "grows st st2" "CallHandler st2 i = [(h, posts)]" "leaf st2 i = i"
      "\<And>s' m. snapshot st2 s' m = (if s' = s \<and> m = n then snapshot st s n @ [i] else snapshot st s' m)"
    using new_subscription_spec[OF wf al add] unfolding st2_def by blast+
  have three: "wf_notifier st'" "grows st2 st'"
      "\<And>r m. parent_of st2 r = None \<Longrightarrow> \<exists>new. snapshot st' r m = snapshot st2 r m @ new \<and>
          map (leaf st') new = (if r = root st2 s \<and> m = n \<and> parent_of st2 s \<noteq> None then [leaf st2 i] else [])"
    using AddSubscriptionToParent_spec[OF two(1)] unfolding st' st2_def Let_def by blast+
  have par: "parent_of st2 = parent_of st" "parent_of st' = parent_of st"
    using two(2) three(2) by (auto simp: grows_def)
  have roots: "root st2 q = root st q" "root st' q = root st q" for q
    using root_cong par by blast+
  have i: "i < next_entry st2" using two(1) by (auto simp: subscribing_def wf_entries_def wf_entry_def)
  have old: "CallHandler st' j = CallHandler st j" if "j < next_entry st" for j
    using that two(2) three(2) by (auto simp: grows_def)
  have call_i: "CallHandler st' i = [(h, posts)]" "leaf st' i = i" using three(2) i two(3,4) by (auto simp: grows_def)
  let ?r = "root st s'"
  have wfs: "wf_services st" "wf_services st'" using wf three(1) by (auto simp: wf_notifier_def)
  have root_s': "parent_of st ?r = None" using root_is_root[OF wfs(1)] .
  obtain new where new: "snapshot st' ?r m = snapshot st2 ?r m @ new"
      "map (leaf st') new = (if ?r = root st s \<and> m = n \<and> parent_of st s \<noteq> None then [i] else [])"
    using three(3)[of ?r m] root_s' par roots two(4) by auto
  have root_s: "parent_of st s = None \<longleftrightarrow> root st s = s"
    using root_is_root[OF wfs(1), of s] by (auto simp: root.simps[of st s])
  have "\<exists>added. snapshot st' ?r m = snapshot st ?r m @ added \<and> map (leaf st') added = (if ?r = root st s \<and> m = n then [i] else [])"
    using new two(5)[of ?r m] root_s root_s' call_i(2) by (auto split: if_splits)
  then obtain added where added: "snapshot st' ?r m = snapshot st ?r m @ added"
      "map (leaf st') added = (if ?r = root st s \<and> m = n then [i] else [])" by blast
  have "map (CallHandler st') added = map (CallHandler st') (map (leaf st') added)"
    using CallHandler_leaf[of st'] by simp
  then have "concat (map (CallHandler st') added) = (if ?r = root st s \<and> m = n then [(h, posts)] else [])"
    using added(2) call_i by auto
  moreover have "map (CallHandler st') (snapshot st ?r m) = map (CallHandler st) (snapshot st ?r m)"
    using snapshot_below[OF wf] old by simp
  ultimately have "SendNotification s' m st' = SendNotification s' m st @ (if ?r = root st s \<and> m = n then [(h, posts)] else [])"
    by (simp add: SendNotification_root wfs roots added(1) cong: map_cong)
  moreover have "SendNotification s' m (Unsubscribe i st') = SendNotification s' m st"
  proof -
    have "entries st' i \<noteq> None" using call_i by (auto simp: CallHandler_def split: option.splits)
    then have "SendNotification s' m (Unsubscribe i st') =
        concat (map (CallHandler st') (filter (\<lambda>j. leaf st' j \<noteq> i) (snapshot st' ?r m)))"
      using unsubscribes_send[OF wfs(2) Unsubscribe_unsubscribes[OF three(1)], of i s' m] by (simp add: roots call_i)
    moreover have "filter (\<lambda>j. leaf st' j \<noteq> i) added = []"
      using arg_cong[OF added(2), of set] by (auto simp: filter_empty_conv split: if_splits)
    moreover have "filter (\<lambda>j. leaf st' j \<noteq> i) (snapshot st ?r m) = snapshot st ?r m"
    proof -
      have "leaf st' j \<noteq> i" if "j \<in> set (snapshot st ?r m)" for j
      proof -
        have "j < next_entry st" using snapshot_below[OF wf that] .
        moreover have "i = next_entry st" using add by (simp add: add_entry_def)
        moreover have "leaf st' j \<le> j" by (rule leaf_le)
        ultimately show ?thesis by simp
      qed
      then show ?thesis by simp
    qed
    moreover have "map (CallHandler st') (snapshot st ?r m) = map (CallHandler st) (snapshot st ?r m)"
      using snapshot_below[OF wf] old by simp
    ultimately show ?thesis by (simp add: SendNotification_root wfs added(1) cong: map_cong)
  qed
  ultimately show ?thesis using three(1) by blast
qed

section \<open>Runs\<close>

text \<open>
  A child keeps its parent alive, so that a service is destroyed only after its children; a caller
  of an operation holds the service or the subscription.
\<close>

inductive notifier_step :: "notifier \<Rightarrow> notifier \<Rightarrow> bool" where
  new: "parent = None \<or> (\<exists>p. parent = Some p \<and> alive st p) \<Longrightarrow> notifier_step st (fst (NotificationService_new parent st))"
| subscribe: "alive st s \<Longrightarrow> notifier_step st (fst (Subscribe s n posts h st))"
| unsubscribe: "entries st i \<noteq> None \<Longrightarrow> notifier_step st (Unsubscribe i st)"
| unsubscribe_all: "alive st s \<Longrightarrow> notifier_step st (UnsubscribeAll s st)"
| destroy: "alive st s \<Longrightarrow> \<forall>c. parent_of st c = Some s \<longrightarrow> \<not> alive st c \<Longrightarrow>
     notifier_step st (NotificationService_destroy s st)"

definition notifier_reachable :: "notifier \<Rightarrow> bool" where
  "notifier_reachable = notifier_step\<^sup>*\<^sup>* notifier_empty"

lemma alive_services: "alive st s \<Longrightarrow> services st s \<noteq> None"
  by (auto simp: alive_def split: option.splits)

lemma wf_new:
  assumes wf: "wf_notifier st" and parent: "parent = None \<or> (\<exists>p. parent = Some p \<and> alive st p)"
  shows "wf_notifier (fst (NotificationService_new parent st))"
proof -
  let ?s = "next_service st" and ?st = "fst (NotificationService_new parent st)"
  have wfs: "wf_entries st" "wf_services st" "wf_lists st" "linked st" using wf by (auto simp: wf_notifier_def)
  have none: "services st ?s = None"
    using wfs(2) unfolding wf_services_def by (metis less_irrefl option.exhaust)
  have par: "parent_of ?st s = (if s = ?s then parent else parent_of st s)"
    and al: "alive ?st s = (if s = ?s then True else alive st s)"
    and snap: "snapshot ?st s n = snapshot st s n" for s n
    using none by (auto simp: NotificationService_new_def Let_def parent_of_def alive_def snapshot_def)
  have ent: "entries ?st = entries st" "next_entry ?st = next_entry st"
    by (simp_all add: NotificationService_new_def Let_def)
  have old: "e_service e \<noteq> ?s" if "entries st i = Some e" for i e
    using wfs(1) that none by (fastforce simp: wf_entries_def wf_entry_def)
  have leaf: "leaf ?st i = leaf st i" for i by (rule leaf_cong) (simp add: ent)
  have "wf_entries ?st"
    using wfs(1) old unfolding wf_entries_def wf_entry_def ent
    by (auto simp: par) (auto simp: NotificationService_new_def Let_def)
  moreover have "wf_services ?st"
  proof -
    have "p < ?s \<and> services st p \<noteq> None" if "parent = Some p" for p
      using parent that wfs(2) alive_services[of st p] by (auto simp: wf_services_def)
    then show ?thesis
      using wfs(2) parent unfolding wf_services_def al
      by (auto simp: NotificationService_new_def Let_def less_Suc_eq split: if_splits)
  qed
  moreover have "wf_lists ?st"
  proof -
    have "s \<noteq> ?s" if "alive st s" for s using that none alive_services[of st s] by auto
    then show ?thesis
      using wfs(3) by (auto simp: wf_lists_def snap ent al NotificationName_def leaf subscribed_def)
  qed
  moreover have "linked ?st" using wfs(4) old by (auto simp: linked_def ent par)
  ultimately show ?thesis by (simp add: wf_notifier_def)
qed

lemma Unsubscribe_snapshot:
  assumes "wf_notifier st"
  shows "set (snapshot (Unsubscribe i st) s n) \<subseteq> set (snapshot st s n)"
proof -
  have wfs: "wf_entries st" "wf_services st" "wf_lists st" using assms by (auto simp: wf_notifier_def)
  have "\<forall>k \<in> set (chain st i). entries st k \<noteq> None" using chain_leaf[OF wfs(1)] by blast
  then show ?thesis
    using unsubscribe_entries[OF wfs, of "chain st i"] unfolding Unsubscribe_chain[OF wfs(1)] Let_def by auto
qed

lemma fold_Unsubscribe_snapshot:
  assumes "wf_notifier st" and "\<forall>i \<in> set is. entries st i \<noteq> None"
  shows "set (snapshot (fold Unsubscribe is st) s n) \<subseteq> set (snapshot st s n)"
  using assms
proof (induction "is" arbitrary: st)
  case (Cons i "is")
  have one: "unsubscribes {leaf st i} st (Unsubscribe i st)" using Cons.prems by (intro Unsubscribe_unsubscribes) auto
  then have "\<forall>k \<in> set is. entries (Unsubscribe i st) k \<noteq> None"
    using Cons.prems(2) same_links_None[of st "Unsubscribe i st"] by (auto simp: unsubscribes_def)
  then show ?case
    using Cons.IH[of "Unsubscribe i st"] one Unsubscribe_snapshot[OF Cons.prems(1)] by (fastforce simp: unsubscribes_def)
qed simp

lemma UnsubscribeAll_empties:
  assumes wf: "wf_notifier st" and s: "services st s \<noteq> None"
  shows "snapshot (UnsubscribeAll s st) s n = []"
proof -
  obtain v where v: "services st s = Some v" using s by auto
  define st0 where "st0 = st\<lparr>services := (services st)(s \<mapsto> v\<lparr>s_subscriptions := []\<rparr>)\<rparr>"
  have wf0: "wf_notifier st0" and snap: "snapshot st0 s n = []"
    and reg: "set (concat (map snd (s_subscriptions v))) = registered st s" "\<forall>i \<in> registered st s. entries st0 i \<noteq> None"
    using emptied_service[OF wf v] unfolding st0_def by auto
  have "UnsubscribeAll s st = fold Unsubscribe (concat (map snd (s_subscriptions v))) st0"
    using v by (simp add: UnsubscribeAll_def st0_def)
  then show ?thesis
    using fold_Unsubscribe_snapshot[OF wf0, of "concat (map snd (s_subscriptions v))" s n, unfolded reg(1)] reg(2) snap by simp
qed

lemma wf_destroy:
  assumes wf: "wf_notifier st" and al: "alive st s" and last: "\<forall>c. parent_of st c = Some s \<longrightarrow> \<not> alive st c"
  shows "wf_notifier (NotificationService_destroy s st)"
proof -
  define st1 where "st1 = UnsubscribeAll s st"
  define st2 where "st2 = NotificationService_destroy s st"
  have s: "services st s \<noteq> None" using alive_services[OF al] .
  have un: "wf_notifier st1" "same_links st st1"
    using UnsubscribeAll_unsubscribes[OF wf s] by (auto simp: unsubscribes_def st1_def)
  have empty: "snapshot st1 s n = []" for n using UnsubscribeAll_empties[OF wf s] by (simp add: st1_def)
  have st2: "st2 = st1\<lparr>services := (services st1)(s := map_option (\<lambda>v. v\<lparr>s_alive := False\<rparr>) (services st1 s))\<rparr>"
    by (simp add: st2_def st1_def NotificationService_destroy_def Let_def)
  have wfs: "wf_entries st1" "wf_services st1" "wf_lists st1" "linked st1" using un(1) by (auto simp: wf_notifier_def)
  have base: "entries st2 = entries st1" "next_entry st2 = next_entry st1" "next_service st2 = next_service st1"
      "parent_of st2 = parent_of st1" "snapshot st2 = snapshot st1" "\<And>s'. services st2 s' = None \<longleftrightarrow> services st1 s' = None"
      "\<And>s'. alive st2 s' = (s' \<noteq> s \<and> alive st1 s')"
    by (auto simp: st2 parent_of_def snapshot_def alive_def fun_eq_iff split: option.splits)
  have children: "\<not> alive st1 c" if "parent_of st1 c = Some s" for c
    using last that un(2) by (auto simp: same_links_def)
  have leaf: "leaf st2 i = leaf st1 i" for i by (rule leaf_cong) (simp add: base)
  have "wf_entries st2" using wfs(1) by (simp add: wf_entries_def wf_entry_def base)
  moreover have "linked st2" using wfs(4) by (simp add: linked_def base)
  moreover have "wf_lists st2"
    unfolding wf_lists_def
  proof (intro allI)
    fix s' n
    show "distinct (snapshot st2 s' n) \<and> (\<forall>i \<in> set (snapshot st2 s' n).
        (\<exists>e. entries st2 i = Some e \<and> e_service e = s') \<and> NotificationName st2 i = n \<and> subscribed st2 i \<and> alive st2 s')"
      using wfs(3) empty[of n] by (cases "s' = s") (simp_all add: wf_lists_def base NotificationName_def leaf subscribed_def)
  qed
  moreover have "wf_services st2"
    unfolding wf_services_def
  proof (intro allI impI)
    fix c v assume "services st2 c = Some v"
    then obtain w where w: "services st1 c = Some w" "s_parent v = s_parent w" "s_subscriptions v = s_subscriptions w"
        "s_alive v \<longrightarrow> s_alive w \<and> c \<noteq> s"
      by (auto simp: st2 split: if_splits)
    have "p \<noteq> s" if "s_parent w = Some p" "s_alive w" for p
      using children[of c] that w(1) by (auto simp: parent_of_def alive_def)
    then show "c < next_service st2 \<and> smap (s_subscriptions v) \<and>
        (\<forall>p. s_parent v = Some p \<longrightarrow> p < c \<and> services st2 p \<noteq> None \<and> (s_alive v \<longrightarrow> alive st2 p))"
      using wfs(2) w unfolding wf_services_def by (auto simp: base)
  qed
  ultimately show ?thesis by (simp add: wf_notifier_def st2_def)
qed

lemma wf_step: "notifier_step st st' \<Longrightarrow> wf_notifier st \<Longrightarrow> wf_notifier st'"
proof (induction rule: notifier_step.induct)
  case (subscribe st s n posts h)
  then show ?case using Subscribe_spec[of st s n posts h] by (cases "Subscribe s n posts h st") auto
next
  case (unsubscribe st i)
  then show ?case using Unsubscribe_unsubscribes[of st i] by (simp add: unsubscribes_def)
next
  case (unsubscribe_all st s)
  then show ?case using UnsubscribeAll_unsubscribes[of st s] alive_services[of st s] by (simp add: unsubscribes_def)
qed (auto intro: wf_new wf_destroy)

lemma wf_reachable: "notifier_reachable st \<Longrightarrow> wf_notifier st"
  unfolding notifier_reachable_def
proof (induction rule: rtranclp_induct)
  case base
  show ?case
    by (simp add: wf_notifier_def wf_entries_def wf_services_def wf_lists_def linked_def notifier_empty_def snapshot_def)
next
  case (step st st')
  then show ?case by (blast intro: wf_step)
qed

section \<open>Rounds that lose\<close>

text \<open>
  The loop of \<^verbatim>\<open>ModifySubscriptions\<close> against other threads: \<open>current\<close> is the pointer to the snapshot
  last read with its content, \<open>seen\<close> lists what the loop finds under the lock in each round. \<open>None\<close>
  means that it has lost every round so far.
\<close>

type_synonym snapshot_ptr = "(nat \<times> nat list) option"

definition content :: "snapshot_ptr \<Rightarrow> nat list" where
  "content x = (case x of None \<Rightarrow> [] | Some (address, is) \<Rightarrow> is)"

fun modify_loop :: "(nat list \<Rightarrow> nat list) \<Rightarrow> snapshot_ptr \<Rightarrow> snapshot_ptr list \<Rightarrow> nat list option" where
  "modify_loop modifySnapshot current [] = None"
| "modify_loop modifySnapshot current (x # seen) =
     (let newSnapshot = modifySnapshot (content current)
      in if map_option fst current \<noteq> map_option fst x then modify_loop modifySnapshot x seen else Some newSnapshot)"

text \<open>
  A snapshot is never changed and its address is not used again while the loop holds it, so equal
  addresses mean equal content; then the loop stores the change of the snapshot it replaces.
\<close>

lemma modify_loop_no_lost_update:
  assumes "modify_loop f current seen = Some r"
    and "\<forall>x \<in> set (current # seen). \<forall>y \<in> set (current # seen). map_option fst x = map_option fst y \<longrightarrow> content x = content y"
  shows "\<exists>k < length seen. r = f (content (seen ! k)) \<and>
    (\<forall>j < k. map_option fst ((current # seen) ! j) \<noteq> map_option fst (seen ! j))"
  using assms
proof (induction seen arbitrary: current)
  case (Cons x seen)
  show ?case
  proof (cases "map_option fst current = map_option fst x")
    case True
    then have "r = f (content current)" using Cons.prems(1) by (simp add: Let_def)
    moreover have "content current = content x" using Cons.prems(2)[THEN bspec, of current, THEN bspec, of x] True by simp
    ultimately show ?thesis by (intro exI[of _ 0]) simp
  next
    case False
    then have "modify_loop f x seen = Some r" using Cons.prems(1) by (simp add: Let_def)
    then have "\<exists>k < length seen. r = f (content (seen ! k)) \<and>
        (\<forall>j < k. map_option fst ((x # seen) ! j) \<noteq> map_option fst (seen ! j))"
      by (rule Cons.IH) (use Cons.prems(2) in \<open>meson list.set_intros(2)\<close>)
    then obtain k where "k < length seen" "r = f (content (seen ! k))"
        "\<forall>j < k. map_option fst ((x # seen) ! j) \<noteq> map_option fst (seen ! j)"
      by blast
    then show ?thesis
      using False by (intro exI[of _ "Suc k"]) (auto simp: less_Suc_eq_0_disj)
  qed
qed simp

section \<open>Properties\<close>

text \<open>
  C20: In every state that the services can reach, a subscription to a living service adds exactly
  one call of its handler to the notifications of its name that are sent from any service of the
  same tree, after those of the earlier subscriptions, and changes no other notification.
  Unsubscribing it again restores what every notification delivered before.
\<close>

theorem subscription_delivered_until_unsubscribed:
  assumes "notifier_reachable st" and "alive st s" and "Subscribe s n posts h st = (st', i)"
  shows "SendNotification s' m st' =
      SendNotification s' m st @ (if root st s' = root st s \<and> m = n then [(h, posts)] else []) \<and>
    SendNotification s' m (Unsubscribe i st') = SendNotification s' m st"
  using Subscribe_spec[OF wf_reachable[OF assms(1)] assms(2,3)] by blast

definition root_and_child :: notifier where
  "root_and_child = fst (NotificationService_new (Some 0) (fst (NotificationService_new None notifier_empty)))"

lemma root_and_child_facts:
  "notifier_reachable root_and_child" "alive root_and_child 1" "alive root_and_child 0"
  "root root_and_child 1 = 0" "root root_and_child 0 = 0" "snapshot root_and_child s n = []"
proof -
  have "notifier_step notifier_empty (fst (NotificationService_new None notifier_empty))"
    by (rule notifier_step.new) simp
  moreover have "notifier_step (fst (NotificationService_new None notifier_empty)) root_and_child"
    unfolding root_and_child_def by (rule notifier_step.new) (simp add: NotificationService_new_def notifier_empty_def alive_def)
  ultimately show "notifier_reachable root_and_child"
    unfolding notifier_reachable_def by (meson converse_rtranclp_into_rtranclp r_into_rtranclp)
  show "alive root_and_child 1" "alive root_and_child 0" "snapshot root_and_child s n = []"
    by (simp_all add: root_and_child_def NotificationService_new_def notifier_empty_def alive_def snapshot_def)
  show "root root_and_child 1 = 0" "root root_and_child 0 = 0"
    by (simp_all add: root_and_child_def NotificationService_new_def notifier_empty_def root.simps parent_of_def)
qed

theorem subscription_delivered_until_unsubscribed_witness:
  "\<exists>st' i. Subscribe 1 5 False 9 root_and_child = (st', i) \<and> SendNotification 0 5 st' = [(9, False)] \<and>
     SendNotification 0 5 (Unsubscribe i st') = []"
proof -
  obtain st' i where sub: "Subscribe 1 5 False 9 root_and_child = (st', i)" by fastforce
  have "SendNotification 0 5 root_and_child = []"
    using SendNotification_root[of root_and_child 0 5] wf_reachable[OF root_and_child_facts(1)]
    by (simp add: wf_notifier_def root_and_child_facts)
  then show ?thesis
    using subscription_delivered_until_unsubscribed[OF root_and_child_facts(1,2) sub, of 0 5] sub
    unfolding root_and_child_facts(4,5) by simp
qed

text \<open>
  Unsubscribing everything from a service, as its destructor does, takes out of all
  notifications exactly the handlers that are registered with the service itself or, through
  views, with a service below it; all other handlers are called as before and in the same order.
\<close>

theorem unsubscribe_all_silences_subtree:
  assumes "notifier_reachable st" and "alive st s"
  shows "SendNotification s' n (UnsubscribeAll s st) =
    concat (map (CallHandler st)
      (filter (\<lambda>j. leaf st j \<notin> leaf st ` registered st s) (snapshot st (root st s') n)))"
  using unsubscribes_send UnsubscribeAll_unsubscribes[OF wf_reachable[OF assms(1)] alive_services[OF assms(2)]]
    wf_reachable[OF assms(1)] by (simp add: wf_notifier_def)

theorem unsubscribe_all_silences_subtree_witness:
  "\<exists>st' i. Subscribe 1 5 False 9 root_and_child = (st', i) \<and> notifier_reachable st' \<and> alive st' 1 \<and>
     SendNotification 0 5 (UnsubscribeAll 1 st') =
     concat (map (CallHandler st') (filter (\<lambda>j. leaf st' j \<notin> leaf st' ` registered st' 1) (snapshot st' (root st' 0) 5)))"
proof -
  obtain st' i where sub: "Subscribe 1 5 False 9 root_and_child = (st', i)" by fastforce
  have reach: "notifier_reachable st'"
    using root_and_child_facts(1) notifier_step.subscribe[OF root_and_child_facts(2), of 5 False 9] sub
    unfolding notifier_reachable_def by (simp add: rtranclp.rtrancl_into_rtrancl)
  have "alive st' 1"
    using sub by (auto simp: Subscribe_def add_entry_def AddSubscription_def AddSubscriptionToParent.simps add_view_def
        root_and_child_def NotificationService_new_def notifier_empty_def parent_of_def ModifySubscriptions_def
        alive_def set_entry_def Let_def split: prod.splits)
  with sub reach show ?thesis using unsubscribe_all_silences_subtree[of st' 1 0 5] by blast
qed

end
