(* ===== verification/PropertyBag.thy ===== *)
theory PropertyBag
  imports Prelude
begin

text \<open>
  Property names and property bags (\<^verbatim>\<open>Microsoft.ReactNative/IReactPropertyBag.h\<close> and \<^verbatim>\<open>.cpp\<close>). Names and
  namespaces are interned through tables of weak references, so that equal names are the same
  object, and a bag finds its values by the address of the name. An operation that leaves and
  enters the lock in between is two functions here, one for each time it holds the lock.
\<close>

section \<open>The contract of get-or-create\<close>

text \<open>
  \<open>peek\<close> is the first part of a get-or-create operation, \<open>put v\<close> the second with the newly created
  value. Calls from several threads interleave as a sequence of such parts.
\<close>

text \<open>\<open>None\<close> stands for a first part, \<open>Some v\<close> for a second; the results are those of the calls that end there.\<close>

primrec goc_results :: "('s \<Rightarrow> 'v option) \<Rightarrow> ('v \<Rightarrow> 's \<Rightarrow> 'v \<times> 's) \<Rightarrow> 'v option list \<Rightarrow> 's \<Rightarrow> 'v list" where
  "goc_results peek put [] s = []"
| "goc_results peek put (c # cs) s = (case c of
     None \<Rightarrow> (case peek s of None \<Rightarrow> goc_results peek put cs s | Some x \<Rightarrow> x # goc_results peek put cs s)
   | Some v \<Rightarrow> (case put v s of (r, s') \<Rightarrow> r # goc_results peek put cs s'))"

locale get_or_create =
  fixes peek :: "'s \<Rightarrow> 'v option"
    and put :: "'v \<Rightarrow> 's \<Rightarrow> 'v \<times> 's"
    and proper :: "'v \<Rightarrow> bool"
    and inv :: "'s \<Rightarrow> bool"
  assumes put_law: "inv s \<Longrightarrow> proper v \<Longrightarrow> put v s = (r, s') \<Longrightarrow>
      inv s' \<and> peek s' = Some r \<and> r = (case peek s of Some x \<Rightarrow> x | None \<Rightarrow> v)"
begin

lemma results_present:
  "inv s \<Longrightarrow> \<forall>v. Some v \<in> set cs \<longrightarrow> proper v \<Longrightarrow> peek s = Some x \<Longrightarrow> r \<in> set (goc_results peek put cs s) \<Longrightarrow> r = x"
proof (induction cs arbitrary: s)
  case (Cons c cs)
  show ?case
  proof (cases c)
    case None
    then show ?thesis using Cons by auto
  next
    case (Some v)
    obtain r' s' where put: "put v s = (r', s')" by fastforce
    have "inv s'" "peek s' = Some x" "r' = x"
      using put_law[OF Cons.prems(1) _ put] Cons.prems Some by auto
    then show ?thesis using Cons Some put by auto
  qed
qed simp

lemma results_agree:
  "inv s \<Longrightarrow> \<forall>v. Some v \<in> set cs \<longrightarrow> proper v \<Longrightarrow> \<exists>x. \<forall>r \<in> set (goc_results peek put cs s). r = x"
proof (induction cs arbitrary: s)
  case (Cons c cs)
  show ?case
  proof (cases "peek s")
    case (Some x)
    then show ?thesis using results_present[OF Cons.prems(1,2) Some] by blast
  next
    case absent: None
    show ?thesis
    proof (cases c)
      case None
      then show ?thesis using Cons absent by auto
    next
      case (Some v)
      obtain r' s' where put: "put v s = (r', s')" by fastforce
      have s': "inv s'" "peek s' = Some r'" using put_law[OF Cons.prems(1) _ put] Cons.prems(2) Some by auto
      then have "r = r'" if "r \<in> set (goc_results peek put cs s')" for r
        using results_present[OF s'(1) _ s'(2) that] Cons.prems(2) by auto
      then show ?thesis using Some put by auto
    qed
  qed
qed simp

end

section \<open>Tables of names\<close>

text \<open>
  The entries of a table are weak references to objects; \<open>alive\<close> holds the objects that have strong
  references at the moment. An entry that the index operator made and nobody filled yet is a weak
  reference to nothing, the same as no entry.
\<close>

type_synonym nametable = "(string \<times> nat) list"

definition weak_get :: "nat set \<Rightarrow> nat option \<Rightarrow> nat option" where
  "weak_get alive r = (case r of None \<Rightarrow> None | Some a \<Rightarrow> if a \<in> alive then Some a else None)"

definition Nametable_find :: "nat set \<Rightarrow> string \<Rightarrow> nametable \<Rightarrow> nat option" where
  "Nametable_find alive key m_entries = weak_get alive (map_of m_entries key)"

definition Nametable_insert :: "nat set \<Rightarrow> string \<Rightarrow> nat \<Rightarrow> nametable \<Rightarrow> nat \<times> nametable" where
  "Nametable_insert alive key newValue m_entries = (case Nametable_find alive key m_entries of
     Some a \<Rightarrow> (a, m_entries)
   | None \<Rightarrow> (newValue, insert_or_assign key newValue m_entries))"

interpretation nametable: get_or_create "Nametable_find alive key" "Nametable_insert alive key" "\<lambda>a. a \<in> alive" smap
  for alive key
  by unfold_locales
    (auto simp: Nametable_insert_def Nametable_find_def weak_get_def map_of_insert_or_assign split: option.splits if_splits)

section \<open>Namespaces and names\<close>

record property_namespace =
  m_namespaceName :: string
  m_localNames :: nametable

record property_name =
  m_namespace :: nat
  m_localName :: string

text \<open>
  All objects with their addresses. \<open>live\<close> are the objects with strong references, \<open>unpublished\<close> those
  of them that a call has created outside of the lock and not offered to a table yet.
\<close>

record name_world =
  namespaces :: "nat \<rightharpoonup> property_namespace"
  names :: "nat \<rightharpoonup> property_name"
  s_namespaces :: nametable
  s_globalNamespace :: "nat option"
  live :: "nat set"
  unpublished :: "nat set"
  next_address :: nat

definition names_empty :: name_world where
  "names_empty = \<lparr>namespaces = Map.empty, names = Map.empty, s_namespaces = [], s_globalNamespace = None,
     live = {}, unpublished = {}, next_address = 1\<rparr>"

text \<open>What an object is looked up by, and the weak reference that is found there.\<close>

datatype name_key = GlobalKey | NamespaceKey string | LocalKey nat string

definition local_names :: "nat \<Rightarrow> name_world \<Rightarrow> nametable" where
  "local_names ns w = (case namespaces w ns of None \<Rightarrow> [] | Some n \<Rightarrow> m_localNames n)"

primrec name_entry :: "name_key \<Rightarrow> name_world \<Rightarrow> nat option" where
  "name_entry GlobalKey w = s_globalNamespace w"
| "name_entry (NamespaceKey s) w = map_of (s_namespaces w) s"
| "name_entry (LocalKey ns l) w = map_of (local_names ns w) l"

text \<open>The first part of a call: what the entry refers to.\<close>

primrec find_entry :: "name_key \<Rightarrow> name_world \<Rightarrow> nat option" where
  "find_entry GlobalKey w = weak_get (live w) (s_globalNamespace w)"
| "find_entry (NamespaceKey s) w = Nametable_find (live w) s (s_namespaces w)"
| "find_entry (LocalKey ns l) w = Nametable_find (live w) l (local_names ns w)"

text \<open>The creation of the object, outside of the lock.\<close>

definition make_namespace :: "string \<Rightarrow> name_world \<Rightarrow> nat \<times> name_world" where
  "make_namespace namespaceName w = (next_address w,
     w\<lparr>namespaces := (namespaces w)(next_address w \<mapsto> \<lparr>m_namespaceName = namespaceName, m_localNames = []\<rparr>),
       live := insert (next_address w) (live w), unpublished := insert (next_address w) (unpublished w),
       next_address := next_address w + 1\<rparr>)"

definition make_name :: "nat \<Rightarrow> string \<Rightarrow> name_world \<Rightarrow> nat \<times> name_world" where
  "make_name ns localName w = (next_address w,
     w\<lparr>names := (names w)(next_address w \<mapsto> \<lparr>m_namespace = ns, m_localName = localName\<rparr>),
       live := insert (next_address w) (live w), unpublished := insert (next_address w) (unpublished w),
       next_address := next_address w + 1\<rparr>)"

primrec create_value :: "name_key \<Rightarrow> name_world \<Rightarrow> nat \<times> name_world" where
  "create_value GlobalKey w = make_namespace [] w"
| "create_value (NamespaceKey s) w = make_namespace s w"
| "create_value (LocalKey ns l) w = make_name ns l w"

text \<open>The second part: the new object goes into the entry, or is dropped for the one that is there.\<close>

primrec store_entry :: "name_key \<Rightarrow> nat \<Rightarrow> name_world \<Rightarrow> nat \<times> name_world" where
  "store_entry GlobalKey b w = (case find_entry GlobalKey w of
     Some a \<Rightarrow> (a, w)
   | None \<Rightarrow> (b, w\<lparr>s_globalNamespace := Some b\<rparr>))"
| "store_entry (NamespaceKey s) b w = (case Nametable_insert (live w) s b (s_namespaces w) of
     (r, table) \<Rightarrow> (r, w\<lparr>s_namespaces := table\<rparr>))"
| "store_entry (LocalKey ns l) b w = (case namespaces w ns of
     None \<Rightarrow> (b, w)
   | Some n \<Rightarrow> (case Nametable_insert (live w) l b (m_localNames n) of
       (r, table) \<Rightarrow> (r, w\<lparr>namespaces := (namespaces w)(ns \<mapsto> n\<lparr>m_localNames := table\<rparr>)\<rparr>)))"

definition publish :: "name_key \<Rightarrow> nat \<Rightarrow> name_world \<Rightarrow> nat \<times> name_world" where
  "publish k b w = (case store_entry k b w of (r, w') \<Rightarrow>
     (r, w'\<lparr>live := (if r = b then live w' else live w' - {b}), unpublished := unpublished w' - {b}\<rparr>))"

definition name_GetOrCreate :: "name_key \<Rightarrow> name_world \<Rightarrow> nat \<times> name_world" where
  "name_GetOrCreate k w = (case find_entry k w of
     Some a \<Rightarrow> (a, w)
   | None \<Rightarrow> (case create_value k w of (b, w') \<Rightarrow> publish k b w'))"

definition GlobalNamespace :: "name_world \<Rightarrow> nat \<times> name_world" where
  "GlobalNamespace w = name_GetOrCreate GlobalKey w"

definition GetNamespace :: "string \<Rightarrow> name_world \<Rightarrow> nat \<times> name_world" where
  "GetNamespace namespaceName w =
     (if namespaceName = [] then GlobalNamespace w else name_GetOrCreate (NamespaceKey namespaceName) w)"

definition GetLocalName :: "nat \<Rightarrow> string \<Rightarrow> name_world \<Rightarrow> nat \<times> name_world" where
  "GetLocalName ns localName w = name_GetOrCreate (LocalKey ns localName) w"

text \<open>\<open>None\<close> is a null namespace.\<close>

definition GetName :: "nat option \<Rightarrow> string \<Rightarrow> name_world \<Rightarrow> nat \<times> name_world" where
  "GetName ns localName w = (case ns of
     None \<Rightarrow> (case GlobalNamespace w of (g, w') \<Rightarrow> GetLocalName g localName w')
   | Some a \<Rightarrow> GetLocalName a localName w)"

section \<open>Property bags\<close>

text \<open>A bag maps the addresses of names to values; 0 is the null value.\<close>

type_synonym property_bag = "(nat \<times> nat) list"

definition bag_Get :: "nat \<Rightarrow> property_bag \<Rightarrow> nat" where
  "bag_Get propertyName m_entries = (case map_of m_entries propertyName of Some v \<Rightarrow> v | None \<Rightarrow> 0)"

text \<open>The second part of \<^verbatim>\<open>GetOrCreate\<close>: the entry is created null by the index operator.\<close>

definition bag_insert :: "nat \<Rightarrow> nat \<Rightarrow> property_bag \<Rightarrow> nat \<times> property_bag" where
  "bag_insert propertyName newValue m_entries =
     (let entry = bag_Get propertyName m_entries; entry' = (if entry = 0 then newValue else entry)
      in (entry', insert_or_assign propertyName entry' m_entries))"

definition bag_GetOrCreate :: "nat \<Rightarrow> (unit \<Rightarrow> nat) \<Rightarrow> property_bag \<Rightarrow> nat \<times> property_bag" where
  "bag_GetOrCreate propertyName createValue m_entries =
     (let result = bag_Get propertyName m_entries
      in if result = 0 then bag_insert propertyName (createValue ()) m_entries else (result, m_entries))"

definition bag_Set :: "nat \<Rightarrow> nat \<Rightarrow> property_bag \<Rightarrow> nat \<times> property_bag" where
  "bag_Set propertyName v m_entries =
     (if v \<noteq> 0 then (bag_Get propertyName m_entries, insert_or_assign propertyName v m_entries)
      else (case map_of m_entries propertyName of
          Some x \<Rightarrow> (x, erase_key propertyName m_entries)
        | None \<Rightarrow> (0, m_entries)))"

definition bag_CopyFrom :: "property_bag \<Rightarrow> property_bag \<Rightarrow> property_bag" where
  "bag_CopyFrom other m_entries = fold (\<lambda>(n, v). try_emplace n v) other m_entries"

definition bag_peek :: "nat \<Rightarrow> property_bag \<Rightarrow> nat option" where
  "bag_peek propertyName b = (let v = bag_Get propertyName b in if v = 0 then None else Some v)"

interpretation bag: get_or_create "bag_peek n" "bag_insert n" "\<lambda>v. v \<noteq> 0" smap for n
  by unfold_locales
    (auto simp: bag_peek_def bag_insert_def bag_Get_def map_of_insert_or_assign Let_def split: option.splits if_splits)

lemma bag_Get_Set:
  "smap b \<Longrightarrow> bag_Set n v b = (old, b') \<Longrightarrow>
     smap b' \<and> old = bag_Get n b \<and> bag_Get m b' = (if m = n then v else bag_Get m b)"
  by (auto simp: bag_Set_def bag_Get_def map_of_insert_or_assign map_of_erase_key split: if_splits option.splits)

lemma bag_CopyFrom_entries:
  "smap b \<Longrightarrow> distinct (map fst other) \<Longrightarrow>
     smap (bag_CopyFrom other b) \<and> map_of (bag_CopyFrom other b) = map_of other ++ map_of b"
proof (induction other arbitrary: b)
  case (Cons p other)
  obtain n v where p: "p = (n, v)" by (cases p)
  have absent: "map_of other n = None" using Cons.prems p by (simp add: map_of_eq_None_iff)
  have "smap (try_emplace n v b)" using Cons.prems by simp
  then have "smap (bag_CopyFrom other (try_emplace n v b))"
      "map_of (bag_CopyFrom other (try_emplace n v b)) = map_of other ++ map_of (try_emplace n v b)"
    using Cons.IH[of "try_emplace n v b"] Cons.prems by auto
  moreover have "map_of other ++ map_of (try_emplace n v b) = map_of (p # other) ++ map_of b"
    using Cons.prems(1) absent p
    by (auto simp: map_of_try_emplace fun_eq_iff map_add_def split: option.splits)
  ultimately show ?case by (simp add: p bag_CopyFrom_def fun_upd_def)
qed (simp add: bag_CopyFrom_def)

section \<open>Interned names\<close>

text \<open>
  The parts of the calls of all threads, interleaved: an object is created for a key, or offered to
  the table, or strong references go away. A name holds its namespace.
\<close>

definition object_key :: "name_world \<Rightarrow> nat \<Rightarrow> name_key option" where
  "object_key w a = (case namespaces w a of
     Some n \<Rightarrow> Some (if m_namespaceName n = [] then GlobalKey else NamespaceKey (m_namespaceName n))
   | None \<Rightarrow> (case names w a of
       Some p \<Rightarrow> Some (LocalKey (m_namespace p) (m_localName p)) | None \<Rightarrow> None))"

definition is_namespace :: "name_world \<Rightarrow> nat \<Rightarrow> bool" where
  "is_namespace w ns = (case object_key w ns of Some GlobalKey \<Rightarrow> True | Some (NamespaceKey s) \<Rightarrow> True | _ \<Rightarrow> False)"

definition key_ok :: "name_world \<Rightarrow> name_key \<Rightarrow> bool" where
  "key_ok w k = (case k of GlobalKey \<Rightarrow> True | NamespaceKey s \<Rightarrow> s \<noteq> []
     | LocalKey ns l \<Rightarrow> ns \<in> live w - unpublished w \<and> is_namespace w ns)"

definition holds_namespaces :: "name_world \<Rightarrow> nat set \<Rightarrow> bool" where
  "holds_namespaces w L \<longleftrightarrow> (\<forall>a \<in> L. \<forall>ns l. object_key w a = Some (LocalKey ns l) \<longrightarrow>
     ns \<in> L - unpublished w \<and> is_namespace w ns)"

inductive name_step :: "name_world \<Rightarrow> name_world \<Rightarrow> bool" where
  name_create: "key_ok w k \<Longrightarrow> create_value k w = (b, w') \<Longrightarrow> name_step w w'"
| name_publish: "b \<in> unpublished w \<Longrightarrow> object_key w b = Some k \<Longrightarrow> publish k b w = (r, w') \<Longrightarrow> name_step w w'"
| name_release: "L \<subseteq> live w \<Longrightarrow> unpublished w \<subseteq> L \<Longrightarrow> holds_namespaces w L \<Longrightarrow> name_step w (w\<lparr>live := L\<rparr>)"

definition wf_names :: "name_world \<Rightarrow> bool" where
  "wf_names w \<longleftrightarrow>
     smap (s_namespaces w) \<and> (\<forall>ns. smap (local_names ns w)) \<and>
     (\<forall>a. object_key w a \<noteq> None \<longrightarrow> a < next_address w) \<and>
     unpublished w \<subseteq> live w \<and> live w \<subseteq> {a. object_key w a \<noteq> None} \<and>
     holds_namespaces w (live w) \<and>
     (\<forall>k a. name_entry k w = Some a \<longrightarrow> object_key w a = Some k \<and> a \<notin> unpublished w) \<and>
     (\<forall>a \<in> live w - unpublished w. \<forall>k. object_key w a = Some k \<longrightarrow> name_entry k w = Some a)"

lemma find_entry_weak: "find_entry k w = weak_get (live w) (name_entry k w)"
  by (cases k) (simp_all add: Nametable_find_def)

lemma is_namespace_iff: "is_namespace w ns \<longleftrightarrow> (\<exists>n. namespaces w ns = Some n)"
  by (auto simp: is_namespace_def object_key_def split: option.splits)

lemma wf_names_empty: "wf_names names_empty"
proof -
  have "name_entry k names_empty = None" for k
    by (cases k) (simp_all add: names_empty_def local_names_def)
  then show ?thesis
    by (simp add: wf_names_def names_empty_def holds_namespaces_def object_key_def local_names_def)
qed

lemma counts_untouched [simp]:
  "object_key (w\<lparr>live := L\<rparr>) = object_key w" "object_key (w\<lparr>unpublished := L\<rparr>) = object_key w"
  "local_names ns (w\<lparr>live := L\<rparr>) = local_names ns w" "local_names ns (w\<lparr>unpublished := L\<rparr>) = local_names ns w"
  "is_namespace (w\<lparr>live := L\<rparr>) ns = is_namespace w ns"
  by (auto simp: object_key_def local_names_def is_namespace_def fun_eq_iff split: option.splits)

lemma name_entry_untouched [simp]:
  "name_entry k (w\<lparr>live := L\<rparr>) = name_entry k w" "name_entry k (w\<lparr>unpublished := L\<rparr>) = name_entry k w"
  by (cases k; simp)+

lemma wf_namesD:
  assumes "wf_names w"
  shows "smap (s_namespaces w)" "smap (local_names ns w)"
    "object_key w a = Some k \<Longrightarrow> a < next_address w"
    "a \<in> unpublished w \<Longrightarrow> a \<in> live w" "a \<in> live w \<Longrightarrow> \<exists>k. object_key w a = Some k"
    "a \<in> live w \<Longrightarrow> object_key w a = Some (LocalKey ns l) \<Longrightarrow>
      ns \<in> live w \<and> ns \<notin> unpublished w \<and> is_namespace w ns"
    "name_entry k w = Some a \<Longrightarrow> object_key w a = Some k \<and> a \<notin> unpublished w"
    "a \<in> live w \<Longrightarrow> a \<notin> unpublished w \<Longrightarrow> object_key w a = Some k \<Longrightarrow> name_entry k w = Some a"
  using assms unfolding wf_names_def holds_namespaces_def by blast+

lemma wf_namesI:
  assumes "smap (s_namespaces w)" "\<And>ns. smap (local_names ns w)"
    "\<And>a k. object_key w a = Some k \<Longrightarrow> a < next_address w"
    "\<And>a. a \<in> unpublished w \<Longrightarrow> a \<in> live w" "\<And>a. a \<in> live w \<Longrightarrow> \<exists>k. object_key w a = Some k"
    "\<And>a ns l. a \<in> live w \<Longrightarrow> object_key w a = Some (LocalKey ns l) \<Longrightarrow>
      ns \<in> live w \<and> ns \<notin> unpublished w \<and> is_namespace w ns"
    "\<And>k a. name_entry k w = Some a \<Longrightarrow> object_key w a = Some k \<and> a \<notin> unpublished w"
    "\<And>k a. a \<in> live w \<Longrightarrow> a \<notin> unpublished w \<Longrightarrow> object_key w a = Some k \<Longrightarrow> name_entry k w = Some a"
  shows "wf_names w"
  using assms unfolding wf_names_def holds_namespaces_def by blast

lemma create_value_effect:
  assumes "wf_names w" and "key_ok w k" and "create_value k w = (b, w')"
  shows "b = next_address w" "next_address w' = b + 1" "s_namespaces w' = s_namespaces w"
    "name_entry k' w' = name_entry k' w" "local_names ns w' = local_names ns w"
    "object_key w' = (object_key w)(b \<mapsto> k)"
    "live w' = insert b (live w)" "unpublished w' = insert b (unpublished w)"
proof -
  have fresh: "object_key w (next_address w) = None" using wf_namesD(3)[OF assms(1), of "next_address w"] by force
  then have fresh': "namespaces w (next_address w) = None" "names w (next_address w) = None"
    by (auto simp: object_key_def split: option.splits)
  show b: "b = next_address w" "next_address w' = b + 1" "s_namespaces w' = s_namespaces w"
      "live w' = insert b (live w)" "unpublished w' = insert b (unpublished w)"
    using assms(3) by (cases k; auto simp: make_namespace_def make_name_def)+
  show loc: "local_names ns w' = local_names ns w" for ns
    using assms(3) fresh' by (cases k) (auto simp: make_namespace_def make_name_def local_names_def)
  have "s_globalNamespace w' = s_globalNamespace w"
    using assms(3) by (cases k) (auto simp: make_namespace_def make_name_def)
  then show "name_entry k' w' = name_entry k' w" using b loc by (cases k') simp_all
  show "object_key w' = (object_key w)(b \<mapsto> k)"
    using assms(2,3) fresh' by (cases k) (auto simp: make_namespace_def make_name_def object_key_def fun_eq_iff key_ok_def cong: option.case_cong)
qed

lemma store_entry_effect:
  assumes "wf_names w" and "key_ok w k" and "store_entry k b w = (r, w')"
  shows "r = (case find_entry k w of Some a \<Rightarrow> a | None \<Rightarrow> b)" "next_address w' = next_address w"
    "live w' = live w" "unpublished w' = unpublished w" "object_key w' = object_key w"
    "name_entry k' w' = (if k' = k \<and> find_entry k w = None then Some b else name_entry k' w)"
    "smap (s_namespaces w')" "smap (local_names ns w')"
proof -
  have sm: "smap (s_namespaces w)" "smap (local_names ns w)" for ns using assms(1) by (simp_all add: wf_names_def)
  have sm': "namespaces w ns = Some n \<Longrightarrow> smap (m_localNames n)" for ns n using sm(2)[of ns] by (simp add: local_names_def)
  show "r = (case find_entry k w of Some a \<Rightarrow> a | None \<Rightarrow> b)"
    using assms(2,3) by (cases k) (auto simp: Nametable_insert_def local_names_def key_ok_def is_namespace_iff split: option.splits)
  show "next_address w' = next_address w" "live w' = live w" "unpublished w' = unpublished w"
    using assms(3) by (cases k; auto split: option.splits prod.splits)+
  show "object_key w' = object_key w"
    using assms(3)
    by (cases k) (auto simp: object_key_def fun_eq_iff split: option.splits prod.splits if_splits)
  show "smap (s_namespaces w')" "smap (local_names ns w')"
    using assms(3) sm sm'
    by (cases k; auto simp: Nametable_insert_def local_names_def split: option.splits prod.splits if_splits)+
  show "name_entry k' w' = (if k' = k \<and> find_entry k w = None then Some b else name_entry k' w)"
    using assms(2,3) sm sm'
    by (cases k; cases k')
      (auto simp: Nametable_insert_def local_names_def key_ok_def is_namespace_iff map_of_insert_or_assign split: option.splits prod.splits if_splits)
qed

lemma wf_names_create:
  assumes wf: "wf_names w" and ok: "key_ok w k" and c: "create_value k w = (b, w')"
  shows "wf_names w'"
proof -
  note e = create_value_effect[OF wf ok c]
  have fresh: "object_key w b = None" using wf_namesD(3)[OF wf, of b] e(1) by force
  then have new: "b \<notin> live w" "name_entry k' w \<noteq> Some b" for k'
    using wf_namesD(5)[OF wf, of b] wf_namesD(7)[OF wf, of k' b] by auto
  show ?thesis
  proof (rule wf_namesI)
    fix a ns l
    assume "a \<in> live w'" "object_key w' a = Some (LocalKey ns l)"
    then have "ns \<in> live w \<and> ns \<notin> unpublished w \<and> is_namespace w ns"
      using wf_namesD(6)[OF wf, of a ns l] ok e(6,7) by (auto simp: key_ok_def split: if_splits)
    then show "ns \<in> live w' \<and> ns \<notin> unpublished w' \<and> is_namespace w' ns"
      using e(6,7,8) new(1) by (auto simp: is_namespace_def)
  next
    fix k' a
    assume "name_entry k' w' = Some a"
    then show "object_key w' a = Some k' \<and> a \<notin> unpublished w'"
      using wf_namesD(7)[OF wf, of k' a] new(2)[of k'] e(4,6,8) by auto
  next
    fix k' a
    assume "a \<in> live w'" "a \<notin> unpublished w'" "object_key w' a = Some k'"
    then show "name_entry k' w' = Some a"
      using wf_namesD(8)[OF wf, of a k'] e(4,6,7,8) by auto
  next
    fix a k' assume "object_key w' a = Some k'"
    then show "a < next_address w'"
      using wf_namesD(3)[OF wf, of a k'] e(1,2,6) by (auto split: if_splits)
  qed (use wf_namesD(1,2,4,5)[OF wf] e in auto)
qed

lemma object_key_ok:
  assumes wf: "wf_names w" and "a \<in> live w" and "object_key w a = Some k"
  shows "key_ok w k"
proof (cases k)
  case (LocalKey ns l)
  then show ?thesis using wf_namesD(6)[OF wf] assms(2,3) by (auto simp: key_ok_def)
qed (use assms(3) in \<open>auto simp: key_ok_def object_key_def split: option.splits if_splits\<close>)

lemma wf_names_publish:
  assumes wf: "wf_names w" and b: "b \<in> unpublished w" and k: "object_key w b = Some k"
    and p: "publish k b w = (r, w')"
  shows "wf_names w'" and "r \<in> live w' - unpublished w'" and "object_key w' r = Some k"
proof -
  have bl: "b \<in> live w" using wf_namesD(4)[OF wf b] .
  obtain v where v: "store_entry k b w = (r, v)" and w': "w' = v\<lparr>live := (if r = b then live v else live v - {b}),
      unpublished := unpublished v - {b}\<rparr>"
    using p by (auto simp: publish_def split: prod.splits)
  note e = store_entry_effect[OF wf object_key_ok[OF wf bl k] v]
  have find: "find_entry k w = (case name_entry k w of None \<Rightarrow> None | Some a \<Rightarrow> if a \<in> live w then Some a else None)"
    by (simp add: find_entry_weak weak_get_def)
  have key: "object_key w' = object_key w" using e(5) by (simp add: w')
  have entry: "name_entry k' w' = (if k' = k then Some r else name_entry k' w)" for k'
  proof -
    have "name_entry k' w' = name_entry k' v" by (simp add: w')
    then show ?thesis using e(1) e(6)[of k'] find by (auto split: option.splits if_splits)
  qed
  have live: "live w' = (if r = b then live w else live w - {b})" and unp: "unpublished w' = unpublished w - {b}"
    using e(3,4) by (simp_all add: w')
  have r: "r \<in> live w'" "r \<notin> unpublished w'" "object_key w r = Some k"
    using e(1) find k bl wf_namesD(7)[OF wf, of k r] live unp by (auto split: option.splits if_splits)
  then show "r \<in> live w' - unpublished w'" "object_key w' r = Some k" using key by auto
  show "wf_names w'"
  proof (rule wf_namesI)
    fix a ns l
    assume "a \<in> live w'" "object_key w' a = Some (LocalKey ns l)"
    then have "ns \<in> live w \<and> ns \<notin> unpublished w \<and> is_namespace w ns"
      using wf_namesD(6)[OF wf, of a ns l] key live by (auto split: if_splits)
    then show "ns \<in> live w' \<and> ns \<notin> unpublished w' \<and> is_namespace w' ns"
      using live unp b key by (auto simp: is_namespace_def)
  next
    fix k' a
    assume "name_entry k' w' = Some a"
    then show "object_key w' a = Some k' \<and> a \<notin> unpublished w'"
      using entry[of k'] r key unp wf_namesD(7)[OF wf, of k' a] by (auto split: if_splits)
  next
    fix k' a
    assume a: "a \<in> live w'" "a \<notin> unpublished w'" "object_key w' a = Some k'"
    show "name_entry k' w' = Some a"
    proof (cases "a = b")
      case True
      then show ?thesis using a live key k entry[of k] by (auto split: if_splits)
    next
      case False
      then have "name_entry k' w = Some a" "a \<in> live w"
        using a wf_namesD(8)[OF wf, of a k'] key live unp by (auto split: if_splits)
      then show ?thesis using entry[of k'] e(1) find by auto
    qed
  next
    show "smap (s_namespaces w')" "smap (local_names ns w')" for ns
      using e(7) e(8)[of ns] by (simp_all add: w' local_names_def)
  next
    fix a k' assume "object_key w' a = Some k'"
    then show "a < next_address w'" using wf_namesD(3)[OF wf] key e(2) by (simp add: w')
  qed (use wf_namesD(4,5)[OF wf] live unp key in \<open>auto split: if_splits\<close>)
qed

lemma name_step_wf: "name_step w w' \<Longrightarrow> wf_names w \<Longrightarrow> wf_names w'"
proof (induction rule: name_step.induct)
  case (name_release L w)
  let ?w = "w\<lparr>live := L\<rparr>"
  note D = wf_namesD[OF name_release.prems] and L = subsetD[OF name_release.hyps(1)] subsetD[OF name_release.hyps(2)]
  show ?case
  proof (rule wf_namesI)
    show "smap (s_namespaces ?w)" "smap (local_names ns ?w)" for ns using D(1,2) by simp_all
    show "object_key ?w a = Some k \<Longrightarrow> a < next_address ?w" for a k using D(3) by simp
    show "a \<in> unpublished ?w \<Longrightarrow> a \<in> live ?w" for a using L(2) by simp
    show "a \<in> live ?w \<Longrightarrow> \<exists>k. object_key ?w a = Some k" for a using D(5) L(1) by simp
    show "a \<in> live ?w \<Longrightarrow> object_key ?w a = Some (LocalKey ns l) \<Longrightarrow>
        ns \<in> live ?w \<and> ns \<notin> unpublished ?w \<and> is_namespace ?w ns" for a ns l
      using name_release.hyps(3) by (auto simp: holds_namespaces_def)
    show "name_entry k ?w = Some a \<Longrightarrow> object_key ?w a = Some k \<and> a \<notin> unpublished ?w" for k a using D(7) by simp
    show "a \<in> live ?w \<Longrightarrow> a \<notin> unpublished ?w \<Longrightarrow> object_key ?w a = Some k \<Longrightarrow> name_entry k ?w = Some a" for a k
      using D(8) L(1) by simp
  qed
qed (blast intro: wf_names_create wf_names_publish)+

lemma name_steps_wf: "name_step\<^sup>*\<^sup>* names_empty w \<Longrightarrow> wf_names w"
  by (induction rule: rtranclp_induct) (auto intro: wf_names_empty name_step_wf)

text \<open>A call whose parts are not interrupted, for the namespaces and names that are handed out.\<close>

definition handed_out :: "name_world \<Rightarrow> nat set" where
  "handed_out w = live w - unpublished w"

lemma name_GetOrCreate_steps:
  assumes wf: "wf_names w" and ok: "key_ok w k" and g: "name_GetOrCreate k w = (r, w')"
  shows "name_step\<^sup>*\<^sup>* w w'" and "r \<in> handed_out w'" and "object_key w' r = Some k"
    and "\<forall>a \<in> handed_out w. a \<in> handed_out w' \<and> object_key w' a = object_key w a"
    and "\<forall>a \<in> handed_out w. object_key w a = Some k \<longrightarrow> r = a \<and> w' = w"
proof -
  have hit: "find_entry k w = Some a" if "a \<in> handed_out w" "object_key w a = Some k" for a
    using wf_namesD(8)[OF wf, of a k] that by (auto simp: handed_out_def find_entry_weak weak_get_def)
  show "\<forall>a \<in> handed_out w. object_key w a = Some k \<longrightarrow> r = a \<and> w' = w"
    using hit g by (auto simp: name_GetOrCreate_def)
  have "name_step\<^sup>*\<^sup>* w w' \<and> r \<in> handed_out w' \<and> object_key w' r = Some k \<and>
      (\<forall>a \<in> handed_out w. a \<in> handed_out w' \<and> object_key w' a = object_key w a)"
  proof (cases "find_entry k w")
    case (Some a)
    then show ?thesis using g wf_namesD(7)[OF wf, of k a]
      by (auto simp: name_GetOrCreate_def handed_out_def find_entry_weak weak_get_def split: option.splits if_splits)
  next
    case None
    obtain b v where c: "create_value k w = (b, v)" by fastforce
    have p: "publish k b v = (r, w')" using g None c by (simp add: name_GetOrCreate_def)
    note e = create_value_effect[OF wf ok c] and wv = wf_names_create[OF wf ok c]
    have b: "b \<in> unpublished v" "object_key v b = Some k" using e(6,8) by auto
    note P = wf_names_publish[OF wv b p]
    have steps: "name_step w v" "name_step v w'"
      using name_create[OF ok c] name_publish[OF b p] by auto
    have fresh: "b \<notin> live w" using wf_namesD(3,5)[OF wf, of b] e(1) by force
    obtain u where u: "store_entry k b v = (r, u)" and w': "w' = u\<lparr>live := (if r = b then live u else live u - {b}),
        unpublished := unpublished u - {b}\<rparr>"
      using p by (auto simp: publish_def split: prod.splits)
    note E = store_entry_effect[OF wv object_key_ok[OF wv _ b(2)] u]
    have "b \<in> live v" using e(7) by simp
    note E = E[OF this]
    have "a \<in> handed_out w' \<and> object_key w' a = object_key w a" if "a \<in> handed_out w" for a
      using that E(3,4,5) e(6,7,8) fresh by (auto simp: handed_out_def w')
    then show ?thesis using steps P(2,3) by (auto simp: handed_out_def)
  qed
  then show "name_step\<^sup>*\<^sup>* w w'" "r \<in> handed_out w'" "object_key w' r = Some k"
      "\<forall>a \<in> handed_out w. a \<in> handed_out w' \<and> object_key w' a = object_key w a"
    by auto
qed

definition full_name :: "name_world \<Rightarrow> nat \<Rightarrow> (string \<times> string) option" where
  "full_name w a = (case object_key w a of
     Some (LocalKey ns l) \<Rightarrow> (case namespaces w ns of Some n \<Rightarrow> Some (m_namespaceName n, l) | None \<Rightarrow> None)
   | _ \<Rightarrow> None)"

definition namespace_key :: "string \<Rightarrow> name_key" where
  "namespace_key s = (if s = [] then GlobalKey else NamespaceKey s)"

lemma full_name_SomeE:
  assumes "wf_names w" and "a \<in> handed_out w" and "full_name w a = Some (s, l)"
  obtains ns where "object_key w a = Some (LocalKey ns l)" "ns \<in> handed_out w" "object_key w ns = Some (namespace_key s)"
proof -
  obtain ns n where k: "object_key w a = Some (LocalKey ns l)" "namespaces w ns = Some n" "m_namespaceName n = s"
    using assms(3) by (auto simp: full_name_def split: option.splits name_key.splits)
  show ?thesis
  proof (rule that[OF k(1)])
    show "ns \<in> handed_out w" using wf_namesD(6)[OF assms(1) _ k(1)] assms(2) by (auto simp: handed_out_def)
    show "object_key w ns = Some (namespace_key s)" using k(2,3) by (simp add: object_key_def namespace_key_def)
  qed
qed

lemma object_key_namespace:
  "object_key w ns = Some (namespace_key s) \<Longrightarrow> \<exists>n. namespaces w ns = Some n \<and> m_namespaceName n = s"
  by (auto simp: object_key_def namespace_key_def split: option.splits if_splits)

lemma interned:
  assumes "wf_names w" and "a \<in> handed_out w" and "b \<in> handed_out w"
    and "object_key w a = Some k" and "object_key w b = Some k"
  shows "a = b"
  using wf_namesD(8)[OF assms(1), of a k] wf_namesD(8)[OF assms(1), of b k] assms(2-5)
  by (simp add: handed_out_def)

lemma GetNamespace_eq: "GetNamespace s w = name_GetOrCreate (namespace_key s) w"
  by (simp add: GetNamespace_def GlobalNamespace_def namespace_key_def)

definition LookUpName :: "string \<Rightarrow> string \<Rightarrow> name_world \<Rightarrow> nat \<times> name_world" where
  "LookUpName s l w = (case GetNamespace s w of (ns, w') \<Rightarrow> GetName (Some ns) l w')"

lemma GetName_null: "GetName None l w = LookUpName [] l w"
  by (simp add: GetName_def LookUpName_def GetNamespace_def)

lemma handed_out_inj:
  assumes wf: "wf_names w" and in_use: "c \<in> handed_out w" "d \<in> handed_out w"
    and full: "full_name w c = Some (s', l')" "full_name w d = Some (s', l')"
  shows "c = d"
proof -
  obtain ns where c: "object_key w c = Some (LocalKey ns l')" "ns \<in> handed_out w" "object_key w ns = Some (namespace_key s')"
    by (rule full_name_SomeE[OF wf in_use(1) full(1)])
  obtain ns' where d: "object_key w d = Some (LocalKey ns' l')" "ns' \<in> handed_out w" "object_key w ns' = Some (namespace_key s')"
    by (rule full_name_SomeE[OF wf in_use(2) full(2)])
  have "ns = ns'" using interned[OF wf c(2) d(2) c(3) d(3)] .
  then show ?thesis using interned[OF wf in_use c(1)] d(1) by simp
qed

lemma LookUpName_result:
  assumes reach: "name_step\<^sup>*\<^sup>* names_empty w" and look: "LookUpName s l w = (r, w')"
  shows "name_step\<^sup>*\<^sup>* names_empty w' \<and> r \<in> handed_out w' \<and> full_name w' r = Some (s, l) \<and>
      (\<forall>c \<in> handed_out w. full_name w c = Some (s, l) \<longrightarrow> r = c \<and> w' = w)"
proof -
  have wf: "wf_names w" by (rule name_steps_wf[OF reach])
  obtain ns v where n: "name_GetOrCreate (namespace_key s) w = (ns, v)" by fastforce
  have g: "name_GetOrCreate (LocalKey ns l) v = (r, w')"
    using look n by (simp add: LookUpName_def GetNamespace_eq GetName_def GetLocalName_def)
  have "key_ok w (namespace_key s)" by (simp add: key_ok_def namespace_key_def)
  note N = name_GetOrCreate_steps[OF wf this n]
  have v: "name_step\<^sup>*\<^sup>* names_empty v" using reach N(1) by (rule rtranclp_trans)
  have wv: "wf_names v" by (rule name_steps_wf[OF v])
  have "key_ok v (LocalKey ns l)"
    using N(2) object_key_namespace[OF N(3)] by (auto simp: key_ok_def handed_out_def is_namespace_iff)
  note G = name_GetOrCreate_steps[OF wv this g]
  have "object_key w' ns = Some (namespace_key s)" using G(4) N(2,3) by simp
  then have "full_name w' r = Some (s, l)" using object_key_namespace[of w' ns s] G(3) by (auto simp: full_name_def)
  moreover have "r = c \<and> w' = w" if c: "c \<in> handed_out w" "full_name w c = Some (s, l)" for c
  proof -
    obtain m where m: "object_key w c = Some (LocalKey m l)" "m \<in> handed_out w" "object_key w m = Some (namespace_key s)"
      by (rule full_name_SomeE[OF wf c])
    have "ns = m" "v = w" using N(5) m(2,3) by auto
    then show ?thesis using G(5) c(1) m(1) by auto
  qed
  ultimately show "name_step\<^sup>*\<^sup>* names_empty w' \<and> r \<in> handed_out w' \<and> full_name w' r = Some (s, l) \<and>
      (\<forall>c \<in> handed_out w. full_name w c = Some (s, l) \<longrightarrow> r = c \<and> w' = w)"
    using rtranclp_trans[OF v G(1)] G(2) by simp
qed

text \<open>
  C21: Property names are interned. However the calls of all threads interleave, and whatever names are
  released in between, two names that are in use are the same object exactly when they have the same
  namespace name and local name. Looking a name up by its two strings gives a name with these strings,
  and the very object that is in use under them, when there is one.
\<close>

theorem property_names_interned:
  assumes "name_step\<^sup>*\<^sup>* names_empty w"
  shows "(\<forall>a \<in> handed_out w. \<forall>b \<in> handed_out w. full_name w a \<noteq> None \<longrightarrow>
      (full_name w a = full_name w b \<longleftrightarrow> a = b)) \<and>
    (case LookUpName s l w of (r, w') \<Rightarrow>
      name_step\<^sup>*\<^sup>* names_empty w' \<and> r \<in> handed_out w' \<and> full_name w' r = Some (s, l) \<and>
      (\<forall>c \<in> handed_out w. full_name w c = Some (s, l) \<longrightarrow> r = c \<and> w' = w))"
proof
  have wf: "wf_names w" by (rule name_steps_wf[OF assms])
  show "\<forall>a \<in> handed_out w. \<forall>b \<in> handed_out w. full_name w a \<noteq> None \<longrightarrow>
      (full_name w a = full_name w b \<longleftrightarrow> a = b)"
  proof (intro ballI impI)
    fix a b assume ab: "a \<in> handed_out w" "b \<in> handed_out w" "full_name w a \<noteq> None"
    then obtain s' l' where "full_name w a = Some (s', l')" by auto
    then show "full_name w a = full_name w b \<longleftrightarrow> a = b" using handed_out_inj[OF wf ab(1,2)] by auto
  qed
  show "case LookUpName s l w of (r, w') \<Rightarrow>
      name_step\<^sup>*\<^sup>* names_empty w' \<and> r \<in> handed_out w' \<and> full_name w' r = Some (s, l) \<and>
      (\<forall>c \<in> handed_out w. full_name w c = Some (s, l) \<longrightarrow> r = c \<and> w' = w)"
    unfolding case_prod_beta by (rule LookUpName_result[OF assms prod.collapse[symmetric]])
qed

theorem property_names_interned_witness:
  "full_name (snd (LookUpName ''RN'' ''Timers'' names_empty)) (fst (LookUpName ''RN'' ''Timers'' names_empty)) =
     Some (''RN'', ''Timers'')"
  using property_names_interned[where w = names_empty and s = "''RN''" and l = "''Timers''", OF rtranclp.rtrancl_refl, THEN conjunct2]
  unfolding case_prod_beta by (elim conjE)

text \<open>
  What a property bag promises. A bag keeps what was last set under a name and gives the former
  value back; a null value removes the entry. Copying from another bag adds the entries that are missing
  and keeps the others, null entries included. All calls that get or create the value of one name,
  interleaved in any way, return the same value when no creation callback returns null.
\<close>

theorem property_bag_semantics:
  assumes "smap b" and "smap other" and "\<forall>v. Some v \<in> set calls \<longrightarrow> v \<noteq> 0"
  shows "(case bag_Set n v b of (old, b') \<Rightarrow>
      smap b' \<and> old = bag_Get n b \<and> (\<forall>m. bag_Get m b' = (if m = n then v else bag_Get m b))) \<and>
    smap (bag_CopyFrom other b) \<and> map_of (bag_CopyFrom other b) = map_of other ++ map_of b \<and>
    (case bag_GetOrCreate n f b of (r, b') \<Rightarrow>
      smap b' \<and> r = (if bag_Get n b \<noteq> 0 then bag_Get n b else f ()) \<and>
      (\<forall>m. bag_Get m b' = (if m = n then r else bag_Get m b))) \<and>
    (\<exists>x. \<forall>r \<in> set (goc_results (bag_peek n) (bag_insert n) calls b). r = x)"
proof (intro conjI)
  show "case bag_Set n v b of (old, b') \<Rightarrow>
      smap b' \<and> old = bag_Get n b \<and> (\<forall>m. bag_Get m b' = (if m = n then v else bag_Get m b))"
    using bag_Get_Set[OF assms(1), of n v] by (cases "bag_Set n v b") auto
  show "smap (bag_CopyFrom other b)" "map_of (bag_CopyFrom other b) = map_of other ++ map_of b"
    using bag_CopyFrom_entries[OF assms(1) smap_distinct[OF assms(2)]] by auto
  show "case bag_GetOrCreate n f b of (r, b') \<Rightarrow>
      smap b' \<and> r = (if bag_Get n b \<noteq> 0 then bag_Get n b else f ()) \<and>
      (\<forall>m. bag_Get m b' = (if m = n then r else bag_Get m b))"
    using assms(1) by (auto simp: bag_GetOrCreate_def bag_insert_def bag_Get_def map_of_insert_or_assign Let_def)
  show "\<exists>x. \<forall>r \<in> set (goc_results (bag_peek n) (bag_insert n) calls b). r = x"
    by (rule bag.results_agree[OF assms(1,3)])
qed

theorem property_bag_semantics_witness:
  "\<exists>x. \<forall>r \<in> set (goc_results (bag_peek 3) (bag_insert 3) [None, Some 7, Some 8, None] [(2, 9)]). r = x"
  using property_bag_semantics[of "[(2, 9)]" "[(2, 5), (3, 6)]" "[None, Some 7, Some 8, None]" 3 0 "\<lambda>_. 1"]
  by (simp add: smap_def)

end
