(* ===== verification/GraphUpdate.thy ===== *)
theory GraphUpdate
  imports Prelude
begin

text \<open>
  The order in which the native animations update their nodes
  (\<^verbatim>\<open>NativeAnimatedNodeManager::UpdateNodes\<close>): a breadth-first search counts the active nodes and
  the edges between them, a second one visits a node when all its active predecessors are done.
  The children of a node are a list; a tag without a node has none.
\<close>

section \<open>The two searches\<close>

type_synonym tag = int64

record bfs =
  bfsColors :: "tag \<rightharpoonup> int64"
  incomingNodeCounts :: "tag \<rightharpoonup> int"
  nodesQueue :: "tag list"
  nodesCount :: nat

definition next_color :: "int64 \<Rightarrow> int64" where
  "next_color color = (let c = color + 1 in if c = 0 then c + 1 else c)"

definition push_node :: "int64 \<Rightarrow> tag \<Rightarrow> bfs \<Rightarrow> bfs" where
  "push_node color i s = s\<lparr>bfsColors := (bfsColors s)(i \<mapsto> color), nodesCount := nodesCount s + 1,
     nodesQueue := nodesQueue s @ [i]\<rparr>"

definition visit_node :: "int64 \<Rightarrow> tag \<Rightarrow> bfs \<Rightarrow> bfs" where
  "visit_node color i s = (if bfsColors s i \<noteq> Some color then push_node color i s else s)"

definition count_child :: "int64 \<Rightarrow> tag \<Rightarrow> bfs \<Rightarrow> bfs" where
  "count_child color childId s = visit_node color childId
     (s\<lparr>incomingNodeCounts := (incomingNodeCounts s)(childId \<mapsto>
        (case incomingNodeCounts s childId of None \<Rightarrow> 1 | Some n \<Rightarrow> n + 1))\<rparr>)"

lemma count_children_effect:
  assumes "distinct xs"
  shows "\<exists>new. nodesQueue (fold (count_child c) xs s) = nodesQueue s @ new \<and> distinct new \<and>
      set new = {v \<in> set xs. bfsColors s v \<noteq> Some c} \<and>
      nodesCount (fold (count_child c) xs s) = nodesCount s + length new"
    and "bfsColors (fold (count_child c) xs s) = (\<lambda>v. if v \<in> set xs then Some c else bfsColors s v)"
    and "incomingNodeCounts (fold (count_child c) xs s) =
      (\<lambda>v. if v \<in> set xs then Some (case incomingNodeCounts s v of None \<Rightarrow> 1 | Some n \<Rightarrow> n + 1)
           else incomingNodeCounts s v)"
proof -
  have step: "bfsColors (count_child c x s) = (bfsColors s)(x \<mapsto> c)"
      "incomingNodeCounts (count_child c x s) = (incomingNodeCounts s)(x \<mapsto>
        (case incomingNodeCounts s x of None \<Rightarrow> 1 | Some n \<Rightarrow> n + 1))"
      "nodesQueue (count_child c x s) = nodesQueue s @ (if bfsColors s x \<noteq> Some c then [x] else [])"
      "nodesCount (count_child c x s) = nodesCount s + (if bfsColors s x \<noteq> Some c then 1 else 0)" for x s
    by (auto simp: count_child_def visit_node_def push_node_def)
  show "\<exists>new. nodesQueue (fold (count_child c) xs s) = nodesQueue s @ new \<and> distinct new \<and>
      set new = {v \<in> set xs. bfsColors s v \<noteq> Some c} \<and>
      nodesCount (fold (count_child c) xs s) = nodesCount s + length new"
    using assms
  proof (induction xs arbitrary: s)
    case (Cons x xs)
    obtain new where new: "nodesQueue (fold (count_child c) xs (count_child c x s)) = nodesQueue (count_child c x s) @ new"
        "distinct new" "set new = {v \<in> set xs. bfsColors (count_child c x s) v \<noteq> Some c}"
        "nodesCount (fold (count_child c) xs (count_child c x s)) = nodesCount (count_child c x s) + length new"
      using Cons.IH[of "count_child c x s"] Cons.prems by auto
    then show ?case using Cons.prems
      by (intro exI[of _ "(if bfsColors s x \<noteq> Some c then [x] else []) @ new"]) (auto simp: step)
  qed simp
  show "bfsColors (fold (count_child c) xs s) = (\<lambda>v. if v \<in> set xs then Some c else bfsColors s v)"
    by (induction xs arbitrary: s) (auto simp: step fun_eq_iff)
  show "incomingNodeCounts (fold (count_child c) xs s) =
      (\<lambda>v. if v \<in> set xs then Some (case incomingNodeCounts s v of None \<Rightarrow> 1 | Some n \<Rightarrow> n + 1)
           else incomingNodeCounts s v)"
    using assms by (induction xs arbitrary: s) (auto simp: step fun_eq_iff)
qed

text \<open>What is not coloured yet or waits in the queue: every round of a search takes one away.\<close>

definition bfs_work :: "int64 \<Rightarrow> bfs \<Rightarrow> nat" where
  "bfs_work color s = card {v. bfsColors s v \<noteq> Some color} + length (nodesQueue s)"

lemma card_split: "B \<subseteq> A \<Longrightarrow> card (A - B) + card B = card (A :: 'a::finite set)"
  by (simp add: card_Diff_subset card_mono)

lemma bfs_work_children:
  assumes "distinct xs" shows "bfs_work c (fold (count_child c) xs s) = bfs_work c s"
proof -
  obtain new where new: "nodesQueue (fold (count_child c) xs s) = nodesQueue s @ new" "distinct new"
      "set new = {v \<in> set xs. bfsColors s v \<noteq> Some c}"
    using count_children_effect(1)[OF assms] by metis
  have "{v. bfsColors (fold (count_child c) xs s) v \<noteq> Some c} = {v. bfsColors s v \<noteq> Some c} - set new"
    unfolding count_children_effect(2)[OF assms] new(3) by auto
  moreover have "card ({v. bfsColors s v \<noteq> Some c} - set new) + card (set new) = card {v. bfsColors s v \<noteq> Some c}"
    by (rule card_split) (auto simp: new(3))
  ultimately show ?thesis using new(1,2) by (simp add: bfs_work_def distinct_card)
qed

text \<open>The children of a node are a set, \<open>remdups\<close> makes that plain.\<close>

function count_loop :: "(tag \<Rightarrow> tag list) \<Rightarrow> int64 \<Rightarrow> bfs \<Rightarrow> bfs" where
  "count_loop children color s = (case nodesQueue s of
     [] \<Rightarrow> s
   | i # q \<Rightarrow> count_loop children color (fold (count_child color) (remdups (children i)) (s\<lparr>nodesQueue := q\<rparr>)))"
  by pat_completeness auto
termination
  by (relation "measure (\<lambda>(children, color, s). bfs_work color s)")
    (auto simp: bfs_work_children, simp add: bfs_work_def)

declare count_loop.simps [simp del]

definition release_child :: "int64 \<Rightarrow> tag \<Rightarrow> bfs \<Rightarrow> bfs option" where
  "release_child color childId s = (case (incomingNodeCounts s childId, bfsColors s childId) of
     (Some n, Some bfsColor) \<Rightarrow>
       (let s' = s\<lparr>incomingNodeCounts := (incomingNodeCounts s)(childId \<mapsto> n - 1)\<rparr>
        in Some (if bfsColor \<noteq> color \<and> n - 1 = 0 then push_node color childId s' else s'))
   | _ \<Rightarrow> None)"

primrec release_children :: "int64 \<Rightarrow> tag list \<Rightarrow> bfs \<Rightarrow> bfs option" where
  "release_children color [] s = Some s"
| "release_children color (x # xs) s = (case release_child color x s of
     None \<Rightarrow> None | Some s' \<Rightarrow> release_children color xs s')"

lemma release_child_work: "release_child c x s = Some s' \<Longrightarrow> bfs_work c s' = bfs_work c s"
proof -
  assume r: "release_child c x s = Some s'"
  show ?thesis
  proof (cases "bfsColors s x = Some c \<or> incomingNodeCounts s x \<noteq> Some 1")
    case True
    then have "bfsColors s' = bfsColors s" "nodesQueue s' = nodesQueue s"
      using r by (auto simp: release_child_def Let_def split: option.splits if_splits)
    then show ?thesis by (simp add: bfs_work_def)
  next
    case False
    then have "bfsColors s' = (bfsColors s)(x \<mapsto> c)" "nodesQueue s' = nodesQueue s @ [x]"
      using r by (auto simp: release_child_def push_node_def Let_def split: option.splits if_splits)
    moreover have "{v. ((bfsColors s)(x \<mapsto> c)) v \<noteq> Some c} = {v. bfsColors s v \<noteq> Some c} - {x}" by auto
    moreover have "card ({v. bfsColors s v \<noteq> Some c} - {x}) + card {x} = card {v. bfsColors s v \<noteq> Some c}"
      by (rule card_split) (use False in auto)
    ultimately show ?thesis by (simp add: bfs_work_def)
  qed
qed

lemma release_children_work: "release_children c xs s = Some s' \<Longrightarrow> bfs_work c s' = bfs_work c s"
  by (induction xs arbitrary: s) (auto split: option.splits dest: release_child_work)

text \<open>The result holds the tags in the order in which they are visited.\<close>

function update_loop :: "(tag \<Rightarrow> tag list) \<Rightarrow> int64 \<Rightarrow> tag list \<Rightarrow> bfs \<Rightarrow> (tag list \<times> bfs) option" where
  "update_loop children color order s = (case nodesQueue s of
     [] \<Rightarrow> Some (order, s)
   | i # q \<Rightarrow> (case release_children color (remdups (children i)) (s\<lparr>nodesQueue := q\<rparr>) of
       None \<Rightarrow> None
     | Some s' \<Rightarrow> update_loop children color (order @ [i]) s'))"
  by pat_completeness auto
termination
  by (relation "measure (\<lambda>(children, color, order, s). bfs_work color s)")
    (auto dest!: release_children_work, simp add: bfs_work_def)

declare update_loop.simps [simp del]

definition start_node :: "int64 \<Rightarrow> tag \<Rightarrow> bfs \<Rightarrow> bfs" where
  "start_node color i s =
     (if incomingNodeCounts s i = None \<or> incomingNodeCounts s i = Some 0 \<and> bfsColors s i \<noteq> Some color
      then push_node color i s else s)"

text \<open>The order, \<open>activeNodesCount\<close>, \<open>updatedNodesCount\<close> and the colour that is left in the manager.\<close>

definition UpdateNodes_order ::
  "(tag \<Rightarrow> tag list) \<Rightarrow> int64 \<Rightarrow> tag list \<Rightarrow> (tag list \<times> nat \<times> nat \<times> int64) option" where
  "UpdateNodes_order children color0 nodes =
     (let c1 = next_color color0;
          s1 = fold (visit_node c1) nodes \<lparr>bfsColors = Map.empty, incomingNodeCounts = Map.empty, nodesQueue = [], nodesCount = 0\<rparr>;
          s2 = count_loop children c1 s1;
          c2 = next_color c1;
          s3 = fold (start_node c2) nodes (s2\<lparr>nodesCount := 0\<rparr>)
      in map_option (\<lambda>(order, s4). (order, nodesCount s2, nodesCount s4, c2)) (update_loop children c2 [] s3))"

section \<open>The first search finds the active nodes\<close>

definition edge :: "(tag \<Rightarrow> tag list) \<Rightarrow> tag \<Rightarrow> tag \<Rightarrow> bool" where
  "edge children u v \<longleftrightarrow> v \<in> set (children u)"

definition active :: "(tag \<Rightarrow> tag list) \<Rightarrow> tag list \<Rightarrow> tag set" where
  "active children nodes = {v. \<exists>n \<in> set nodes. (edge children)\<^sup>*\<^sup>* n v}"

definition incoming :: "(tag \<Rightarrow> tag list) \<Rightarrow> tag set \<Rightarrow> tag \<Rightarrow> nat" where
  "incoming children D v = card {u \<in> D. edge children u v}"

lemma incoming_insert:
  "u \<notin> D \<Longrightarrow> incoming children (insert u D) v = incoming children D v + (if edge children u v then 1 else 0)"
proof -
  assume u: "u \<notin> D"
  show ?thesis
  proof (cases "edge children u v")
    case True
    then have "{w \<in> insert u D. edge children w v} = insert u {w \<in> D. edge children w v}" by auto
    then show ?thesis using True u by (simp add: incoming_def)
  next
    case False
    then have "{w \<in> insert u D. edge children w v} = {w \<in> D. edge children w v}" by auto
    then show ?thesis using False by (simp add: incoming_def)
  qed
qed

lemma incoming_0: "incoming children D v = 0 \<longleftrightarrow> (\<forall>u \<in> D. \<not> edge children u v)"
  by (auto simp: incoming_def card_eq_0_iff)

definition counts_of :: "nat \<Rightarrow> int option" where
  "counts_of k = (if k = 0 then None else Some (int k))"

definition coloured :: "int64 \<Rightarrow> bfs \<Rightarrow> tag set" where
  "coloured c s = {v. bfsColors s v = Some c}"

definition count_inv :: "(tag \<Rightarrow> tag list) \<Rightarrow> tag list \<Rightarrow> int64 \<Rightarrow> bfs \<Rightarrow> bool" where
  "count_inv children nodes c s \<longleftrightarrow>
     distinct (nodesQueue s) \<and> set (nodesQueue s) \<subseteq> coloured c s \<and>
     set nodes \<subseteq> coloured c s \<and> coloured c s \<subseteq> active children nodes \<and>
     (\<forall>v. bfsColors s v = None \<or> bfsColors s v = Some c) \<and>
     nodesCount s = card (coloured c s) \<and>
     (\<forall>u \<in> coloured c s - set (nodesQueue s). set (children u) \<subseteq> coloured c s) \<and>
     (\<forall>v. incomingNodeCounts s v = counts_of (incoming children (coloured c s - set (nodesQueue s)) v))"

lemma count_inv_round:
  assumes inv: "count_inv children nodes c s" and q: "nodesQueue s = i # q"
  shows "count_inv children nodes c (fold (count_child c) (remdups (children i)) (s\<lparr>nodesQueue := q\<rparr>))"
proof -
  let ?xs = "remdups (children i)" and ?t = "s\<lparr>nodesQueue := q\<rparr>"
  let ?s = "fold (count_child c) ?xs ?t"
  obtain new where new: "nodesQueue ?s = q @ new" "distinct new" "set new = {v \<in> set (children i). bfsColors s v \<noteq> Some c}"
      "nodesCount ?s = nodesCount s + length new"
    using count_children_effect(1)[of ?xs c ?t] by auto
  have col: "bfsColors ?s = (\<lambda>v. if v \<in> set (children i) then Some c else bfsColors s v)"
    using count_children_effect(2)[of ?xs c ?t] by (simp cong: if_cong)
  have inc: "incomingNodeCounts ?s = (\<lambda>v. if v \<in> set (children i)
      then Some (case incomingNodeCounts s v of None \<Rightarrow> 1 | Some n \<Rightarrow> n + 1) else incomingNodeCounts s v)"
    using count_children_effect(3)[of ?xs c ?t] by (simp cong: if_cong)
  have C: "coloured c ?s = coloured c s \<union> set (children i)" "set new = set (children i) - coloured c s"
    using new(3) by (auto simp: coloured_def col)
  have i: "i \<in> coloured c s" "i \<notin> set q" "distinct q" "set q \<subseteq> coloured c s"
    using inv q by (auto simp: count_inv_def)
  have disj: "set new \<inter> coloured c s = {}" using C(2) by auto
  have finished: "coloured c ?s - set (nodesQueue ?s) = insert i (coloured c s - set (nodesQueue s))"
    using C new(1) i q by auto
  have "nodesCount ?s = card (coloured c s \<union> set new)"
    using new(2,4) inv disj by (simp add: count_inv_def card_Un_disjoint distinct_card Int_commute)
  moreover have "coloured c s \<union> set new = coloured c ?s" using C by auto
  moreover have "coloured c ?s \<subseteq> active children nodes"
  proof
    fix v assume "v \<in> coloured c ?s"
    moreover have "v \<in> active children nodes" if v: "v \<in> set (children i)"
    proof -
      obtain n where "n \<in> set nodes" "(edge children)\<^sup>*\<^sup>* n i"
        using i(1) inv by (auto simp: count_inv_def active_def)
      then have "(edge children)\<^sup>*\<^sup>* n v" using v by (simp add: edge_def rtranclp.rtrancl_into_rtrancl[of _ n i v])
      then show ?thesis using \<open>n \<in> set nodes\<close> by (auto simp: active_def)
    qed
    ultimately show "v \<in> active children nodes" using C inv by (auto simp: count_inv_def)
  qed
  moreover have "incomingNodeCounts ?s v = counts_of (incoming children (coloured c ?s - set (nodesQueue ?s)) v)" for v
  proof -
    have "i \<notin> coloured c s - set (nodesQueue s)" using q by simp
    then show ?thesis
      using inv unfolding finished by (auto simp: inc incoming_insert counts_of_def edge_def count_inv_def)
  qed
  moreover have "\<forall>u \<in> coloured c ?s - set (nodesQueue ?s). set (children u) \<subseteq> coloured c ?s"
    unfolding finished using C inv by (auto simp: count_inv_def)
  ultimately show ?thesis
    using inv new(1,2) C i disj by (auto simp: count_inv_def col)
qed

lemma count_inv_loop:
  "count_inv children nodes c s \<Longrightarrow>
     count_inv children nodes c (count_loop children c s) \<and> nodesQueue (count_loop children c s) = []"
proof (induction children c s rule: count_loop.induct)
  case (1 children c s)
  show ?case
  proof (cases "nodesQueue s")
    case Nil
    then show ?thesis using 1(2) by (simp add: count_loop.simps[of children c s])
  next
    case (Cons i q)
    then show ?thesis
      using 1(1)[OF Cons count_inv_round[OF 1(2) Cons]] by (simp add: count_loop.simps[of children c s])
  qed
qed

lemma visit_nodes_effect:
  assumes "distinct xs" and "set xs \<inter> coloured c s = {}"
  shows "bfsColors (fold (visit_node c) xs s) = (\<lambda>v. if v \<in> set xs then Some c else bfsColors s v) \<and>
    incomingNodeCounts (fold (visit_node c) xs s) = incomingNodeCounts s \<and>
    nodesQueue (fold (visit_node c) xs s) = nodesQueue s @ xs \<and>
    nodesCount (fold (visit_node c) xs s) = nodesCount s + length xs"
  using assms
proof (induction xs arbitrary: s)
  case (Cons x xs)
  have "bfsColors s x \<noteq> Some c" using Cons.prems by (auto simp: coloured_def)
  then have "visit_node c x s = push_node c x s" by (simp add: visit_node_def)
  moreover have "set xs \<inter> coloured c (push_node c x s) = {}"
    using Cons.prems by (auto simp: coloured_def push_node_def)
  ultimately show ?case using Cons.IH[of "push_node c x s"] Cons.prems by (auto simp: push_node_def fun_eq_iff)
qed simp

lemma first_search:
  assumes nodes: "distinct nodes"
    and s1_def: "s1 = fold (visit_node c) nodes \<lparr>bfsColors = Map.empty, incomingNodeCounts = Map.empty, nodesQueue = [], nodesCount = 0\<rparr>"
  shows "bfsColors (count_loop children c s1) = (\<lambda>v. if v \<in> active children nodes then Some c else None)"
    and "incomingNodeCounts (count_loop children c s1) v = counts_of (incoming children (active children nodes) v)"
    and "nodesCount (count_loop children c s1) = card (active children nodes)"
    and "nodesQueue (count_loop children c s1) = []"
proof -
  let ?s = "count_loop children c s1"
  have s1: "bfsColors s1 = (\<lambda>v. if v \<in> set nodes then Some c else None)" "incomingNodeCounts s1 = Map.empty"
      "nodesQueue s1 = nodes" "nodesCount s1 = length nodes"
    using visit_nodes_effect[OF nodes, of c "\<lparr>bfsColors = Map.empty, incomingNodeCounts = Map.empty, nodesQueue = [], nodesCount = 0\<rparr>"]
    by (auto simp: s1_def coloured_def)
  have "coloured c s1 = set nodes" by (simp add: coloured_def s1)
  moreover have "set nodes \<subseteq> active children nodes" by (auto simp: active_def)
  ultimately have "count_inv children nodes c s1"
    using nodes by (simp add: count_inv_def s1 distinct_card counts_of_def incoming_def)
  from count_inv_loop[OF this] have inv: "count_inv children nodes c ?s" and q: "nodesQueue ?s = []" by auto
  have closed: "v \<in> coloured c ?s" if "u \<in> coloured c ?s" "(edge children)\<^sup>*\<^sup>* u v" for u v
    using that(2,1)
  proof (induction rule: rtranclp_induct)
    case (step y z)
    then show ?case using inv q unfolding count_inv_def edge_def by auto
  qed
  have A: "coloured c ?s = active children nodes"
  proof
    show "coloured c ?s \<subseteq> active children nodes" using inv by (simp add: count_inv_def)
    show "active children nodes \<subseteq> coloured c ?s" using inv closed by (auto simp: count_inv_def active_def)
  qed
  show "bfsColors ?s = (\<lambda>v. if v \<in> active children nodes then Some c else None)"
    using inv unfolding A[symmetric] by (auto simp: count_inv_def coloured_def fun_eq_iff)
  show "incomingNodeCounts ?s v = counts_of (incoming children (active children nodes) v)"
    using inv q A by (simp add: count_inv_def)
  show "nodesCount ?s = card (active children nodes)" using inv A by (simp add: count_inv_def)
  show "nodesQueue ?s = []" by (rule q)
qed

section \<open>The second search visits them in order\<close>

lemma release_children_effect:
  assumes "distinct xs" and "\<forall>v \<in> set xs. incomingNodeCounts s v = Some (k v) \<and> bfsColors s v \<noteq> None"
  shows "\<exists>s'. release_children c xs s = Some s' \<and>
    incomingNodeCounts s' = (\<lambda>v. if v \<in> set xs then Some (k v - 1) else incomingNodeCounts s v) \<and>
    (let new = filter (\<lambda>v. bfsColors s v \<noteq> Some c \<and> k v = 1) xs in
      nodesQueue s' = nodesQueue s @ new \<and> nodesCount s' = nodesCount s + length new \<and>
      bfsColors s' = (\<lambda>v. if v \<in> set new then Some c else bfsColors s v))"
  using assms
proof (induction xs arbitrary: s)
  case (Cons x xs)
  let ?s = "s\<lparr>incomingNodeCounts := (incomingNodeCounts s)(x \<mapsto> k x - 1)\<rparr>"
  define s1 where "s1 = (if bfsColors s x \<noteq> Some c \<and> k x = 1 then push_node c x ?s else ?s)"
  have r: "release_child c x s = Some s1"
    using Cons.prems(2) by (auto simp: release_child_def s1_def Let_def split: option.splits)
  have s1: "incomingNodeCounts s1 = (incomingNodeCounts s)(x \<mapsto> k x - 1)"
      "nodesQueue s1 = nodesQueue s @ (if bfsColors s x \<noteq> Some c \<and> k x = 1 then [x] else [])"
      "nodesCount s1 = nodesCount s + (if bfsColors s x \<noteq> Some c \<and> k x = 1 then 1 else 0)"
      "bfsColors s1 = (if bfsColors s x \<noteq> Some c \<and> k x = 1 then (bfsColors s)(x \<mapsto> c) else bfsColors s)"
    by (auto simp: s1_def push_node_def)
  have keep: "bfsColors s1 v = bfsColors s v" if "v \<in> set xs" for v
    using that Cons.prems(1) s1(4) by auto
  have "\<forall>v \<in> set xs. incomingNodeCounts s1 v = Some (k v) \<and> bfsColors s1 v \<noteq> None"
    using Cons.prems keep s1(1) by auto
  from Cons.IH[OF _ this] Cons.prems(1) obtain s' where s': "release_children c xs s1 = Some s'"
    "incomingNodeCounts s' = (\<lambda>v. if v \<in> set xs then Some (k v - 1) else incomingNodeCounts s1 v)"
    "let new = filter (\<lambda>v. bfsColors s1 v \<noteq> Some c \<and> k v = 1) xs in
      nodesQueue s' = nodesQueue s1 @ new \<and> nodesCount s' = nodesCount s1 + length new \<and>
      bfsColors s' = (\<lambda>v. if v \<in> set new then Some c else bfsColors s1 v)"
    by auto
  have "filter (\<lambda>v. bfsColors s1 v \<noteq> Some c \<and> k v = 1) xs = filter (\<lambda>v. bfsColors s v \<noteq> Some c \<and> k v = 1) xs"
    by (rule filter_cong) (use keep in auto)
  then show ?case
    using r s' s1 Cons.prems(1) by (intro exI[of _ s']) (auto simp: Let_def fun_eq_iff)
qed simp

text \<open>\<open>D\<close> is the set of the visited nodes; a node is in the queue or visited when all its predecessors are.\<close>

definition order_inv :: "(tag \<Rightarrow> tag list) \<Rightarrow> tag set \<Rightarrow> int64 \<Rightarrow> tag list \<Rightarrow> bfs \<Rightarrow> bool" where
  "order_inv children A c order s \<longleftrightarrow>
     distinct (order @ nodesQueue s) \<and>
     coloured c s = set (order @ nodesQueue s) \<and>
     nodesCount s = length (order @ nodesQueue s) \<and>
     (\<forall>v. bfsColors s v \<noteq> None \<longleftrightarrow> v \<in> A) \<and>
     (\<forall>v \<in> A. v \<in> coloured c s \<longleftrightarrow> (\<forall>u \<in> A. edge children u v \<longrightarrow> u \<in> set order)) \<and>
     (\<forall>v. incoming children A v \<noteq> 0 \<longrightarrow>
        incomingNodeCounts s v = Some (int (incoming children (A - set order) v))) \<and>
     (\<forall>xs v ys. order = xs @ v # ys \<longrightarrow> (\<forall>u \<in> A. edge children u v \<longrightarrow> u \<in> set xs))"

lemma order_inv_round:
  assumes inv: "order_inv children A c order s" and q: "nodesQueue s = i # q"
    and closed: "\<forall>u \<in> A. set (children u) \<subseteq> A"
  shows "\<exists>s'. release_children c (remdups (children i)) (s\<lparr>nodesQueue := q\<rparr>) = Some s' \<and>
    order_inv children A c (order @ [i]) s'"
proof -
  let ?xs = "remdups (children i)" and ?k = "\<lambda>v. int (incoming children (A - set order) v)"
  have i: "i \<notin> set order" "i \<notin> set q" "i \<in> coloured c s" "i \<in> A" using inv q by (auto simp: order_inv_def coloured_def)
  have child: "v \<in> A \<and> incoming children A v \<noteq> 0" if "v \<in> set (children i)" for v
    using that i(4) closed by (auto simp: incoming_0 edge_def)
  obtain s' where r: "release_children c ?xs (s\<lparr>nodesQueue := q\<rparr>) = Some s'"
    and inc: "incomingNodeCounts s' = (\<lambda>v. if v \<in> set ?xs then Some (?k v - 1) else incomingNodeCounts s v)"
    and new: "let new = filter (\<lambda>v. bfsColors s v \<noteq> Some c \<and> ?k v = 1) ?xs in
      nodesQueue s' = q @ new \<and> nodesCount s' = nodesCount s + length new \<and>
      bfsColors s' = (\<lambda>v. if v \<in> set new then Some c else bfsColors s v)"
  proof -
    have "\<forall>v \<in> set ?xs. incomingNodeCounts (s\<lparr>nodesQueue := q\<rparr>) v = Some (?k v) \<and> bfsColors (s\<lparr>nodesQueue := q\<rparr>) v \<noteq> None"
      using child inv by (simp add: order_inv_def)
    from release_children_effect[OF distinct_remdups this, of c] that show thesis
      by (auto simp del: set_remdups cong: if_cong)
  qed
  let ?new = "filter (\<lambda>v. bfsColors s v \<noteq> Some c \<and> ?k v = 1) ?xs"
  have A: "A - set order = insert i (A - set (order @ [i]))" "i \<notin> A - set (order @ [i])" using i by auto
  have k: "incoming children (A - set order) v =
      incoming children (A - set (order @ [i])) v + (if edge children i v then 1 else 0)" for v
    using incoming_insert[OF A(2), of children v] unfolding A(1)[symmetric] .
  have col: "coloured c s' = coloured c s \<union> set ?new" and disj: "set ?new \<inter> coloured c s = {}"
    using new by (auto simp: coloured_def Let_def)
  have ready: "v \<in> coloured c s' \<longleftrightarrow> (\<forall>u \<in> A. edge children u v \<longrightarrow> u \<in> set (order @ [i]))" if v: "v \<in> A" for v
  proof (cases "v \<in> coloured c s")
    case True
    then show ?thesis using inv v col by (auto simp: order_inv_def)
  next
    case False
    then have old: "\<exists>u \<in> A. edge children u v \<and> u \<notin> set order" using inv v by (auto simp: order_inv_def)
    have "v \<in> coloured c s' \<longleftrightarrow> edge children i v \<and> incoming children (A - set (order @ [i])) v = 0"
      using False col k[of v] by (auto simp: coloured_def edge_def)
    also have "\<dots> \<longleftrightarrow> (\<forall>u \<in> A. edge children u v \<longrightarrow> u \<in> set (order @ [i]))"
      using old by (auto simp: incoming_0)
    finally show ?thesis .
  qed
  have counts: "incomingNodeCounts s' v = Some (int (incoming children (A - set (order @ [i])) v))"
    if "incoming children A v \<noteq> 0" for v
    using that inv k[of v] by (auto simp: inc order_inv_def edge_def)
  have before: "u \<in> set xs" if "order @ [i] = xs @ v # ys" "u \<in> A" "edge children u v" for xs v ys u
  proof (cases ys rule: rev_cases)
    case Nil
    then have "v = i" "xs = order" using that(1) by auto
    then show ?thesis using that(2,3) inv i by (auto simp: order_inv_def)
  next
    case (snoc ys' y)
    then have "order = xs @ v # ys'" using that(1) by auto
    then show ?thesis using that(2,3) inv unfolding order_inv_def by blast
  qed
  have "order_inv children A c (order @ [i]) s'"
    unfolding order_inv_def
  proof (intro conjI)
    show "distinct ((order @ [i]) @ nodesQueue s')"
      using inv new q disj by (auto simp: order_inv_def Let_def)
    show "coloured c s' = set ((order @ [i]) @ nodesQueue s')"
      using inv new q col by (auto simp: order_inv_def Let_def)
    show "nodesCount s' = length ((order @ [i]) @ nodesQueue s')"
      using inv new q by (simp add: order_inv_def Let_def)
    show "\<forall>v. bfsColors s' v \<noteq> None \<longleftrightarrow> v \<in> A"
      using inv new child by (auto simp: order_inv_def Let_def)
  qed (use ready counts before in blast)+
  then show ?thesis using r by blast
qed

lemma order_inv_loop:
  assumes closed: "\<forall>u \<in> A. set (children u) \<subseteq> A"
  shows "order_inv children A c order s \<Longrightarrow>
    \<exists>order' s'. update_loop children c order s = Some (order', s') \<and> order_inv children A c order' s' \<and> nodesQueue s' = []"
  using closed
proof (induction children c order s rule: update_loop.induct)
  case (1 children c order s)
  show ?case
  proof (cases "nodesQueue s")
    case Nil
    then show ?thesis using 1(2) by (simp add: update_loop.simps[of children c order s])
  next
    case (Cons i q)
    obtain s' where s': "release_children c (remdups (children i)) (s\<lparr>nodesQueue := q\<rparr>) = Some s'"
      "order_inv children A c (order @ [i]) s'" using order_inv_round[OF 1(2) Cons 1(3)] by blast
    show ?thesis
      using 1(1)[OF Cons s'(1,2) 1(3)] s'(1) Cons by (simp add: update_loop.simps[of children c order s])
  qed
qed

lemma next_color_differs: "next_color c \<noteq> c"
  by (auto simp: next_color_def Let_def)

lemma start_nodes_effect:
  assumes "distinct xs" and "\<forall>v. incomingNodeCounts s v \<noteq> Some 0"
  shows "let new = filter (\<lambda>v. incomingNodeCounts s v = None) xs in
    nodesQueue (fold (start_node c) xs s) = nodesQueue s @ new \<and>
    nodesCount (fold (start_node c) xs s) = nodesCount s + length new \<and>
    bfsColors (fold (start_node c) xs s) = (\<lambda>v. if v \<in> set new then Some c else bfsColors s v) \<and>
    incomingNodeCounts (fold (start_node c) xs s) = incomingNodeCounts s"
  using assms
proof (induction xs arbitrary: s)
  case (Cons x xs)
  have "start_node c x s = (if incomingNodeCounts s x = None then push_node c x s else s)"
    using Cons.prems(2) by (auto simp: start_node_def)
  moreover have "\<forall>v. incomingNodeCounts (start_node c x s) v \<noteq> Some 0"
      "incomingNodeCounts (start_node c x s) = incomingNodeCounts s"
    using Cons.prems(2) by (simp_all add: start_node_def push_node_def)
  ultimately show ?case
    using Cons.IH[of "start_node c x s"] Cons.prems(1) by (auto simp: Let_def push_node_def fun_eq_iff)
qed (simp add: fun_eq_iff)

lemma active_start: "v \<in> active children nodes \<Longrightarrow> \<forall>u \<in> active children nodes. \<not> edge children u v \<Longrightarrow> v \<in> set nodes"
proof -
  assume v: "v \<in> active children nodes" and no: "\<forall>u \<in> active children nodes. \<not> edge children u v"
  then obtain n where n: "n \<in> set nodes" "(edge children)\<^sup>*\<^sup>* n v" by (auto simp: active_def)
  from n(2) show "v \<in> set nodes"
  proof (cases rule: rtranclp.cases)
    case (rtrancl_into_rtrancl u)
    then show ?thesis using n(1) no by (auto simp: active_def)
  qed (use n in auto)
qed

lemma active_closed: "u \<in> active children nodes \<Longrightarrow> set (children u) \<subseteq> active children nodes"
proof
  fix v assume "u \<in> active children nodes" "v \<in> set (children u)"
  then obtain n where "n \<in> set nodes" "(edge children)\<^sup>*\<^sup>* n u" "edge children u v" by (auto simp: active_def edge_def)
  then show "v \<in> active children nodes" by (auto simp: active_def intro: rtranclp.rtrancl_into_rtrancl)
qed

lemma second_search_start:
  assumes "distinct nodes" and "c \<noteq> c'"
    and s: "bfsColors s = (\<lambda>v. if v \<in> active children nodes then Some c' else None)"
      "\<And>v. incomingNodeCounts s v = counts_of (incoming children (active children nodes) v)"
      "nodesQueue s = []"
  shows "order_inv children (active children nodes) c [] (fold (start_node c) nodes (s\<lparr>nodesCount := 0\<rparr>))"
proof -
  let ?A = "active children nodes" and ?s = "fold (start_node c) nodes (s\<lparr>nodesCount := 0\<rparr>)"
  let ?new = "filter (\<lambda>v. incoming children ?A v = 0) nodes"
  have eq: "nodesQueue ?s = ?new" "nodesCount ?s = length ?new" "incomingNodeCounts ?s = incomingNodeCounts s"
      "bfsColors ?s = (\<lambda>v. if v \<in> set ?new then Some c else bfsColors s v)"
    using start_nodes_effect[OF assms(1), of "s\<lparr>nodesCount := 0\<rparr>" c] s(2,3)
    by (auto simp: counts_of_def Let_def cong: if_cong)
  have nodes: "set nodes \<subseteq> ?A" by (auto simp: active_def)
  have col: "coloured c ?s = set ?new" using assms(2) by (auto simp: coloured_def eq s)
  show ?thesis
    unfolding order_inv_def
  proof (intro conjI)
    show "\<forall>v. bfsColors ?s v \<noteq> None \<longleftrightarrow> v \<in> ?A" using nodes by (auto simp: eq s)
    show "\<forall>v \<in> ?A. v \<in> coloured c ?s \<longleftrightarrow> (\<forall>u \<in> ?A. edge children u v \<longrightarrow> u \<in> set [])"
      using active_start[of _ children nodes] unfolding col by (auto simp: incoming_0)
    show "\<forall>v. incoming children ?A v \<noteq> 0 \<longrightarrow>
        incomingNodeCounts ?s v = Some (int (incoming children (?A - set []) v))"
      by (simp add: eq s counts_of_def)
  qed (use assms(1) col eq in auto)
qed

lemma order_acyclic:
  assumes before: "\<forall>xs v ys. order = xs @ v # ys \<longrightarrow> (\<forall>u \<in> A. edge children u v \<longrightarrow> u \<in> set xs)"
    and "set order = A" "distinct order" and closed: "\<forall>u \<in> A. set (children u) \<subseteq> A"
  shows "acyclic {(u, v). u \<in> A \<and> edge children u v}"
proof (rule acyclicI, rule allI, rule notI)
  let ?r = "{(u, v). u \<in> A \<and> edge children u v}"
  have in_front: "\<forall>xs ys. order = xs @ v # ys \<longrightarrow> u \<in> set xs" if "(u, v) \<in> ?r\<^sup>+" for u v
    using that
  proof (induction rule: trancl_induct)
    case (base v)
    then show ?case using before by blast
  next
    case (step v w)
    show ?case
    proof (intro allI impI)
      fix xs ys assume o: "order = xs @ w # ys"
      then have "v \<in> set xs" using step.hyps(2) before by blast
      then obtain as bs where xs: "xs = as @ v # bs" by (auto dest: split_list)
      then have "order = as @ v # (bs @ w # ys)" using o by simp
      then have "u \<in> set as" using step.IH by blast
      then show "u \<in> set xs" using xs by simp
    qed
  qed
  fix v assume cyc: "(v, v) \<in> ?r\<^sup>+"
  then have "v \<in> A" by (auto dest: tranclD)
  then obtain xs ys where "order = xs @ v # ys" using assms(2) by (auto dest: split_list)
  moreover from this have "v \<in> set xs" using in_front[OF cyc] by blast
  ultimately show False using assms(3) by auto
qed

lemma acyclic_visits_all:
  assumes "acyclic {(u, v). u \<in> A \<and> edge children u v}"
    and "\<forall>v \<in> A. (\<forall>u \<in> A. edge children u v \<longrightarrow> u \<in> D) \<longrightarrow> v \<in> D"
  shows "A \<subseteq> (D :: tag set)"
proof
  fix v :: tag assume v: "v \<in> A"
  have "wf {(u, v). u \<in> A \<and> edge children u v}"
    by (rule finite_acyclic_wf) (auto intro: assms(1) finite_subset[of _ UNIV])
  then show "v \<in> D" using v
  proof (induction v rule: wf_induct_rule)
    case (less v)
    then show ?case using assms(2) by blast
  qed
qed

text \<open>The two searches always return; they visit every active node when these form no cycle, and only then.\<close>

lemma UpdateNodes_order_spec:
  assumes "distinct nodes"
  shows "\<exists>order c. UpdateNodes_order children color nodes =
      Some (order, card (active children nodes), length order, c) \<and>
    distinct order \<and> set order \<subseteq> active children nodes \<and>
    (\<forall>xs v ys. order = xs @ v # ys \<longrightarrow> (\<forall>u \<in> active children nodes. edge children u v \<longrightarrow> u \<in> set xs)) \<and>
    (set order = active children nodes \<longleftrightarrow> acyclic {(u, v). u \<in> active children nodes \<and> edge children u v})"
proof -
  let ?A = "active children nodes" and ?c1 = "next_color color" and ?c2 = "next_color (next_color color)"
  let ?s2 = "count_loop children ?c1 (fold (visit_node ?c1) nodes
      \<lparr>bfsColors = Map.empty, incomingNodeCounts = Map.empty, nodesQueue = [], nodesCount = 0\<rparr>)"
  note f = first_search[OF assms refl, of children ?c1]
  have closed: "\<forall>u \<in> ?A. set (children u) \<subseteq> ?A" using active_closed by blast
  have "order_inv children ?A ?c2 [] (fold (start_node ?c2) nodes (?s2\<lparr>nodesCount := 0\<rparr>))"
    by (rule second_search_start[OF assms next_color_differs f(1,2,4)])
  from order_inv_loop[OF closed this] obtain order s where
    loop: "update_loop children ?c2 [] (fold (start_node ?c2) nodes (?s2\<lparr>nodesCount := 0\<rparr>)) = Some (order, s)"
    and inv: "order_inv children ?A ?c2 order s" and q: "nodesQueue s = []"
    by blast
  have o: "set order = coloured ?c2 s" "set order \<subseteq> ?A" "distinct order" "nodesCount s = length order"
    using inv q by (auto simp: order_inv_def coloured_def)
  have before: "\<forall>xs v ys. order = xs @ v # ys \<longrightarrow> (\<forall>u \<in> ?A. edge children u v \<longrightarrow> u \<in> set xs)"
    using inv by (simp add: order_inv_def)
  have ready: "\<forall>v \<in> ?A. (\<forall>u \<in> ?A. edge children u v \<longrightarrow> u \<in> set order) \<longrightarrow> v \<in> set order"
    using inv o(1) by (simp add: order_inv_def)
  have "set order = ?A \<longleftrightarrow> acyclic {(u, v). u \<in> ?A \<and> edge children u v}"
    using order_acyclic[OF before _ o(3) closed] acyclic_visits_all[OF _ ready] o(2) by blast
  then show ?thesis using loop f(3) o before by (auto simp: UpdateNodes_order_def Let_def)
qed

section \<open>Property\<close>

text \<open>
  C32: The update of the animation graph always comes to an end. It visits no node twice, only nodes
  that can be reached from the changed ones, and none before all its active predecessors. It visits
  all reachable nodes exactly when these form no cycle, which is also when the two counts that the
  code compares at the end agree.
\<close>

theorem graph_updates_in_order:
  assumes "distinct nodes"
  shows "\<exists>order activeNodesCount updatedNodesCount c.
    UpdateNodes_order children color nodes = Some (order, activeNodesCount, updatedNodesCount, c) \<and>
    distinct order \<and> set order \<subseteq> active children nodes \<and>
    (\<forall>xs v ys. order = xs @ v # ys \<longrightarrow> (\<forall>u \<in> active children nodes. edge children u v \<longrightarrow> u \<in> set xs)) \<and>
    (set order = active children nodes \<longleftrightarrow> acyclic {(u, v). u \<in> active children nodes \<and> edge children u v}) \<and>
    (activeNodesCount = updatedNodesCount \<longleftrightarrow> set order = active children nodes)"
proof -
  obtain order c where o: "UpdateNodes_order children color nodes =
      Some (order, card (active children nodes), length order, c)" "distinct order"
      "set order \<subseteq> active children nodes"
      "\<forall>xs v ys. order = xs @ v # ys \<longrightarrow> (\<forall>u \<in> active children nodes. edge children u v \<longrightarrow> u \<in> set xs)"
      "set order = active children nodes \<longleftrightarrow> acyclic {(u, v). u \<in> active children nodes \<and> edge children u v}"
    using UpdateNodes_order_spec[OF assms] by blast
  have "card (active children nodes) = length order \<longleftrightarrow> set order = active children nodes"
    using o(2,3) card_subset_eq[of "active children nodes" "set order"] distinct_card[OF o(2)] by auto
  then show ?thesis using o by blast
qed

theorem graph_updates_in_order_witness:
  "\<exists>order a u c. UpdateNodes_order (\<lambda>i. if i = 1 then [2, 3] else if i = 2 then [3] else []) 0 [1] = Some (order, a, u, c) \<and>
     distinct order \<and> (a = u \<longleftrightarrow> set order = active (\<lambda>i. if i = 1 then [2, 3] else if i = 2 then [3] else []) [1])"
  using graph_updates_in_order[of "[1]" "\<lambda>i. if i = 1 then [2, 3] else if i = 2 then [3] else []" 0] by fastforce

end
