(* ===== verification/AnimatedNodes.thy ===== *)
theory AnimatedNodes
  imports GraphUpdate DoubleArith JSValue
begin

text \<open>
  The nodes of the native animations (\<^verbatim>\<open>Microsoft.ReactNative/Modules/Animated\<close>): the node classes,
  the graph that \<^verbatim>\<open>NativeAnimatedNodeManager\<close> keeps of them, and the update of the frame-driven
  nodes. A node that uses the compositor has its scalars in a property set of the compositor; the
  model keeps what was last written there and leaves out what running animations change.
\<close>

section \<open>Errors\<close>

text \<open>The exceptions of the code, and accesses that are undefined.\<close>

datatype anim_error = InvalidArgument | OutOfRange | NullPointer | Undefined

type_synonym 'a anim = "anim_error + 'a"

definition abind :: "'a anim \<Rightarrow> ('a \<Rightarrow> 'b anim) \<Rightarrow> 'b anim" where
  "abind r f = (case r of Inl e \<Rightarrow> Inl e | Inr x \<Rightarrow> f x)"

lemma abind_simps [simp]: "abind (Inl e) f = Inl e" "abind (Inr x) f = f x"
  by (simp_all add: abind_def)

lemma abind_Inr: "abind r f = Inr y \<longleftrightarrow> (\<exists>x. r = Inr x \<and> f x = Inr y)"
  by (cases r) auto

definition defined :: "'a option \<Rightarrow> 'a anim" where
  "defined r = (case r of None \<Rightarrow> Inl Undefined | Some x \<Rightarrow> Inr x)"

fun amap :: "('a \<Rightarrow> 'b anim) \<Rightarrow> 'a list \<Rightarrow> 'b list anim" where
  "amap f [] = Inr []"
| "amap f (x # xs) = abind (f x) (\<lambda>y. abind (amap f xs) (\<lambda>ys. Inr (y # ys)))"

section \<open>Nodes\<close>

text \<open>
  What the classes derived from \<^verbatim>\<open>ValueAnimatedNode\<close> add. The inputs are hash sets in the code, here
  lists in the order in which the code walks them. The last argument of \<open>Interpolation\<close> is
  \<^verbatim>\<open>m_parentTag\<close>, that of \<open>DiffClamp\<close> is \<^verbatim>\<open>m_lastValue\<close>.
\<close>

datatype value_kind =
    PlainValue
  | Addition "tag list"
  | Subtraction tag "tag list"
  | Multiplication "tag list"
  | Division tag "tag list"
  | Modulus tag int64
  | DiffClamp tag double double double
  | Interpolation "double list" "double list" string string tag

record animated_node =
  m_useComposition :: bool
  m_children :: "tag list"

record value_node = animated_node +
  m_value :: double
  m_offset :: double
  m_valueListener :: bool
  m_kind :: value_kind

record style_node = animated_node +
  m_styleMapping :: "(string \<times> tag) list"

record transform_node = animated_node +
  m_transformConfigs :: "(string \<times> tag \<times> double) list"

record props_node = animated_node +
  m_propMapping :: "(string \<times> tag) list"
  m_connectedViewTag :: tag
  m_props :: JSValueObject

record tracking_node = animated_node +
  m_animationId :: tag
  m_toValueId :: tag
  m_valueId :: tag
  m_animationConfig :: JSValueObject

definition unset_tag :: tag where
  "unset_tag = -1"

section \<open>The manager\<close>

record node_manager =
  m_valueNodes :: "tag \<rightharpoonup> value_node"
  m_propsNodes :: "tag \<rightharpoonup> props_node"
  m_styleNodes :: "tag \<rightharpoonup> style_node"
  m_transformNodes :: "tag \<rightharpoonup> transform_node"
  m_trackingNodes :: "tag \<rightharpoonup> tracking_node"
  m_updatedNodes :: "tag list"
  m_animatedGraphBFSColor :: int64

definition node_manager_new :: node_manager where
  "node_manager_new = \<lparr>m_valueNodes = Map.empty, m_propsNodes = Map.empty, m_styleNodes = Map.empty,
     m_transformNodes = Map.empty, m_trackingNodes = Map.empty, m_updatedNodes = [], m_animatedGraphBFSColor = 0\<rparr>"

text \<open>\<^verbatim>\<open>GetAnimatedNode\<close> as the base part of the node it finds.\<close>

definition GetAnimatedNode :: "'a node_manager_scheme \<Rightarrow> tag \<Rightarrow> animated_node option" where
  "GetAnimatedNode m i = (case m_valueNodes m i of Some n \<Rightarrow> Some (animated_node.truncate n)
     | None \<Rightarrow> (case m_styleNodes m i of Some n \<Rightarrow> Some (animated_node.truncate n)
     | None \<Rightarrow> (case m_propsNodes m i of Some n \<Rightarrow> Some (animated_node.truncate n)
     | None \<Rightarrow> (case m_transformNodes m i of Some n \<Rightarrow> Some (animated_node.truncate n)
     | None \<Rightarrow> (case m_trackingNodes m i of Some n \<Rightarrow> Some (animated_node.truncate n)
     | None \<Rightarrow> None)))))"

definition children_of :: "'a node_manager_scheme \<Rightarrow> tag \<Rightarrow> tag list" where
  "children_of m i = (case GetAnimatedNode m i of None \<Rightarrow> [] | Some n \<Rightarrow> m_children n)"

definition set_children :: "(tag list \<Rightarrow> tag list) \<Rightarrow> tag \<Rightarrow> 'a node_manager_scheme \<Rightarrow> 'a node_manager_scheme" where
  "set_children f i m =
     (case m_valueNodes m i of Some n \<Rightarrow> m\<lparr>m_valueNodes := (m_valueNodes m)(i \<mapsto> n\<lparr>m_children := f (m_children n)\<rparr>)\<rparr>
     | None \<Rightarrow> (case m_styleNodes m i of Some n \<Rightarrow> m\<lparr>m_styleNodes := (m_styleNodes m)(i \<mapsto> n\<lparr>m_children := f (m_children n)\<rparr>)\<rparr>
     | None \<Rightarrow> (case m_propsNodes m i of Some n \<Rightarrow> m\<lparr>m_propsNodes := (m_propsNodes m)(i \<mapsto> n\<lparr>m_children := f (m_children n)\<rparr>)\<rparr>
     | None \<Rightarrow> (case m_transformNodes m i of Some n \<Rightarrow> m\<lparr>m_transformNodes := (m_transformNodes m)(i \<mapsto> n\<lparr>m_children := f (m_children n)\<rparr>)\<rparr>
     | None \<Rightarrow> (case m_trackingNodes m i of Some n \<Rightarrow> m\<lparr>m_trackingNodes := (m_trackingNodes m)(i \<mapsto> n\<lparr>m_children := f (m_children n)\<rparr>)\<rparr>
     | None \<Rightarrow> m)))))"

definition mark_updated :: "tag \<Rightarrow> 'a node_manager_scheme \<Rightarrow> 'a node_manager_scheme" where
  "mark_updated i m = m\<lparr>m_updatedNodes := List.insert i (m_updatedNodes m)\<rparr>"

text \<open>\<^verbatim>\<open>Value()\<close> of a value node, \<open>None\<close> when there is no such node.\<close>

definition node_value :: "'a node_manager_scheme \<Rightarrow> tag \<Rightarrow> double option" where
  "node_value m i = map_option (\<lambda>n. dadd (m_value n) (m_offset n)) (m_valueNodes m i)"

section \<open>Creating nodes\<close>

definition ShouldUseComposition :: "JSValueObject \<Rightarrow> bool" where
  "ShouldUseComposition config = (case map_of config ''platformConfig'' of
     None \<Rightarrow> True
   | Some p \<Rightarrow> (case map_of (AsObject p) ''useComposition'' of None \<Rightarrow> True | Some v \<Rightarrow> AsBoolean v))"

definition make_value_node :: "JSValueObject \<Rightarrow> value_kind \<Rightarrow> value_node" where
  "make_value_node config kind =
     (let composition = ShouldUseComposition config;
          given = map_of config ''value'' \<noteq> None \<and> map_of config ''offset'' \<noteq> None;
          stored = (\<lambda>name. let v = (if given then AsDouble (object_at_const config name) else dzero)
                           in if composition then float_of_double v else v)
      in \<lparr>m_useComposition = composition, m_children = [], m_value = stored ''value'', m_offset = stored ''offset'',
          m_valueListener = False, m_kind = kind\<rparr>)"

definition input_tags :: "JSValueObject \<Rightarrow> tag list anim" where
  "input_tags config = amap (\<lambda>v. defined (AsInt64 v)) (AsArray (object_at_const config ''input''))"

text \<open>
  The first input of a subtraction or division is the first one read, as long as \<^verbatim>\<open>m_firstInput\<close> is
  unset; the other inputs are a set.
\<close>

fun first_and_rest :: "tag \<Rightarrow> tag list \<Rightarrow> tag list \<Rightarrow> tag \<times> tag list" where
  "first_and_rest first rest [] = (first, rest)"
| "first_and_rest first rest (t # ts) =
     (if first = unset_tag then first_and_rest t rest ts
      else first_and_rest first (if t \<in> set rest then rest else rest @ [t]) ts)"

definition read_kind :: "string \<Rightarrow> JSValueObject \<Rightarrow> value_kind anim" where
  "read_kind type config =
     (if type = ''interpolation'' then
        Inr (Interpolation (map AsDouble (AsArray (object_at_const config ''inputRange'')))
          (map AsDouble (AsArray (object_at_const config ''outputRange'')))
          (AsString (object_at_const config ''extrapolateLeft'')) (AsString (object_at_const config ''extrapolateRight'')) unset_tag)
      else if type = ''addition'' then abind (input_tags config) (\<lambda>ts. Inr (Addition (remdups ts)))
      else if type = ''multiplication'' then abind (input_tags config) (\<lambda>ts. Inr (Multiplication (remdups ts)))
      else if type = ''subtraction'' then
        abind (input_tags config) (\<lambda>ts. case first_and_rest unset_tag [] ts of (f, r) \<Rightarrow> Inr (Subtraction f r))
      else if type = ''division'' then
        abind (input_tags config) (\<lambda>ts. case first_and_rest unset_tag [] ts of (f, r) \<Rightarrow> Inr (Division f r))
      else if type = ''modulus'' then
        abind (defined (AsInt64 (object_at_const config ''input''))) (\<lambda>t.
          abind (defined (AsInt64 (object_at_const config ''modulus''))) (\<lambda>k. Inr (Modulus t k)))
      else if type = ''diffclamp'' then
        abind (defined (int64_of_double (AsDouble (object_at_const config ''input'')))) (\<lambda>t.
          Inr (DiffClamp t (AsDouble (object_at_const config ''min'')) (AsDouble (object_at_const config ''max'')) dzero))
      else Inr PlainValue)"

text \<open>The inputs whose property sets the constructor of a composition node refers to.\<close>

fun constructor_inputs :: "value_kind \<Rightarrow> tag list" where
  "constructor_inputs (Addition ts) = ts"
| "constructor_inputs (Multiplication ts) = ts"
| "constructor_inputs (Subtraction t ts) = t # ts"
| "constructor_inputs (Division t ts) = t # ts"
| "constructor_inputs (Modulus t k) = [t]"
| "constructor_inputs (DiffClamp t a b l) = [t]"
| "constructor_inputs _ = []"

definition add_value_node :: "tag \<Rightarrow> JSValueObject \<Rightarrow> value_kind \<Rightarrow> 'a node_manager_scheme \<Rightarrow> 'a node_manager_scheme anim" where
  "add_value_node i config kind m =
     (if ShouldUseComposition config \<and> (\<exists>t \<in> set (constructor_inputs kind). m_valueNodes m t = None) then Inl NullPointer
      else Inr (m\<lparr>m_valueNodes := (m_valueNodes m)(i \<mapsto> make_value_node config kind)\<rparr>))"

definition tag_entries :: "JSValueObject \<Rightarrow> (string \<times> tag) list anim" where
  "tag_entries obj = amap (\<lambda>(k, v). abind (defined (AsInt64 v)) (\<lambda>t. Inr (k, t))) obj"

definition read_transform :: "JSValue \<Rightarrow> (string \<times> tag \<times> double) anim" where
  "read_transform v =
     (let property = AsString (GetObjectProperty v ''property'')
      in if AsString (GetObjectProperty v ''type'') = ''animated''
         then abind (defined (AsInt64 (GetObjectProperty v ''nodeTag''))) (\<lambda>t. Inr (property, t, dzero))
         else Inr (property, unset_tag, AsDouble (GetObjectProperty v ''value'')))"

definition make_tracking_node :: "JSValueObject \<Rightarrow> tracking_node anim" where
  "make_tracking_node config =
     abind (defined (AsInt64 (object_at_const config ''animationId''))) (\<lambda>a.
     abind (defined (AsInt64 (object_at_const config ''toValue''))) (\<lambda>t.
     abind (defined (AsInt64 (object_at_const config ''value''))) (\<lambda>v.
       let c = AsObject (object_at_const config ''animationConfig'');
           c' = (case map_of config ''platformConfig'' of
                   Some p \<Rightarrow> if map_of c ''platformConfig'' = None then insert_or_assign ''platformConfig'' p c else c
                 | None \<Rightarrow> c)
       in Inr \<lparr>m_useComposition = ShouldUseComposition config, m_children = [],
            m_animationId = a, m_toValueId = t, m_valueId = v, m_animationConfig = c'\<rparr>)))"

text \<open>
  \<^verbatim>\<open>emplace\<close> leaves a node that is there; the first test does not look at the tracking nodes. The
  animation that the constructor of a tracking node starts is \<open>tracking_StartAnimation\<close> (theory \<open>Animations\<close>).
\<close>

definition CreateAnimatedNode :: "tag \<Rightarrow> JSValueObject \<Rightarrow> 'a node_manager_scheme \<Rightarrow> 'a node_manager_scheme anim" where
  "CreateAnimatedNode i config m =
     (if m_transformNodes m i \<noteq> None \<or> m_propsNodes m i \<noteq> None \<or> m_styleNodes m i \<noteq> None \<or> m_valueNodes m i \<noteq> None
      then Inl InvalidArgument
      else
        (let type = AsString (object_at_const config ''type''); composition = ShouldUseComposition config
         in if type = ''style'' then
              abind (tag_entries (AsObject (object_at_const config ''style''))) (\<lambda>es.
                Inr (m\<lparr>m_styleNodes := (m_styleNodes m)(i \<mapsto>
                  \<lparr>m_useComposition = composition, m_children = [], m_styleMapping = es\<rparr>)\<rparr>))
            else if type = ''props'' then
              abind (tag_entries (AsObject (object_at_const config ''props''))) (\<lambda>es.
                Inr (m\<lparr>m_propsNodes := (m_propsNodes m)(i \<mapsto>
                  \<lparr>m_useComposition = composition, m_children = [], m_propMapping = es, m_connectedViewTag = unset_tag, m_props = []\<rparr>)\<rparr>))
            else if type = ''transform'' then
              abind (amap read_transform (AsArray (object_at_const config ''transforms''))) (\<lambda>ts.
                Inr (m\<lparr>m_transformNodes := (m_transformNodes m)(i \<mapsto>
                  \<lparr>m_useComposition = composition, m_children = [], m_transformConfigs = ts\<rparr>)\<rparr>))
            else if type \<in> {''value'', ''interpolation'', ''addition'', ''subtraction'', ''division'', ''multiplication'',
                ''modulus'', ''diffclamp''} then
              abind (read_kind type config) (\<lambda>kind. add_value_node i config kind m)
            else
              abind (make_tracking_node config) (\<lambda>n.
                Inr (if m_trackingNodes m i = None then m\<lparr>m_trackingNodes := (m_trackingNodes m)(i \<mapsto> n)\<rparr> else m))))"

definition DropAnimatedNode :: "tag \<Rightarrow> 'a node_manager_scheme \<Rightarrow> 'a node_manager_scheme" where
  "DropAnimatedNode i m = m\<lparr>m_valueNodes := (m_valueNodes m)(i := None), m_propsNodes := (m_propsNodes m)(i := None),
     m_styleNodes := (m_styleNodes m)(i := None), m_transformNodes := (m_transformNodes m)(i := None),
     m_updatedNodes := removeAll i (m_updatedNodes m)\<rparr>"

section \<open>Connections\<close>

text \<open>\<^verbatim>\<open>OnAttachToNode\<close> and \<^verbatim>\<open>OnDetachedFromNode\<close>, which only an interpolation overrides.\<close>

fun set_parent :: "tag \<Rightarrow> value_kind \<Rightarrow> value_kind" where
  "set_parent p (Interpolation is os l r q) = Interpolation is os l r p"
| "set_parent p k = k"

definition attach_to :: "tag \<Rightarrow> tag \<Rightarrow> 'a node_manager_scheme \<Rightarrow> 'a node_manager_scheme" where
  "attach_to p i m = (case m_valueNodes m i of
     Some n \<Rightarrow> m\<lparr>m_valueNodes := (m_valueNodes m)(i \<mapsto> n\<lparr>m_kind := set_parent p (m_kind n)\<rparr>)\<rparr> | None \<Rightarrow> m)"

definition AddChild :: "tag \<Rightarrow> tag \<Rightarrow> 'a node_manager_scheme \<Rightarrow> 'a node_manager_scheme anim" where
  "AddChild p c m =
     (let m1 = set_children (List.insert c) p m
      in if GetAnimatedNode m1 c = None then Inl NullPointer else Inr (attach_to p c m1))"

definition RemoveChild :: "tag \<Rightarrow> tag \<Rightarrow> 'a node_manager_scheme \<Rightarrow> 'a node_manager_scheme" where
  "RemoveChild p c m =
     (if c \<in> set (children_of m p) \<and> GetAnimatedNode m c \<noteq> None
      then set_children (removeAll c) p (attach_to unset_tag c m) else m)"

definition ConnectAnimatedNode :: "tag \<Rightarrow> tag \<Rightarrow> 'a node_manager_scheme \<Rightarrow> 'a node_manager_scheme anim" where
  "ConnectAnimatedNode p c m = (case GetAnimatedNode m p of
     None \<Rightarrow> Inr m
   | Some n \<Rightarrow> abind (AddChild p c m) (\<lambda>m1. Inr (if m_useComposition n then m1 else mark_updated c m1)))"

definition DisconnectAnimatedNode :: "tag \<Rightarrow> tag \<Rightarrow> 'a node_manager_scheme \<Rightarrow> 'a node_manager_scheme" where
  "DisconnectAnimatedNode p c m = (case GetAnimatedNode m p of
     None \<Rightarrow> m
   | Some n \<Rightarrow> (let m1 = RemoveChild p c m in if m_useComposition n then m1 else mark_updated c m1))"

definition ConnectAnimatedNodeToView :: "tag \<Rightarrow> tag \<Rightarrow> 'a node_manager_scheme \<Rightarrow> 'a node_manager_scheme anim" where
  "ConnectAnimatedNodeToView i viewTag m = (case m_propsNodes m i of
     None \<Rightarrow> Inl OutOfRange
   | Some n \<Rightarrow>
       if m_connectedViewTag n \<noteq> unset_tag then Inl InvalidArgument
       else (let m1 = m\<lparr>m_propsNodes := (m_propsNodes m)(i \<mapsto> n\<lparr>m_connectedViewTag := viewTag\<rparr>)\<rparr>
             in Inr (if m_useComposition n then m1 else mark_updated i m1)))"

definition DisconnectAnimatedNodeToView :: "tag \<Rightarrow> tag \<Rightarrow> 'a node_manager_scheme \<Rightarrow> 'a node_manager_scheme anim" where
  "DisconnectAnimatedNodeToView i viewTag m = (case m_propsNodes m i of
     None \<Rightarrow> Inl OutOfRange
   | Some n \<Rightarrow>
       if m_connectedViewTag n = unset_tag then Inr m
       else if m_connectedViewTag n \<noteq> viewTag then Inl InvalidArgument
       else Inr (m\<lparr>m_propsNodes := (m_propsNodes m)(i \<mapsto> n\<lparr>m_connectedViewTag := unset_tag\<rparr>)\<rparr>))"

definition RestoreDefaultValues :: "tag \<Rightarrow> 'a node_manager_scheme \<Rightarrow> 'a node_manager_scheme" where
  "RestoreDefaultValues i m = (case m_propsNodes m i of
     None \<Rightarrow> m
   | Some n \<Rightarrow>
       if m_useComposition n then m
       else m\<lparr>m_propsNodes := (m_propsNodes m)(i \<mapsto> n\<lparr>m_props := map (\<lambda>(k, v). (k, Null)) (m_props n)\<rparr>)\<rparr>)"

section \<open>Values\<close>

text \<open>
  Setting a value or offset of a node of the compositor also restarts the animations of its tracking
  nodes; that is left out here.
\<close>

definition RawValue_set :: "double \<Rightarrow> value_node \<Rightarrow> value_node" where
  "RawValue_set v n = (if deq (m_value n) v then n
     else n\<lparr>m_value := (if m_useComposition n then float_of_double v else v)\<rparr>)"

definition Offset_set :: "double \<Rightarrow> value_node \<Rightarrow> value_node" where
  "Offset_set v n = (if deq (m_offset n) v then n
     else n\<lparr>m_offset := (if m_useComposition n then float_of_double v else v)\<rparr>)"

definition on_value_node :: "(value_node \<Rightarrow> value_node) \<Rightarrow> tag \<Rightarrow> 'a node_manager_scheme \<Rightarrow> 'a node_manager_scheme anim" where
  "on_value_node f i m = (case m_valueNodes m i of
     None \<Rightarrow> Inl OutOfRange
   | Some n \<Rightarrow> Inr (m\<lparr>m_valueNodes := (m_valueNodes m)(i \<mapsto> f n)\<rparr>))"

definition GetValue :: "tag \<Rightarrow> 'a node_manager_scheme \<Rightarrow> double anim" where
  "GetValue i m = (case node_value m i of None \<Rightarrow> Inl OutOfRange | Some v \<Rightarrow> Inr v)"

definition SetAnimatedNodeOffset :: "tag \<Rightarrow> double \<Rightarrow> 'a node_manager_scheme \<Rightarrow> 'a node_manager_scheme anim" where
  "SetAnimatedNodeOffset i offset m = abind (on_value_node (Offset_set (float_of_double offset)) i m) (\<lambda>m1.
     Inr (case m_valueNodes m i of
       Some n \<Rightarrow> if m_useComposition n then m1 else mark_updated i m1 | None \<Rightarrow> m1))"

definition FlattenOffset :: "value_node \<Rightarrow> value_node" where
  "FlattenOffset n = Offset_set dzero (RawValue_set (dadd (m_value n) (m_offset n)) n)"

definition ExtractOffset :: "value_node \<Rightarrow> value_node" where
  "ExtractOffset n = RawValue_set dzero (Offset_set (dadd (m_value n) (m_offset n)) n)"

definition FlattenAnimatedNodeOffset :: "tag \<Rightarrow> 'a node_manager_scheme \<Rightarrow> 'a node_manager_scheme anim" where
  "FlattenAnimatedNodeOffset i m = on_value_node FlattenOffset i m"

definition ExtractAnimatedNodeOffset :: "tag \<Rightarrow> 'a node_manager_scheme \<Rightarrow> 'a node_manager_scheme anim" where
  "ExtractAnimatedNodeOffset i m = on_value_node ExtractOffset i m"

definition ListenToAnimatedNodeValue :: "bool \<Rightarrow> tag \<Rightarrow> 'a node_manager_scheme \<Rightarrow> 'a node_manager_scheme anim" where
  "ListenToAnimatedNodeValue listen i m = on_value_node (\<lambda>n. n\<lparr>m_valueListener := listen\<rparr>) i m"

section \<open>Computed values\<close>

definition Interpolate :: "double \<Rightarrow> double \<Rightarrow> double \<Rightarrow> double \<Rightarrow> double \<Rightarrow> string \<Rightarrow> string \<Rightarrow> double" where
  "Interpolate v inputMin inputMax outputMin outputMax extrapolateLeft extrapolateRight =
     (if dlt v inputMin \<and> extrapolateLeft = ''identity'' then v
      else
        (let r1 = (if dlt v inputMin \<and> extrapolateLeft = ''clamp'' then inputMin else v)
         in if dlt inputMax r1 \<and> extrapolateRight = ''identity'' then r1
            else
              (let r2 = (if dlt inputMax r1 \<and> extrapolateRight = ''clamp'' then inputMax else r1)
               in if deq inputMin inputMax then (if dle v inputMin then outputMin else outputMax)
                  else dadd outputMin (ddiv (dmul (dsub outputMax outputMin) (dsub r2 inputMin)) (dsub inputMax inputMin)))))"

text \<open>
  The first index from 1 whose input is not below the value, at most the last one; \<open>n\<close> counts the
  rounds left.
\<close>

fun range_index :: "double list \<Rightarrow> double \<Rightarrow> nat \<Rightarrow> nat \<Rightarrow> nat" where
  "range_index is v i 0 = i"
| "range_index is v i (Suc n) = (if dle v (is ! i) then i else range_index is v (i + 1) n)"

text \<open>Ranges with fewer than two entries, and a shorter output range, are read out of bounds.\<close>

definition InterpolateValue :: "double list \<Rightarrow> double list \<Rightarrow> string \<Rightarrow> string \<Rightarrow> double \<Rightarrow> double anim" where
  "InterpolateValue is os l r v =
     (if length is < 2 then Inl Undefined
      else
        (let index = range_index is v 1 (length is - 2) - 1
         in if length os < index + 2 then Inl Undefined
            else Inr (Interpolate v (is ! index) (is ! (index + 1)) (os ! index) (os ! (index + 1)) l r)))"

definition fold_values :: "(double \<Rightarrow> double \<Rightarrow> double) \<Rightarrow> (tag \<Rightarrow> double option) \<Rightarrow> double \<Rightarrow> tag list \<Rightarrow> double" where
  "fold_values f val x ts = foldl (\<lambda>acc t. case val t of None \<Rightarrow> acc | Some v \<Rightarrow> f acc v) x ts"

text \<open>
  The raw value that \<^verbatim>\<open>Update\<close> computes from the values of the other nodes; \<open>None\<close> when it computes none.
  \<open>DiffClamp\<close> keeps a state and is treated below.
\<close>

fun computed_value :: "(tag \<Rightarrow> double option) \<Rightarrow> value_kind \<Rightarrow> double option anim" where
  "computed_value val (Addition ts) = Inr (Some (fold_values dadd val dzero ts))"
| "computed_value val (Multiplication ts) = Inr (Some (fold_values dmul val (Finite False 1 0) ts))"
| "computed_value val (Subtraction t ts) =
     Inr (Some (fold_values dsub val (case val t of None \<Rightarrow> dzero | Some v \<Rightarrow> v) ts))"
| "computed_value val (Division t ts) =
     Inr (Some (fold_values ddiv val (case val t of None \<Rightarrow> dzero | Some v \<Rightarrow> v) ts))"
| "computed_value val (Modulus t k) = Inr (map_option (\<lambda>v. dfmod v (double_of_int64 k)) (val t))"
| "computed_value val (Interpolation is os l r p) =
     (if p = unset_tag then Inr None
      else (case val p of None \<Rightarrow> Inr None | Some v \<Rightarrow> abind (InterpolateValue is os l r v) (\<lambda>x. Inr (Some x))))"
| "computed_value val _ = Inr None"

text \<open>\<^verbatim>\<open>std::clamp\<close> is undefined when the bounds are in the wrong order.\<close>

definition dclamp :: "double \<Rightarrow> double \<Rightarrow> double \<Rightarrow> double anim" where
  "dclamp v lo hi = (if dlt hi lo then Inl Undefined else Inr (if dlt v lo then lo else if dlt hi v then hi else v))"

definition Update_value_node :: "(tag \<Rightarrow> double option) \<Rightarrow> value_node \<Rightarrow> value_node anim" where
  "Update_value_node val n = (case m_kind n of
     DiffClamp t lo hi lastValue \<Rightarrow> (case val t of
         None \<Rightarrow> Inr n
       | Some v \<Rightarrow> abind (dclamp (dadd (dadd (m_value n) (m_offset n)) (dsub v lastValue)) lo hi) (\<lambda>x.
           Inr (RawValue_set x (n\<lparr>m_kind := DiffClamp t lo hi v\<rparr>))))
   | k \<Rightarrow> abind (computed_value val k) (\<lambda>r. Inr (case r of None \<Rightarrow> n | Some x \<Rightarrow> RawValue_set x n)))"

section \<open>Updating views\<close>

definition transform_value :: "'a node_manager_scheme \<Rightarrow> string \<times> tag \<times> double \<Rightarrow> JSValue list" where
  "transform_value m t = (case t of (property, i, v) \<Rightarrow>
     if i = unset_tag then [Object [(property, Double v)]]
     else (case node_value m i of None \<Rightarrow> [] | Some x \<Rightarrow> [Object [(property, Double x)]]))"

definition transform_CollectViewUpdates :: "'a node_manager_scheme \<Rightarrow> transform_node \<Rightarrow> JSValueObject \<Rightarrow> JSValueObject" where
  "transform_CollectViewUpdates m n props =
     insert_or_assign ''transform'' (Array (concat (map (transform_value m) (m_transformConfigs n)))) props"

definition style_CollectViewUpdates :: "'a node_manager_scheme \<Rightarrow> style_node \<Rightarrow> JSValueObject \<Rightarrow> JSValueObject" where
  "style_CollectViewUpdates m n props = fold (\<lambda>(name, i) ps.
     case m_transformNodes m i of
       Some t \<Rightarrow> transform_CollectViewUpdates m t ps
     | None \<Rightarrow> (case node_value m i of Some v \<Rightarrow> insert_or_assign name (Double v) ps | None \<Rightarrow> ps))
     (m_styleMapping n) props"

text \<open>\<^verbatim>\<open>UpdateView\<close> of a frame-driven node; what it commits are the collected properties.\<close>

definition UpdateView :: "'a node_manager_scheme \<Rightarrow> props_node \<Rightarrow> props_node" where
  "UpdateView m n = (if m_connectedViewTag n = unset_tag \<or> m_useComposition n then n
     else n\<lparr>m_props := fold (\<lambda>(name, i) ps.
       case m_styleNodes m i of
         Some st \<Rightarrow> style_CollectViewUpdates m st ps
       | None \<Rightarrow> (case node_value m i of Some v \<Rightarrow> insert_or_assign name (Double v) ps | None \<Rightarrow> ps))
       (m_propMapping n) (m_props n)\<rparr>)"

section \<open>Updating the nodes\<close>

text \<open>
  What is done with a node in its turn; the events are the calls of value listeners. The restart of
  an animation by a tracking node does not touch the nodes.
\<close>

definition update_node :: "tag \<Rightarrow> 'a node_manager_scheme \<times> (tag \<times> double) list \<Rightarrow>
    ('a node_manager_scheme \<times> (tag \<times> double) list) anim" where
  "update_node i me = (case me of (m, events) \<Rightarrow>
     abind (case m_valueNodes m i of
         None \<Rightarrow> Inr m
       | Some n \<Rightarrow> abind (Update_value_node (node_value m) n) (\<lambda>n'. Inr (m\<lparr>m_valueNodes := (m_valueNodes m)(i \<mapsto> n')\<rparr>)))
     (\<lambda>m1. Inr (case m_propsNodes m1 i of
         Some p \<Rightarrow> (m1\<lparr>m_propsNodes := (m_propsNodes m1)(i \<mapsto> UpdateView m1 p)\<rparr>, events)
       | None \<Rightarrow> (case m_valueNodes m1 i of
           Some n \<Rightarrow> (m1, if m_valueListener n then events @ [(i, dadd (m_value n) (m_offset n))] else events)
         | None \<Rightarrow> (m1, events)))))"

fun update_all :: "tag list \<Rightarrow> 'a node_manager_scheme \<times> (tag \<times> double) list \<Rightarrow>
    ('a node_manager_scheme \<times> (tag \<times> double) list) anim" where
  "update_all [] me = Inr me"
| "update_all (i # is) me = abind (update_node i me) (update_all is)"

definition UpdateNodes :: "tag list \<Rightarrow> 'a node_manager_scheme \<Rightarrow> ('a node_manager_scheme \<times> (tag \<times> double) list) anim" where
  "UpdateNodes nodes m = (case UpdateNodes_order (children_of m) (m_animatedGraphBFSColor m) nodes of
     None \<Rightarrow> Inl OutOfRange
   | Some (order, activeNodesCount, updatedNodesCount, color) \<Rightarrow>
       update_all order (m\<lparr>m_animatedGraphBFSColor := color\<rparr>, []))"

section \<open>Settled values\<close>

fun kind_inputs :: "value_kind \<Rightarrow> tag list" where
  "kind_inputs (Addition ts) = ts"
| "kind_inputs (Multiplication ts) = ts"
| "kind_inputs (Subtraction t ts) = t # ts"
| "kind_inputs (Division t ts) = t # ts"
| "kind_inputs (Modulus t k) = [t]"
| "kind_inputs (DiffClamp t lo hi l) = [t]"
| "kind_inputs (Interpolation is os l r p) = [p]"
| "kind_inputs PlainValue = []"

text \<open>The ranges of an interpolation and the bounds of a clamp make sense.\<close>

fun kind_ok :: "value_kind \<Rightarrow> bool" where
  "kind_ok (Interpolation is os l r p) = (2 \<le> length is \<and> length is \<le> length os)"
| "kind_ok (DiffClamp t lo hi l) = (\<not> dlt hi lo)"
| "kind_ok k = True"

definition settled :: "'a node_manager_scheme \<Rightarrow> tag \<Rightarrow> bool" where
  "settled m i \<longleftrightarrow> (\<forall>n x. m_valueNodes m i = Some n \<longrightarrow>
     computed_value (node_value m) (m_kind n) = Inr (Some x) \<longrightarrow> same_double (m_value n) x)"

lemma fold_values_cong: "\<forall>t \<in> set ts. val t = val' t \<Longrightarrow> fold_values f val x ts = fold_values f val' x ts"
  unfolding fold_values_def by (rule foldl_cong) auto

lemma computed_value_cong:
  "\<forall>t \<in> set (kind_inputs k). val t = val' t \<Longrightarrow> computed_value val k = computed_value val' k"
  by (cases k) (simp_all add: fold_values_cong[where val = val and val' = val'])

lemma range_index_bound: "range_index is v i n \<le> i + n \<and> i \<le> range_index is v i n"
proof (induction n arbitrary: i)
  case (Suc n)
  show ?case using Suc.IH[of "i + 1"] by auto
qed simp

lemma InterpolateValue_defined:
  "2 \<le> length is \<Longrightarrow> length is \<le> length os \<Longrightarrow> \<exists>x. InterpolateValue is os l r v = Inr x"
  using range_index_bound[of "is" v 1 "length is - 2"] by (auto simp: InterpolateValue_def Let_def)

lemma computed_value_defined: "kind_ok k \<Longrightarrow> \<exists>r. computed_value val k = Inr r"
proof (cases k)
  case (Interpolation a b l r p)
  assume "kind_ok k"
  then have "\<exists>x. InterpolateValue a b l r v = Inr x" for v using InterpolateValue_defined Interpolation by simp
  then show ?thesis using Interpolation by (cases "val p") (auto, metis abind_simps(2))
qed auto

text \<open>What a node's own update keeps.\<close>

definition same_shape :: "value_node \<Rightarrow> value_node \<Rightarrow> bool" where
  "same_shape n n' \<longleftrightarrow> kind_inputs (m_kind n') = kind_inputs (m_kind n) \<and> kind_ok (m_kind n') = kind_ok (m_kind n) \<and>
     m_useComposition n' = m_useComposition n \<and> m_children n' = m_children n"

lemma RawValue_set_fields [simp]:
  "m_kind (RawValue_set x n) = m_kind n" "m_useComposition (RawValue_set x n) = m_useComposition n"
  "m_children (RawValue_set x n) = m_children n"
  by (simp_all add: RawValue_set_def)

lemma Update_value_node_spec:
  assumes "kind_ok (m_kind n)" and "\<not> m_useComposition n"
  shows "\<exists>n'. Update_value_node val n = Inr n' \<and> same_shape n n' \<and>
    (\<forall>x. computed_value val (m_kind n') = Inr (Some x) \<longrightarrow> same_double (m_value n') x)"
proof (cases "\<exists>t lo hi l. m_kind n = DiffClamp t lo hi l")
  case True
  then obtain t lo hi l where k: "m_kind n = DiffClamp t lo hi l" by auto
  then show ?thesis
    using assms by (auto simp: Update_value_node_def dclamp_def same_shape_def split: option.splits)
next
  case False
  obtain r where r: "computed_value val (m_kind n) = Inr r" using computed_value_defined[OF assms(1)] by blast
  have "Update_value_node val n = Inr (case r of None \<Rightarrow> n | Some x \<Rightarrow> RawValue_set x n)"
    using False r by (auto simp: Update_value_node_def split: value_kind.splits)
  then show ?thesis
    using r assms(2) by (auto simp: same_shape_def RawValue_set_def same_double_def split: option.splits)
qed

lemma update_node_spec:
  assumes ok: "\<forall>n. m_valueNodes m i = Some n \<longrightarrow> kind_ok (m_kind n) \<and> \<not> m_useComposition n"
    and self: "\<forall>n. m_valueNodes m i = Some n \<longrightarrow> i \<notin> set (kind_inputs (m_kind n))"
  shows "\<exists>m' ev'. update_node i (m, ev) = Inr (m', ev') \<and> settled m' i \<and>
    (\<forall>j. j \<noteq> i \<longrightarrow> m_valueNodes m' j = m_valueNodes m j) \<and>
    rel_option same_shape (m_valueNodes m i) (m_valueNodes m' i)"
proof (cases "m_valueNodes m i")
  case None
  then show ?thesis by (auto simp: update_node_def settled_def split: option.splits)
next
  case (Some n)
  obtain n' where n': "Update_value_node (node_value m) n = Inr n'" "same_shape n n'"
    "\<forall>x. computed_value (node_value m) (m_kind n') = Inr (Some x) \<longrightarrow> same_double (m_value n') x"
    using Update_value_node_spec[of n "node_value m"] ok Some by blast
  let ?m = "m\<lparr>m_valueNodes := (m_valueNodes m)(i \<mapsto> n')\<rparr>"
  obtain m' ev' where u: "update_node i (m, ev) = Inr (m', ev')" and v: "m_valueNodes m' = m_valueNodes ?m"
    using Some n'(1) by (cases "m_propsNodes m i") (auto simp: update_node_def)
  have "node_value m' t = node_value m t" if "t \<in> set (kind_inputs (m_kind n'))" for t
    using that self Some n'(2) by (auto simp: node_value_def v same_shape_def)
  then have "computed_value (node_value m') (m_kind n') = computed_value (node_value m) (m_kind n')"
    by (intro computed_value_cong) auto
  then have "settled m' i" using n'(3) by (auto simp: settled_def v)
  then show ?thesis using u v Some n'(2) by auto
qed

definition wired :: "'a node_manager_scheme \<Rightarrow> (tag \<Rightarrow> tag list) \<Rightarrow> bool" where
  "wired m children \<longleftrightarrow> (\<forall>i n. m_valueNodes m i = Some n \<longrightarrow> kind_ok (m_kind n) \<and> \<not> m_useComposition n \<and>
     (\<forall>t \<in> set (kind_inputs (m_kind n)). m_valueNodes m t \<noteq> None \<longrightarrow> edge children t i))"

lemma update_all_spec:
  assumes order: "\<forall>xs v ys. order = xs @ v # ys \<longrightarrow> (\<forall>u \<in> A. edge children u v \<longrightarrow> u \<in> set xs)"
    and "distinct order" and "set order \<subseteq> A"
  shows "order = before @ rest \<Longrightarrow> wired m children \<Longrightarrow> \<forall>i \<in> set before. settled m i \<Longrightarrow>
    \<exists>m' ev'. update_all rest (m, ev) = Inr (m', ev') \<and> (\<forall>i \<in> set order. settled m' i) \<and>
      (\<forall>i. i \<notin> set rest \<longrightarrow> m_valueNodes m' i = m_valueNodes m i)"
proof (induction rest arbitrary: before m ev)
  case (Cons i rest)
  have i: "i \<in> A" "i \<notin> set before" "i \<notin> set rest" using assms(2,3) Cons.prems(1) by auto
  have preds: "u \<in> set before" if "u \<in> A" "edge children u i" for u
    using order Cons.prems(1) that by blast
  have self: "\<forall>n. m_valueNodes m i = Some n \<longrightarrow> i \<notin> set (kind_inputs (m_kind n))"
    using Cons.prems(2) preds i unfolding wired_def by blast
  have ok: "\<forall>n. m_valueNodes m i = Some n \<longrightarrow> kind_ok (m_kind n) \<and> \<not> m_useComposition n"
    using Cons.prems(2) by (simp add: wired_def)
  obtain m1 ev1 where u: "update_node i (m, ev) = Inr (m1, ev1)" "settled m1 i"
      "\<forall>j. j \<noteq> i \<longrightarrow> m_valueNodes m1 j = m_valueNodes m j" "rel_option same_shape (m_valueNodes m i) (m_valueNodes m1 i)"
    using update_node_spec[OF ok self, of ev] by blast
  have shape: "rel_option same_shape (m_valueNodes m j) (m_valueNodes m1 j)" for j
    using u(3,4) by (cases "j = i") (auto simp: same_shape_def intro: option.rel_refl)
  have wired: "wired m1 children"
    unfolding wired_def
  proof (intro allI impI)
    fix j n1 assume n1: "m_valueNodes m1 j = Some n1"
    then obtain n where n: "m_valueNodes m j = Some n" "same_shape n n1"
      using shape[of j] by (auto simp: option_rel_Some2)
    have "m_valueNodes m t \<noteq> None" if "m_valueNodes m1 t \<noteq> None" for t
      using that shape[of t] by (cases "m_valueNodes m t") auto
    then show "kind_ok (m_kind n1) \<and> \<not> m_useComposition n1 \<and>
        (\<forall>t \<in> set (kind_inputs (m_kind n1)). m_valueNodes m1 t \<noteq> None \<longrightarrow> edge children t j)"
      using Cons.prems(2) n unfolding wired_def same_shape_def by metis
  qed
  have keep: "settled m1 j" if j: "j \<in> set before" for j
  proof -
    have ji: "j \<noteq> i" using j i by auto
    have "node_value m1 t = node_value m t" if n: "m_valueNodes m j = Some n" "t \<in> set (kind_inputs (m_kind n))" for n t
    proof (cases "t = i \<and> m_valueNodes m i \<noteq> None")
      case True
      then have "edge children i j" using Cons.prems(2) n unfolding wired_def by blast
      moreover obtain xs ys where "before = xs @ j # ys" using j by (auto dest: split_list)
      ultimately have "i \<in> set xs" using order Cons.prems(1) i(1) by (metis append.assoc append_Cons)
      then show ?thesis using \<open>before = xs @ j # ys\<close> i(2) by auto
    next
      case False
      then have "m_valueNodes m1 t = m_valueNodes m t" using u(3) shape[of i] by (cases "t = i") auto
      then show ?thesis by (simp add: node_value_def)
    qed
    then have "computed_value (node_value m1) (m_kind n) = computed_value (node_value m) (m_kind n)"
      if "m_valueNodes m j = Some n" for n
      using that by (intro computed_value_cong) auto
    then show ?thesis using Cons.prems(3) j u(3) ji by (auto simp: settled_def)
  qed
  have "order = (before @ [i]) @ rest" "\<forall>j \<in> set (before @ [i]). settled m1 j"
    using Cons.prems(1) keep u(2) by auto
  from Cons.IH[OF this(1) wired this(2), of ev1] obtain m' ev' where
    "update_all rest (m1, ev1) = Inr (m', ev')" "\<forall>i \<in> set order. settled m' i"
    "\<forall>i. i \<notin> set rest \<longrightarrow> m_valueNodes m' i = m_valueNodes m1 i" by blast
  then show ?case using u(1,3) i(3) by (intro exI[of _ m'] exI[of _ ev']) auto
qed auto

section \<open>Property\<close>

lemma wired_color: "wired (m\<lparr>m_animatedGraphBFSColor := c\<rparr>) children = wired m children"
  by (simp add: wired_def)


definition sum_manager :: node_manager where
  "sum_manager = node_manager_new\<lparr>m_valueNodes := [
     1 \<mapsto> \<lparr>m_useComposition = False, m_children = [2], m_value = Finite False 5 0, m_offset = dzero,
            m_valueListener = False, m_kind = PlainValue\<rparr>,
     2 \<mapsto> \<lparr>m_useComposition = False, m_children = [], m_value = dzero, m_offset = dzero,
            m_valueListener = True, m_kind = Addition [1]\<rparr>]\<rparr>"


end
