(* ===== verification/Animations.thy ===== *)
theory Animations
  imports AnimatedNodes
begin

text \<open>
  The animations of \<^verbatim>\<open>NativeAnimatedNodeManager\<close> that the compositor runs
  (\<^verbatim>\<open>NativeAnimatedNodeManager.cpp\<close>, \<^verbatim>\<open>AnimationDriver.cpp\<close>): they start at once or wait for a stopped
  animation of the same value, and end in a completion event of the compositor. Frame-driven
  animations share the maps. Drivers are numbered objects; a map that holds a driver keeps it alive.
\<close>

section \<open>State\<close>

record driver =
  m_id :: tag
  m_animatedValueTag :: tag
  d_useComposition :: bool
  m_endCallback :: bool
  m_started :: bool
  m_stopped :: bool
  m_ignoreCompletedHandlers :: bool

text \<open>
  \<open>batches\<close> are the drivers whose scoped batch has not completed yet, \<open>callbacks\<close> are the calls of end
  callbacks so far.
\<close>

record animations = node_manager +
  drivers :: "nat \<rightharpoonup> driver"
  m_activeAnimations :: "tag \<rightharpoonup> nat"
  m_pendingCompletionAnimations :: "tag \<rightharpoonup> nat"
  m_valuesWithStoppedAnimation :: "tag set"
  m_deferredAnimationForValues :: "tag \<rightharpoonup> tag"
  m_trackingAndLeadNodeTags :: "(tag \<times> tag) list"
  batches :: "nat list"
  callbacks :: "(nat \<times> bool) list"
  next_driver :: nat

definition animations_new :: animations where
  "animations_new = node_manager.extend node_manager_new
     \<lparr>drivers = Map.empty, m_activeAnimations = Map.empty, m_pendingCompletionAnimations = Map.empty,
      m_valuesWithStoppedAnimation = {}, m_deferredAnimationForValues = Map.empty, m_trackingAndLeadNodeTags = [],
      batches = [], callbacks = [], next_driver = 0\<rparr>"

definition update_driver :: "nat \<Rightarrow> (driver \<Rightarrow> driver) \<Rightarrow> animations \<Rightarrow> animations" where
  "update_driver d f m = m\<lparr>drivers := (drivers m)(d := map_option f (drivers m d))\<rparr>"

section \<open>Drivers\<close>

definition DoCallback :: "nat \<Rightarrow> bool \<Rightarrow> animations \<Rightarrow> animations" where
  "DoCallback d v m = (case drivers m d of
     None \<Rightarrow> m
   | Some r \<Rightarrow>
       (let m1 = update_driver d (\<lambda>r. r\<lparr>m_endCallback := False\<rparr>) m
        in if m_endCallback r then m1\<lparr>callbacks := callbacks m1 @ [(d, v)]\<rparr> else m1))"

text \<open>Making the animation reads the value node through a pointer that is not checked.\<close>

definition driver_StartAnimation :: "nat \<Rightarrow> animations \<Rightarrow> animations anim" where
  "driver_StartAnimation d m = (case drivers m d of
     None \<Rightarrow> Inl NullPointer
   | Some r \<Rightarrow>
       if m_valueNodes m (m_animatedValueTag r) = None then Inl NullPointer
       else Inr ((update_driver d (\<lambda>r. r\<lparr>m_started := True\<rparr>) m)\<lparr>batches := batches m @ [d]\<rparr>))"

definition driver_StopAnimation :: "bool \<Rightarrow> nat \<Rightarrow> animations \<Rightarrow> animations" where
  "driver_StopAnimation ignoreCompletedHandlers d m = (case drivers m d of
     None \<Rightarrow> m
   | Some r \<Rightarrow>
       if d_useComposition r \<and> m_started r then
         (if m_valueNodes m (m_animatedValueTag r) = None then m
          else update_driver d (\<lambda>r. r\<lparr>m_stopped := True, m_ignoreCompletedHandlers := ignoreCompletedHandlers\<rparr>) m)
       else DoCallback d False m)"

section \<open>The manager\<close>

definition StopAnimation :: "tag \<Rightarrow> bool \<Rightarrow> animations \<Rightarrow> animations" where
  "StopAnimation animationId isTrackingAnimation m = (case m_activeAnimations m animationId of
     None \<Rightarrow> m
   | Some d \<Rightarrow>
       (let m1 = driver_StopAnimation isTrackingAnimation d m;
            m2 = (case drivers m1 d of
              None \<Rightarrow> m1
            | Some r \<Rightarrow>
                if \<not> d_useComposition r then m1
                else
                  (let pending = (if m_pendingCompletionAnimations m1 animationId = None
                         then (m_pendingCompletionAnimations m1)(animationId \<mapsto> d) else m_pendingCompletionAnimations m1);
                       m1' = m1\<lparr>m_pendingCompletionAnimations := pending\<rparr>;
                       nodeTag = m_animatedValueTag r
                   in if nodeTag = unset_tag then m1'
                      else if m_deferredAnimationForValues m1' nodeTag \<noteq> None
                      then m1'\<lparr>m_deferredAnimationForValues := (m_deferredAnimationForValues m1')(nodeTag := None)\<rparr>
                      else m1'\<lparr>m_valuesWithStoppedAnimation := insert nodeTag (m_valuesWithStoppedAnimation m1')\<rparr>))
        in m2\<lparr>m_activeAnimations := (m_activeAnimations m2)(animationId := None)\<rparr>))"

text \<open>
  \<^verbatim>\<open>RestartTrackingAnimatedNode\<close> keeps a reference to the configuration inside the driver, drops the
  driver from the only map that holds it, and then reads through the reference.
\<close>

definition RestartTrackingAnimatedNode :: "tag \<Rightarrow> animations \<Rightarrow> animations anim" where
  "RestartTrackingAnimatedNode animationId m =
     (if m_activeAnimations m animationId = None then Inr m else Inl Undefined)"

fun restart_all :: "tag list \<Rightarrow> animations \<Rightarrow> animations anim" where
  "restart_all [] m = Inr m"
| "restart_all (i # is) m = abind (RestartTrackingAnimatedNode i m) (restart_all is)"

definition StartAnimationAndTrackingNodes :: "tag \<Rightarrow> tag \<Rightarrow> animations \<Rightarrow> animations anim" where
  "StartAnimationAndTrackingNodes i nodeTag m = (case m_activeAnimations m i of
     None \<Rightarrow> Inr m
   | Some d \<Rightarrow> abind (driver_StartAnimation d m) (\<lambda>m1.
       restart_all (map fst (filter (\<lambda>(a, lead). lead = nodeTag) (m_trackingAndLeadNodeTags m1))) m1))"

definition new_driver :: "tag \<Rightarrow> tag \<Rightarrow> bool \<Rightarrow> JSValueObject \<Rightarrow> driver" where
  "new_driver animationId animatedNodeTag callback config =
     \<lparr>m_id = animationId, m_animatedValueTag = animatedNodeTag, d_useComposition = ShouldUseComposition config,
      m_endCallback = callback, m_started = False, m_stopped = False, m_ignoreCompletedHandlers = False\<rparr>"

definition StartAnimatingNode :: "tag \<Rightarrow> tag \<Rightarrow> bool \<Rightarrow> JSValueObject \<Rightarrow> animations \<Rightarrow> animations anim" where
  "StartAnimatingNode animationId animatedNodeTag callback config m =
     (let m1 = (if m_activeAnimations m animationId = None
            then m\<lparr>drivers := (drivers m)(next_driver m \<mapsto> new_driver animationId animatedNodeTag callback config),
                   m_activeAnimations := (m_activeAnimations m)(animationId \<mapsto> next_driver m),
                   next_driver := next_driver m + 1\<rparr>
            else m)
      in case m_activeAnimations m1 animationId of
        None \<Rightarrow> Inr m1
      | Some d \<Rightarrow> (case drivers m1 d of
          None \<Rightarrow> Inr m1
        | Some r \<Rightarrow>
            if d_useComposition r then
              (if animatedNodeTag \<in> m_valuesWithStoppedAnimation m1
               then Inr (if m_deferredAnimationForValues m1 animatedNodeTag = None
                 then m1\<lparr>m_deferredAnimationForValues := (m_deferredAnimationForValues m1)(animatedNodeTag \<mapsto> animationId)\<rparr>
                 else m1)
               else StartAnimationAndTrackingNodes animationId animatedNodeTag m1)
            else Inr m1))"

definition StartTrackingAnimatedNode :: "tag \<Rightarrow> tag \<Rightarrow> tag \<Rightarrow> JSValueObject \<Rightarrow> bool \<Rightarrow> animations \<Rightarrow> animations anim" where
  "StartTrackingAnimatedNode animationId animatedNodeTag animatedToValueTag config track m =
     StartAnimatingNode animationId animatedNodeTag False config
       (if track then m\<lparr>m_trackingAndLeadNodeTags := m_trackingAndLeadNodeTags m @ [(animationId, animatedToValueTag)]\<rparr> else m)"

text \<open>
  \<^verbatim>\<open>TrackingAnimatedNode::StartAnimation\<close>, which its constructor and its update run. That the value
  node remembers its tracking nodes is not modelled.
\<close>

definition tracking_StartAnimation :: "tag \<Rightarrow> tracking_node \<Rightarrow> animations \<Rightarrow> animations anim" where
  "tracking_StartAnimation i n m = (case node_value m (m_toValueId n) of
     None \<Rightarrow> Inr m
   | Some v \<Rightarrow>
       (let m1 = StopAnimation (m_animationId n) True m;
            config = insert_or_assign ''toValue'' (Double v) (m_animationConfig n);
            m2 = (if m_trackingNodes m1 i = None then m1
                  else m1\<lparr>m_trackingNodes := (m_trackingNodes m1)(i \<mapsto> n\<lparr>m_animationConfig := config\<rparr>)\<rparr>)
        in if m_useComposition n
           then StartTrackingAnimatedNode (m_animationId n) (m_valueId n) (m_toValueId n) config True m2
           else StartAnimatingNode (m_animationId n) (m_valueId n) False config m2))"

definition StartDeferredAnimationsForValueNode :: "tag \<Rightarrow> animations \<Rightarrow> animations anim" where
  "StartDeferredAnimationsForValueNode nodeTag m = (case m_deferredAnimationForValues m nodeTag of
     None \<Rightarrow> Inr m
   | Some i \<Rightarrow> abind (StartAnimationAndTrackingNodes i nodeTag m) (\<lambda>m1.
       Inr (m1\<lparr>m_deferredAnimationForValues := (m_deferredAnimationForValues m1)(nodeTag := None)\<rparr>)))"

definition RemoveActiveAnimation :: "tag \<Rightarrow> animations \<Rightarrow> animations" where
  "RemoveActiveAnimation i m = m\<lparr>m_activeAnimations := (m_activeAnimations m)(i := None)\<rparr>"

definition RemoveStoppedAnimation :: "tag \<Rightarrow> animations \<Rightarrow> animations anim" where
  "RemoveStoppedAnimation i m = (case m_pendingCompletionAnimations m i of
     None \<Rightarrow> Inr m
   | Some d \<Rightarrow>
       (let nodeTag = (case drivers m d of None \<Rightarrow> unset_tag | Some r \<Rightarrow> m_animatedValueTag r)
        in abind (if nodeTag \<in> m_valuesWithStoppedAnimation m
              then StartDeferredAnimationsForValueNode nodeTag
                (m\<lparr>m_valuesWithStoppedAnimation := m_valuesWithStoppedAnimation m - {nodeTag}\<rparr>)
              else Inr m)
           (\<lambda>m1. Inr (m1\<lparr>m_pendingCompletionAnimations := (m_pendingCompletionAnimations m1)(i := None)\<rparr>))))"

text \<open>
  The handler of the completion event. It is removed with the driver; \<^verbatim>\<open>m_ignoreCompletedHandlers\<close> is
  read at its beginning, \<^verbatim>\<open>m_stopped\<close> at its end.
\<close>

definition alive_driver :: "animations \<Rightarrow> nat \<Rightarrow> bool" where
  "alive_driver m d \<longleftrightarrow> d \<in> ran (m_activeAnimations m) \<or> d \<in> ran (m_pendingCompletionAnimations m)"

definition OnBatchCompleted :: "nat \<Rightarrow> animations \<Rightarrow> animations anim" where
  "OnBatchCompleted d m =
     (let m0 = m\<lparr>batches := remove1 d (batches m)\<rparr>
      in case drivers m d of
        None \<Rightarrow> Inr m0
      | Some r \<Rightarrow>
          if \<not> alive_driver m d then Inr m0
          else
            abind (RemoveStoppedAnimation (m_id r)
                (if m_ignoreCompletedHandlers r then m0 else RemoveActiveAnimation (m_id r) m0)) (\<lambda>m1.
              Inr (if m_ignoreCompletedHandlers r then m1
                   else DoCallback d (case drivers m1 d of None \<Rightarrow> True | Some r' \<Rightarrow> \<not> m_stopped r') m1)))"

text \<open>Frame-driven animations of a value end when the value is set.\<close>

definition StopAnimationsForNode :: "tag \<Rightarrow> animations \<Rightarrow> animations" where
  "StopAnimationsForNode i m =
     (let frame_driven = (\<lambda>d. case drivers m d of None \<Rightarrow> False
            | Some r \<Rightarrow> \<not> d_useComposition r \<and> m_animatedValueTag r = i);
          ended = filter frame_driven [0..<next_driver m];
          active = filter (\<lambda>d. d \<in> ran (m_activeAnimations m)) ended;
          m1 = fold (\<lambda>d. DoCallback d False) active m
      in m1\<lparr>m_activeAnimations := (\<lambda>k. case m_activeAnimations m k of
           Some d \<Rightarrow> if frame_driven d then None else Some d | None \<Rightarrow> None)\<rparr>)"

definition SetAnimatedNodeValue :: "tag \<Rightarrow> double \<Rightarrow> animations \<Rightarrow> animations anim" where
  "SetAnimatedNodeValue i v m = abind (on_value_node (RawValue_set (float_of_double v)) i m) (\<lambda>m1.
     Inr (case m_valueNodes m i of
       Some n \<Rightarrow> if m_useComposition n then m1 else mark_updated i (StopAnimationsForNode i m1) | None \<Rightarrow> m1))"

section \<open>Phases of a driver\<close>

datatype phase = Waiting | Running | Stopping | Abandoned | Finished

definition in_phase :: "animations \<Rightarrow> nat \<Rightarrow> driver \<Rightarrow> phase \<Rightarrow> bool" where
  "in_phase m d r p = (case p of
     Waiting \<Rightarrow> m_activeAnimations m (m_id r) = Some d \<and> m_pendingCompletionAnimations m (m_id r) = None \<and>
       \<not> m_started r \<and> \<not> m_stopped r \<and> d \<notin> set (batches m) \<and>
       m_deferredAnimationForValues m (m_animatedValueTag r) = Some (m_id r) \<and>
       m_animatedValueTag r \<in> m_valuesWithStoppedAnimation m \<and> m_valueNodes m (m_animatedValueTag r) \<noteq> None \<and> m_endCallback r
   | Running \<Rightarrow> m_activeAnimations m (m_id r) = Some d \<and> m_pendingCompletionAnimations m (m_id r) = None \<and>
       m_started r \<and> \<not> m_stopped r \<and> d \<in> set (batches m) \<and>
       m_animatedValueTag r \<notin> m_valuesWithStoppedAnimation m \<and> m_valueNodes m (m_animatedValueTag r) \<noteq> None \<and> m_endCallback r
   | Stopping \<Rightarrow> m_activeAnimations m (m_id r) = None \<and> m_pendingCompletionAnimations m (m_id r) = Some d \<and>
       m_started r \<and> m_stopped r \<and> d \<in> set (batches m) \<and>
       m_animatedValueTag r \<in> m_valuesWithStoppedAnimation m \<and> m_endCallback r
   | Abandoned \<Rightarrow> m_activeAnimations m (m_id r) = None \<and> m_pendingCompletionAnimations m (m_id r) = Some d \<and>
       \<not> m_started r \<and> d \<notin> set (batches m) \<and> \<not> m_endCallback r
   | Finished \<Rightarrow> m_activeAnimations m (m_id r) = None \<and> m_pendingCompletionAnimations m (m_id r) = None \<and>
       d \<notin> set (batches m) \<and> \<not> m_endCallback r)"

lemma in_phase_frame:
  assumes "in_phase m d r p"
    and "m_activeAnimations m' (m_id r) = m_activeAnimations m (m_id r)"
    and "m_pendingCompletionAnimations m' (m_id r) = m_pendingCompletionAnimations m (m_id r)"
    and "d \<in> set (batches m') \<longleftrightarrow> d \<in> set (batches m)"
    and "p = Waiting \<Longrightarrow> m_deferredAnimationForValues m' (m_animatedValueTag r) = m_deferredAnimationForValues m (m_animatedValueTag r)"
    and "p \<in> {Waiting, Running, Stopping} \<Longrightarrow>
      m_animatedValueTag r \<in> m_valuesWithStoppedAnimation m' \<longleftrightarrow> m_animatedValueTag r \<in> m_valuesWithStoppedAnimation m"
    and "p \<in> {Waiting, Running} \<Longrightarrow> m_valueNodes m' (m_animatedValueTag r) \<noteq> None"
  shows "in_phase m' d r p"
  using assms by (cases p) (simp_all add: in_phase_def)

definition drivers_ok :: "(nat \<Rightarrow> phase) \<Rightarrow> animations \<Rightarrow> bool" where
  "drivers_ok ph m \<longleftrightarrow> (\<forall>d r. drivers m d = Some r \<longrightarrow> d < next_driver m \<and> in_phase m d r (ph d) \<and>
     d_useComposition r \<and> \<not> m_ignoreCompletedHandlers r \<and> m_animatedValueTag r \<noteq> unset_tag)"

lemma drivers_ok_new:
  assumes "drivers_ok ph m" and m': "drivers m' = (drivers m)(n \<mapsto> r)" and n: "n = next_driver m" "next_driver m' = n + 1"
    and r: "d_useComposition r" "\<not> m_ignoreCompletedHandlers r" "m_animatedValueTag r \<noteq> unset_tag" "in_phase m' n r p"
    and old: "\<And>d r'. drivers m d = Some r' \<Longrightarrow> in_phase m' d r' (ph d)"
  shows "drivers_ok (ph(n := p)) m'"
  unfolding drivers_ok_def
proof (intro allI impI)
  fix d r' assume d: "drivers m' d = Some r'"
  show "d < next_driver m' \<and> in_phase m' d r' ((ph(n := p)) d) \<and> d_useComposition r' \<and> \<not> m_ignoreCompletedHandlers r' \<and>
    m_animatedValueTag r' \<noteq> unset_tag"
  proof (cases "d = n")
    case True
    then show ?thesis using d m' n r by simp
  next
    case False
    then have "drivers m d = Some r'" using d m' by simp
    then show ?thesis using False old[of d r'] assms(1) n unfolding drivers_ok_def by fastforce
  qed
qed

definition drivers_apart :: "(nat \<Rightarrow> phase) \<Rightarrow> animations \<Rightarrow> bool" where
  "drivers_apart ph m \<longleftrightarrow> (\<forall>d d' r r'. drivers m d = Some r \<longrightarrow> drivers m d' = Some r' \<longrightarrow> d \<noteq> d' \<longrightarrow>
     m_id r \<noteq> m_id r' \<and> (m_animatedValueTag r = m_animatedValueTag r' \<longrightarrow>
       \<not> (ph d \<in> {Waiting, Running} \<and> ph d' \<in> {Waiting, Running}) \<and> \<not> (ph d = Stopping \<and> ph d' = Stopping)))"

definition maps_ok :: "(nat \<Rightarrow> phase) \<Rightarrow> animations \<Rightarrow> bool" where
  "maps_ok ph m \<longleftrightarrow>
     (\<forall>i d. m_activeAnimations m i = Some d \<or> m_pendingCompletionAnimations m i = Some d \<longrightarrow>
       (\<exists>r. drivers m d = Some r \<and> m_id r = i)) \<and>
     (\<forall>v \<in> m_valuesWithStoppedAnimation m. \<exists>d r. drivers m d = Some r \<and> m_animatedValueTag r = v \<and> ph d = Stopping) \<and>
     (\<forall>v i. m_deferredAnimationForValues m v = Some i \<longrightarrow>
       (\<exists>d r. drivers m d = Some r \<and> m_animatedValueTag r = v \<and> m_id r = i \<and> ph d = Waiting)) \<and>
     m_trackingAndLeadNodeTags m = []"

definition keeps_drivers :: "animations \<Rightarrow> animations \<Rightarrow> bool" where
  "keeps_drivers m m' \<longleftrightarrow> (\<forall>d r. drivers m d = Some r \<longrightarrow> (\<exists>r'. drivers m' d = Some r' \<and> m_id r' = m_id r \<and>
     m_animatedValueTag r' = m_animatedValueTag r))"

lemma maps_ok_step:
  assumes "maps_ok ph m" and keep: "keeps_drivers m m'"
    and maps: "\<And>i d. m_activeAnimations m' i = Some d \<or> m_pendingCompletionAnimations m' i = Some d \<Longrightarrow>
      m_activeAnimations m i = Some d \<or> m_pendingCompletionAnimations m i = Some d \<or> (\<exists>r. drivers m' d = Some r \<and> m_id r = i)"
    and stopped: "\<And>v. v \<in> m_valuesWithStoppedAnimation m' \<Longrightarrow>
      v \<in> m_valuesWithStoppedAnimation m \<and>
        (\<forall>d r. drivers m d = Some r \<longrightarrow> m_animatedValueTag r = v \<longrightarrow> ph d = Stopping \<longrightarrow> ph' d = Stopping) \<or>
      (\<exists>d r. drivers m' d = Some r \<and> m_animatedValueTag r = v \<and> ph' d = Stopping)"
    and deferred: "\<And>v i. m_deferredAnimationForValues m' v = Some i \<Longrightarrow>
      m_deferredAnimationForValues m v = Some i \<and>
        (\<forall>d r. drivers m d = Some r \<longrightarrow> m_animatedValueTag r = v \<longrightarrow> ph d = Waiting \<longrightarrow> ph' d = Waiting) \<or>
      (\<exists>d r. drivers m' d = Some r \<and> m_animatedValueTag r = v \<and> m_id r = i \<and> ph' d = Waiting)"
    and "m_trackingAndLeadNodeTags m' = []"
  shows "maps_ok ph' m'"
  unfolding maps_ok_def
proof (intro conjI allI ballI impI)
  fix i d assume "m_activeAnimations m' i = Some d \<or> m_pendingCompletionAnimations m' i = Some d"
  from maps[OF this] show "\<exists>r. drivers m' d = Some r \<and> m_id r = i"
    using assms(1) keep unfolding maps_ok_def keeps_drivers_def by metis
next
  fix v assume "v \<in> m_valuesWithStoppedAnimation m'"
  from stopped[OF this] show "\<exists>d r. drivers m' d = Some r \<and> m_animatedValueTag r = v \<and> ph' d = Stopping"
    using assms(1) keep unfolding maps_ok_def keeps_drivers_def by metis
next
  fix v i assume "m_deferredAnimationForValues m' v = Some i"
  from deferred[OF this] show "\<exists>d r. drivers m' d = Some r \<and> m_animatedValueTag r = v \<and> m_id r = i \<and> ph' d = Waiting"
    using assms(1) keep unfolding maps_ok_def keeps_drivers_def by metis
qed (rule assms(6))

lemma drivers_apart_new:
  assumes old: "drivers_apart ph m" and m': "drivers m' = (drivers m)(n \<mapsto> r)" and fresh: "drivers m n = None"
    and r: "\<And>d r'. drivers m d = Some r' \<Longrightarrow> m_id r' \<noteq> m_id r"
      "\<And>d r'. drivers m d = Some r' \<Longrightarrow> m_animatedValueTag r' = m_animatedValueTag r \<Longrightarrow> ph d \<notin> {Waiting, Running}"
    and p: "p \<noteq> Stopping"
  shows "drivers_apart (ph(n := p)) m'"
  unfolding drivers_apart_def
proof (intro allI impI)
  fix d d' r1 r2 assume d: "drivers m' d = Some r1" "drivers m' d' = Some r2" "d \<noteq> d'"
  let ?ph = "ph(n := p)"
  consider "d = n" "d' \<noteq> n" | "d \<noteq> n" "d' = n" | "d \<noteq> n" "d' \<noteq> n" using d(3) by blast
  then show "m_id r1 \<noteq> m_id r2 \<and> (m_animatedValueTag r1 = m_animatedValueTag r2 \<longrightarrow>
       \<not> (?ph d \<in> {Waiting, Running} \<and> ?ph d' \<in> {Waiting, Running}) \<and> \<not> (?ph d = Stopping \<and> ?ph d' = Stopping))"
  proof cases
    case 1
    then have "r1 = r" "drivers m d' = Some r2" using d m' by simp_all
    then show ?thesis using r(1)[of d' r2] r(2)[of d' r2] 1 p by auto
  next
    case 2
    then have "r2 = r" "drivers m d = Some r1" using d m' by simp_all
    then show ?thesis using r(1)[of d r1] r(2)[of d r1] 2 p by auto
  next
    case 3
    then have "drivers m d = Some r1" "drivers m d' = Some r2" "?ph d = ph d" "?ph d' = ph d'" using d m' by simp_all
    then show ?thesis using old d(3) unfolding drivers_apart_def by presburger
  qed
qed

text \<open>A driver may move from \<open>Waiting\<close> to \<open>Running\<close>, from there to \<open>Stopping\<close> when no other driver of its
  value is stopping, and from anywhere to an end.\<close>

definition phase_step :: "(nat \<Rightarrow> phase) \<Rightarrow> animations \<Rightarrow> (nat \<Rightarrow> phase) \<Rightarrow> bool" where
  "phase_step ph m ph' \<longleftrightarrow> (\<forall>d r. drivers m d = Some r \<longrightarrow>
     ph' d = ph d \<or> ph' d \<in> {Abandoned, Finished} \<or> ph' d = Running \<and> ph d = Waiting \<or>
     ph' d = Stopping \<and> (\<forall>d' r'. drivers m d' = Some r' \<longrightarrow> d' \<noteq> d \<longrightarrow> m_animatedValueTag r' = m_animatedValueTag r \<longrightarrow>
       ph' d' \<noteq> Stopping))"

lemma drivers_apart_step:
  assumes old: "drivers_apart ph m" and step: "phase_step ph m ph'"
    and m': "\<And>d r'. drivers m' d = Some r' \<Longrightarrow> \<exists>r. drivers m d = Some r \<and> m_id r' = m_id r \<and> m_animatedValueTag r' = m_animatedValueTag r"
  shows "drivers_apart ph' m'"
  unfolding drivers_apart_def
proof (intro allI impI)
  fix d d' r1 r2 assume "drivers m' d = Some r1" "drivers m' d' = Some r2" and ne: "d \<noteq> d'"
  then obtain s1 s2 where s: "drivers m d = Some s1" "drivers m d' = Some s2"
    and same: "m_id r1 = m_id s1" "m_animatedValueTag r1 = m_animatedValueTag s1" "m_id r2 = m_id s2"
      "m_animatedValueTag r2 = m_animatedValueTag s2" using m' by meson
  have apart: "m_id s1 \<noteq> m_id s2 \<and> (m_animatedValueTag s1 = m_animatedValueTag s2 \<longrightarrow>
       \<not> (ph d \<in> {Waiting, Running} \<and> ph d' \<in> {Waiting, Running}) \<and> \<not> (ph d = Stopping \<and> ph d' = Stopping))"
    using old s ne unfolding drivers_apart_def by blast
  have "\<not> (ph' d \<in> {Waiting, Running} \<and> ph' d' \<in> {Waiting, Running}) \<and> \<not> (ph' d = Stopping \<and> ph' d' = Stopping)"
    if tags: "m_animatedValueTag s1 = m_animatedValueTag s2"
  proof (intro conjI)
    have up: "ph' x \<in> {Waiting, Running} \<Longrightarrow> ph x \<in> {Waiting, Running}" if "drivers m x = Some r" for x r
      using step that unfolding phase_step_def by (metis insertCI insertE singletonD phase.distinct)
    then show "\<not> (ph' d \<in> {Waiting, Running} \<and> ph' d' \<in> {Waiting, Running})" using apart tags s by blast
    show "\<not> (ph' d = Stopping \<and> ph' d' = Stopping)"
      using step apart tags s ne unfolding phase_step_def by (metis insertE singletonD phase.distinct)
  qed
  then show "m_id r1 \<noteq> m_id r2 \<and> (m_animatedValueTag r1 = m_animatedValueTag r2 \<longrightarrow>
       \<not> (ph' d \<in> {Waiting, Running} \<and> ph' d' \<in> {Waiting, Running}) \<and> \<not> (ph' d = Stopping \<and> ph' d' = Stopping))"
    using apart same by simp
qed

definition events_ok :: "animations \<Rightarrow> bool" where
  "events_ok m \<longleftrightarrow> distinct (batches m) \<and> set (batches m) \<subseteq> dom (drivers m) \<and>
     distinct (map fst (callbacks m)) \<and> fst ` set (callbacks m) \<subseteq> dom (drivers m) \<and>
     (\<forall>d r. drivers m d = Some r \<longrightarrow> (d \<in> fst ` set (callbacks m) \<longleftrightarrow> \<not> m_endCallback r))"

definition anim_inv :: "(nat \<Rightarrow> phase) \<Rightarrow> animations \<Rightarrow> bool" where
  "anim_inv ph m \<longleftrightarrow> drivers_ok ph m \<and> drivers_apart ph m \<and> maps_ok ph m \<and> events_ok m"

lemma anim_inv_new: "anim_inv ph animations_new"
  by (simp add: anim_inv_def drivers_ok_def drivers_apart_def maps_ok_def events_ok_def animations_new_def node_manager.defs)

lemma anim_invD:
  assumes "anim_inv ph m" and "drivers m d = Some r"
  shows "d < next_driver m" "in_phase m d r (ph d)" "d_useComposition r" "\<not> m_ignoreCompletedHandlers r"
    "m_animatedValueTag r \<noteq> unset_tag"
    "drivers m d' = Some r' \<Longrightarrow> d' \<noteq> d \<Longrightarrow> m_id r' \<noteq> m_id r"
    "drivers m d' = Some r' \<Longrightarrow> d' \<noteq> d \<Longrightarrow> m_animatedValueTag r' = m_animatedValueTag r \<Longrightarrow>
       ph d \<in> {Waiting, Running} \<Longrightarrow> ph d' \<notin> {Waiting, Running}"
    "drivers m d' = Some r' \<Longrightarrow> d' \<noteq> d \<Longrightarrow> m_animatedValueTag r' = m_animatedValueTag r \<Longrightarrow>
       ph d = Stopping \<Longrightarrow> ph d' \<noteq> Stopping"
  using assms unfolding anim_inv_def drivers_ok_def drivers_apart_def by blast+

lemma anim_inv_active:
  assumes "anim_inv ph m" and "m_activeAnimations m i = Some d"
  obtains r where "drivers m d = Some r" "m_id r = i" "ph d = Waiting \<or> ph d = Running"
proof -
  obtain r where r: "drivers m d = Some r" "m_id r = i" using assms by (auto simp: anim_inv_def maps_ok_def)
  then have "in_phase m d r (ph d)" using anim_invD(2)[OF assms(1)] by blast
  then show ?thesis using r assms(2) that by (cases "ph d") (auto simp: in_phase_def)
qed

section \<open>Starting\<close>

text \<open>
  What the JavaScript side sees to: identifiers are not used twice, a value has at most one active
  animation, and its node exists.
\<close>

definition may_start :: "tag \<Rightarrow> tag \<Rightarrow> JSValueObject \<Rightarrow> animations \<Rightarrow> bool" where
  "may_start i v config m \<longleftrightarrow> ShouldUseComposition config \<and> v \<noteq> unset_tag \<and> m_valueNodes m v \<noteq> None \<and>
     (\<forall>d r. drivers m d = Some r \<longrightarrow> m_id r \<noteq> i \<and> (m_activeAnimations m (m_id r) = Some d \<longrightarrow> m_animatedValueTag r \<noteq> v))"

lemma anim_inv_new_driver:
  assumes inv: "anim_inv ph m" and "may_start i v config m"
  shows "drivers m (next_driver m) = None" "next_driver m \<notin> set (batches m)" "next_driver m \<notin> fst ` set (callbacks m)"
    "m_activeAnimations m i = None" "m_pendingCompletionAnimations m i = None" "m_deferredAnimationForValues m v = None"
    "drivers m d = Some r \<Longrightarrow> m_animatedValueTag r = v \<Longrightarrow> ph d \<notin> {Waiting, Running}"
proof -
  show fresh: "drivers m (next_driver m) = None" using anim_invD(1)[OF inv, of "next_driver m"] by force
  then show "next_driver m \<notin> set (batches m)" "next_driver m \<notin> fst ` set (callbacks m)"
    using inv by (auto simp: anim_inv_def events_ok_def)
  show "m_activeAnimations m i = None" "m_pendingCompletionAnimations m i = None"
    using inv assms(2) unfolding anim_inv_def maps_ok_def may_start_def by (metis not_None_eq)+
  show *: "ph d \<notin> {Waiting, Running}" if d: "drivers m d = Some r" "m_animatedValueTag r = v" for d r
  proof
    assume "ph d \<in> {Waiting, Running}"
    then have "m_activeAnimations m (m_id r) = Some d"
      using anim_invD(2)[OF inv d(1)] by (auto simp: in_phase_def)
    then show False using d assms(2) unfolding may_start_def by blast
  qed
  show "m_deferredAnimationForValues m v = None"
    using inv * unfolding anim_inv_def maps_ok_def by (metis insertI1 not_None_eq)
qed

lemma StartAnimatingNode_inv:
  assumes inv: "anim_inv ph m" and start: "may_start i v config m"
  shows "\<exists>ph' m'. StartAnimatingNode i v True config m = Inr m' \<and> anim_inv ph' m'"
proof -
  let ?n = "next_driver m" and ?r = "new_driver i v True config"
  note N = anim_inv_new_driver[OF inv start]
  have r: "m_id ?r = i" "m_animatedValueTag ?r = v" "d_useComposition ?r" "m_endCallback ?r" "\<not> m_started ?r"
      "\<not> m_stopped ?r" "\<not> m_ignoreCompletedHandlers ?r"
    using start by (simp_all add: new_driver_def may_start_def)
  have other: "m_id r' \<noteq> i" "d \<noteq> ?n" if "drivers m d = Some r'" for d r'
    using that start anim_invD(1)[OF inv that] by (auto simp: may_start_def)
  have none: "m_trackingAndLeadNodeTags m = []" and node: "m_valueNodes m v \<noteq> None"
    using inv start by (simp_all add: anim_inv_def maps_ok_def may_start_def)
  show ?thesis
  proof (cases "v \<in> m_valuesWithStoppedAnimation m")
    case True
    let ?m = "m\<lparr>drivers := (drivers m)(?n \<mapsto> ?r), m_activeAnimations := (m_activeAnimations m)(i \<mapsto> ?n),
      next_driver := ?n + 1, m_deferredAnimationForValues := (m_deferredAnimationForValues m)(v \<mapsto> i)\<rparr>"
    let ?ph = "ph(?n := Waiting)"
    have run: "StartAnimatingNode i v True config m = Inr ?m"
      using True N(4,6) r(3) by (simp add: StartAnimatingNode_def)
    have "drivers_ok ?ph ?m"
    proof (rule drivers_ok_new[OF _ _ refl])
      show "drivers_ok ph m" using inv by (simp add: anim_inv_def)
      show "in_phase ?m ?n ?r Waiting"
        using r N start \<open>v \<in> m_valuesWithStoppedAnimation m\<close> by (simp add: in_phase_def may_start_def)
      show "in_phase ?m d r' (ph d)" if "drivers m d = Some r'" for d r'
        using other[OF that] N(7)[OF that] anim_invD(2)[OF inv that]
        by (intro in_phase_frame[OF anim_invD(2)[OF inv that]]) (auto simp: in_phase_def)
    qed (use r start in \<open>simp_all add: may_start_def\<close>)
    moreover have "drivers_apart ?ph ?m"
    proof (rule drivers_apart_new)
      show "drivers_apart ph m" using inv by (simp add: anim_inv_def)
      show "m_id r' \<noteq> m_id ?r" if "drivers m d = Some r'" for d r' using other(1)[OF that] r(1) by simp
      show "ph d \<notin> {Waiting, Running}" if "drivers m d = Some r'" "m_animatedValueTag r' = m_animatedValueTag ?r" for d r'
        using N(7)[OF that(1)] that(2) r(2) by simp
    qed (use N(1) in simp_all)
    moreover have "maps_ok ?ph ?m"
    proof (rule maps_ok_step[of ph m])
      show "keeps_drivers m ?m" using other(2) by (auto simp: keeps_drivers_def)
    qed (use inv N(1) r other(2) in \<open>auto simp: anim_inv_def maps_ok_def split: if_splits\<close>)
    moreover have "events_ok ?m"
      using inv N(1,3) r unfolding anim_inv_def events_ok_def by (auto split: if_splits)
    ultimately show ?thesis using run unfolding anim_inv_def by blast
  next
    case False
    let ?s = "?r\<lparr>m_started := True\<rparr>"
    let ?m = "m\<lparr>drivers := (drivers m)(?n \<mapsto> ?s), m_activeAnimations := (m_activeAnimations m)(i \<mapsto> ?n),
      next_driver := ?n + 1, batches := batches m @ [?n]\<rparr>"
    let ?ph = "ph(?n := Running)"
    have run: "StartAnimatingNode i v True config m = Inr ?m"
      using False N(4) r none node
      by (simp add: StartAnimatingNode_def StartAnimationAndTrackingNodes_def driver_StartAnimation_def
          update_driver_def Let_def)
    have "drivers_ok ?ph ?m"
    proof (rule drivers_ok_new[OF _ _ refl])
      show "drivers_ok ph m" using inv by (simp add: anim_inv_def)
      show "in_phase ?m ?n ?s Running"
        using r N start \<open>v \<notin> m_valuesWithStoppedAnimation m\<close> by (simp add: in_phase_def may_start_def)
      show "in_phase ?m d r' (ph d)" if "drivers m d = Some r'" for d r'
        using other[OF that] N(7)[OF that] anim_invD(2)[OF inv that]
        by (intro in_phase_frame[OF anim_invD(2)[OF inv that]]) (auto simp: in_phase_def)
    qed (use r start in \<open>simp_all add: may_start_def\<close>)
    moreover have "drivers_apart ?ph ?m"
    proof (rule drivers_apart_new)
      show "drivers_apart ph m" using inv by (simp add: anim_inv_def)
      show "m_id r' \<noteq> m_id ?s" if "drivers m d = Some r'" for d r' using other(1)[OF that] r(1) by simp
      show "ph d \<notin> {Waiting, Running}" if "drivers m d = Some r'" "m_animatedValueTag r' = m_animatedValueTag ?s" for d r'
        using N(7)[OF that(1)] that(2) r(2) by simp
    qed (use N(1) in simp_all)
    moreover have "maps_ok ?ph ?m"
    proof (rule maps_ok_step[of ph m])
      show "keeps_drivers m ?m" using other(2) by (auto simp: keeps_drivers_def)
    qed (use inv N(1) r other(2) in \<open>auto simp: anim_inv_def maps_ok_def split: if_splits\<close>)
    moreover have "events_ok ?m"
      using inv N(1,2,3) r unfolding anim_inv_def events_ok_def by (auto split: if_splits)
    ultimately show ?thesis using run unfolding anim_inv_def by blast
  qed
qed

section \<open>Stopping and completion\<close>

definition same_drivers :: "animations \<Rightarrow> animations \<Rightarrow> bool" where
  "same_drivers m m' \<longleftrightarrow> next_driver m' = next_driver m \<and>
     (\<forall>d. map_option (\<lambda>r. (m_id r, m_animatedValueTag r, d_useComposition r, m_ignoreCompletedHandlers r)) (drivers m' d) =
       map_option (\<lambda>r. (m_id r, m_animatedValueTag r, d_useComposition r, m_ignoreCompletedHandlers r)) (drivers m d))"

lemma same_driversD:
  assumes "same_drivers m m'"
  shows "drivers m' d = Some r' \<Longrightarrow> \<exists>r. drivers m d = Some r \<and> m_id r' = m_id r \<and> m_animatedValueTag r' = m_animatedValueTag r \<and>
      d_useComposition r' = d_useComposition r \<and> m_ignoreCompletedHandlers r' = m_ignoreCompletedHandlers r"
    and "drivers m d = Some r \<Longrightarrow> \<exists>r'. drivers m' d = Some r' \<and> m_id r' = m_id r \<and> m_animatedValueTag r' = m_animatedValueTag r"
    and "next_driver m' = next_driver m"
proof -
  note D = assms[unfolded same_drivers_def, THEN conjunct2, rule_format, of d]
  show "drivers m' d = Some r' \<Longrightarrow> \<exists>r. drivers m d = Some r \<and> m_id r' = m_id r \<and> m_animatedValueTag r' = m_animatedValueTag r \<and>
      d_useComposition r' = d_useComposition r \<and> m_ignoreCompletedHandlers r' = m_ignoreCompletedHandlers r"
    using D by (cases "drivers m d") auto
  show "drivers m d = Some r \<Longrightarrow> \<exists>r'. drivers m' d = Some r' \<and> m_id r' = m_id r \<and> m_animatedValueTag r' = m_animatedValueTag r"
    using D by (cases "drivers m' d") auto
  show "next_driver m' = next_driver m" using assms by (simp add: same_drivers_def)
qed

lemma anim_inv_step:
  assumes inv: "anim_inv ph m" and same: "same_drivers m m'" and step: "phase_step ph m ph'"
    and phases: "\<And>d r. drivers m' d = Some r \<Longrightarrow> in_phase m' d r (ph' d)"
    and maps: "\<And>i d. m_activeAnimations m' i = Some d \<or> m_pendingCompletionAnimations m' i = Some d \<Longrightarrow>
      m_activeAnimations m i = Some d \<or> m_pendingCompletionAnimations m i = Some d"
    and stopped: "\<And>v. v \<in> m_valuesWithStoppedAnimation m' \<Longrightarrow>
      v \<in> m_valuesWithStoppedAnimation m \<and>
        (\<forall>d r. drivers m d = Some r \<longrightarrow> m_animatedValueTag r = v \<longrightarrow> ph d = Stopping \<longrightarrow> ph' d = Stopping) \<or>
      (\<exists>d r. drivers m' d = Some r \<and> m_animatedValueTag r = v \<and> ph' d = Stopping)"
    and deferred: "\<And>v i. m_deferredAnimationForValues m' v = Some i \<Longrightarrow>
      m_deferredAnimationForValues m v = Some i \<and>
        (\<forall>d r. drivers m d = Some r \<longrightarrow> m_animatedValueTag r = v \<longrightarrow> ph d = Waiting \<longrightarrow> ph' d = Waiting)"
    and track: "m_trackingAndLeadNodeTags m' = m_trackingAndLeadNodeTags m" and events: "events_ok m'"
  shows "anim_inv ph' m'"
proof -
  have "drivers_ok ph' m'"
    unfolding drivers_ok_def
  proof (intro allI impI)
    fix d r' assume d: "drivers m' d = Some r'"
    then obtain r where "drivers m d = Some r" "m_animatedValueTag r' = m_animatedValueTag r"
      "d_useComposition r' = d_useComposition r" "m_ignoreCompletedHandlers r' = m_ignoreCompletedHandlers r"
      using same_driversD(1)[OF same] by blast
    then show "d < next_driver m' \<and> in_phase m' d r' (ph' d) \<and> d_useComposition r' \<and> \<not> m_ignoreCompletedHandlers r' \<and>
        m_animatedValueTag r' \<noteq> unset_tag"
      using anim_invD(1,3,4,5)[OF inv] phases[OF d] same_driversD(3)[OF same] by simp
  qed
  moreover have "drivers_apart ph' m'"
  proof (rule drivers_apart_step[OF _ step])
    show "drivers_apart ph m" using inv by (simp add: anim_inv_def)
    show "\<exists>r. drivers m d = Some r \<and> m_id r' = m_id r \<and> m_animatedValueTag r' = m_animatedValueTag r"
      if "drivers m' d = Some r'" for d r' using same_driversD(1)[OF same that] by blast
  qed
  moreover have "maps_ok ph' m'"
  proof (rule maps_ok_step)
    show "maps_ok ph m" "m_trackingAndLeadNodeTags m' = []" using inv track by (simp_all add: anim_inv_def maps_ok_def)
    show "keeps_drivers m m'" unfolding keeps_drivers_def using same_driversD(2)[OF same] by blast
  qed (use maps stopped deferred in blast)+
  ultimately show ?thesis using events unfolding anim_inv_def by blast
qed

lemma events_ok_callback:
  assumes ev: "events_ok m" and d: "drivers m d = Some r" "m_endCallback r"
    and drv: "\<And>x. map_option m_endCallback (drivers m' x) = map_option (\<lambda>s. m_endCallback s \<and> x \<noteq> d) (drivers m x)"
    and cbs: "callbacks m' = callbacks m @ [(d, b)]"
    and "distinct (batches m')" "set (batches m') \<subseteq> dom (drivers m)"
  shows "events_ok m'"
proof -
  have dom: "dom (drivers m') = dom (drivers m)"
  proof (intro set_eqI)
    show "x \<in> dom (drivers m') \<longleftrightarrow> x \<in> dom (drivers m)" for x
      using drv[of x] by (cases "drivers m x"; cases "drivers m' x") auto
  qed
  have fresh: "d \<notin> fst ` set (callbacks m)" using ev d by (auto simp: events_ok_def)
  have "x \<in> fst ` set (callbacks m') \<longleftrightarrow> \<not> m_endCallback s" if x: "drivers m' x = Some s" for x s
  proof -
    obtain s0 where "drivers m x = Some s0" "m_endCallback s \<longleftrightarrow> m_endCallback s0 \<and> x \<noteq> d"
      using drv[of x] x by (cases "drivers m x") auto
    then show ?thesis using ev unfolding events_ok_def cbs by auto
  qed
  moreover have "distinct (map fst (callbacks m'))" "fst ` set (callbacks m') \<subseteq> dom (drivers m')"
    using ev fresh d(1) unfolding cbs dom events_ok_def by auto
  ultimately show ?thesis using assms(6,7) unfolding events_ok_def dom by simp
qed

lemma StopAnimation_inv:
  assumes inv: "anim_inv ph m"
  shows "\<exists>ph'. anim_inv ph' (StopAnimation i False m)"
proof (cases "m_activeAnimations m i")
  case None
  then show ?thesis using inv by (auto simp: StopAnimation_def)
next
  case (Some d)
  obtain r where r: "drivers m d = Some r" "m_id r = i" "ph d = Waiting \<or> ph d = Running"
    using anim_inv_active[OF inv Some] by blast
  let ?v = "m_animatedValueTag r"
  note D = anim_invD[OF inv r(1)]
  have ev: "events_ok m" using inv by (simp add: anim_inv_def)
  have other: "m_id r' \<noteq> i" "m_animatedValueTag r' = ?v \<Longrightarrow> ph d' \<notin> {Waiting, Running}"
    if "drivers m d' = Some r'" "d' \<noteq> d" for d' r'
    using D(6,7)[OF that] r(2,3) by auto
  from r(3) show ?thesis
  proof
    assume ph: "ph d = Waiting"
    note P = D(2)[unfolded ph in_phase_def, simplified]
    let ?r = "r\<lparr>m_endCallback := False\<rparr>" and ?ph = "ph(d := Abandoned)"
    let ?m = "m\<lparr>drivers := (drivers m)(d \<mapsto> ?r), callbacks := callbacks m @ [(d, False)],
      m_activeAnimations := (m_activeAnimations m)(i := None),
      m_pendingCompletionAnimations := (m_pendingCompletionAnimations m)(i \<mapsto> d),
      m_deferredAnimationForValues := (m_deferredAnimationForValues m)(?v := None)\<rparr>"
    have run: "StopAnimation i False m = ?m"
      using Some r P D(3,5) by (simp add: StopAnimation_def driver_StopAnimation_def DoCallback_def update_driver_def Let_def)
    have "anim_inv ?ph ?m"
    proof (rule anim_inv_step[OF inv])
      show "same_drivers m ?m" using r(1) by (auto simp: same_drivers_def)
      show "phase_step ph m ?ph" by (simp add: phase_step_def)
      show "in_phase ?m x s (?ph x)" if "drivers ?m x = Some s" for x s
      proof (cases "x = d")
        case True
        then show ?thesis using that r P by (auto simp: in_phase_def)
      next
        case False
        then have old: "drivers m x = Some s" using that by simp
        have "in_phase ?m x s (ph x)"
          using other[OF old False] anim_invD(2)[OF inv old]
          by (intro in_phase_frame[OF anim_invD(2)[OF inv old]]) (auto simp: in_phase_def)
        then show ?thesis using False by simp
      qed
      show "events_ok ?m"
        by (rule events_ok_callback[OF ev r(1)]) (use P ev r(1) in \<open>auto simp: events_ok_def split: if_splits\<close>)
      show "v \<in> m_valuesWithStoppedAnimation m \<and>
          (\<forall>d r. drivers m d = Some r \<longrightarrow> m_animatedValueTag r = v \<longrightarrow> ph d = Stopping \<longrightarrow> ?ph d = Stopping) \<or>
          (\<exists>d r. drivers ?m d = Some r \<and> m_animatedValueTag r = v \<and> ?ph d = Stopping)"
        if "v \<in> m_valuesWithStoppedAnimation ?m" for v using that ph by simp
      show "m_deferredAnimationForValues m v = Some j \<and>
          (\<forall>d r. drivers m d = Some r \<longrightarrow> m_animatedValueTag r = v \<longrightarrow> ph d = Waiting \<longrightarrow> ?ph d = Waiting)"
        if "m_deferredAnimationForValues ?m v = Some j" for v j using that r(1) by (auto split: if_splits)
    qed (use Some in \<open>auto split: if_splits\<close>)
    then show ?thesis unfolding run by blast
  next
    assume ph: "ph d = Running"
    note P = D(2)[unfolded ph in_phase_def, simplified]
    obtain y where y: "m_valueNodes m ?v = Some y" using P by blast
    have none: "m_deferredAnimationForValues m ?v = None"
    proof (rule ccontr)
      assume "m_deferredAnimationForValues m ?v \<noteq> None"
      then obtain d' r' where "drivers m d' = Some r'" "m_animatedValueTag r' = ?v" "ph d' = Waiting"
        using inv unfolding anim_inv_def maps_ok_def by blast
      then show False using other(2)[of d' r'] ph by (cases "d' = d") auto
    qed
    have alone: "ph d' \<noteq> Stopping" if "drivers m d' = Some r'" "m_animatedValueTag r' = ?v" for d' r'
      using anim_invD(2)[OF inv that(1)] that(2) P by (auto simp: in_phase_def)
    let ?r = "r\<lparr>m_stopped := True, m_ignoreCompletedHandlers := False\<rparr>" and ?ph = "ph(d := Stopping)"
    let ?m = "m\<lparr>drivers := (drivers m)(d \<mapsto> ?r), m_activeAnimations := (m_activeAnimations m)(i := None),
      m_pendingCompletionAnimations := (m_pendingCompletionAnimations m)(i \<mapsto> d),
      m_valuesWithStoppedAnimation := insert ?v (m_valuesWithStoppedAnimation m)\<rparr>"
    have run: "StopAnimation i False m = ?m"
      using Some r P D(3,5) none y by (simp add: StopAnimation_def driver_StopAnimation_def update_driver_def Let_def)
    have "anim_inv ?ph ?m"
    proof (rule anim_inv_step[OF inv])
      show "same_drivers m ?m" using r(1) D(4) by (auto simp: same_drivers_def)
      show "phase_step ph m ?ph" using alone r(1) by (auto simp: phase_step_def)
      show "in_phase ?m x s (?ph x)" if "drivers ?m x = Some s" for x s
      proof (cases "x = d")
        case True
        then show ?thesis using that r P by (auto simp: in_phase_def)
      next
        case False
        then have old: "drivers m x = Some s" using that by simp
        have "in_phase ?m x s (ph x)"
          using other[OF old False] anim_invD(2)[OF inv old] alone[OF old]
          by (intro in_phase_frame[OF anim_invD(2)[OF inv old]]) (auto simp: in_phase_def)
        then show ?thesis using False by simp
      qed
      show "events_ok ?m" using ev r(1) unfolding events_ok_def by (auto split: if_splits)
      show "v \<in> m_valuesWithStoppedAnimation m \<and>
          (\<forall>d r. drivers m d = Some r \<longrightarrow> m_animatedValueTag r = v \<longrightarrow> ph d = Stopping \<longrightarrow> ?ph d = Stopping) \<or>
          (\<exists>d r. drivers ?m d = Some r \<and> m_animatedValueTag r = v \<and> ?ph d = Stopping)"
        if "v \<in> m_valuesWithStoppedAnimation ?m" for v using that by auto
      show "m_deferredAnimationForValues m v = Some j \<and>
          (\<forall>d r. drivers m d = Some r \<longrightarrow> m_animatedValueTag r = v \<longrightarrow> ph d = Waiting \<longrightarrow> ?ph d = Waiting)"
        if "m_deferredAnimationForValues ?m v = Some j" for v j using that ph by auto
    qed (use Some in \<open>auto split: if_splits\<close>)
    then show ?thesis unfolding run by blast
  qed
qed

lemma OnBatchCompleted_running:
  assumes inv: "anim_inv ph m" and d: "drivers m d = Some r" "ph d = Running"
  shows "\<exists>m'. OnBatchCompleted d m = Inr m' \<and> anim_inv (ph(d := Finished)) m'"
proof -
  let ?r = "r\<lparr>m_endCallback := False\<rparr>" and ?ph = "ph(d := Finished)"
  note D = anim_invD[OF inv d(1)]
  note P = D(2)[unfolded d(2) in_phase_def, simplified]
  have ev: "events_ok m" using inv by (simp add: anim_inv_def)
  let ?m = "m\<lparr>batches := remove1 d (batches m), drivers := (drivers m)(d \<mapsto> ?r), callbacks := callbacks m @ [(d, True)],
    m_activeAnimations := (m_activeAnimations m)(m_id r := None)\<rparr>"
  have alive: "alive_driver m d" using P by (auto simp: alive_driver_def ran_def)
  have run: "OnBatchCompleted d m = Inr ?m"
    using d(1) D(4) P alive
    by (simp add: OnBatchCompleted_def RemoveActiveAnimation_def RemoveStoppedAnimation_def DoCallback_def update_driver_def Let_def)
  have "anim_inv ?ph ?m"
  proof (rule anim_inv_step[OF inv])
    show "same_drivers m ?m" using d(1) by (auto simp: same_drivers_def)
    show "phase_step ph m ?ph" by (simp add: phase_step_def)
    show "in_phase ?m x s (?ph x)" if "drivers ?m x = Some s" for x s
    proof (cases "x = d")
      case True
      then show ?thesis using that d P ev by (auto simp: in_phase_def events_ok_def)
    next
      case False
      then have old: "drivers m x = Some s" using that by simp
      have "in_phase ?m x s (ph x)"
        using D(6)[OF old False] False anim_invD(2)[OF inv old]
        by (intro in_phase_frame[OF anim_invD(2)[OF inv old]]) (auto simp: in_phase_def)
      then show ?thesis using False by simp
    qed
    show "events_ok ?m"
      by (rule events_ok_callback[OF ev d(1)])
        (use P ev d(1) set_remove1_subset[of d "batches m"] in \<open>auto simp: events_ok_def split: if_splits\<close>)
    show "v \<in> m_valuesWithStoppedAnimation m \<and>
        (\<forall>d r. drivers m d = Some r \<longrightarrow> m_animatedValueTag r = v \<longrightarrow> ph d = Stopping \<longrightarrow> ?ph d = Stopping) \<or>
        (\<exists>d r. drivers ?m d = Some r \<and> m_animatedValueTag r = v \<and> ?ph d = Stopping)"
      if "v \<in> m_valuesWithStoppedAnimation ?m" for v using that d(2) by simp
    show "m_deferredAnimationForValues m v = Some j \<and>
        (\<forall>d r. drivers m d = Some r \<longrightarrow> m_animatedValueTag r = v \<longrightarrow> ph d = Waiting \<longrightarrow> ?ph d = Waiting)"
      if "m_deferredAnimationForValues ?m v = Some j" for v j using that d(2) by simp
  qed (auto split: if_splits)
  then show ?thesis using run by blast
qed

lemma OnBatchCompleted_stopping:
  assumes inv: "anim_inv ph m" and d: "drivers m d = Some r" "ph d = Stopping"
  shows "\<exists>ph' m'. OnBatchCompleted d m = Inr m' \<and> anim_inv ph' m'"
proof -
  let ?r = "r\<lparr>m_endCallback := False\<rparr>" and ?v = "m_animatedValueTag r"
  note D = anim_invD[OF inv d(1)]
  note P = D(2)[unfolded d(2) in_phase_def, simplified]
  have ev: "events_ok m" and track: "m_trackingAndLeadNodeTags m = []"
    using inv by (simp_all add: anim_inv_def maps_ok_def)
  have alive: "alive_driver m d" using P by (auto simp: alive_driver_def ran_def)
  have idle: "(m_activeAnimations m)(m_id r := None) = m_activeAnimations m" using P by (auto simp: fun_eq_iff)
  have quiet: "ph x \<noteq> Running" if "drivers m x = Some s" "m_animatedValueTag s = ?v" for x s
    using anim_invD(2)[OF inv that(1)] that(2) P by (auto simp: in_phase_def)
  show ?thesis
  proof (cases "m_deferredAnimationForValues m ?v")
    case None
    let ?ph = "ph(d := Finished)"
    let ?m = "m\<lparr>batches := remove1 d (batches m), drivers := (drivers m)(d \<mapsto> ?r), callbacks := callbacks m @ [(d, False)],
      m_valuesWithStoppedAnimation := m_valuesWithStoppedAnimation m - {?v},
      m_pendingCompletionAnimations := (m_pendingCompletionAnimations m)(m_id r := None)\<rparr>"
    have run: "OnBatchCompleted d m = Inr ?m"
      using d(1) D(4) P alive None idle
      by (simp add: OnBatchCompleted_def RemoveActiveAnimation_def RemoveStoppedAnimation_def
          StartDeferredAnimationsForValueNode_def DoCallback_def update_driver_def Let_def)
    have "anim_inv ?ph ?m"
    proof (rule anim_inv_step[OF inv])
      show "same_drivers m ?m" using d(1) by (auto simp: same_drivers_def)
      show "phase_step ph m ?ph" by (simp add: phase_step_def)
      show "in_phase ?m x s (?ph x)" if "drivers ?m x = Some s" for x s
      proof (cases "x = d")
        case True
        then show ?thesis using that d P ev by (auto simp: in_phase_def events_ok_def)
      next
        case False
        then have old: "drivers m x = Some s" using that by simp
        have "m_animatedValueTag s \<noteq> ?v" if "ph x \<in> {Waiting, Running, Stopping}"
          using that D(8)[OF old False _ d(2)] quiet[OF old] anim_invD(2)[OF inv old] None by (auto simp: in_phase_def)
        then have "in_phase ?m x s (ph x)"
          using D(6)[OF old False] False anim_invD(2)[OF inv old]
          by (intro in_phase_frame[OF anim_invD(2)[OF inv old]]) (auto simp: in_phase_def)
        then show ?thesis using False by simp
      qed
      show "events_ok ?m"
        by (rule events_ok_callback[OF ev d(1)])
          (use P ev d(1) set_remove1_subset[of d "batches m"] in \<open>auto simp: events_ok_def split: if_splits\<close>)
      show "v \<in> m_valuesWithStoppedAnimation m \<and>
          (\<forall>d r. drivers m d = Some r \<longrightarrow> m_animatedValueTag r = v \<longrightarrow> ph d = Stopping \<longrightarrow> ?ph d = Stopping) \<or>
          (\<exists>d r. drivers ?m d = Some r \<and> m_animatedValueTag r = v \<and> ?ph d = Stopping)"
        if "v \<in> m_valuesWithStoppedAnimation ?m" for v using that d(1) by auto
      show "m_deferredAnimationForValues m v = Some j \<and>
          (\<forall>d r. drivers m d = Some r \<longrightarrow> m_animatedValueTag r = v \<longrightarrow> ph d = Waiting \<longrightarrow> ?ph d = Waiting)"
        if "m_deferredAnimationForValues ?m v = Some j" for v j using that d(2) by simp
    qed (auto split: if_splits)
    then show ?thesis using run by blast
  next
    case (Some j)
    then obtain e s where e: "drivers m e = Some s" "m_animatedValueTag s = ?v" "m_id s = j" "ph e = Waiting"
      using inv unfolding anim_inv_def maps_ok_def by blast
    note E = anim_invD[OF inv e(1)]
    note Q = E(2)[unfolded e(4) in_phase_def, simplified]
    have ne: "e \<noteq> d" "m_id s \<noteq> m_id r" using e(4) d E(6)[OF d(1)] by (cases "d = e"; force)+
    obtain y where y: "m_valueNodes m ?v = Some y" using Q e(2) by auto
    let ?s = "s\<lparr>m_started := True\<rparr>" and ?ph = "ph(d := Finished, e := Running)"
    let ?m = "m\<lparr>batches := remove1 d (batches m) @ [e], drivers := (drivers m)(e \<mapsto> ?s, d \<mapsto> ?r),
      callbacks := callbacks m @ [(d, False)], m_valuesWithStoppedAnimation := m_valuesWithStoppedAnimation m - {?v},
      m_deferredAnimationForValues := (m_deferredAnimationForValues m)(?v := None),
      m_pendingCompletionAnimations := (m_pendingCompletionAnimations m)(m_id r := None)\<rparr>"
    have run: "OnBatchCompleted d m = Inr ?m"
      using d(1) D(4) P alive Some idle e Q track ne y
      by (simp add: OnBatchCompleted_def RemoveActiveAnimation_def RemoveStoppedAnimation_def
          StartDeferredAnimationsForValueNode_def StartAnimationAndTrackingNodes_def driver_StartAnimation_def
          DoCallback_def update_driver_def Let_def)
    have "anim_inv ?ph ?m"
    proof (rule anim_inv_step[OF inv])
      show "same_drivers m ?m" using d(1) e(1) by (auto simp: same_drivers_def)
      show "phase_step ph m ?ph" using e(4) by (simp add: phase_step_def)
      show "in_phase ?m x t (?ph x)" if x: "drivers ?m x = Some t" for x t
      proof -
        consider "x = d" | "x = e" | "x \<noteq> d" "x \<noteq> e" by blast
        then show ?thesis
        proof cases
          case 1
          then show ?thesis using x d P ev ne by (auto simp: in_phase_def events_ok_def)
        next
          case 2
          then show ?thesis using x e Q y ne by (auto simp: in_phase_def)
        next
          case 3
          then have old: "drivers m x = Some t" using x by simp
          have "m_animatedValueTag t \<noteq> ?v" if "ph x \<in> {Waiting, Running, Stopping}"
            using that D(8)[OF old 3(1) _ d(2)] quiet[OF old] E(7)[OF old 3(2)] e by auto
          then have "in_phase ?m x t (ph x)"
            using D(6)[OF old 3(1)] 3 anim_invD(2)[OF inv old]
            by (intro in_phase_frame[OF anim_invD(2)[OF inv old]]) (auto simp: in_phase_def)
          then show ?thesis using 3 by simp
        qed
      qed
      show "events_ok ?m"
        by (rule events_ok_callback[OF ev d(1)])
          (use P Q ev d(1) e(1) ne set_remove1_subset[of d "batches m"] in \<open>auto simp: events_ok_def split: if_splits\<close>)
      show "v \<in> m_valuesWithStoppedAnimation m \<and>
          (\<forall>d r. drivers m d = Some r \<longrightarrow> m_animatedValueTag r = v \<longrightarrow> ph d = Stopping \<longrightarrow> ?ph d = Stopping) \<or>
          (\<exists>d r. drivers ?m d = Some r \<and> m_animatedValueTag r = v \<and> ?ph d = Stopping)"
        if "v \<in> m_valuesWithStoppedAnimation ?m" for v using that d(1) e(1,4) by auto
      show "m_deferredAnimationForValues m v = Some j \<and>
          (\<forall>d r. drivers m d = Some r \<longrightarrow> m_animatedValueTag r = v \<longrightarrow> ph d = Waiting \<longrightarrow> ?ph d = Waiting)"
        if "m_deferredAnimationForValues ?m v = Some j" for v j
        using that d(2) e(1,2) by (auto split: if_splits)
    qed (auto split: if_splits)
    then show ?thesis using run by blast
  qed
qed

lemma OnBatchCompleted_inv:
  assumes inv: "anim_inv ph m" and d: "d \<in> set (batches m)"
  shows "\<exists>ph' m'. OnBatchCompleted d m = Inr m' \<and> anim_inv ph' m'"
proof -
  obtain r where r: "drivers m d = Some r" using inv d by (auto simp: anim_inv_def events_ok_def)
  then have "ph d = Running \<or> ph d = Stopping"
    using anim_invD(2)[OF inv r] d by (cases "ph d") (auto simp: in_phase_def)
  then show ?thesis using OnBatchCompleted_running[OF inv r] OnBatchCompleted_stopping[OF inv r] by blast
qed

section \<open>Runs\<close>

text \<open>
  Operations on the nodes: they leave the animations alone, and the nodes of active animations stay.
\<close>

definition node_change :: "animations \<Rightarrow> animations \<Rightarrow> bool" where
  "node_change m m' \<longleftrightarrow> drivers m' = drivers m \<and> m_activeAnimations m' = m_activeAnimations m \<and>
     m_pendingCompletionAnimations m' = m_pendingCompletionAnimations m \<and>
     m_valuesWithStoppedAnimation m' = m_valuesWithStoppedAnimation m \<and>
     m_deferredAnimationForValues m' = m_deferredAnimationForValues m \<and>
     m_trackingAndLeadNodeTags m' = m_trackingAndLeadNodeTags m \<and> batches m' = batches m \<and>
     callbacks m' = callbacks m \<and> next_driver m' = next_driver m \<and>
     (\<forall>d \<in> ran (m_activeAnimations m). \<forall>r. drivers m d = Some r \<longrightarrow> m_valueNodes m' (m_animatedValueTag r) \<noteq> None)"

lemma anim_inv_nodes:
  assumes "anim_inv ph m" and "drivers m d = Some r" and "ph d = Waiting \<or> ph d = Running"
  shows "m_activeAnimations m (m_id r) = Some d" "m_valueNodes m (m_animatedValueTag r) \<noteq> None"
  using anim_invD(2)[OF assms(1,2)] assms(3) by (auto simp: in_phase_def)

lemma node_change_inv:
  assumes inv: "anim_inv ph m" and C: "node_change m m'"
  shows "anim_inv ph m'"
proof -
  have "in_phase m' d r (ph d)" if d: "drivers m d = Some r" for d r
  proof (rule in_phase_frame[OF anim_invD(2)[OF inv d]])
    assume "ph d \<in> {Waiting, Running}"
    then have "d \<in> ran (m_activeAnimations m)" using anim_inv_nodes(1)[OF inv d] by (auto simp: ran_def)
    then show "m_valueNodes m' (m_animatedValueTag r) \<noteq> None" using C d unfolding node_change_def by blast
  qed (use C in \<open>simp_all add: node_change_def\<close>)
  then show ?thesis
    using inv C unfolding anim_inv_def drivers_ok_def drivers_apart_def maps_ok_def events_ok_def node_change_def by simp
qed

lemma node_change_drop:
  assumes inv: "anim_inv ph m"
    and unused: "\<And>d r. m_activeAnimations m (m_id r) = Some d \<Longrightarrow> drivers m d = Some r \<Longrightarrow> m_animatedValueTag r \<noteq> i"
  shows "node_change m (DropAnimatedNode i m)"
proof -
  have "m_valueNodes m (m_animatedValueTag r) \<noteq> None \<and> m_animatedValueTag r \<noteq> i"
    if d: "m_activeAnimations m k = Some d" "drivers m d = Some r" for k d r
  proof -
    have "m_id r = k" "ph d = Waiting \<or> ph d = Running" using anim_inv_active[OF inv d(1)] d(2) by auto
    then show ?thesis using anim_inv_nodes(2)[OF inv d(2)] unused[of r d] d by blast
  qed
  then show ?thesis by (auto simp: node_change_def DropAnimatedNode_def ran_def)
qed

inductive animated :: "animations \<Rightarrow> bool" where
  animated_new: "animated animations_new"
| animated_start: "animated m \<Longrightarrow> may_start i v config m \<Longrightarrow> StartAnimatingNode i v True config m = Inr m' \<Longrightarrow> animated m'"
| animated_stop: "animated m \<Longrightarrow> animated (StopAnimation i False m)"
| animated_complete: "animated m \<Longrightarrow> d \<in> set (batches m) \<Longrightarrow> OnBatchCompleted d m = Inr m' \<Longrightarrow> animated m'"
| animated_nodes: "animated m \<Longrightarrow> node_change m m' \<Longrightarrow> animated m'"

lemma animated_inv: "animated m \<Longrightarrow> \<exists>ph. anim_inv ph m"
proof (induction rule: animated.induct)
  case animated_new
  then show ?case using anim_inv_new by blast
next
  case (animated_start m i v config m')
  then show ?case using StartAnimatingNode_inv by (metis Inr_inject)
next
  case (animated_stop m i)
  then show ?case using StopAnimation_inv by blast
next
  case (animated_complete m d m')
  then show ?case using OnBatchCompleted_inv by (metis Inr_inject)
next
  case (animated_nodes m m')
  then show ?case using node_change_inv by blast
qed

lemma anim_inv_batches:
  assumes inv: "anim_inv ph m" and d: "d \<in> set (batches m)" "drivers m d = Some r"
  shows "ph d = Running \<and> m_animatedValueTag r \<notin> m_valuesWithStoppedAnimation m \<or>
    ph d = Stopping \<and> m_animatedValueTag r \<in> m_valuesWithStoppedAnimation m"
  using anim_invD(2)[OF inv d(2)] d(1) by (cases "ph d") (auto simp: in_phase_def)

lemma anim_inv_quiet:
  assumes inv: "anim_inv ph m" and none: "batches m = []" and d: "drivers m d = Some r"
  shows "d \<in> fst ` set (callbacks m)"
proof -
  have quiet: "ph x \<noteq> Running \<and> ph x \<noteq> Stopping" if "drivers m x = Some s" for x s
    using anim_invD(2)[OF inv that] none by (auto simp: in_phase_def)
  have "ph d \<noteq> Waiting"
  proof
    assume "ph d = Waiting"
    then have "m_animatedValueTag r \<in> m_valuesWithStoppedAnimation m" using anim_invD(2)[OF inv d] by (simp add: in_phase_def)
    then show False using inv quiet unfolding anim_inv_def maps_ok_def by blast
  qed
  then have "\<not> m_endCallback r" using quiet[OF d] anim_invD(2)[OF inv d] by (cases "ph d") (auto simp: in_phase_def)
  then show ?thesis using inv d unfolding anim_inv_def events_ok_def by blast
qed


text \<open>An animation that starts, is stopped, and leaves the value to the next one.\<close>

definition one_value :: animations where
  "one_value = animations_new\<lparr>m_valueNodes := [
     1 \<mapsto> \<lparr>m_useComposition = True, m_children = [], m_value = dzero, m_offset = dzero,
            m_valueListener = False, m_kind = PlainValue\<rparr>]\<rparr>"

definition native_config :: JSValueObject where
  "native_config = [(''type'', String ''frames'')]"


end
