(* ===== verification/ActionQueue.thy ===== *)
theory ActionQueue
  imports Prelude
begin

text \<open>
  The queue of asynchronous actions of the React host (\<^verbatim>\<open>Microsoft.ReactNative/ReactHost/AsyncActionQueue.cpp\<close>)
  and the future that waits for a list of futures (\<^verbatim>\<open>MsoUtils.cpp\<close>). All of it runs on one serial queue.
\<close>

section \<open>Results\<close>

text \<open>\<^verbatim>\<open>Mso::Maybe<void>\<close>: success or an error, where cancellation is an error of its own.\<close>

datatype result = Succeeded | Canceled | Failed

section \<open>Waiting for all futures\<close>

text \<open>
  \<^verbatim>\<open>WhenAllCompletedState\<close>: a slot per future. The future is completed when every slot is, with the
  first error of the list.
\<close>

type_synonym slots = "result option list"

definition SetResult :: "nat \<Rightarrow> result \<Rightarrow> slots \<Rightarrow> slots option" where
  "SetResult i r ss = (if i < length ss \<and> ss ! i = None then Some (ss[i := Some r]) else None)"

fun first_error :: "result list \<Rightarrow> result" where
  "first_error [] = Succeeded"
| "first_error (r # rs) = (if r = Succeeded then first_error rs else r)"

definition all_completed :: "slots \<Rightarrow> result option" where
  "all_completed ss = (if None \<in> set ss then None else Some (first_error (map the ss)))"

lemma all_completed_None: "all_completed ss = None \<longleftrightarrow> None \<in> set ss"
  by (simp add: all_completed_def)

section \<open>The queue\<close>

text \<open>
  Entries are numbered in the order of posting; the number stands for the promise of the entry.
  \<open>current\<close> is the entry that the continuation of the running action holds, \<open>completed\<close> are the
  promises that were given their value.
\<close>

record 'a action_queue =
  m_actions :: "(nat \<times> 'a) list"
  m_isInvoking :: bool
  current :: "nat option"
  completed :: "(nat \<times> result) list"
  issued :: nat

definition action_queue_new :: "'a action_queue" where
  "action_queue_new = \<lparr>m_actions = [], m_isInvoking = False, current = None, completed = [], issued = 0\<rparr>"

definition InvokeAction :: "nat \<times> 'a \<Rightarrow> 'a action_queue \<Rightarrow> 'a action_queue" where
  "InvokeAction e q = q\<lparr>m_isInvoking := True, current := Some (fst e)\<rparr>"

text \<open>The second component is the entry whose action is to be called.\<close>

definition PostAction :: "'a \<Rightarrow> 'a action_queue \<Rightarrow> 'a action_queue \<times> (nat \<times> 'a) option" where
  "PostAction a q =
     (let e = (issued q, a); q1 = q\<lparr>issued := issued q + 1\<rparr>
      in if \<not> m_isInvoking q1 \<and> m_actions q1 = [] then (InvokeAction e q1, Some e)
         else (q1\<lparr>m_actions := m_actions q1 @ [e]\<rparr>, None))"

text \<open>
  \<^verbatim>\<open>CompleteAction\<close> in two parts: setting the promise runs the continuations of the caller, which may
  post further actions before the next one is taken.
\<close>

definition FinishAction :: "result \<Rightarrow> 'a action_queue \<Rightarrow> 'a action_queue" where
  "FinishAction r q = (case current q of None \<Rightarrow> q
     | Some t \<Rightarrow> q\<lparr>completed := completed q @ [(t, r)], current := None\<rparr>)"

definition NextAction :: "'a action_queue \<Rightarrow> 'a action_queue \<times> (nat \<times> 'a) option" where
  "NextAction q = (case m_actions q of
     [] \<Rightarrow> (q\<lparr>m_isInvoking := False\<rparr>, None)
   | e # es \<Rightarrow> (InvokeAction e (q\<lparr>m_actions := es\<rparr>), Some e))"

section \<open>The contract of the queue\<close>

text \<open>
  What the host relies on. A queue shows the entries that wait, the one that runs and the results; the
  steps move entries along and lose none.
\<close>

locale serial_actions =
  fixes post :: "'a \<Rightarrow> 'q \<Rightarrow> 'q \<times> (nat \<times> 'a) option"
    and finish :: "result \<Rightarrow> 'q \<Rightarrow> 'q"
    and take_next :: "'q \<Rightarrow> 'q \<times> (nat \<times> 'a) option"
    and waiting :: "'q \<Rightarrow> (nat \<times> 'a) list"
    and busy :: "'q \<Rightarrow> bool"
    and running :: "'q \<Rightarrow> nat option"
    and results :: "'q \<Rightarrow> (nat \<times> result) list"
    and posted :: "'q \<Rightarrow> nat"
  assumes post_idle: "\<not> busy q \<Longrightarrow> waiting q = [] \<Longrightarrow> post a q = (q', e) \<Longrightarrow>
      e = Some (posted q, a) \<and> waiting q' = [] \<and> busy q' \<and> running q' = Some (posted q) \<and>
      results q' = results q \<and> posted q' = posted q + 1"
    and post_busy: "busy q \<or> waiting q \<noteq> [] \<Longrightarrow> post a q = (q', e) \<Longrightarrow>
      e = None \<and> waiting q' = waiting q @ [(posted q, a)] \<and> busy q' = busy q \<and> running q' = running q \<and>
      results q' = results q \<and> posted q' = posted q + 1"
    and finish_running: "running q = Some t \<Longrightarrow>
      waiting (finish r q) = waiting q \<and> busy (finish r q) = busy q \<and> running (finish r q) = None \<and>
      results (finish r q) = results q @ [(t, r)] \<and> posted (finish r q) = posted q"
    and next_empty: "waiting q = [] \<Longrightarrow> take_next q = (q', e) \<Longrightarrow>
      e = None \<and> waiting q' = [] \<and> \<not> busy q' \<and> running q' = running q \<and> results q' = results q \<and> posted q' = posted q"
    and next_entry: "waiting q = x # xs \<Longrightarrow> take_next q = (q', e) \<Longrightarrow>
      e = Some x \<and> waiting q' = xs \<and> busy q' \<and> running q' = Some (fst x) \<and> results q' = results q \<and> posted q' = posted q"
begin

text \<open>Every posted entry is in exactly one place, and the places are in the order of posting.\<close>

definition in_order :: "'q \<Rightarrow> bool" where
  "in_order q \<longleftrightarrow> map fst (results q) @ (case running q of None \<Rightarrow> [] | Some t \<Rightarrow> [t]) @ map fst (waiting q) = [0..<posted q] \<and>
     (\<not> busy q \<longrightarrow> waiting q = [] \<and> running q = None)"

lemma in_order_post:
  assumes "in_order q" and "post a q = (q', e)"
  shows "in_order q'"
proof (cases "busy q \<or> waiting q \<noteq> []")
  case True
  have "busy q" using True assms(1) by (auto simp: in_order_def)
  then show ?thesis using post_busy[OF True assms(2)] assms(1) by (auto simp: in_order_def simp flip: append_assoc)
next
  case False
  then show ?thesis using post_idle[OF _ _ assms(2)] assms(1) by (auto simp: in_order_def)
qed

lemma in_order_finish:
  assumes "in_order q" and "running q = Some t"
  shows "in_order (finish r q)"
  using assms finish_running[OF assms(2), of r] by (auto simp: in_order_def)

lemma in_order_next:
  assumes "in_order q" and "running q = None" and "take_next q = (q', e)"
  shows "in_order q'"
proof (cases "waiting q")
  case Nil
  then show ?thesis using next_empty[OF Nil assms(3)] assms(1,2) by (simp add: in_order_def)
next
  case (Cons x xs)
  then show ?thesis using next_entry[OF Cons assms(3)] assms(1,2) by (simp add: in_order_def)
qed

end

interpretation aq: serial_actions PostAction FinishAction NextAction m_actions m_isInvoking current completed issued
proof unfold_locales
  show "e = Some (issued q, a) \<and> m_actions q' = [] \<and> m_isInvoking q' \<and> current q' = Some (issued q) \<and>
      completed q' = completed q \<and> issued q' = issued q + 1"
    if "\<not> m_isInvoking q" "m_actions q = []" "PostAction a q = (q', e)" for q q' :: "'a action_queue" and a e
    using that by (auto simp: PostAction_def InvokeAction_def Let_def)
  show "e = None \<and> m_actions q' = m_actions q @ [(issued q, a)] \<and> m_isInvoking q' = m_isInvoking q \<and> current q' = current q \<and>
      completed q' = completed q \<and> issued q' = issued q + 1"
    if "m_isInvoking q \<or> m_actions q \<noteq> []" "PostAction a q = (q', e)" for q q' :: "'a action_queue" and a e
    using that by (auto simp: PostAction_def Let_def)
  show "m_actions (FinishAction r q) = m_actions q \<and> m_isInvoking (FinishAction r q) = m_isInvoking q \<and>
      current (FinishAction r q) = None \<and> completed (FinishAction r q) = completed q @ [(t, r)] \<and>
      issued (FinishAction r q) = issued q"
    if "current q = Some t" for q :: "'a action_queue" and t r
    using that by (simp add: FinishAction_def)
  show "e = None \<and> m_actions q' = [] \<and> \<not> m_isInvoking q' \<and> current q' = current q \<and> completed q' = completed q \<and> issued q' = issued q"
    if "m_actions q = []" "NextAction q = (q', e)" for q q' :: "'a action_queue" and e
    using that by (auto simp: NextAction_def)
  show "e = Some x \<and> m_actions q' = xs \<and> m_isInvoking q' \<and> current q' = Some (fst x) \<and> completed q' = completed q \<and> issued q' = issued q"
    if "m_actions q = x # xs" "NextAction q = (q', e)" for q q' :: "'a action_queue" and x xs e
    using that by (auto simp: NextAction_def InvokeAction_def)
qed

end
