(* ===== verification/ReactHost.thy ===== *)
theory ReactHost
  imports ActionQueue
begin

text \<open>
  The React host and its view hosts (\<^verbatim>\<open>Microsoft.ReactNative/ReactHost/ReactHost.cpp\<close>), which load, reload
  and unload React instances and the root views shown with them. All of it runs on the native queue;
  calls from other threads are posted there. Instances, view hosts and the actions of an asynchronous
  kind are numbered. What instances and views do when they are told to start or stop are futures of
  other components: the model goes on when they are completed.
\<close>

section \<open>State\<close>

datatype JSIEngine = Hermes | V8

text \<open>Of the options, what the host reads; \<open>Payload\<close> stands for the rest.\<close>

record react_options =
  JsiEngine :: JSIEngine
  UseDirectDebugger :: bool
  InspectorHostTarget :: bool
  Payload :: nat

record view_host =
  m_viewInstance :: bool
  m_viewOptions :: nat
  m_pendingUninitActionId :: nat
  m_nextUninitActionId :: nat
  m_isViewInstanceInited :: bool

datatype UnloadReason = Unload | CloseHost

datatype host_action =
    LoadAction react_options
  | UnloadAction UnloadReason nat
  | InitViewAction nat "nat option"
  | UninitViewAction nat nat

text \<open>What the running action waits for.\<close>

datatype stage =
    AwaitLoaded
  | AwaitUpdates slots
  | AwaitUninits UnloadReason slots
  | AwaitDestroyed nat
  | AwaitView

datatype future = Done result | Wait stage

text \<open>Calls of instances, root views and the inspector, in order.\<close>

datatype host_event =
    InstanceCreated nat
  | InstanceDestroying nat
  | InstanceDestroyed nat
  | RootViewInited nat nat
  | RootViewUpdated nat
  | RootViewUninited nat

record react_host =
  m_actionQueue :: "host_action action_queue"
  m_stage :: "stage option"
  m_options :: react_options
  m_viewHosts :: "nat list"
  m_reactInstance :: "nat option"
  m_isClosed :: bool
  m_pendingUnloadActionId :: nat
  m_nextUnloadActionId :: nat
  m_isInstanceUnloading :: bool
  m_inspectorPageId :: "nat option"
  next_page :: nat
  next_instance :: nat
  view_hosts :: "nat \<Rightarrow> view_host"
  trace :: "host_event list"

definition view_host_new :: view_host where
  "view_host_new = \<lparr>m_viewInstance = False, m_viewOptions = 0, m_pendingUninitActionId = 0, m_nextUninitActionId = 0,
     m_isViewInstanceInited = False\<rparr>"

definition react_host_new :: react_host where
  "react_host_new = \<lparr>m_actionQueue = action_queue_new, m_stage = None,
     m_options = \<lparr>JsiEngine = Hermes, UseDirectDebugger = False, InspectorHostTarget = False, Payload = 0\<rparr>,
     m_viewHosts = [], m_reactInstance = None, m_isClosed = False, m_pendingUnloadActionId = 0, m_nextUnloadActionId = 0,
     m_isInstanceUnloading = False, m_inspectorPageId = None, next_page = 0, next_instance = 0,
     view_hosts = (\<lambda>_. view_host_new), trace = []\<rparr>"

definition emit :: "host_event \<Rightarrow> react_host \<Rightarrow> react_host" where
  "emit e m = m\<lparr>trace := trace m @ [e]\<rparr>"

definition set_view :: "nat \<Rightarrow> (view_host \<Rightarrow> view_host) \<Rightarrow> react_host \<Rightarrow> react_host" where
  "set_view v f m = m\<lparr>view_hosts := (view_hosts m)(v := f (view_hosts m v))\<rparr>"

section \<open>View hosts\<close>

text \<open>The second component is the result when the future is done at once, \<open>None\<close> when it is that of a view.\<close>

definition InitViewInstanceInQueue :: "nat \<Rightarrow> react_host \<Rightarrow> react_host \<times> result option" where
  "InitViewInstanceInQueue v m =
     (let w = view_hosts m v
      in if m_isViewInstanceInited w then (m, Some Succeeded)
         else if m_isClosed m then (m, Some Canceled)
         else if m_pendingUnloadActionId m \<noteq> 0 \<or> m_pendingUninitActionId w \<noteq> 0 then (m, Some Canceled)
         else if m_isInstanceUnloading m then (m, Some Canceled)
         else (case m_reactInstance m of
             None \<Rightarrow> (m, Some Canceled)
           | Some k \<Rightarrow>
               if m_viewInstance w
               then (emit (RootViewInited v k) (set_view v (\<lambda>w. w\<lparr>m_isViewInstanceInited := True\<rparr>) m), None)
               else (m, Some Canceled)))"

text \<open>With new options the view must not be initialized; \<open>None\<close> is the crash.\<close>

definition InitViewInstanceInQueue_options :: "nat \<Rightarrow> nat \<Rightarrow> react_host \<Rightarrow> (react_host \<times> result option) option" where
  "InitViewInstanceInQueue_options v options m =
     (let m1 = set_view v (\<lambda>w. w\<lparr>m_viewOptions := options\<rparr>) m
      in if m_isViewInstanceInited (view_hosts m1 v) then None else Some (InitViewInstanceInQueue v m1))"

definition UpdateViewInstanceInQueue :: "nat \<Rightarrow> react_host \<Rightarrow> react_host \<times> result option" where
  "UpdateViewInstanceInQueue v m =
     (let w = view_hosts m v
      in if \<not> m_isViewInstanceInited w then (m, Some Canceled)
         else if m_isClosed m then (m, Some Canceled)
         else if m_pendingUnloadActionId m \<noteq> 0 \<or> m_pendingUninitActionId w \<noteq> 0 then (m, Some Canceled)
         else if m_reactInstance m = None then (m, Some Canceled)
         else if m_viewInstance w then (emit (RootViewUpdated v) m, None)
         else (m, Some Canceled))"

definition UninitViewInstanceInQueue :: "nat \<Rightarrow> nat \<Rightarrow> react_host \<Rightarrow> react_host \<times> result option" where
  "UninitViewInstanceInQueue actionId v m =
     (if actionId \<noteq> m_pendingUninitActionId (view_hosts m v) then (m, Some Canceled)
      else
        (let m1 = set_view v (\<lambda>w. w\<lparr>m_pendingUninitActionId := 0\<rparr>) m
         in if m_pendingUnloadActionId m1 \<noteq> 0 then (m1, Some Canceled)
            else if m_viewInstance (view_hosts m1 v)
            then (emit (RootViewUninited v) (set_view v (\<lambda>w. w\<lparr>m_isViewInstanceInited := False\<rparr>) m1), None)
            else (m1, Some Canceled)))"

definition MakeUninitViewInstanceAction :: "nat \<Rightarrow> react_host \<Rightarrow> react_host \<times> host_action" where
  "MakeUninitViewInstanceAction v m =
     (let i = m_nextUninitActionId (view_hosts m v) + 1
      in (set_view v (\<lambda>w. w\<lparr>m_nextUninitActionId := i, m_pendingUninitActionId := i\<rparr>) m, UninitViewAction v i))"

fun for_each_view :: "(nat \<Rightarrow> react_host \<Rightarrow> react_host \<times> result option) \<Rightarrow> nat list \<Rightarrow> react_host \<Rightarrow> react_host \<times> slots" where
  "for_each_view f [] m = (m, [])"
| "for_each_view f (v # vs) m = (case f v m of (m1, r) \<Rightarrow> case for_each_view f vs m1 of (m2, rs) \<Rightarrow> (m2, r # rs))"

fun init_views :: "nat list \<Rightarrow> react_host \<Rightarrow> react_host option" where
  "init_views [] m = Some m"
| "init_views (v # vs) m = (case InitViewInstanceInQueue_options v (m_viewOptions (view_hosts m v)) m of
     None \<Rightarrow> None | Some (m1, _) \<Rightarrow> init_views vs m1)"

section \<open>Loading and unloading\<close>

definition IsInspectable :: "react_host \<Rightarrow> bool" where
  "IsInspectable m \<longleftrightarrow> JsiEngine (m_options m) = Hermes \<and> UseDirectDebugger (m_options m)"

definition AddInspectorPage :: "react_host \<Rightarrow> react_host" where
  "AddInspectorPage m = (if m_inspectorPageId m \<noteq> None then m
     else m\<lparr>m_inspectorPageId := Some (next_page m), next_page := next_page m + 1\<rparr>)"

definition RemoveInspectorPage :: "react_host \<Rightarrow> react_host" where
  "RemoveInspectorPage m = m\<lparr>m_inspectorPageId := None\<rparr>"

text \<open>An instance completes \<^verbatim>\<open>whenCreated\<close> in its constructor, so the views are initialized at once.\<close>

definition LoadInQueue :: "react_options \<Rightarrow> react_host \<Rightarrow> (react_host \<times> future) option" where
  "LoadInQueue options m =
     (if m_isClosed m then Some (m, Done Canceled)
      else
        (let m1 = m\<lparr>m_options := options\<rparr>
         in if m_pendingUnloadActionId m1 \<noteq> 0 then Some (m1, Done Canceled)
            else
              (let m2 = (if IsInspectable m1 then AddInspectorPage m1 else RemoveInspectorPage m1);
                   m3 = m2\<lparr>m_options := options\<lparr>InspectorHostTarget := IsInspectable m1\<rparr>\<rparr>;
                   k = next_instance m3;
                   m4 = emit (InstanceCreated k) (m3\<lparr>next_instance := k + 1, m_reactInstance := Some k\<rparr>)
               in case init_views (m_viewHosts m4) m4 of
                    None \<Rightarrow> None
                  | Some m5 \<Rightarrow> Some (m5, Wait AwaitLoaded))))"

definition after_load :: "result \<Rightarrow> react_host \<Rightarrow> react_host \<times> future" where
  "after_load value m =
     (if value \<noteq> Succeeded then (m, Done value)
      else (case for_each_view UpdateViewInstanceInQueue (m_viewHosts m) m of (m1, ss) \<Rightarrow>
        (m1, case all_completed ss of Some r \<Rightarrow> Done r | None \<Rightarrow> Wait (AwaitUpdates ss))))"

definition after_uninit :: "UnloadReason \<Rightarrow> react_host \<Rightarrow> react_host \<times> future" where
  "after_uninit reason m =
     (let m1 = (case m_reactInstance m of None \<Rightarrow> m | Some k \<Rightarrow> emit (InstanceDestroying k) (m\<lparr>m_reactInstance := None\<rparr>));
          m2 = m1\<lparr>m_isInstanceUnloading := False\<rparr>;
          m3 = (if reason = CloseHost then RemoveInspectorPage m2 else m2)
      in (m3, case m_reactInstance m of None \<Rightarrow> Done Succeeded | Some k \<Rightarrow> Wait (AwaitDestroyed k)))"

definition UnloadInQueue :: "UnloadReason \<Rightarrow> nat \<Rightarrow> react_host \<Rightarrow> react_host \<times> future" where
  "UnloadInQueue reason unloadActionId m =
     (if unloadActionId \<noteq> m_pendingUnloadActionId m then (m, Done Canceled)
      else (case for_each_view (UninitViewInstanceInQueue 0) (m_viewHosts m)
          (m\<lparr>m_pendingUnloadActionId := 0, m_isInstanceUnloading := True\<rparr>) of (m1, ss) \<Rightarrow>
        (case all_completed ss of Some _ \<Rightarrow> after_uninit reason m1 | None \<Rightarrow> (m1, Wait (AwaitUninits reason ss)))))"

section \<open>Running actions\<close>

definition of_view :: "react_host \<times> result option \<Rightarrow> react_host \<times> future" where
  "of_view mr = (case mr of (m, Some r) \<Rightarrow> (m, Done r) | (m, None) \<Rightarrow> (m, Wait AwaitView))"

fun run_action :: "host_action \<Rightarrow> react_host \<Rightarrow> (react_host \<times> future) option" where
  "run_action (LoadAction options) m = LoadInQueue options m"
| "run_action (UnloadAction reason i) m = Some (UnloadInQueue reason i m)"
| "run_action (InitViewAction v None) m = Some (of_view (InitViewInstanceInQueue v m))"
| "run_action (InitViewAction v (Some options)) m = map_option of_view (InitViewInstanceInQueue_options v options m)"
| "run_action (UninitViewAction v i) m = Some (of_view (UninitViewInstanceInQueue i v m))"

text \<open>A future of the running action: done, or the next stage.\<close>

definition settle :: "react_host \<times> future \<Rightarrow> react_host" where
  "settle mf = (case mf of
     (m, Done r) \<Rightarrow> m\<lparr>m_stage := None, m_actionQueue := FinishAction r (m_actionQueue m)\<rparr>
   | (m, Wait s) \<Rightarrow> m\<lparr>m_stage := Some s\<rparr>)"

definition start_action :: "host_action action_queue \<times> (nat \<times> host_action) option \<Rightarrow> react_host \<Rightarrow> react_host option" where
  "start_action qe m = (case qe of (q, e) \<Rightarrow>
     let m1 = m\<lparr>m_actionQueue := q\<rparr>
     in case e of None \<Rightarrow> Some m1 | Some (t, a) \<Rightarrow> map_option settle (run_action a m1))"

definition post_action :: "host_action \<Rightarrow> react_host \<Rightarrow> react_host option" where
  "post_action a m = start_action (PostAction a (m_actionQueue m)) m"

fun post_actions :: "host_action list \<Rightarrow> react_host \<Rightarrow> react_host option" where
  "post_actions [] m = Some m"
| "post_actions (a # as) m = (case post_action a m of None \<Rightarrow> None | Some m1 \<Rightarrow> post_actions as m1)"

section \<open>Calls\<close>

definition MakeUnloadInstanceAction :: "UnloadReason \<Rightarrow> react_host \<Rightarrow> react_host \<times> host_action" where
  "MakeUnloadInstanceAction reason m =
     (let i = m_nextUnloadActionId m + 1
      in (m\<lparr>m_nextUnloadActionId := i, m_pendingUnloadActionId := i\<rparr>, UnloadAction reason i))"

definition ReloadInstanceWithOptions :: "react_options \<Rightarrow> react_host \<Rightarrow> react_host option" where
  "ReloadInstanceWithOptions options m = (case MakeUnloadInstanceAction Unload m of (m1, a) \<Rightarrow>
     post_actions [a, LoadAction options] m1)"

definition ReloadInstance :: "react_host \<Rightarrow> react_host option" where
  "ReloadInstance m = ReloadInstanceWithOptions (m_options m) m"

definition UnloadInstance :: "react_host \<Rightarrow> react_host option" where
  "UnloadInstance m = (case MakeUnloadInstanceAction Unload m of (m1, a) \<Rightarrow> post_action a m1)"

definition Close :: "react_host \<Rightarrow> react_host option" where
  "Close m = (case MakeUnloadInstanceAction CloseHost m of (m1, a) \<Rightarrow>
     map_option (\<lambda>m2. m2\<lparr>m_isClosed := True\<rparr>) (post_action a m1))"

definition AttachViewInstance :: "nat \<Rightarrow> react_host \<Rightarrow> react_host option" where
  "AttachViewInstance v m =
     (if m_viewInstance (view_hosts m v) \<or> v \<in> set (m_viewHosts m) then None
      else Some (fst (InitViewInstanceInQueue v
        ((set_view v (\<lambda>w. w\<lparr>m_viewInstance := True\<rparr>) m)\<lparr>m_viewHosts := m_viewHosts m @ [v]\<rparr>))))"

definition DetachViewInstance :: "nat \<Rightarrow> react_host \<Rightarrow> react_host option" where
  "DetachViewInstance v m =
     (if \<not> m_viewInstance (view_hosts m v) \<or> v \<notin> set (m_viewHosts m) then None
      else Some (emit (RootViewUninited v)
        ((set_view v (\<lambda>w. w\<lparr>m_viewInstance := False, m_isViewInstanceInited := False\<rparr>) m)
           \<lparr>m_viewHosts := remove1 v (m_viewHosts m)\<rparr>)))"

definition ReloadViewInstance :: "nat \<Rightarrow> nat option \<Rightarrow> react_host \<Rightarrow> react_host option" where
  "ReloadViewInstance v options m = (case MakeUninitViewInstanceAction v m of (m1, a) \<Rightarrow>
     post_actions [a, InitViewAction v options] m1)"

definition UnloadViewInstance :: "nat \<Rightarrow> react_host \<Rightarrow> react_host option" where
  "UnloadViewInstance v m = (case MakeUninitViewInstanceAction v m of (m1, a) \<Rightarrow> post_action a m1)"

text \<open>The callback of an instance that its user interface is to be updated.\<close>

definition updateUI :: "react_host \<Rightarrow> react_host" where
  "updateUI m = fst (for_each_view UpdateViewInstanceInQueue (m_viewHosts m) m)"

text \<open>\<^verbatim>\<open>Finalize\<close> runs when nothing refers to the host, so that no action is left.\<close>

definition Finalize :: "react_host \<Rightarrow> react_host \<times> future option" where
  "Finalize m = (if m_isClosed m then (m, None)
     else (case UnloadInQueue CloseHost 0 (m\<lparr>m_isClosed := True\<rparr>) of (m1, f) \<Rightarrow> (m1, Some f)))"

section \<open>Steps\<close>

datatype host_call = ReloadCall | ReloadWithCall react_options | UnloadCall | CloseCall | AttachCall nat | DetachCall nat |
  ReloadViewCall nat "nat option" | UnloadViewCall nat | UpdateCall

fun perform :: "host_call \<Rightarrow> react_host \<Rightarrow> react_host option" where
  "perform ReloadCall m = ReloadInstance m"
| "perform (ReloadWithCall options) m = ReloadInstanceWithOptions options m"
| "perform UnloadCall m = UnloadInstance m"
| "perform CloseCall m = Close m"
| "perform (AttachCall v) m = AttachViewInstance v m"
| "perform (DetachCall v) m = DetachViewInstance v m"
| "perform (ReloadViewCall v options) m = ReloadViewInstance v options m"
| "perform (UnloadViewCall v) m = UnloadViewInstance v m"
| "perform UpdateCall m = Some (updateUI m)"

text \<open>
  The continuations that run on the queue: the next action after one is finished, and what follows a
  completed future of the running action. \<open>None\<close> as result is a crash.
\<close>

inductive progress :: "react_host \<Rightarrow> react_host option \<Rightarrow> bool" where
  next_action: "m_isInvoking (m_actionQueue m) \<Longrightarrow> current (m_actionQueue m) = None \<Longrightarrow>
     progress m (start_action (NextAction (m_actionQueue m)) m)"
| loaded: "m_stage m = Some AwaitLoaded \<Longrightarrow> progress m (Some (settle (after_load value m)))"
| updated: "m_stage m = Some (AwaitUpdates ss) \<Longrightarrow> SetResult i r ss = Some ss' \<Longrightarrow>
     progress m (Some (settle (m, case all_completed ss' of Some x \<Rightarrow> Done x | None \<Rightarrow> Wait (AwaitUpdates ss'))))"
| uninited: "m_stage m = Some (AwaitUninits reason ss) \<Longrightarrow> SetResult i r ss = Some ss' \<Longrightarrow>
     progress m (Some (settle (case all_completed ss' of
       Some _ \<Rightarrow> after_uninit reason m | None \<Rightarrow> (m, Wait (AwaitUninits reason ss')))))"
| destroyed: "m_stage m = Some (AwaitDestroyed k) \<Longrightarrow>
     progress m (Some (settle (emit (InstanceDestroyed k) m, Done value)))"
| view_done: "m_stage m = Some AwaitView \<Longrightarrow> progress m (Some (settle (m, Done value)))"

inductive hosted :: "react_host \<Rightarrow> bool" where
  hosted_new: "hosted react_host_new"
| hosted_call: "hosted m \<Longrightarrow> perform c m = Some m' \<Longrightarrow> hosted m'"
| hosted_progress: "hosted m \<Longrightarrow> progress m (Some m') \<Longrightarrow> hosted m'"

end
