(* ===== verification/HostRuns.thy ===== *)
theory HostRuns
  imports ReactHost
begin

text \<open>
  Runs of the React host: one instance at a time, actions in order, a closed host without an instance,
  and when the code's own checks hold.
\<close>

section \<open>The life of instances\<close>

text \<open>The specification of a trace: an instance is created only when the one before is destroyed.\<close>

datatype life = NoInstance | Live nat | Dying nat

fun life_step :: "host_event \<Rightarrow> life \<Rightarrow> life option" where
  "life_step (InstanceCreated k) s = (if s = NoInstance then Some (Live k) else None)"
| "life_step (InstanceDestroying k) s = (if s = Live k then Some (Dying k) else None)"
| "life_step (InstanceDestroyed k) s = (if s = Dying k then Some NoInstance else None)"
| "life_step (RootViewInited v k) s = (if s = Live k then Some s else None)"
| "life_step _ s = Some s"

fun run_life :: "host_event list \<Rightarrow> life \<Rightarrow> life option" where
  "run_life [] s = Some s"
| "run_life (e # es) s = (case life_step e s of None \<Rightarrow> None | Some s' \<Rightarrow> run_life es s')"

lemma run_life_append: "run_life (es @ fs) s = (case run_life es s of None \<Rightarrow> None | Some s' \<Rightarrow> run_life fs s')"
  by (induction es arbitrary: s) (auto split: option.splits)

fun life_state :: "stage option \<Rightarrow> nat option \<Rightarrow> life" where
  "life_state (Some (AwaitDestroyed k)) i = Dying k"
| "life_state s None = NoInstance"
| "life_state s (Some k) = Live k"

lemma life_state_live:
  "\<forall>k. s \<noteq> Some (AwaitDestroyed k) \<Longrightarrow> life_state s i = (case i of None \<Rightarrow> NoInstance | Some k \<Rightarrow> Live k)"
  by (cases "(s, i)" rule: life_state.cases) auto

definition life_of :: "react_host \<Rightarrow> life" where
  "life_of m = life_state (m_stage m) (m_reactInstance m)"

section \<open>Steps of views\<close>

definition quiet :: "react_host \<Rightarrow> host_event list \<Rightarrow> bool" where
  "quiet m es \<longleftrightarrow> (\<forall>e \<in> set es. (\<exists>v k. e = RootViewInited v k \<and> m_reactInstance m = Some k) \<or>
     (\<exists>v. e = RootViewUpdated v) \<or> (\<exists>v. e = RootViewUninited v))"

lemma quiet_simps [simp]: "quiet m []" "quiet m (es @ fs) \<longleftrightarrow> quiet m es \<and> quiet m fs"
  "quiet m [RootViewUpdated v]" "quiet m [RootViewUninited v]" "quiet m [RootViewInited v k] \<longleftrightarrow> m_reactInstance m = Some k"
  by (auto simp: quiet_def)

definition views_step :: "react_host \<Rightarrow> react_host \<Rightarrow> bool" where
  "views_step m m' \<longleftrightarrow> (\<exists>f es. m' = m\<lparr>view_hosts := f, trace := trace m @ es\<rparr> \<and> quiet m es)"

lemma views_step_refl [simp]: "views_step m m"
  unfolding views_step_def by (intro exI[of _ "view_hosts m"] exI[of _ "[]"]) simp

lemma views_step_trans: "views_step m m1 \<Longrightarrow> views_step m1 m2 \<Longrightarrow> views_step m m2"
  unfolding views_step_def by (fastforce simp: quiet_def)

lemma views_stepD:
  assumes "views_step m m'"
  shows "m_actionQueue m' = m_actionQueue m" "m_stage m' = m_stage m" "m_options m' = m_options m"
    "m_viewHosts m' = m_viewHosts m" "m_reactInstance m' = m_reactInstance m" "m_isClosed m' = m_isClosed m"
    "m_pendingUnloadActionId m' = m_pendingUnloadActionId m" "m_nextUnloadActionId m' = m_nextUnloadActionId m"
    "m_isInstanceUnloading m' = m_isInstanceUnloading m" "m_inspectorPageId m' = m_inspectorPageId m"
    "next_instance m' = next_instance m" "life_of m' = life_of m"
  using assms unfolding views_step_def life_of_def by auto

lemma set_view_step: "views_step m (set_view v f m)"
  unfolding views_step_def set_view_def
  by (intro exI[of _ "(view_hosts m)(v := f (view_hosts m v))"] exI[of _ "[]"]) simp

lemma emit_step: "quiet m [e] \<Longrightarrow> views_step m (emit e m)"
  unfolding views_step_def emit_def by (intro exI[of _ "view_hosts m"] exI[of _ "[e]"]) simp

lemma emit_view_step: "quiet m [e] \<Longrightarrow> views_step m (emit e (set_view v f m))"
  using views_step_trans[OF set_view_step[of m v f] emit_step[of "set_view v f m" e]]
  by (simp add: quiet_def set_view_def)

lemma InitView_step: "views_step m (fst (InitViewInstanceInQueue v m))"
  by (simp add: InitViewInstanceInQueue_def Let_def emit_view_step split: option.splits)

lemma InitView_options_step:
  assumes "InitViewInstanceInQueue_options v options m = Some (m', r)"
  shows "views_step m m'"
proof -
  let ?m = "set_view v (\<lambda>w. w\<lparr>m_viewOptions := options\<rparr>) m"
  have "views_step ?m m'"
    using assms InitView_step[of ?m v] by (auto simp: InitViewInstanceInQueue_options_def Let_def split: if_splits)
  then show ?thesis using views_step_trans set_view_step by blast
qed

lemma UpdateView_step: "views_step m (fst (UpdateViewInstanceInQueue v m))"
  by (simp add: UpdateViewInstanceInQueue_def Let_def emit_step)

lemma UninitView_step: "views_step m (fst (UninitViewInstanceInQueue i v m))"
  by (auto simp: UninitViewInstanceInQueue_def Let_def set_view_step
      intro: views_step_trans[OF set_view_step emit_view_step])

lemma for_each_view_step:
  assumes "\<And>v m. views_step m (fst (f v m))"
  shows "views_step m (fst (for_each_view f vs m))"
proof (induction vs arbitrary: m)
  case (Cons v vs)
  have "views_step m (fst (f v m))" "views_step (fst (f v m)) (fst (for_each_view f vs (fst (f v m))))"
    using assms Cons by blast+
  then show ?case by (auto split: prod.splits dest: views_step_trans)
qed simp

lemma init_views_step: "init_views vs m = Some m' \<Longrightarrow> views_step m m'"
proof (induction vs arbitrary: m)
  case (Cons v vs)
  then show ?case
    by (auto split: option.splits dest!: InitView_options_step intro: views_step_trans)
qed simp

lemma run_life_quiet:
  assumes "quiet m es" and "\<And>k. m_reactInstance m = Some k \<Longrightarrow> s = Live k"
  shows "run_life es s = Some s"
  using assms(1)
proof (induction es)
  case (Cons e es)
  then show ?case using assms(2) by (auto simp: quiet_def)
qed simp

section \<open>The invariant of the host\<close>

fun is_unload :: "host_action \<Rightarrow> bool" where
  "is_unload (UnloadAction _ _) = True"
| "is_unload _ = False"

fun unload_ids :: "(nat \<times> host_action) list \<Rightarrow> nat list" where
  "unload_ids [] = []"
| "unload_ids ((t, UnloadAction r i) # xs) = i # unload_ids xs"
| "unload_ids (_ # xs) = unload_ids xs"

lemma unload_ids_append [simp]: "unload_ids (xs @ ys) = unload_ids xs @ unload_ids ys"
  by (induction xs rule: unload_ids.induct) auto

text \<open>The pending identifier is that of the last unload action in the queue.\<close>

definition ids_ok :: "react_host \<Rightarrow> (nat \<times> host_action) list \<Rightarrow> bool" where
  "ids_ok m xs \<longleftrightarrow> sorted_wrt (<) (unload_ids xs) \<and> (\<forall>i \<in> set (unload_ids xs). 0 < i \<and> i \<le> m_nextUnloadActionId m) \<and>
     m_pendingUnloadActionId m = (if unload_ids xs = [] then 0 else last (unload_ids xs))"

text \<open>A load action comes right after an unload action; when that is done, there is no instance to be seen.\<close>

definition unloaded :: "react_host \<Rightarrow> bool" where
  "unloaded m \<longleftrightarrow> m_pendingUnloadActionId m \<noteq> 0 \<or> (\<exists>r ss. m_stage m = Some (AwaitUninits r ss)) \<or>
     m_reactInstance m = None \<and> (m_stage m = None \<or> (\<exists>k. m_stage m = Some (AwaitDestroyed k)))"

fun loads_ok :: "bool \<Rightarrow> (nat \<times> host_action) list \<Rightarrow> bool" where
  "loads_ok b [] = True"
| "loads_ok b (x # xs) = ((\<forall>options. snd x = LoadAction options \<longrightarrow> b) \<and> loads_ok (is_unload (snd x)) xs)"

lemma loads_ok_mono: "loads_ok b xs \<Longrightarrow> (b \<Longrightarrow> c) \<Longrightarrow> loads_ok c xs"
  by (cases xs) auto

lemma loads_ok_snoc:
  "loads_ok b (xs @ [x]) \<longleftrightarrow> loads_ok b xs \<and>
     (\<forall>options. snd x = LoadAction options \<longrightarrow> (if xs = [] then b else is_unload (snd (last xs))))"
  by (induction xs arbitrary: b) auto

definition life_ok :: "react_host \<Rightarrow> bool" where
  "life_ok m \<longleftrightarrow> run_life (trace m) NoInstance = Some (life_of m) \<and>
     (\<forall>k. m_stage m = Some (AwaitDestroyed k) \<longrightarrow> m_reactInstance m = None)"

definition closed_ok :: "react_host \<Rightarrow> bool" where
  "closed_ok m \<longleftrightarrow> (m_isClosed m \<longrightarrow> m_reactInstance m \<noteq> None \<longrightarrow>
     m_pendingUnloadActionId m \<noteq> 0 \<or> (\<exists>r ss. m_stage m = Some (AwaitUninits r ss)))"

definition waits_ok :: "react_host \<Rightarrow> bool" where
  "waits_ok m \<longleftrightarrow> (\<forall>ss. (m_stage m = Some (AwaitUpdates ss) \<longrightarrow> None \<in> set ss) \<and>
     (\<forall>r. m_stage m = Some (AwaitUninits r ss) \<longrightarrow> None \<in> set ss))"

definition facts :: "(nat \<times> host_action) list \<Rightarrow> react_host \<Rightarrow> bool" where
  "facts xs m \<longleftrightarrow> ids_ok m xs \<and> loads_ok (unloaded m) xs \<and> life_ok m \<and> closed_ok m \<and> waits_ok m"

definition host_inv :: "react_host \<Rightarrow> bool" where
  "host_inv m \<longleftrightarrow> aq.in_order (m_actionQueue m) \<and> (m_stage m = None \<longleftrightarrow> current (m_actionQueue m) = None) \<and>
     facts (m_actions (m_actionQueue m)) m"

lemma host_inv_new: "host_inv react_host_new"
  by (simp add: host_inv_def facts_def ids_ok_def life_ok_def life_of_def closed_ok_def waits_ok_def react_host_new_def
      action_queue_new_def aq.in_order_def)

lemma life_ok_views:
  assumes "life_ok m" and "views_step m m'"
  shows "life_ok m'"
proof -
  obtain f es where m': "m' = m\<lparr>view_hosts := f, trace := trace m @ es\<rparr>" "quiet m es"
    using assms(2) by (auto simp: views_step_def)
  have "life_of m = Live k" if "m_reactInstance m = Some k" for k
    using assms(1) that life_state_live[of "m_stage m" "m_reactInstance m"] by (auto simp: life_ok_def life_of_def)
  then have "run_life es (life_of m) = Some (life_of m)" using run_life_quiet[OF m'(2)] by blast
  moreover have "trace m' = trace m @ es" "life_of m' = life_of m" "m_stage m' = m_stage m" "m_reactInstance m' = m_reactInstance m"
    using m' views_stepD[OF assms(2)] by simp_all
  ultimately show ?thesis using assms(1) by (simp add: life_ok_def run_life_append)
qed

lemma views_step_simps:
  assumes "views_step m m'"
  shows "ids_ok m' xs \<longleftrightarrow> ids_ok m xs" "unloaded m' \<longleftrightarrow> unloaded m" "closed_ok m' \<longleftrightarrow> closed_ok m" "waits_ok m' \<longleftrightarrow> waits_ok m"
  using views_stepD[OF assms] by (simp_all add: ids_ok_def unloaded_def closed_ok_def waits_ok_def)

lemma facts_views:
  assumes "facts xs m" and "views_step m m'"
  shows "facts xs m'"
  using assms(1) life_ok_views[OF _ assms(2)] views_step_simps[OF assms(2)] by (simp add: facts_def)

lemma facts_queue: "facts xs (m\<lparr>m_actionQueue := q\<rparr>) \<longleftrightarrow> facts xs m"
  by (simp add: facts_def ids_ok_def unloaded_def closed_ok_def waits_ok_def life_ok_def life_of_def)

lemma facts_cong:
  assumes "m_pendingUnloadActionId m' = m_pendingUnloadActionId m" "m_nextUnloadActionId m' = m_nextUnloadActionId m"
    "m_stage m' = m_stage m" "m_reactInstance m' = m_reactInstance m" "m_isClosed m' = m_isClosed m" "trace m' = trace m"
  shows "facts xs m' \<longleftrightarrow> facts xs m"
  by (simp add: facts_def ids_ok_def unloaded_def closed_ok_def waits_ok_def life_ok_def life_of_def assms)

section \<open>Running an action keeps the invariant\<close>

definition after :: "react_host \<times> future \<Rightarrow> react_host" where
  "after mf = (case snd mf of Done r \<Rightarrow> (fst mf)\<lparr>m_stage := None\<rparr> | Wait s \<Rightarrow> (fst mf)\<lparr>m_stage := Some s\<rparr>)"

lemma after_slots:
  "after (m, case all_completed ss of Some x \<Rightarrow> Done x | None \<Rightarrow> Wait s) =
     (if None \<in> set ss then m\<lparr>m_stage := Some s\<rparr> else m\<lparr>m_stage := None\<rparr>)"
  by (simp add: after_def all_completed_def)

lemma after_wait: "after (m, Wait s) = m\<lparr>m_stage := Some s\<rparr>"
  by (simp add: after_def)

lemma after_done: "after (m, Done r) = m\<lparr>m_stage := None\<rparr>"
  by (simp add: after_def)

lemma settle_inv:
  assumes "facts (m_actions (m_actionQueue (fst mf))) (after mf)" and "aq.in_order (m_actionQueue (fst mf))"
    and "current (m_actionQueue (fst mf)) = Some t"
  shows "host_inv (settle mf)"
proof (cases mf)
  case (Pair m f)
  show ?thesis
  proof (cases f)
    case (Done r)
    have "aq.in_order (FinishAction r (m_actionQueue m))"
      using aq.in_order_finish[OF assms(2,3)] Pair by simp
    moreover have "settle mf = (after mf)\<lparr>m_actionQueue := FinishAction r (m_actionQueue m)\<rparr>"
      using Pair Done by (simp add: settle_def after_def)
    moreover have "m_stage (after mf) = None" using Pair Done by (simp add: after_def)
    ultimately show ?thesis
      using assms(1,3) aq.finish_running[OF assms(3), of r] Pair by (simp add: host_inv_def facts_queue)
  next
    case (Wait s)
    then show ?thesis using assms Pair by (simp add: host_inv_def settle_def after_def)
  qed
qed

lemma after_uninit_facts:
  assumes "ids_ok m xs" and "loads_ok True xs"
    and "run_life (trace m) NoInstance = Some (life_state None (m_reactInstance m))"
  shows "facts xs (after (after_uninit reason m))" and "m_actionQueue (fst (after_uninit reason m)) = m_actionQueue m"
    and "unloaded (after (after_uninit reason m))"
proof -
  have "unloaded (after (after_uninit reason m)) \<and> ids_ok (after (after_uninit reason m)) xs \<and>
      life_ok (after (after_uninit reason m)) \<and> closed_ok (after (after_uninit reason m)) \<and> waits_ok (after (after_uninit reason m))"
    using assms(1,3)
    by (cases "m_reactInstance m")
      (auto simp: after_uninit_def after_def Let_def emit_def RemoveInspectorPage_def unloaded_def ids_ok_def life_ok_def
        life_of_def closed_ok_def waits_ok_def run_life_append)
  then show "facts xs (after (after_uninit reason m))" "unloaded (after (after_uninit reason m))"
    using loads_ok_mono[OF assms(2)] by (simp_all add: facts_def)
  show "m_actionQueue (fst (after_uninit reason m)) = m_actionQueue m"
    by (simp add: after_uninit_def Let_def emit_def RemoveInspectorPage_def split: option.splits)
qed

lemma stage_same: "m_stage m = None \<Longrightarrow> m\<lparr>m_stage := None\<rparr> = m"
  by simp

lemma facts_stage:
  assumes "facts xs m" and "m_stage m = None" and "loads_ok False xs"
    and "case s of AwaitDestroyed k \<Rightarrow> False | AwaitUpdates ss \<Rightarrow> None \<in> set ss | AwaitUninits r ss \<Rightarrow> False | _ \<Rightarrow> True"
  shows "facts xs (m\<lparr>m_stage := Some s\<rparr>)"
proof -
  have "\<forall>k. Some s \<noteq> Some (AwaitDestroyed k)" using assms(4) by (cases s) auto
  then have "life_state (Some s) (m_reactInstance m) = life_state None (m_reactInstance m)"
    by (simp add: life_state_live)
  then show ?thesis
    using assms loads_ok_mono[OF assms(3)]
    by (cases s) (auto simp: facts_def ids_ok_def closed_ok_def waits_ok_def life_ok_def life_of_def)
qed

lemma facts_uninits:
  assumes "facts xs m" and "\<forall>k. m_stage m \<noteq> Some (AwaitDestroyed k)" and "loads_ok True xs" and "None \<in> set ss"
  shows "facts xs (m\<lparr>m_stage := Some (AwaitUninits r ss)\<rparr>)"
proof -
  have "life_state (Some (AwaitUninits r ss)) (m_reactInstance m) = life_state (m_stage m) (m_reactInstance m)"
    using assms(2) by (simp add: life_state_live)
  then show ?thesis
    using assms loads_ok_mono[OF assms(3)]
    by (auto simp: facts_def ids_ok_def closed_ok_def waits_ok_def life_ok_def life_of_def unloaded_def)
qed

lemma LoadInQueue_facts:
  assumes f: "facts ((t, LoadAction options) # xs) m" and s: "m_stage m = None"
    and run: "LoadInQueue options m = Some mf"
  shows "facts xs (after mf)" and "m_actionQueue (fst mf) = m_actionQueue m"
proof -
  have xs: "loads_ok False xs" and b: "unloaded m" using f by (simp_all add: facts_def)
  have fx: "facts xs m"
    using f loads_ok_mono[OF xs] by (simp add: facts_def ids_ok_def)
  have "facts xs (after mf) \<and> m_actionQueue (fst mf) = m_actionQueue m"
  proof (cases "m_isClosed m \<or> m_pendingUnloadActionId m \<noteq> 0")
    case True
    have "facts xs (m\<lparr>m_options := options\<rparr>)"
      using fx facts_cong[of "m\<lparr>m_options := options\<rparr>" m xs] by simp
    moreover have "(m\<lparr>m_stage := None\<rparr>) = m" "(m\<lparr>m_options := options, m_stage := None\<rparr>) = m\<lparr>m_options := options\<rparr>"
      using s by simp_all
    ultimately show ?thesis using run True fx by (auto simp: LoadInQueue_def after_def Let_def split: if_splits)
  next
    case False
    then have none: "m_reactInstance m = None" using b s by (simp add: unloaded_def)
    define m1 where "m1 = m\<lparr>m_options := options\<rparr>"
    define m2 where "m2 = (if IsInspectable m1 then AddInspectorPage m1 else RemoveInspectorPage m1)"
    define m3 where "m3 = m2\<lparr>m_options := options\<lparr>InspectorHostTarget := IsInspectable m1\<rparr>\<rparr>"
    define m4 where "m4 = emit (InstanceCreated (next_instance m3))
        (m3\<lparr>next_instance := next_instance m3 + 1, m_reactInstance := Some (next_instance m3)\<rparr>)"
    have m4: "m_actionQueue m4 = m_actionQueue m" "m_stage m4 = None" "m_isClosed m4 = m_isClosed m"
        "m_pendingUnloadActionId m4 = 0" "m_nextUnloadActionId m4 = m_nextUnloadActionId m"
        "m_reactInstance m4 = Some (next_instance m3)" "trace m4 = trace m @ [InstanceCreated (next_instance m3)]"
      using False s by (simp_all add: m4_def m3_def m2_def m1_def emit_def AddInspectorPage_def RemoveInspectorPage_def)
    obtain m5 where m5: "init_views (m_viewHosts m4) m4 = Some m5" "mf = (m5, Wait AwaitLoaded)"
      using run False unfolding LoadInQueue_def Let_def m1_def[symmetric] m2_def[symmetric] m3_def[symmetric] m4_def[symmetric]
      by (auto simp: m1_def split: option.splits)
    have "facts xs m4"
      using fx m4 none s False xs
      by (auto simp: facts_def ids_ok_def closed_ok_def waits_ok_def life_ok_def life_of_def run_life_append
          intro: loads_ok_mono)
    then have "facts xs m5" "m_stage m5 = None" "m_actionQueue m5 = m_actionQueue m"
      using facts_views init_views_step[OF m5(1)] views_stepD[OF init_views_step[OF m5(1)]] m4 by auto
    then show ?thesis using facts_stage[of xs m5 AwaitLoaded] xs m5(2) by (simp add: after_def)
  qed
  then show "facts xs (after mf)" "m_actionQueue (fst mf) = m_actionQueue m" by simp_all
qed

lemma UnloadInQueue_facts:
  assumes f: "facts ((t, UnloadAction r i) # xs) m" and s: "m_stage m = None"
  shows "facts xs (after (UnloadInQueue r i m))" and "m_actionQueue (fst (UnloadInQueue r i m)) = m_actionQueue m"
    and "unloaded (after (UnloadInQueue r i m))"
proof -
  have xs: "loads_ok True xs" using f by (simp add: facts_def)
  let ?mf = "UnloadInQueue r i m"
  have "facts xs (after ?mf) \<and> m_actionQueue (fst ?mf) = m_actionQueue m \<and> unloaded (after ?mf)"
  proof (cases "i = m_pendingUnloadActionId m")
    case False
    have "unload_ids xs \<noteq> []" using f False by (auto simp: facts_def ids_ok_def)
    then have "ids_ok m xs" "m_pendingUnloadActionId m \<noteq> 0" using f by (auto simp: facts_def ids_ok_def)
    then have "facts xs m" "unloaded m" using f loads_ok_mono[OF xs] by (auto simp: facts_def unloaded_def)
    moreover have "m\<lparr>m_stage := None\<rparr> = m" using s by simp
    ultimately show ?thesis using False by (simp add: UnloadInQueue_def after_def)
  next
    case True
    have nil: "unload_ids xs = []"
    proof (rule ccontr)
      assume ne: "unload_ids xs \<noteq> []"
      then have "last (unload_ids xs) = i" "last (unload_ids xs) \<in> set (unload_ids xs)"
        using f True by (auto simp: facts_def ids_ok_def)
      then show False using f by (auto simp: facts_def ids_ok_def)
    qed
    define m0 where "m0 = m\<lparr>m_pendingUnloadActionId := 0, m_isInstanceUnloading := True\<rparr>"
    obtain m1 ss where m1: "for_each_view (UninitViewInstanceInQueue 0) (m_viewHosts m) m0 = (m1, ss)" by fastforce
    have step: "views_step m0 m1" using for_each_view_step[of "UninitViewInstanceInQueue 0" m0 "m_viewHosts m", OF UninitView_step] m1 by simp
    have "ids_ok m0 xs" using nil by (simp add: ids_ok_def m0_def)
    moreover have life: "life_ok m0" using f by (simp add: facts_def life_ok_def life_of_def m0_def)
    ultimately have ids: "ids_ok m1 xs" and life1: "life_ok m1"
      using views_step_simps(1)[OF step] life_ok_views[OF _ step] by simp_all
    have q: "m_actionQueue m1 = m_actionQueue m" "m_stage m1 = None" using views_stepD(1,2)[OF step] s by (simp_all add: m0_def)
    show ?thesis
    proof (cases "all_completed ss")
      case None
      then have "None \<in> set ss" by (simp add: all_completed_None)
      moreover have "life_state (Some (AwaitUninits r ss)) (m_reactInstance m1) = life_state None (m_reactInstance m1)"
        by (simp add: life_state_live)
      ultimately have "facts xs (m1\<lparr>m_stage := Some (AwaitUninits r ss)\<rparr>)"
        using ids life1 q(2) loads_ok_mono[OF xs]
        by (auto simp: facts_def ids_ok_def closed_ok_def waits_ok_def life_ok_def life_of_def unloaded_def)
      then show ?thesis using None True m1 q m0_def by (simp add: UnloadInQueue_def after_def unloaded_def)
    next
      case (Some x)
      have "UnloadInQueue r i m = after_uninit r m1" using Some True m1 m0_def by (simp add: UnloadInQueue_def)
      then show ?thesis
        using after_uninit_facts[OF ids xs, of r] life1 q by (simp add: life_ok_def life_of_def)
    qed
  qed
  then show "facts xs (after ?mf)" "m_actionQueue (fst ?mf) = m_actionQueue m" "unloaded (after ?mf)" by simp_all
qed

lemma UnloadInQueue_closed: "m_isClosed (fst (UnloadInQueue r i m)) = m_isClosed m"
proof -
  let ?m = "m\<lparr>m_pendingUnloadActionId := 0, m_isInstanceUnloading := True\<rparr>"
  obtain m1 ss where m1: "for_each_view (UninitViewInstanceInQueue 0) (m_viewHosts m) ?m = (m1, ss)" by fastforce
  then have "m_isClosed m1 = m_isClosed m"
    using views_stepD(6)[OF for_each_view_step[of "UninitViewInstanceInQueue 0" ?m "m_viewHosts m", OF UninitView_step]] by simp
  moreover have "m_isClosed (fst (after_uninit r m1)) = m_isClosed m1"
    by (simp add: after_uninit_def Let_def emit_def RemoveInspectorPage_def split: option.splits)
  ultimately show ?thesis using m1 by (simp add: UnloadInQueue_def split: option.splits)
qed

lemma of_view_facts:
  assumes f: "facts ((t, a) # xs) m" and s: "m_stage m = None" and a: "\<not> is_unload a" "unload_ids ((t, a) # xs) = unload_ids xs"
    and step: "views_step m (fst mr)"
  shows "facts xs (after (of_view mr))" and "m_actionQueue (fst (of_view mr)) = m_actionQueue m"
proof -
  have xs: "loads_ok False xs" using f a(1) by (simp add: facts_def)
  have "facts xs m" using f a(2) loads_ok_mono[OF xs] by (simp add: facts_def ids_ok_def)
  then have "facts xs (fst mr)" "m_stage (fst mr) = None" "m_actionQueue (fst mr) = m_actionQueue m"
    using facts_views[OF _ step] views_stepD[OF step] s by auto
  then show "facts xs (after (of_view mr))" "m_actionQueue (fst (of_view mr)) = m_actionQueue m"
    using facts_stage[of xs "fst mr" AwaitView] xs
    by (auto simp: of_view_def after_def stage_same split: prod.splits option.splits)
qed

lemma run_action_facts:
  assumes "facts ((t, a) # xs) m" and "m_stage m = None" and "run_action a m = Some mf"
  shows "facts xs (after mf)" and "m_actionQueue (fst mf) = m_actionQueue m"
proof -
  have "facts xs (after mf) \<and> m_actionQueue (fst mf) = m_actionQueue m"
  proof (cases "(a, m)" rule: run_action.cases)
    case (1 options m')
    then show ?thesis using LoadInQueue_facts assms by simp
  next
    case (2 r i m')
    then show ?thesis using UnloadInQueue_facts(1,2)[of t r i xs m] assms by auto
  next
    case (3 v m')
    then show ?thesis using of_view_facts[OF assms(1,2) _ _ InitView_step[of m v]] assms(3) by auto
  next
    case (4 v options m')
    then obtain mr where "InitViewInstanceInQueue_options v options m = Some mr" "mf = of_view mr" using assms(3) by auto
    then show ?thesis
      using of_view_facts[OF assms(1,2), of mr] InitView_options_step[of v options m "fst mr" "snd mr"] 4 by auto
  next
    case (5 v i m')
    then show ?thesis using of_view_facts[OF assms(1,2) _ _ UninitView_step[of m i v]] assms(3) by auto
  qed
  then show "facts xs (after mf)" "m_actionQueue (fst mf) = m_actionQueue m" by simp_all
qed

section \<open>Calls and progress keep the invariant\<close>

lemma start_action_inv:
  assumes "start_action (q, Some (t, a)) m = Some m'" and "m_stage m = None" and "aq.in_order q" and "current q = Some t"
    and "facts ((t, a) # m_actions q) m"
  shows "host_inv m'"
proof -
  let ?m = "m\<lparr>m_actionQueue := q\<rparr>"
  obtain mf where mf: "run_action a ?m = Some mf" "m' = settle mf" using assms(1) by (auto simp: start_action_def)
  have "facts ((t, a) # m_actions q) ?m" "m_stage ?m = None" using assms(2,5) by (simp_all add: facts_queue)
  from run_action_facts[OF this mf(1)]
  have "facts (m_actions q) (after mf)" "m_actionQueue (fst mf) = q" by simp_all
  then show ?thesis using settle_inv[of mf t] assms(3,4) mf(2) by simp
qed

lemma post_action_inv:
  assumes order: "aq.in_order (m_actionQueue m)" "m_stage m = None \<longleftrightarrow> current (m_actionQueue m) = None"
    and run: "post_action a m = Some m'"
    and f: "\<And>t. facts (m_actions (m_actionQueue m) @ [(t, a)]) m"
  shows "host_inv m'"
proof -
  let ?q = "m_actionQueue m"
  obtain q e where p: "PostAction a ?q = (q, e)" by fastforce
  show ?thesis
  proof (cases "m_isInvoking ?q \<or> m_actions ?q \<noteq> []")
    case True
    note B = aq.post_busy[OF True p]
    have "m' = m\<lparr>m_actionQueue := q\<rparr>" using run p B by (simp add: post_action_def start_action_def)
    then show ?thesis
      using aq.in_order_post[OF order(1) p] order(2) B f[of "issued ?q"] by (simp add: host_inv_def facts_queue)
  next
    case False
    then have idle: "\<not> m_isInvoking ?q" "m_actions ?q = []" by simp_all
    note I = aq.post_idle[OF idle p]
    have "current ?q = None" using order(1) idle by (simp add: aq.in_order_def)
    then show ?thesis
      using start_action_inv[of q "issued ?q" a m m'] run p I order aq.in_order_post[OF order(1) p] f[of "issued ?q"] idle
      by (simp add: post_action_def)
  qed
qed

lemma post_action_view:
  assumes inv: "host_inv m" and step: "views_step m m1" and run: "post_action a m1 = Some m'"
    and a: "\<not> is_unload a" "\<And>options. a \<noteq> LoadAction options"
  shows "host_inv m'"
proof (rule post_action_inv[OF _ _ run])
  note S = views_stepD[OF step]
  show "aq.in_order (m_actionQueue m1)" "m_stage m1 = None \<longleftrightarrow> current (m_actionQueue m1) = None"
    using inv S by (simp_all add: host_inv_def)
  fix t
  have ids: "unload_ids [(t, a)] = []" using a by (cases a) auto
  have "facts (m_actions (m_actionQueue m)) m1" using inv facts_views[OF _ step] by (simp add: host_inv_def)
  then show "facts (m_actions (m_actionQueue m1) @ [(t, a)]) m1"
    using ids a(2) S(1) by (simp add: facts_def ids_ok_def loads_ok_snoc)
qed

lemma made_unload_facts:
  assumes inv: "host_inv m" and make: "MakeUnloadInstanceAction r m = (m1, a)"
  shows "facts (m_actions (m_actionQueue m) @ [(t, a)]) m1"
proof -
  let ?i = "m_nextUnloadActionId m + 1"
  have m1: "m1 = m\<lparr>m_nextUnloadActionId := ?i, m_pendingUnloadActionId := ?i\<rparr>" "a = UnloadAction r ?i"
    using make by (auto simp: MakeUnloadInstanceAction_def Let_def)
  have "facts (m_actions (m_actionQueue m)) m" using inv by (simp add: host_inv_def)
  then show ?thesis
    unfolding facts_def ids_ok_def
    by (auto simp: m1 loads_ok_snoc sorted_wrt_append unloaded_def closed_ok_def waits_ok_def life_ok_def life_of_def
        intro: loads_ok_mono le_imp_less_Suc)
qed

text \<open>An unload action is made and posted: afterwards the host is unloaded, or will be.\<close>

lemma post_unload:
  assumes inv: "host_inv m" and make: "MakeUnloadInstanceAction r m = (m1, a)" and run: "post_action a m1 = Some m'"
  shows "host_inv m'" and "unloaded m'" and "m_isClosed m' = m_isClosed m"
    and "loads_ok (unloaded m') (m_actions (m_actionQueue m') @ [(t, LoadAction options)])"
    and "m_isInvoking (m_actionQueue m')"
proof -
  let ?q = "m_actionQueue m" and ?i = "m_nextUnloadActionId m + 1"
  have m1: "m1 = m\<lparr>m_nextUnloadActionId := ?i, m_pendingUnloadActionId := ?i\<rparr>" "a = UnloadAction r ?i"
    using make by (auto simp: MakeUnloadInstanceAction_def Let_def)
  have f: "facts (m_actions ?q) m" and order: "aq.in_order ?q" "m_stage m = None \<longleftrightarrow> current ?q = None"
    using inv by (simp_all add: host_inv_def)
  note F = made_unload_facts[OF inv make]
  show "host_inv m'"
    using post_action_inv[OF _ _ run] F order by (simp add: m1)
  obtain q e where p: "PostAction a ?q = (q, e)" by fastforce
  have "unloaded m' \<and> m_isClosed m' = m_isClosed m \<and> m_isInvoking (m_actionQueue m') \<and>
    loads_ok (unloaded m') (m_actions (m_actionQueue m') @ [(t, LoadAction options)])"
  proof (cases "m_isInvoking ?q \<or> m_actions ?q \<noteq> []")
    case True
    note B = aq.post_busy[OF True p]
    have m': "m' = m1\<lparr>m_actionQueue := q\<rparr>" using run p B m1 by (simp add: post_action_def start_action_def)
    have un: "unloaded m'" by (simp add: m' m1 unloaded_def)
    have "loads_ok True (m_actions ?q)" using f by (auto simp: facts_def intro: loads_ok_mono)
    then have "loads_ok True (m_actions q)" using B by (simp add: loads_ok_snoc m1)
    then have "loads_ok True (m_actions q @ [(t, LoadAction options)])"
      using B by (simp only: loads_ok_snoc) (simp add: m1)
    moreover have "m_isInvoking ?q" using True order(1) by (auto simp: aq.in_order_def)
    ultimately show ?thesis using B un by (simp add: m' m1)
  next
    case False
    then have idle: "\<not> m_isInvoking ?q" "m_actions ?q = []" by simp_all
    note I = aq.post_idle[OF idle p]
    let ?m = "m1\<lparr>m_actionQueue := q\<rparr>"
    have stage: "m_stage m = None" using order idle by (simp add: aq.in_order_def)
    have m': "m' = settle (UnloadInQueue r ?i ?m)" using run p I m1 by (simp add: post_action_def start_action_def)
    have "facts [(issued ?q, UnloadAction r ?i)] ?m" using F[of "issued ?q"] idle m1(2) by (simp add: facts_queue)
    note U = UnloadInQueue_facts[OF this]
    have s: "m_stage ?m = None" using stage by (simp add: m1)
    have "unloaded m'" using U(3)[OF s] unfolding m'
      by (auto simp: settle_def after_def unloaded_def split: prod.splits future.splits)
    moreover have "m_actionQueue (fst (UnloadInQueue r ?i ?m)) = q" using U(2)[OF s] by simp
    then have "m_actions (m_actionQueue m') = []" "m_isInvoking (m_actionQueue m')"
      using I unfolding m' by (auto simp: settle_def FinishAction_def split: prod.splits future.splits option.splits)
    moreover have "m_isClosed m' = m_isClosed m"
      using UnloadInQueue_closed[of r ?i ?m] unfolding m' by (auto simp: settle_def m1 split: prod.splits future.splits)
    ultimately show ?thesis by simp
  qed
  then show "unloaded m'" "m_isClosed m' = m_isClosed m" "m_isInvoking (m_actionQueue m')"
    "loads_ok (unloaded m') (m_actions (m_actionQueue m') @ [(t, LoadAction options)])" by blast+
qed

lemma host_inv_views:
  assumes "host_inv m" and "views_step m m'"
  shows "host_inv m'"
  using assms(1) facts_views[OF _ assms(2)] views_stepD(1,2)[OF assms(2)] by (simp add: host_inv_def)

lemma host_inv_cong:
  assumes "host_inv m" and "m_actionQueue m' = m_actionQueue m" "m_pendingUnloadActionId m' = m_pendingUnloadActionId m"
    "m_nextUnloadActionId m' = m_nextUnloadActionId m" "m_stage m' = m_stage m" "m_reactInstance m' = m_reactInstance m"
    "m_isClosed m' = m_isClosed m" "trace m' = trace m"
  shows "host_inv m'"
  using assms(1) facts_cong[OF assms(3-8)] assms(2,5) by (simp add: host_inv_def)

lemma post_load_inv:
  assumes "host_inv m" and "\<And>t. loads_ok (unloaded m) (m_actions (m_actionQueue m) @ [(t, LoadAction options)])"
    and "post_action (LoadAction options) m = Some m'"
  shows "host_inv m'"
proof (rule post_action_inv[OF _ _ assms(3)])
  show "aq.in_order (m_actionQueue m)" "m_stage m = None \<longleftrightarrow> current (m_actionQueue m) = None"
    using assms(1) by (simp_all add: host_inv_def)
  show "facts (m_actions (m_actionQueue m) @ [(t, LoadAction options)]) m" for t
    using assms(1,2) by (simp add: host_inv_def facts_def ids_ok_def)
qed

lemma Reload_inv:
  assumes "host_inv m" and "ReloadInstanceWithOptions options m = Some m'"
  shows "host_inv m'"
proof -
  obtain m1 a where m1: "MakeUnloadInstanceAction Unload m = (m1, a)" by fastforce
  then obtain m2 where m2: "post_action a m1 = Some m2" "post_action (LoadAction options) m2 = Some m'"
    using assms(2) by (auto simp: ReloadInstanceWithOptions_def split: option.splits)
  show ?thesis using post_load_inv[OF _ _ m2(2)] post_unload(1,4)[OF assms(1) m1 m2(1)] by blast
qed

lemma MakeUninit_step: "MakeUninitViewInstanceAction v m = (m1, a) \<Longrightarrow> views_step m m1 \<and> (\<exists>i. a = UninitViewAction v i)"
  by (auto simp: MakeUninitViewInstanceAction_def Let_def set_view_step)

lemma call_inv:
  assumes inv: "host_inv m" and run: "perform c m = Some m'"
  shows "host_inv m'"
proof (cases "(c, m)" rule: perform.cases)
  case (1 m0)
  then show ?thesis using run Reload_inv[OF inv] by (simp add: ReloadInstance_def)
next
  case (2 options m0)
  then show ?thesis using run Reload_inv[OF inv] by simp
next
  case (3 m0)
  then show ?thesis
    using run post_unload(1)[OF inv] by (auto simp: UnloadInstance_def split: prod.splits)
next
  case (4 m0)
  obtain m1 a where m1: "MakeUnloadInstanceAction CloseHost m = (m1, a)" by fastforce
  then obtain m2 where m2: "post_action a m1 = Some m2" "m' = m2\<lparr>m_isClosed := True\<rparr>"
    using run 4 by (auto simp: Close_def)
  have "host_inv m2" "unloaded m2" using post_unload(1,2)[OF inv m1 m2(1)] by simp_all
  then show ?thesis
    unfolding host_inv_def facts_def m2(2)
    by (simp add: ids_ok_def unloaded_def waits_ok_def life_ok_def life_of_def) (auto simp: closed_ok_def)
next
  case (5 v m0)
  let ?m = "(set_view v (\<lambda>w. w\<lparr>m_viewInstance := True\<rparr>) m)\<lparr>m_viewHosts := m_viewHosts m @ [v]\<rparr>"
  have "host_inv ?m" by (rule host_inv_cong[OF inv]) (simp_all add: set_view_def)
  moreover have "m' = fst (InitViewInstanceInQueue v ?m)"
    using run 5 by (simp add: AttachViewInstance_def split: if_splits)
  ultimately show ?thesis using host_inv_views[OF _ InitView_step] by simp
next
  case (6 v m0)
  let ?m = "(set_view v (\<lambda>w. w\<lparr>m_viewInstance := False, m_isViewInstanceInited := False\<rparr>) m)\<lparr>m_viewHosts := remove1 v (m_viewHosts m)\<rparr>"
  have "host_inv ?m" by (rule host_inv_cong[OF inv]) (simp_all add: set_view_def)
  moreover have "m' = emit (RootViewUninited v) ?m"
    using run 6 by (simp add: DetachViewInstance_def split: if_splits)
  ultimately show ?thesis using host_inv_views[OF _ emit_step, of ?m "RootViewUninited v"] by simp
next
  case (7 v options m0)
  obtain m1 a where m1: "MakeUninitViewInstanceAction v m = (m1, a)" by fastforce
  then obtain m2 where m2: "post_action a m1 = Some m2" "post_action (InitViewAction v options) m2 = Some m'"
    using run 7 by (auto simp: ReloadViewInstance_def split: option.splits)
  have "host_inv m2" using post_action_view[OF inv _ m2(1)] MakeUninit_step[OF m1] by auto
  then show ?thesis using post_action_view[OF _ views_step_refl m2(2)] by simp
next
  case (8 v m0)
  obtain m1 a where m1: "MakeUninitViewInstanceAction v m = (m1, a)" by fastforce
  then have "post_action a m1 = Some m'" using run 8 by (simp add: UnloadViewInstance_def)
  then show ?thesis using post_action_view[OF inv] MakeUninit_step[OF m1] by auto
next
  case (9 m0)
  then show ?thesis
    using run host_inv_views[OF inv for_each_view_step[OF UpdateView_step]] by (auto simp: updateUI_def)
qed

text \<open>Leaving a stage in which an instance may be seen.\<close>

lemma facts_leave:
  assumes f: "facts xs m" and s: "m_stage m = Some s" and plain: "\<forall>r ss. s \<noteq> AwaitUninits r ss" "\<forall>k. s \<noteq> AwaitDestroyed k"
  shows "facts xs (m\<lparr>m_stage := None\<rparr>)"
    and "None \<in> set ss \<Longrightarrow> facts xs (m\<lparr>m_stage := Some (AwaitUpdates ss)\<rparr>)"
proof -
  have xs: "loads_ok (m_pendingUnloadActionId m \<noteq> 0) xs" using f s plain by (simp add: facts_def unloaded_def)
  have ids: "ids_ok (m\<lparr>m_stage := st\<rparr>) xs" for st using f by (simp add: facts_def ids_ok_def)
  have un: "loads_ok (unloaded (m\<lparr>m_stage := st\<rparr>)) xs" for st using loads_ok_mono[OF xs] by (simp add: unloaded_def)
  have life: "life_ok (m\<lparr>m_stage := st\<rparr>)" if "\<forall>k. st \<noteq> Some (AwaitDestroyed k)" for st
    using f s plain that by (simp add: facts_def life_ok_def life_of_def life_state_live)
  have closed: "closed_ok (m\<lparr>m_stage := st\<rparr>)" for st using f s plain by (auto simp: facts_def closed_ok_def)
  show "facts xs (m\<lparr>m_stage := None\<rparr>)"
    using ids un life closed unfolding facts_def by (simp add: waits_ok_def)
  show "None \<in> set ss \<Longrightarrow> facts xs (m\<lparr>m_stage := Some (AwaitUpdates ss)\<rparr>)"
    using ids un life closed unfolding facts_def by (simp add: waits_ok_def)
qed

lemma after_load_facts:
  assumes f: "facts xs m" and s: "m_stage m = Some AwaitLoaded"
  shows "facts xs (after (after_load value m))" and "m_actionQueue (fst (after_load value m)) = m_actionQueue m"
proof -
  have *: "facts xs (m1\<lparr>m_stage := None\<rparr>)"  "None \<in> set ss \<Longrightarrow> facts xs (m1\<lparr>m_stage := Some (AwaitUpdates ss)\<rparr>)"
    if "views_step m m1" for m1 ss
    using facts_leave[OF facts_views[OF f that]] views_stepD(2)[OF that] s by auto
  obtain m1 ss where m1: "for_each_view UpdateViewInstanceInQueue (m_viewHosts m) m = (m1, ss)" by fastforce
  have step: "views_step m m1" using for_each_view_step[of UpdateViewInstanceInQueue m "m_viewHosts m", OF UpdateView_step] m1 by simp
  have "facts xs (after (after_load value m)) \<and> m_actionQueue (fst (after_load value m)) = m_actionQueue m"
    using *[OF views_step_refl] *[OF step] views_stepD(1)[OF step] m1
    by (auto simp: after_load_def after_slots after_done)
  then show "facts xs (after (after_load value m))" "m_actionQueue (fst (after_load value m)) = m_actionQueue m" by simp_all
qed

lemma host_inv_current:
  assumes "host_inv m" and "m_stage m \<noteq> None"
  obtains t where "current (m_actionQueue m) = Some t"
  using assms unfolding host_inv_def by fastforce

lemma settle_stage_inv:
  assumes inv: "host_inv m" and s: "m_stage m \<noteq> None"
    and "facts (m_actions (m_actionQueue m)) (after mf)" and "m_actionQueue (fst mf) = m_actionQueue m"
  shows "host_inv (settle mf)"
proof -
  obtain t where "current (m_actionQueue m) = Some t" using host_inv_current[OF inv s] .
  then show ?thesis using settle_inv[of mf t] assms(3,4) inv by (simp add: host_inv_def)
qed

lemma progress_inv:
  assumes "progress m r" and "host_inv m" and "r = Some m'"
  shows "host_inv m'"
  using assms
proof (cases rule: progress.cases)
  case next_action
  let ?q = "m_actionQueue m"
  have s: "m_stage m = None" and order: "aq.in_order ?q" using next_action assms(2) by (simp_all add: host_inv_def)
  obtain q e where p: "NextAction ?q = (q, e)" by fastforce
  have order': "aq.in_order q" using aq.in_order_next[OF order next_action(3) p] .
  show ?thesis
  proof (cases "m_actions ?q")
    case Nil
    note N = aq.next_empty[OF Nil p]
    have "m' = m\<lparr>m_actionQueue := q\<rparr>" using next_action(1) assms(3) p N by (simp add: start_action_def)
    then show ?thesis using assms(2) N order' next_action(3) s Nil by (simp add: host_inv_def facts_queue)
  next
    case (Cons x xs)
    note N = aq.next_entry[OF Cons p]
    obtain t a where x: "x = (t, a)" by fastforce
    show ?thesis
      using start_action_inv[of q t a m m'] next_action(1) assms(2,3) p N x s order' Cons by (simp add: host_inv_def)
  qed
next
  case (loaded val)
  then show ?thesis
    using settle_stage_inv[OF assms(2)] after_load_facts[of "m_actions (m_actionQueue m)" m val] assms(2,3)
    by (simp add: host_inv_def)
next
  case (updated ss i r' ss')
  have f: "facts (m_actions (m_actionQueue m)) m" using assms(2) by (simp add: host_inv_def)
  have "facts (m_actions (m_actionQueue m)) (m\<lparr>m_stage := None\<rparr>)"
    "None \<in> set ss' \<Longrightarrow> facts (m_actions (m_actionQueue m)) (m\<lparr>m_stage := Some (AwaitUpdates ss')\<rparr>)"
    using facts_leave[OF f updated(2)] by auto
  then have "facts (m_actions (m_actionQueue m))
      (after (m, case all_completed ss' of Some x \<Rightarrow> Done x | None \<Rightarrow> Wait (AwaitUpdates ss')))"
    by (simp add: after_slots)
  then show ?thesis using settle_stage_inv[OF assms(2)] updated(1,2) assms(3) by simp
next
  case (uninited reason ss i r' ss')
  have f: "facts (m_actions (m_actionQueue m)) m" using assms(2) by (simp add: host_inv_def)
  have xs: "loads_ok True (m_actions (m_actionQueue m))" using f uninited(2) by (auto simp: facts_def unloaded_def)
  have "ids_ok m (m_actions (m_actionQueue m))" "run_life (trace m) NoInstance = Some (life_state None (m_reactInstance m))"
    using f uninited(2) by (auto simp: facts_def life_ok_def life_of_def life_state_live)
  note U = after_uninit_facts[OF this(1) xs this(2), of reason]
  let ?mf = "case all_completed ss' of Some _ \<Rightarrow> after_uninit reason m | None \<Rightarrow> (m, Wait (AwaitUninits reason ss'))"
  have mf: "?mf = (if None \<in> set ss' then (m, Wait (AwaitUninits reason ss')) else after_uninit reason m)"
    by (simp add: all_completed_def)
  have "facts (m_actions (m_actionQueue m)) (after ?mf) \<and> m_actionQueue (fst ?mf) = m_actionQueue m"
    unfolding mf using U facts_uninits[OF f _ xs, of ss' reason] uninited(2)
    by (simp add: after_wait)
  then show ?thesis using settle_stage_inv[OF assms(2), of ?mf] uninited(1,2) assms(3) by simp
next
  case (destroyed k val)
  have f: "facts (m_actions (m_actionQueue m)) m" using assms(2) by (simp add: host_inv_def)
  have "facts (m_actions (m_actionQueue m)) (after (emit (InstanceDestroyed k) m, Done val))"
  proof -
    have "ids_ok (m\<lparr>trace := tr, m_stage := None\<rparr>) xs \<longleftrightarrow> ids_ok m xs" for tr xs by (simp add: ids_ok_def)
    then show ?thesis
      using f destroyed(2)
      by (auto simp: facts_def unloaded_def closed_ok_def waits_ok_def life_ok_def life_of_def run_life_append
          after_def emit_def intro: loads_ok_mono)
  qed
  then show ?thesis using settle_stage_inv[OF assms(2)] destroyed assms(3) by (simp add: emit_def)
next
  case (view_done val)
  have f: "facts (m_actions (m_actionQueue m)) m" using assms(2) by (simp add: host_inv_def)
  have "facts (m_actions (m_actionQueue m)) (after (m, Done val))"
    using facts_leave(1)[OF f view_done(2)] by (simp add: after_def)
  then show ?thesis using settle_stage_inv[OF assms(2)] view_done assms(3) by simp
qed

lemma hosted_inv: "hosted m \<Longrightarrow> host_inv m"
proof (induction rule: hosted.induct)
  case hosted_new
  show ?case by (rule host_inv_new)
next
  case (hosted_call m c m')
  then show ?case using call_inv by blast
next
  case (hosted_progress m m')
  then show ?case using progress_inv by blast
qed

section \<open>Work that is left\<close>

definition open_slots :: "slots \<Rightarrow> nat" where
  "open_slots ss = length (filter (\<lambda>s. s = None) ss)"

fun stage_work :: "nat \<Rightarrow> stage \<Rightarrow> nat" where
  "stage_work n AwaitLoaded = n + 1"
| "stage_work n (AwaitUpdates ss) = open_slots ss"
| "stage_work n (AwaitUninits r ss) = open_slots ss + 1"
| "stage_work n (AwaitDestroyed k) = 1"
| "stage_work n AwaitView = 1"

fun future_work :: "nat \<Rightarrow> future \<Rightarrow> nat" where
  "future_work n (Done r) = 0"
| "future_work n (Wait s) = stage_work n s"

definition host_work :: "react_host \<Rightarrow> nat" where
  "host_work m = (let n = length (m_viewHosts m); q = m_actionQueue m
     in (if m_isInvoking q then 1 else 0) + length (m_actions q) * (n + 2) +
        (case m_stage m of None \<Rightarrow> 0 | Some s \<Rightarrow> stage_work n s))"

lemma open_slots_le: "open_slots ss \<le> length ss"
  by (simp add: open_slots_def)

lemma open_slots_update: "i < length ss \<Longrightarrow> ss ! i = None \<Longrightarrow> open_slots ss = open_slots (ss[i := Some r]) + 1"
proof (induction ss arbitrary: i)
  case (Cons s ss)
  then show ?case by (cases i) (auto simp: open_slots_def)
qed simp

lemma open_slots_SetResult: "SetResult i r ss = Some ss' \<Longrightarrow> open_slots ss = open_slots ss' + 1"
  using open_slots_update[of i ss r] by (auto simp: SetResult_def split: if_splits)

lemma for_each_view_length: "length (snd (for_each_view f vs m)) = length vs"
  by (induction f vs m rule: for_each_view.induct) (auto split: prod.splits)

lemma UnloadInQueue_work:
  "future_work (length (m_viewHosts m)) (snd (UnloadInQueue r i m)) \<le> length (m_viewHosts m) + 1"
  "m_viewHosts (fst (UnloadInQueue r i m)) = m_viewHosts m"
proof -
  let ?m = "m\<lparr>m_pendingUnloadActionId := 0, m_isInstanceUnloading := True\<rparr>"
  obtain m1 ss where m1: "for_each_view (UninitViewInstanceInQueue 0) (m_viewHosts m) ?m = (m1, ss)" by fastforce
  then have "m_viewHosts m1 = m_viewHosts m" "open_slots ss \<le> length (m_viewHosts m)"
    using views_stepD(4)[OF for_each_view_step[of "UninitViewInstanceInQueue 0" ?m "m_viewHosts m", OF UninitView_step]]
      for_each_view_length[of "UninitViewInstanceInQueue 0" "m_viewHosts m" ?m] open_slots_le[of ss] by simp_all
  moreover have "future_work n (snd (after_uninit r m1)) \<le> 1" "m_viewHosts (fst (after_uninit r m1)) = m_viewHosts m1" for n
    by (auto simp: after_uninit_def Let_def emit_def RemoveInspectorPage_def split: option.splits)
  ultimately show "future_work (length (m_viewHosts m)) (snd (UnloadInQueue r i m)) \<le> length (m_viewHosts m) + 1"
    "m_viewHosts (fst (UnloadInQueue r i m)) = m_viewHosts m"
    using m1 by (auto simp: UnloadInQueue_def split: option.splits intro: le_trans)
qed

lemma LoadInQueue_work:
  assumes "LoadInQueue options m = Some mf"
  shows "future_work (length (m_viewHosts m)) (snd mf) \<le> length (m_viewHosts m) + 1" "m_viewHosts (fst mf) = m_viewHosts m"
  using assms
  by (auto simp: LoadInQueue_def Let_def emit_def AddInspectorPage_def RemoveInspectorPage_def
      dest!: init_views_step views_stepD(4) split: if_splits option.splits)

lemma of_view_work:
  assumes "views_step m (fst mr)"
  shows "future_work n (snd (of_view mr)) \<le> 1" "m_viewHosts (fst (of_view mr)) = m_viewHosts m"
  using views_stepD(4)[OF assms] by (auto simp: of_view_def split: prod.splits option.splits)

lemma run_action_work:
  assumes "run_action a m = Some mf"
  shows "future_work (length (m_viewHosts m)) (snd mf) \<le> length (m_viewHosts m) + 1" "m_viewHosts (fst mf) = m_viewHosts m"
proof -
  have "future_work (length (m_viewHosts m)) (snd mf) \<le> length (m_viewHosts m) + 1 \<and> m_viewHosts (fst mf) = m_viewHosts m"
  proof (cases "(a, m)" rule: run_action.cases)
    case (1 options m')
    then show ?thesis using LoadInQueue_work assms by simp
  next
    case (2 r i m')
    then show ?thesis using UnloadInQueue_work[where m = m and r = r and i = i] assms by auto
  next
    case (3 v m')
    then show ?thesis using of_view_work(1)[OF InitView_step[of m v], where n = "length (m_viewHosts m)"] of_view_work(2)[OF InitView_step[of m v]] assms by auto
  next
    case (4 v options m')
    then obtain mr where mr: "InitViewInstanceInQueue_options v options m = Some mr" "mf = of_view mr" using assms by auto
    have "views_step m (fst mr)" using InitView_options_step[of v options m "fst mr" "snd mr"] mr(1) by simp
    then show ?thesis using of_view_work(1)[where m = m and mr = mr and n = "length (m_viewHosts m)"] of_view_work(2)[where m = m and mr = mr] mr(2) by auto
  next
    case (5 v i m')
    then show ?thesis using of_view_work(1)[OF UninitView_step[of m i v], where n = "length (m_viewHosts m)"] of_view_work(2)[OF UninitView_step[of m i v]] assms by auto
  qed
  then show "future_work (length (m_viewHosts m)) (snd mf) \<le> length (m_viewHosts m) + 1" "m_viewHosts (fst mf) = m_viewHosts m"
    by simp_all
qed

lemma settle_work:
  assumes "m_viewHosts (fst mf) = m_viewHosts m" and "m_actionQueue (fst mf) = q"
  shows "host_work (settle mf) = (if m_isInvoking q then 1 else 0) + length (m_actions q) * (length (m_viewHosts m) + 2) +
    future_work (length (m_viewHosts m)) (snd mf)"
  using assms by (auto simp: settle_def host_work_def Let_def FinishAction_def split: prod.splits future.splits option.splits)

lemma host_work_stage:
  "m_stage m = Some s \<Longrightarrow> host_work m = (if m_isInvoking (m_actionQueue m) then 1 else 0) +
     length (m_actions (m_actionQueue m)) * (length (m_viewHosts m) + 2) + stage_work (length (m_viewHosts m)) s"
  by (simp add: host_work_def Let_def)

lemma settle_less:
  assumes "m_stage m = Some s" and "m_viewHosts (fst mf) = m_viewHosts m" and "m_actionQueue (fst mf) = m_actionQueue m"
    and "future_work (length (m_viewHosts m)) (snd mf) < stage_work (length (m_viewHosts m)) s"
  shows "host_work (settle mf) < host_work m"
  using settle_work[OF assms(2,3)] host_work_stage[OF assms(1)] assms(4) by simp

lemma progress_work:
  assumes "progress m r" and "host_inv m" and "r = Some m'"
  shows "host_work m' < host_work m"
  using assms
proof (cases rule: progress.cases)
  case next_action
  let ?q = "m_actionQueue m"
  have s: "m_stage m = None" using next_action assms(2) by (simp add: host_inv_def)
  obtain q e where p: "NextAction ?q = (q, e)" by fastforce
  show ?thesis
  proof (cases "m_actions ?q")
    case Nil
    note N = aq.next_empty[OF Nil p]
    have "m' = m\<lparr>m_actionQueue := q\<rparr>" using next_action(1) assms(3) p N by (simp add: start_action_def)
    then show ?thesis using N next_action(2) s Nil by (simp add: host_work_def Let_def)
  next
    case (Cons x xs)
    note N = aq.next_entry[OF Cons p]
    obtain t a where x: "x = (t, a)" by fastforce
    let ?m = "m\<lparr>m_actionQueue := q\<rparr>"
    obtain mf where mf: "run_action a ?m = Some mf" "m' = settle mf"
      using next_action(1) assms(3) p N x
      by (cases "run_action a (m\<lparr>m_actionQueue := q\<rparr>)") (auto simp: start_action_def)
    have "facts ((t, a) # m_actions q) ?m"
      using assms(2) Cons x N by (simp add: host_inv_def facts_queue)
    then have "m_actionQueue (fst mf) = q" using run_action_facts(2)[of t a "m_actions q" ?m mf] s mf(1) by simp
    then show ?thesis
      using run_action_work[OF mf(1)] settle_work[of mf m q] mf(2) N Cons next_action(2) s
      by (simp add: host_work_def Let_def)
  qed
next
  case (loaded val)
  obtain m1 ss where m1: "for_each_view UpdateViewInstanceInQueue (m_viewHosts m) m = (m1, ss)" by fastforce
  have step: "views_step m m1"
    using for_each_view_step[of UpdateViewInstanceInQueue m "m_viewHosts m", OF UpdateView_step] m1 by simp
  have "open_slots ss \<le> length (m_viewHosts m)"
    using for_each_view_length[of UpdateViewInstanceInQueue "m_viewHosts m" m] m1 open_slots_le[of ss] by simp
  then have "host_work (settle (after_load val m)) < host_work m"
    using views_stepD(1,4)[OF step] m1
    by (intro settle_less[OF loaded(2)]) (auto simp: after_load_def split: option.splits)
  then show ?thesis using loaded(1) assms(3) by simp
next
  case (updated ss i r' ss')
  have "host_work (settle (m, case all_completed ss' of Some x \<Rightarrow> Done x | None \<Rightarrow> Wait (AwaitUpdates ss'))) < host_work m"
    using open_slots_SetResult[OF updated(3)]
    by (intro settle_less[OF updated(2)]) (auto split: option.splits)
  then show ?thesis using updated(1) assms(3) by simp
next
  case (uninited reason ss i r' ss')
  have A: "future_work n (snd (after_uninit reason m)) \<le> 1" "m_viewHosts (fst (after_uninit reason m)) = m_viewHosts m"
    "m_actionQueue (fst (after_uninit reason m)) = m_actionQueue m" for n
    by (auto simp: after_uninit_def Let_def emit_def RemoveInspectorPage_def split: option.splits)
  have "host_work (settle (case all_completed ss' of Some _ \<Rightarrow> after_uninit reason m
      | None \<Rightarrow> (m, Wait (AwaitUninits reason ss')))) < host_work m"
    using A open_slots_SetResult[OF uninited(3)]
    by (intro settle_less[OF uninited(2)]) (auto split: option.splits intro: le_less_trans)
  then show ?thesis using uninited(1) assms(3) by simp
next
  case (destroyed k val)
  have "host_work (settle (emit (InstanceDestroyed k) m, Done val)) < host_work m"
    by (intro settle_less[OF destroyed(2)]) (simp_all add: emit_def)
  then show ?thesis using destroyed(1) assms(3) by simp
next
  case (view_done val)
  have "host_work (settle (m, Done val)) < host_work m"
    by (intro settle_less[OF view_done(2)]) simp_all
  then show ?thesis using view_done(1) assms(3) by simp
qed

lemma progress_enabled:
  assumes inv: "host_inv m" and busy: "m_isInvoking (m_actionQueue m)"
  shows "\<exists>r. progress m r"
proof (cases "m_stage m")
  case None
  then show ?thesis using inv busy progress.next_action by (auto simp: host_inv_def)
next
  case (Some s)
  have slot: "\<exists>i ss'. SetResult i Succeeded ss = Some ss'" if "None \<in> set ss" for ss
    using that by (auto simp: SetResult_def in_set_conv_nth)
  have waits: "waits_ok m" using inv by (simp add: host_inv_def facts_def)
  show ?thesis
  proof (cases s)
    case AwaitLoaded
    then show ?thesis using Some progress.loaded by blast
  next
    case (AwaitUpdates ss)
    then show ?thesis using Some slot[of ss] waits progress.updated by (fastforce simp: waits_ok_def)
  next
    case (AwaitUninits r ss)
    then show ?thesis using Some slot[of ss] waits progress.uninited by (fastforce simp: waits_ok_def)
  next
    case (AwaitDestroyed k)
    then show ?thesis using Some progress.destroyed by blast
  next
    case AwaitView
    then show ?thesis using Some progress.view_done by blast
  qed
qed

section \<open>Scripts\<close>

text \<open>Runs that can be evaluated: calls, and the completions that the environment chooses.\<close>

datatype move = CallMove host_call | NextMove | LoadedMove result | SlotMove nat result | FutureMove

definition slots_of :: "stage option \<Rightarrow> slots" where
  "slots_of s = (case s of Some (AwaitUpdates ss) \<Rightarrow> ss | Some (AwaitUninits r ss) \<Rightarrow> ss | _ \<Rightarrow> [])"

text \<open>\<open>None\<close> when the move is not possible, \<open>Some None\<close> when it crashes.\<close>

fun do_move :: "move \<Rightarrow> react_host \<Rightarrow> react_host option option" where
  "do_move (CallMove c) m = Some (perform c m)"
| "do_move NextMove m = (if m_isInvoking (m_actionQueue m) \<and> current (m_actionQueue m) = None
     then Some (start_action (NextAction (m_actionQueue m)) m) else None)"
| "do_move (LoadedMove r) m = (case m_stage m of Some AwaitLoaded \<Rightarrow> Some (Some (settle (after_load r m))) | _ \<Rightarrow> None)"
| "do_move (SlotMove i r) m = (case SetResult i r (slots_of (m_stage m)) of None \<Rightarrow> None
     | Some ss' \<Rightarrow> (case m_stage m of
         Some (AwaitUpdates ss) \<Rightarrow> Some (Some (settle (m, case all_completed ss' of Some x \<Rightarrow> Done x | None \<Rightarrow> Wait (AwaitUpdates ss'))))
       | Some (AwaitUninits reason ss) \<Rightarrow> Some (Some (settle (case all_completed ss' of
           Some _ \<Rightarrow> after_uninit reason m | None \<Rightarrow> (m, Wait (AwaitUninits reason ss')))))
       | _ \<Rightarrow> None))"
| "do_move FutureMove m = (case m_stage m of
     Some (AwaitDestroyed k) \<Rightarrow> Some (Some (settle (emit (InstanceDestroyed k) m, Done Succeeded)))
   | Some AwaitView \<Rightarrow> Some (Some (settle (m, Done Succeeded))) | _ \<Rightarrow> None)"

fun script :: "move list \<Rightarrow> react_host \<Rightarrow> react_host option" where
  "script [] m = Some m"
| "script (v # vs) m = (case do_move v m of Some (Some m1) \<Rightarrow> script vs m1 | _ \<Rightarrow> None)"

lemma do_move_progress:
  assumes "do_move v m = Some r"
  shows "(\<exists>c. v = CallMove c \<and> perform c m = r) \<or> progress m r"
proof (cases "(v, m)" rule: do_move.cases)
  case (1 c m')
  then show ?thesis using assms by auto
next
  case (2 m')
  then show ?thesis using assms progress.next_action by (auto split: if_splits)
next
  case (3 x m')
  then show ?thesis using assms progress.loaded by (auto split: option.splits stage.splits)
next
  case (4 i x m')
  then obtain ss' where ss': "SetResult i x (slots_of (m_stage m)) = Some ss'"
    using assms by (auto split: option.splits)
  show ?thesis
  proof (cases "m_stage m")
    case None
    then show ?thesis using 4 assms ss' by simp
  next
    case (Some s)
    show ?thesis
    proof (cases s)
      case (AwaitUpdates ss)
      have "SetResult i x ss = Some ss'" using ss' Some AwaitUpdates by (simp add: slots_of_def)
      moreover have "r = Some (settle (m, case all_completed ss' of Some x \<Rightarrow> Done x | None \<Rightarrow> Wait (AwaitUpdates ss')))"
        using 4 assms ss' Some AwaitUpdates by simp
      ultimately show ?thesis using progress.updated[of m ss i x ss'] Some AwaitUpdates by blast
    next
      case (AwaitUninits reason ss)
      have "SetResult i x ss = Some ss'" using ss' Some AwaitUninits by (simp add: slots_of_def)
      moreover have "r = Some (settle (case all_completed ss' of Some _ \<Rightarrow> after_uninit reason m
          | None \<Rightarrow> (m, Wait (AwaitUninits reason ss'))))"
        using 4 assms ss' Some AwaitUninits by auto
      ultimately show ?thesis using progress.uninited[of m reason ss i x ss'] Some AwaitUninits by blast
    qed (use 4 assms ss' Some in simp_all)
  qed
next
  case (5 m')
  then show ?thesis using assms progress.destroyed progress.view_done by (auto split: option.splits stage.splits)
qed

lemma script_hosted: "hosted m \<Longrightarrow> script vs m = Some m' \<Longrightarrow> hosted m'"
proof (induction vs arbitrary: m)
  case (Cons v vs)
  then obtain m1 where m1: "do_move v m = Some (Some m1)" "script vs m1 = Some m'" by (auto split: option.splits)
  have "hosted m1" using do_move_progress[OF m1(1)] Cons.prems(1) hosted.intros by blast
  then show ?case using Cons.IH m1(2) by blast
qed simp

lemma script_append: "script (vs @ ws) m = (case script vs m of None \<Rightarrow> None | Some m1 \<Rightarrow> script ws m1)"
  by (induction vs arbitrary: m) (auto split: option.splits)

fun is_call :: "move \<Rightarrow> bool" where
  "is_call (CallMove c) = True"
| "is_call _ = False"

lemma script_progress:
  "\<not> list_ex is_call vs \<Longrightarrow> script vs m = Some m' \<Longrightarrow> ((\<lambda>a b. progress a (Some b)) ^^ length vs) m m'"
proof (induction vs arbitrary: m)
  case (Cons v vs)
  then obtain m1 where m1: "do_move v m = Some (Some m1)" "script vs m1 = Some m'" by (auto split: option.splits)
  have "progress m (Some m1)" using do_move_progress[OF m1(1)] Cons.prems(1) by auto
  moreover have "((\<lambda>a b. progress a (Some b)) ^^ length vs) m1 m'" using Cons.IH[OF _ m1(2)] Cons.prems(1) by simp
  ultimately show ?case unfolding length_Cons by (rule relpowp_Suc_I2)
qed simp

text \<open>An instance with one view is loaded: the view is initialized, loaded and updated.\<close>

definition load_calls :: "move list" where
  "load_calls = [CallMove (AttachCall 1), CallMove ReloadCall]"

definition load_steps :: "move list" where
  "load_steps = [SlotMove 0 Succeeded, NextMove, LoadedMove Succeeded, SlotMove 0 Succeeded, NextMove]"

definition load_moves :: "move list" where
  "load_moves = load_calls @ load_steps"

text \<open>Reload again while the instance is being loaded, and unload the view.\<close>

definition reload_moves :: "move list" where
  "reload_moves = [CallMove (AttachCall 1), CallMove ReloadCall, SlotMove 0 Succeeded, NextMove,
     CallMove ReloadCall, CallMove (UnloadViewCall 1), LoadedMove Succeeded, NextMove, FutureMove]"

definition run_of :: "move list \<Rightarrow> react_host" where
  "run_of vs = (case script vs react_host_new of Some m \<Rightarrow> m | None \<Rightarrow> react_host_new)"

lemma run_of_hosted: "hosted (run_of vs)"
  using script_hosted[OF hosted_new, of vs] hosted_new by (auto simp: run_of_def split: option.splits)

lemma idle_completed:
  assumes "host_inv m" and "\<not> m_isInvoking (m_actionQueue m)"
  shows "map fst (completed (m_actionQueue m)) = [0..<issued (m_actionQueue m)]" "m_stage m = None"
    "m_pendingUnloadActionId m = 0"
  using assms by (auto simp: host_inv_def aq.in_order_def facts_def ids_ok_def)

lemma in_order_prefix:
  assumes "aq.in_order q"
  shows "map fst (completed q) = [0..<length (completed q)]"
proof -
  let ?n = "length (completed q)"
  have "map fst (completed q) = take ?n [0..<issued q]" and "?n \<le> length [0..<issued q]"
    using assms unfolding aq.in_order_def by (metis append_eq_conv_conj length_map, metis length_append length_map le_add1)
  then show ?thesis by simp
qed

section \<open>Properties\<close>

text \<open>
  C22: The React host has at most one instance: it creates one only after the one before it is
  destroyed, initializes views only with the instance it shows, completes the posted actions in the
  order of posting, and once closed and idle it has no instance.
\<close>

theorem host_instances_sequential:
  assumes "hosted m"
  shows "\<exists>s. run_life (trace m) NoInstance = Some s \<and> (\<forall>k. m_reactInstance m = Some k \<longrightarrow> s = Live k) \<and>
    map fst (completed (m_actionQueue m)) = [0..<length (completed (m_actionQueue m))] \<and>
    (m_isClosed m \<and> \<not> m_isInvoking (m_actionQueue m) \<longrightarrow> m_reactInstance m = None \<and> s = NoInstance)"
proof (intro exI conjI allI impI)
  have inv: "host_inv m" by (rule hosted_inv[OF assms])
  then have life: "life_ok m" and closed: "closed_ok m" by (simp_all add: host_inv_def facts_def)
  show "run_life (trace m) NoInstance = Some (life_of m)" using life by (simp add: life_ok_def)
  show "life_of m = Live k" if "m_reactInstance m = Some k" for k
    using life that by (auto simp: life_ok_def life_of_def life_state_live)
  show "map fst (completed (m_actionQueue m)) = [0..<length (completed (m_actionQueue m))]"
    using inv in_order_prefix by (auto simp: host_inv_def)
  assume idle: "m_isClosed m \<and> \<not> m_isInvoking (m_actionQueue m)"
  then show none: "m_reactInstance m = None"
    using idle_completed(2,3)[OF inv] closed by (auto simp: closed_ok_def)
  show "life_of m = NoInstance" using none idle_completed(2)[OF inv] idle by (simp add: life_of_def)
qed

theorem host_instances_sequential_witness:
  "m_reactInstance (run_of load_moves) = Some 0 \<and>
   run_life (trace (run_of load_moves)) NoInstance = Some (Live 0) \<and> length (completed (m_actionQueue (run_of load_moves))) = 2"
proof -
  have "m_reactInstance (run_of load_moves) = Some 0" "length (completed (m_actionQueue (run_of load_moves))) = 2"
    by code_simp+
  then show ?thesis using host_instances_sequential[OF run_of_hosted, of load_moves] by auto
qed



text \<open>
  A view that is unloaded (or reloaded) on its own while an unload of the instance is waiting keeps
  its view initialized through that unload, since its pending unload action takes precedence, and the
  load that follows crashes on it.
\<close>

theorem pending_view_unload_crashes_reload:
  "\<exists>m. hosted m \<and> m_isViewInstanceInited (view_hosts m 1) \<and> m_reactInstance m = None \<and> progress m None"
proof -
  let ?m = "run_of reload_moves"
  have c: "m_isViewInstanceInited (view_hosts ?m 1)" "m_reactInstance ?m = None" "m_isInvoking (m_actionQueue ?m)"
    "current (m_actionQueue ?m) = None" by code_simp+
  have "(case start_action (NextAction (m_actionQueue ?m)) ?m of None \<Rightarrow> True | Some _ \<Rightarrow> False)" by code_simp
  then have "start_action (NextAction (m_actionQueue ?m)) ?m = None" by (auto split: option.splits)
  then have "progress ?m None" using progress.next_action[OF c(3,4)] by simp
  then show ?thesis using run_of_hosted c by blast
qed

end
