(* ===== verification/HostCalm.thy ===== *)
theory HostCalm
  imports HostRuns
begin

text \<open>
  The React host when its views are only attached and detached: the code's own checks hold on every
  run, and a view is initialized only while the host has an instance.
\<close>

section \<open>The invariant of views\<close>

definition calm_views :: "react_host \<Rightarrow> bool" where
  "calm_views m \<longleftrightarrow> distinct (m_viewHosts m) \<and> (\<forall>v. m_pendingUninitActionId (view_hosts m v) = 0 \<and>
     (v \<in> set (m_viewHosts m) \<longleftrightarrow> m_viewInstance (view_hosts m v)) \<and>
     (m_isViewInstanceInited (view_hosts m v) \<longrightarrow>
       m_viewInstance (view_hosts m v) \<and> m_reactInstance m \<noteq> None \<and> \<not> m_isInstanceUnloading m))"

fun instance_action :: "host_action \<Rightarrow> bool" where
  "instance_action (LoadAction options) = True"
| "instance_action (UnloadAction r i) = True"
| "instance_action _ = False"

definition unloading_flag :: "react_host \<Rightarrow> bool" where
  "unloading_flag m \<longleftrightarrow> ((\<exists>r ss. m_stage m = Some (AwaitUninits r ss)) \<longrightarrow> m_isInstanceUnloading m)"

definition calm :: "react_host \<Rightarrow> bool" where
  "calm m \<longleftrightarrow> calm_views m \<and> (\<forall>x \<in> set (m_actions (m_actionQueue m)). instance_action (snd x)) \<and> unloading_flag m"

lemma calm_views_cong:
  assumes "m_viewHosts m' = m_viewHosts m" "view_hosts m' = view_hosts m" "m_reactInstance m' = m_reactInstance m"
    "m_isInstanceUnloading m' = m_isInstanceUnloading m"
  shows "calm_views m' \<longleftrightarrow> calm_views m"
  by (simp add: calm_views_def assms)

lemma calm_views_idle:
  assumes "calm_views m" and "m_viewHosts m' = m_viewHosts m" "view_hosts m' = view_hosts m"
    and "\<And>v. \<not> m_isViewInstanceInited (view_hosts m v)"
  shows "calm_views m'"
  using assms by (simp add: calm_views_def)

lemma InitView_calm:
  assumes "calm_views m" and "InitViewInstanceInQueue v m = (m', r)"
  shows "calm_views m'" and "\<And>u. u \<noteq> v \<Longrightarrow> view_hosts m' u = view_hosts m u"
  using assms
  by (auto simp: InitViewInstanceInQueue_def Let_def emit_def set_view_def calm_views_def split: if_splits option.splits)

lemma init_views_calm:
  assumes "calm_views m" and "distinct vs" and "\<And>v. v \<in> set vs \<Longrightarrow> \<not> m_isViewInstanceInited (view_hosts m v)"
  shows "\<exists>m'. init_views vs m = Some m' \<and> calm_views m'"
  using assms
proof (induction vs arbitrary: m)
  case (Cons v vs)
  let ?m = "set_view v (\<lambda>w. w\<lparr>m_viewOptions := m_viewOptions (view_hosts m v)\<rparr>) m"
  obtain m1 r where m1: "InitViewInstanceInQueue v ?m = (m1, r)" by fastforce
  have same: "view_hosts ?m = view_hosts m" by (simp add: set_view_def fun_eq_iff)
  have "calm_views ?m" using Cons.prems(1) same by (simp add: calm_views_def set_view_def)
  note I = InitView_calm[OF this m1]
  have "\<not> m_isViewInstanceInited (view_hosts m1 u)" if "u \<in> set vs" for u
  proof -
    have "u \<noteq> v" "u \<in> set (v # vs)" using Cons.prems(2) that by auto
    then show ?thesis using I(2)[of u] Cons.prems(3)[of u] same by simp
  qed
  then have "\<exists>m'. init_views vs m1 = Some m' \<and> calm_views m'" using Cons.IH I(1) Cons.prems(2) by simp
  moreover have "InitViewInstanceInQueue_options v (m_viewOptions (view_hosts m v)) m = Some (m1, r)"
    using Cons.prems(3)[of v] m1 same by (simp add: InitViewInstanceInQueue_options_def)
  ultimately show ?case by simp
qed simp

lemma updates_views: "view_hosts (fst (for_each_view UpdateViewInstanceInQueue vs m)) = view_hosts m"
proof (induction vs arbitrary: m)
  case (Cons v vs)
  have "view_hosts (fst (UpdateViewInstanceInQueue v m)) = view_hosts m"
    by (simp add: UpdateViewInstanceInQueue_def Let_def emit_def)
  then show ?case using Cons[of "fst (UpdateViewInstanceInQueue v m)"] by (auto split: prod.splits)
qed simp

lemma updates_calm:
  assumes "calm_views m"
  shows "calm_views (fst (for_each_view UpdateViewInstanceInQueue vs m))"
proof -
  note S = views_stepD[OF for_each_view_step[of UpdateViewInstanceInQueue m vs, OF UpdateView_step]]
  show ?thesis using assms calm_views_cong[of "fst (for_each_view UpdateViewInstanceInQueue vs m)" m] S updates_views by simp
qed

lemma uninits_views:
  assumes "m_pendingUnloadActionId m = 0" and "\<And>v. m_pendingUninitActionId (view_hosts m v) = 0"
    and "\<And>v. v \<in> set vs \<Longrightarrow> m_viewInstance (view_hosts m v)"
  shows "view_hosts (fst (for_each_view (UninitViewInstanceInQueue 0) vs m)) =
    (\<lambda>v. if v \<in> set vs then (view_hosts m v)\<lparr>m_isViewInstanceInited := False\<rparr> else view_hosts m v)"
  using assms
proof (induction vs arbitrary: m)
  case (Cons v vs)
  define m1 where "m1 = fst (UninitViewInstanceInQueue 0 v m)"
  have v1: "view_hosts m1 = (view_hosts m)(v := (view_hosts m v)\<lparr>m_isViewInstanceInited := False\<rparr>)"
    and p1: "m_pendingUnloadActionId m1 = 0"
    using Cons.prems(1) Cons.prems(2)[of v] Cons.prems(3)[of v]
    by (cases "view_hosts m v"; simp add: m1_def UninitViewInstanceInQueue_def Let_def set_view_def emit_def)+
  have "view_hosts (fst (for_each_view (UninitViewInstanceInQueue 0) vs m1)) =
    (\<lambda>v. if v \<in> set vs then (view_hosts m1 v)\<lparr>m_isViewInstanceInited := False\<rparr> else view_hosts m1 v)"
    using Cons.prems v1 p1 by (intro Cons.IH) auto
  then show ?case using v1 by (auto simp: m1_def fun_eq_iff split: prod.splits)
qed simp

section \<open>Actions\<close>

lemma LoadInQueue_calm:
  assumes c: "calm_views m" and s: "m_stage m = None" and u: "unloaded m"
  shows "\<exists>m' f. LoadInQueue options m = Some (m', f) \<and> calm_views m' \<and> (\<forall>r ss. f \<noteq> Wait (AwaitUninits r ss))"
proof (cases "m_isClosed m \<or> m_pendingUnloadActionId m \<noteq> 0")
  case True
  have "calm_views (m\<lparr>m_options := options\<rparr>)" using c by (simp add: calm_views_def)
  then show ?thesis using True c by (auto simp: LoadInQueue_def)
next
  case False
  then have none: "m_reactInstance m = None" using u s by (simp add: unloaded_def)
  define m1 where "m1 = m\<lparr>m_options := options\<rparr>"
  define m2 where "m2 = (if IsInspectable m1 then AddInspectorPage m1 else RemoveInspectorPage m1)"
  define m3 where "m3 = m2\<lparr>m_options := options\<lparr>InspectorHostTarget := IsInspectable m1\<rparr>\<rparr>"
  define m4 where "m4 = emit (InstanceCreated (next_instance m3))
      (m3\<lparr>next_instance := next_instance m3 + 1, m_reactInstance := Some (next_instance m3)\<rparr>)"
  have m4: "m_viewHosts m4 = m_viewHosts m" "view_hosts m4 = view_hosts m"
    by (simp_all add: m4_def m3_def m2_def m1_def emit_def AddInspectorPage_def RemoveInspectorPage_def)
  have no: "\<not> m_isViewInstanceInited (view_hosts m v)" for v using c none by (simp add: calm_views_def)
  have "calm_views m4" by (rule calm_views_idle[OF c m4 no])
  then obtain m5 where m5: "init_views (m_viewHosts m4) m4 = Some m5" "calm_views m5"
    using init_views_calm[of m4 "m_viewHosts m4"] no m4 by (auto simp: calm_views_def)
  have "LoadInQueue options m = Some (m5, Wait AwaitLoaded)"
    using False m5(1) unfolding LoadInQueue_def Let_def m1_def[symmetric] m2_def[symmetric] m3_def[symmetric] m4_def[symmetric]
    by (simp add: m1_def)
  then show ?thesis using m5(2) by simp
qed

lemma after_uninit_calm:
  assumes "calm_views m" and "\<And>v. \<not> m_isViewInstanceInited (view_hosts m v)"
  shows "calm_views (fst (after_uninit r m))" and "\<forall>r' ss. snd (after_uninit r m) \<noteq> Wait (AwaitUninits r' ss)"
proof -
  have "m_viewHosts (fst (after_uninit r m)) = m_viewHosts m" "view_hosts (fst (after_uninit r m)) = view_hosts m"
    by (auto simp: after_uninit_def Let_def emit_def RemoveInspectorPage_def split: option.splits)
  then show "calm_views (fst (after_uninit r m))" using calm_views_idle[OF assms(1)] assms(2) by blast
  show "\<forall>r' ss. snd (after_uninit r m) \<noteq> Wait (AwaitUninits r' ss)"
    by (simp add: after_uninit_def Let_def split: option.splits)
qed

lemma UnloadInQueue_calm:
  assumes c: "calm_views m" and u: "UnloadInQueue r i m = (m', f)"
  shows "calm_views m' \<and> (\<forall>r' ss. f = Wait (AwaitUninits r' ss) \<longrightarrow> m_isInstanceUnloading m')"
proof (cases "i = m_pendingUnloadActionId m")
  case False
  then show ?thesis using c u by (auto simp: UnloadInQueue_def)
next
  case True
  define m0 where "m0 = m\<lparr>m_pendingUnloadActionId := 0, m_isInstanceUnloading := True\<rparr>"
  obtain m1 ss where m1: "for_each_view (UninitViewInstanceInQueue 0) (m_viewHosts m) m0 = (m1, ss)" by fastforce
  have "views_step m0 m1"
    using for_each_view_step[of "UninitViewInstanceInQueue 0" m0 "m_viewHosts m", OF UninitView_step] m1 by simp
  note S = views_stepD(4,5,9)[OF this]
  have v1: "view_hosts m1 = (\<lambda>v. if v \<in> set (m_viewHosts m) then (view_hosts m v)\<lparr>m_isViewInstanceInited := False\<rparr>
      else view_hosts m v)"
  proof -
    have "view_hosts m0 = view_hosts m" "m_pendingUnloadActionId m0 = 0" by (simp_all add: m0_def)
    then show ?thesis using uninits_views[of m0 "m_viewHosts m"] c m1 by (auto simp: calm_views_def fun_eq_iff)
  qed
  have no: "\<not> m_isViewInstanceInited (view_hosts m1 v)" for v using c v1 by (auto simp: calm_views_def)
  have c1: "calm_views m1"
    using c S v1 no unfolding calm_views_def m0_def by auto
  show ?thesis
  proof (cases "all_completed ss")
    case None
    then have "m' = m1" "m_isInstanceUnloading m1" using u True m1 S by (auto simp: UnloadInQueue_def m0_def)
    then show ?thesis using c1 by simp
  next
    case (Some x)
    then have "(m', f) = after_uninit r m1" using u True m1 by (simp add: UnloadInQueue_def m0_def)
    then have "m' = fst (after_uninit r m1)" "f = snd (after_uninit r m1)" by (metis fst_conv, metis snd_conv)
    then show ?thesis using after_uninit_calm[OF c1 no] by simp
  qed
qed

lemma run_action_calm:
  assumes "instance_action a" and "calm_views m" and "m_stage m = None" and "\<And>options. a = LoadAction options \<Longrightarrow> unloaded m"
  shows "\<exists>m' f. run_action a m = Some (m', f) \<and> calm_views m' \<and>
    (\<forall>r ss. f = Wait (AwaitUninits r ss) \<longrightarrow> m_isInstanceUnloading m')"
proof (cases a)
  case (LoadAction options)
  then obtain m' f where "LoadInQueue options m = Some (m', f)" "calm_views m'" "\<forall>r ss. f \<noteq> Wait (AwaitUninits r ss)"
    using LoadInQueue_calm[OF assms(2,3)] assms(4) by blast
  then show ?thesis using LoadAction by simp
next
  case (UnloadAction r i)
  then show ?thesis
    using UnloadInQueue_calm[OF assms(2), of r i "fst (UnloadInQueue r i m)" "snd (UnloadInQueue r i m)"]
    by (cases "UnloadInQueue r i m") simp
qed (use assms(1) in simp_all)

lemma settle_calm:
  assumes "calm_views m" and "\<forall>r ss. f = Wait (AwaitUninits r ss) \<longrightarrow> m_isInstanceUnloading m"
    and "\<forall>x \<in> set (m_actions (m_actionQueue m)). instance_action (snd x)"
  shows "calm (settle (m, f))"
  using assms
  by (auto simp: calm_def unloading_flag_def settle_def calm_views_def FinishAction_def split: future.splits option.splits)

lemma start_action_calm:
  assumes c: "calm_views m" and s: "m_stage m = None" and a: "instance_action a"
    and acts: "\<forall>x \<in> set (m_actions q). instance_action (snd x)" and f: "facts ((t, a) # m_actions q) m"
  shows "\<exists>m'. start_action (q, Some (t, a)) m = Some m' \<and> calm m'"
proof -
  let ?m = "m\<lparr>m_actionQueue := q\<rparr>"
  have f': "facts ((t, a) # m_actions q) ?m" and s': "m_stage ?m = None" using f s by (simp_all add: facts_queue)
  have "unloaded ?m" if "a = LoadAction options" for options using f' that by (simp add: facts_def)
  moreover have "calm_views ?m" using c by (simp add: calm_views_def)
  ultimately obtain m' fu where m': "run_action a ?m = Some (m', fu)" "calm_views m'"
      "\<forall>r ss. fu = Wait (AwaitUninits r ss) \<longrightarrow> m_isInstanceUnloading m'"
    using run_action_calm[OF a _ s'] by blast
  have "m_actionQueue m' = q" using run_action_facts(2)[OF f' s' m'(1)] by simp
  then have "calm (settle (m', fu))" using settle_calm[OF m'(2,3)] acts by simp
  then show ?thesis using m'(1) by (simp add: start_action_def)
qed

lemma post_action_calm:
  assumes order: "aq.in_order (m_actionQueue m)" "m_stage m = None \<longleftrightarrow> current (m_actionQueue m) = None"
    and f: "\<And>t. facts (m_actions (m_actionQueue m) @ [(t, a)]) m" and c: "calm m" and a: "instance_action a"
  shows "\<exists>m'. post_action a m = Some m' \<and> calm m'"
proof -
  let ?q = "m_actionQueue m"
  have acts: "\<forall>x \<in> set (m_actions ?q). instance_action (snd x)" and views: "calm_views m" using c by (simp_all add: calm_def)
  obtain q e where p: "PostAction a ?q = (q, e)" by fastforce
  show ?thesis
  proof (cases "m_isInvoking ?q \<or> m_actions ?q \<noteq> []")
    case True
    note B = aq.post_busy[OF True p]
    have "post_action a m = Some (m\<lparr>m_actionQueue := q\<rparr>)" using p B by (simp add: post_action_def start_action_def)
    moreover have "calm (m\<lparr>m_actionQueue := q\<rparr>)"
      using c B a by (auto simp: calm_def calm_views_def unloading_flag_def)
    ultimately show ?thesis by simp
  next
    case False
    then have idle: "\<not> m_isInvoking ?q" "m_actions ?q = []" by simp_all
    note I = aq.post_idle[OF idle p]
    have "m_stage m = None" using order idle by (simp add: aq.in_order_def)
    then show ?thesis
      using start_action_calm[OF views _ a, of q "issued ?q"] I p f[of "issued ?q"] idle by (simp add: post_action_def)
  qed
qed

section \<open>Calls and progress\<close>

lemma unload_calm:
  assumes inv: "host_inv m" and c: "calm m" and make: "MakeUnloadInstanceAction r m = (m1, a)"
  shows "\<exists>m'. post_action a m1 = Some m' \<and> calm m'"
proof -
  let ?q = "m_actionQueue m" and ?i = "m_nextUnloadActionId m + 1"
  have m1: "m1 = m\<lparr>m_nextUnloadActionId := ?i, m_pendingUnloadActionId := ?i\<rparr>" "a = UnloadAction r ?i"
    using make by (auto simp: MakeUnloadInstanceAction_def Let_def)
  have order: "aq.in_order ?q" "m_stage m = None \<longleftrightarrow> current ?q = None" using inv by (simp_all add: host_inv_def)
  have "calm m1" using c by (simp add: m1 calm_def calm_views_def unloading_flag_def)
  then show ?thesis
    using post_action_calm[of m1 a] made_unload_facts[OF inv make] order by (simp add: m1)
qed

lemma load_calm:
  assumes inv: "host_inv m" and c: "calm m"
    and l: "\<And>t. loads_ok (unloaded m) (m_actions (m_actionQueue m) @ [(t, LoadAction options)])"
  shows "\<exists>m'. post_action (LoadAction options) m = Some m' \<and> calm m'"
  using post_action_calm[of m "LoadAction options"] inv c l by (simp add: host_inv_def facts_def ids_ok_def)

lemma Reload_calm:
  assumes inv: "host_inv m" and c: "calm m"
  shows "\<exists>m'. ReloadInstanceWithOptions options m = Some m' \<and> calm m'"
proof -
  obtain m1 a where m1: "MakeUnloadInstanceAction Unload m = (m1, a)" by fastforce
  obtain m2 where m2: "post_action a m1 = Some m2" "calm m2" using unload_calm[OF inv c m1] by blast
  obtain m3 where "post_action (LoadAction options) m2 = Some m3" "calm m3"
    using load_calm[OF post_unload(1)[OF inv m1 m2(1)] m2(2)] post_unload(4)[OF inv m1 m2(1)] by blast
  then show ?thesis using m1 m2(1) by (simp add: ReloadInstanceWithOptions_def)
qed

fun calm_call :: "host_call \<Rightarrow> bool" where
  "calm_call (ReloadViewCall v options) = False"
| "calm_call (UnloadViewCall v) = False"
| "calm_call c = True"

text \<open>A view is attached once and detached once.\<close>

fun paired_call :: "host_call \<Rightarrow> react_host \<Rightarrow> bool" where
  "paired_call (AttachCall v) m = (v \<notin> set (m_viewHosts m))"
| "paired_call (DetachCall v) m = (v \<in> set (m_viewHosts m))"
| "paired_call c m = True"

lemma Attach_calm:
  assumes c: "calm m" and v: "v \<notin> set (m_viewHosts m)"
  shows "\<exists>m'. AttachViewInstance v m = Some m' \<and> calm m'"
proof -
  let ?m = "(set_view v (\<lambda>w. w\<lparr>m_viewInstance := True\<rparr>) m)\<lparr>m_viewHosts := m_viewHosts m @ [v]\<rparr>"
  obtain m' r where m': "InitViewInstanceInQueue v ?m = (m', r)" by fastforce
  have "calm_views ?m" using c v by (auto simp: calm_def calm_views_def set_view_def)
  then have "calm_views m'" using InitView_calm(1) m' by blast
  moreover have "views_step ?m m'" using InitView_step[of ?m v] m' by simp
  note S = views_stepD[OF this]
  ultimately have "calm m'" using c S(1,2,9) by (simp add: calm_def unloading_flag_def set_view_def)
  moreover have "\<not> m_viewInstance (view_hosts m v)" using c v by (simp add: calm_def calm_views_def)
  ultimately show ?thesis using v m' by (simp add: AttachViewInstance_def)
qed

lemma Detach_calm:
  assumes c: "calm m" and v: "v \<in> set (m_viewHosts m)"
  shows "\<exists>m'. DetachViewInstance v m = Some m' \<and> calm m'"
proof -
  have "m_viewInstance (view_hosts m v)" "distinct (m_viewHosts m)" using c v by (simp_all add: calm_def calm_views_def)
  then show ?thesis
    using c v by (auto simp: DetachViewInstance_def calm_def calm_views_def unloading_flag_def set_view_def emit_def)
qed

lemma call_calm:
  assumes inv: "host_inv m" and c: "calm m" and k: "calm_call k" "paired_call k m"
  shows "\<exists>m'. perform k m = Some m' \<and> calm m'"
proof (cases k)
  case ReloadCall
  then show ?thesis using Reload_calm[OF inv c] by (simp add: ReloadInstance_def)
next
  case (ReloadWithCall options)
  then show ?thesis using Reload_calm[OF inv c] by simp
next
  case UnloadCall
  obtain m1 a where m1: "MakeUnloadInstanceAction Unload m = (m1, a)" by fastforce
  then show ?thesis using unload_calm[OF inv c m1] UnloadCall by (simp add: UnloadInstance_def)
next
  case CloseCall
  obtain m1 a where m1: "MakeUnloadInstanceAction CloseHost m = (m1, a)" by fastforce
  then obtain m2 where m2: "post_action a m1 = Some m2" "calm m2" using unload_calm[OF inv c m1] by blast
  have "calm (m2\<lparr>m_isClosed := True\<rparr>)" using m2(2) by (simp add: calm_def calm_views_def unloading_flag_def)
  then show ?thesis using m1 m2(1) CloseCall by (simp add: Close_def)
next
  case (AttachCall v)
  then show ?thesis using Attach_calm[OF c] k(2) by simp
next
  case (DetachCall v)
  then show ?thesis using Detach_calm[OF c] k(2) by simp
next
  case UpdateCall
  note S = views_stepD[OF for_each_view_step[of UpdateViewInstanceInQueue m "m_viewHosts m", OF UpdateView_step]]
  show ?thesis using c updates_calm[of m "m_viewHosts m"] S UpdateCall by (simp add: calm_def updateUI_def unloading_flag_def)
qed (use k in simp_all)

lemma progress_calm:
  assumes "progress m r" and inv: "host_inv m" and c: "calm m"
  shows "\<exists>m'. r = Some m' \<and> calm m'"
  using assms(1)
proof cases
  case next_action
  let ?q = "m_actionQueue m"
  have s: "m_stage m = None" using next_action inv by (simp add: host_inv_def)
  obtain q e where p: "NextAction ?q = (q, e)" by fastforce
  show ?thesis
  proof (cases "m_actions ?q")
    case Nil
    note N = aq.next_empty[OF Nil p]
    then show ?thesis
      using next_action(1) p c s by (simp add: start_action_def calm_def calm_views_def unloading_flag_def)
  next
    case (Cons x xs)
    note N = aq.next_entry[OF Cons p]
    obtain t a where x: "x = (t, a)" by fastforce
    show ?thesis
      using start_action_calm[of m a q t] next_action(1) inv c p N x s Cons by (simp add: host_inv_def calm_def)
  qed
next
  case (loaded val)
  have "calm_views (fst (after_load val m))" and "\<forall>r ss. snd (after_load val m) \<noteq> Wait (AwaitUninits r ss)"
    using updates_calm[of m "m_viewHosts m"] c by (auto simp: calm_def after_load_def split: prod.splits option.splits)
  moreover have "m_actionQueue (fst (after_load val m)) = m_actionQueue m"
    using after_load_facts(2)[OF _ loaded(2), of "m_actions (m_actionQueue m)"] inv by (simp add: host_inv_def)
  ultimately show ?thesis
    using loaded(1) settle_calm[of "fst (after_load val m)" "snd (after_load val m)"] c by (simp add: calm_def)
next
  case (updated ss i x ss')
  then show ?thesis
    using settle_calm[of m "case all_completed ss' of Some x \<Rightarrow> Done x | None \<Rightarrow> Wait (AwaitUpdates ss')"] c
    by (simp add: calm_def split: option.splits)
next
  case (uninited reason ss i x ss')
  have no: "\<not> m_isViewInstanceInited (view_hosts m v)" for v
    using c uninited(2) by (auto simp: calm_def unloading_flag_def calm_views_def)
  have views: "calm_views m" and acts: "\<forall>x \<in> set (m_actions (m_actionQueue m)). instance_action (snd x)"
    and flag: "m_isInstanceUnloading m"
    using c uninited(2) by (auto simp: calm_def unloading_flag_def)
  have "m_actionQueue (fst (after_uninit reason m)) = m_actionQueue m"
    by (simp add: after_uninit_def Let_def emit_def RemoveInspectorPage_def split: option.splits)
  then have "calm (settle (after_uninit reason m))"
    using settle_calm[of "fst (after_uninit reason m)" "snd (after_uninit reason m)"] after_uninit_calm[OF views no] acts by simp
  moreover have "calm (settle (m, Wait (AwaitUninits reason ss')))" using settle_calm[OF views _ acts] flag by simp
  ultimately show ?thesis using uninited(1) by (simp split: option.splits)
next
  case (destroyed k val)
  have "calm (settle (emit (InstanceDestroyed k) m, Done val))"
    using c by (intro settle_calm) (simp_all add: calm_def calm_views_def emit_def)
  then show ?thesis using destroyed(1) by simp
next
  case (view_done val)
  have "calm (settle (m, Done val))" using c by (intro settle_calm) (simp_all add: calm_def)
  then show ?thesis using view_done(1) by simp
qed

section \<open>Runs\<close>

text \<open>Runs in which no view is unloaded or reloaded on its own.\<close>

inductive calm_run :: "react_host \<Rightarrow> bool" where
  calm_new: "calm_run react_host_new"
| calm_call: "calm_run m \<Longrightarrow> calm_call c \<Longrightarrow> paired_call c m \<Longrightarrow> perform c m = Some m' \<Longrightarrow> calm_run m'"
| calm_progress: "calm_run m \<Longrightarrow> progress m (Some m') \<Longrightarrow> calm_run m'"

lemma calm_new_inv: "calm react_host_new"
  by (simp add: calm_def calm_views_def unloading_flag_def react_host_new_def action_queue_new_def view_host_new_def)

lemma calm_run_inv: "calm_run m \<Longrightarrow> host_inv m \<and> calm m"
proof (induction rule: calm_run.induct)
  case calm_new
  then show ?case using calm_new_inv host_inv_new by simp
next
  case (calm_call m c m')
  then show ?case using call_inv[of m c m'] call_calm[of m c] by auto
next
  case (calm_progress m m')
  then show ?case using progress_inv[of m "Some m'" m'] progress_calm[of m "Some m'"] by auto
qed

fun calm_moves :: "move list \<Rightarrow> react_host \<Rightarrow> bool" where
  "calm_moves [] m = True"
| "calm_moves (v # vs) m = ((case v of CallMove c \<Rightarrow> calm_call c \<and> paired_call c m | _ \<Rightarrow> True) \<and>
     (case do_move v m of Some (Some m1) \<Rightarrow> calm_moves vs m1 | _ \<Rightarrow> False))"

lemma calm_script: "calm_run m \<Longrightarrow> script vs m = Some m' \<Longrightarrow> calm_moves vs m \<Longrightarrow> calm_run m'"
proof (induction vs arbitrary: m)
  case (Cons v vs)
  then obtain m1 where m1: "do_move v m = Some (Some m1)" "script vs m1 = Some m'" by (auto split: option.splits)
  have "calm_run m1"
    using do_move_progress[OF m1(1)]
  proof
    assume "\<exists>c. v = CallMove c \<and> perform c m = Some m1"
    then obtain c where c: "v = CallMove c" "perform c m = Some m1" by blast
    then have "calm_call c" "paired_call c m" using Cons.prems(3) by simp_all
    then show ?thesis using calm_run.calm_call[OF Cons.prems(1) _ _ c(2)] by simp
  next
    assume "progress m (Some m1)"
    then show ?thesis by (rule calm_run.calm_progress[OF Cons.prems(1)])
  qed
  then show ?case using Cons.IH[OF _ m1(2)] Cons.prems(3) m1(1) by simp
qed simp

text \<open>
  C24: When views are only attached and detached, each once, no call and no continuation of the React
  host crashes, on every interleaving of reloads, unloads, closing and completions; a view is
  initialized only while it is attached and the host has an instance.
\<close>

theorem calm_host_never_crashes:
  assumes "calm_run m"
  shows "(\<forall>r. progress m r \<longrightarrow> r \<noteq> None) \<and> (\<forall>c. calm_call c \<and> paired_call c m \<longrightarrow> perform c m \<noteq> None) \<and>
    (\<forall>v. m_isViewInstanceInited (view_hosts m v) \<longrightarrow> v \<in> set (m_viewHosts m) \<and> m_reactInstance m \<noteq> None)"
proof -
  have inv: "host_inv m" and c: "calm m" using calm_run_inv[OF assms] by simp_all
  have "r \<noteq> None" if "progress m r" for r using progress_calm[OF that inv c] by auto
  moreover have "perform k m \<noteq> None" if "calm_call k" "paired_call k m" for k using call_calm[OF inv c that] by auto
  moreover have "v \<in> set (m_viewHosts m) \<and> m_reactInstance m \<noteq> None" if "m_isViewInstanceInited (view_hosts m v)" for v
    using c that by (simp add: calm_def calm_views_def)
  ultimately show ?thesis by blast
qed

theorem calm_host_never_crashes_witness:
  "m_isViewInstanceInited (view_hosts (run_of load_moves) 1) \<and> m_reactInstance (run_of load_moves) \<noteq> None \<and>
   ReloadInstance (run_of load_moves) \<noteq> None"
proof -
  have c: "(case script load_moves react_host_new of None \<Rightarrow> False | Some m \<Rightarrow> True)" "calm_moves load_moves react_host_new"
    "m_isViewInstanceInited (view_hosts (run_of load_moves) 1)" by code_simp+
  then have "script load_moves react_host_new = Some (run_of load_moves)"
    by (auto simp: run_of_def split: option.splits)
  from calm_host_never_crashes[OF calm_script[OF calm_new this c(2)]] c(3)
  show ?thesis by (metis perform.simps(1) calm_call.simps(3) paired_call.simps(3))
qed

end
