(* ===== verification/Blobs.thy ===== *)
theory Blobs
  imports RedirectFilter
begin

text \<open>
  Blobs: bytes that JavaScript refers to by an identifier (\<^verbatim>\<open>Shared/Networking/DefaultBlobResource.cpp\<close>,
  \<^verbatim>\<open>Shared/BaseFileReaderResource.cpp\<close>), their use in socket messages and request bodies
  (\<^verbatim>\<open>WinRTHttpResource::CreateRequest\<close>), and the module that reads them. The generator of identifiers and
  the groups of base64 digits are third-party code and arguments.
\<close>

section \<open>The store of blobs\<close>

type_synonym byte = "8 word"

record blob_persistor =
  m_blobs :: "(string \<times> byte list) list"
  m_guidGenerator :: nat

definition blob_persistor_new :: blob_persistor where
  "blob_persistor_new = \<lparr>m_blobs = [], m_guidGenerator = 0\<rparr>"

text \<open>What is thrown, and what the blob resource reports.\<close>

datatype blob_error = BlobNotFound | BlobRange | MissingKey | InvalidType string

text \<open>The sum of two signed integers is undefined when it overflows.\<close>

definition int64_sum :: "int64 \<Rightarrow> int64 \<Rightarrow> int64 option" where
  "int64_sum a b = (if - (2 ^ 63) \<le> sint a + sint b \<and> sint a + sint b < 2 ^ 63 then Some (a + b) else None)"

definition ResolveMessage :: "string \<Rightarrow> int64 \<Rightarrow> int64 \<Rightarrow> blob_persistor \<Rightarrow> (blob_error + byte list) option" where
  "ResolveMessage blobId offset len p =
     (if sint len < 1 then Some (Inr [])
      else (case map_of (m_blobs p) blobId of
          None \<Rightarrow> Some (Inl BlobNotFound)
        | Some bytes \<Rightarrow> (case int64_sum offset len of
            None \<Rightarrow> None
          | Some endBound \<Rightarrow>
              if unat endBound > length bytes \<or> sint (of_nat (length bytes) :: int64) \<le> sint offset \<or> sint offset < 0
              then Some (Inl BlobRange)
              else Some (Inr (drop (unat offset) (take (unat endBound) bytes))))))"

definition RemoveMessage :: "string \<Rightarrow> blob_persistor \<Rightarrow> blob_persistor" where
  "RemoveMessage blobId p = p\<lparr>m_blobs := erase_key blobId (m_blobs p)\<rparr>"

definition StoreMessage_as :: "byte list \<Rightarrow> string \<Rightarrow> blob_persistor \<Rightarrow> blob_persistor" where
  "StoreMessage_as message blobId p = p\<lparr>m_blobs := insert_or_assign blobId message (m_blobs p)\<rparr>"

definition StoreMessage :: "(nat \<Rightarrow> string) \<Rightarrow> byte list \<Rightarrow> blob_persistor \<Rightarrow> string \<times> blob_persistor" where
  "StoreMessage guid message p =
     (let blobId = guid (m_guidGenerator p)
      in (blobId, p\<lparr>m_guidGenerator := m_guidGenerator p + 1, m_blobs := insert_or_assign blobId message (m_blobs p)\<rparr>))"

section \<open>Handlers of messages and bodies\<close>

text \<open>The handlers of socket messages; \<open>m_socketIds\<close> are the sockets whose messages become blobs.\<close>

definition text_message :: "string \<Rightarrow> JSValueObject \<Rightarrow> JSValueObject" where
  "text_message message params = insert_or_assign ''data'' (String message) params"

definition binary_message :: "(nat \<Rightarrow> string) \<Rightarrow> byte list \<Rightarrow> JSValueObject \<Rightarrow> blob_persistor \<Rightarrow> JSValueObject \<times> blob_persistor" where
  "binary_message guid message params p =
     (case StoreMessage guid message p of (blobId, p1) \<Rightarrow>
        let blob = make_object [] [(''offset'', Int64 0), (''size'', Int64 (of_nat (length message))), (''blobId'', String blobId)]
        in (insert_or_assign ''type'' (String ''blob'') (insert_or_assign ''data'' (Object blob) params), p1))"

definition CanHandleSocket :: "int64 \<Rightarrow> int64 list \<Rightarrow> bool" where
  "CanHandleSocket socketId ids \<longleftrightarrow> socketId \<in> set ids"

definition Register :: "int64 \<Rightarrow> int64 list \<Rightarrow> int64 list" where
  "Register socketID ids = List.insert socketID ids"

definition Unregister :: "int64 \<Rightarrow> int64 list \<Rightarrow> int64 list" where
  "Unregister socketID ids = removeAll socketID ids"

definition TryProcessMessage_text :: "int64 list \<Rightarrow> int64 \<Rightarrow> string \<Rightarrow> JSValueObject \<Rightarrow> bool \<times> JSValueObject" where
  "TryProcessMessage_text ids socketId message params =
     (if socketId \<notin> set ids then (False, params) else (True, text_message message params))"

definition TryProcessMessage_binary ::
  "(nat \<Rightarrow> string) \<Rightarrow> int64 list \<Rightarrow> int64 \<Rightarrow> byte list \<Rightarrow> JSValueObject \<Rightarrow> blob_persistor \<Rightarrow> bool \<times> JSValueObject \<times> blob_persistor" where
  "TryProcessMessage_binary guid ids socketId message params p =
     (if socketId \<notin> set ids then (False, params, p) else (True, binary_message guid message params p))"

text \<open>The message handler of the socket module; \<open>decode\<close> is the system's base64 decoder.\<close>

definition OnMessage ::
  "(nat \<Rightarrow> string) \<Rightarrow> (string \<Rightarrow> byte list) \<Rightarrow> int64 list option \<Rightarrow> int64 \<Rightarrow> string \<Rightarrow> bool \<Rightarrow> blob_persistor \<Rightarrow>
    JSValueObject \<times> blob_persistor" where
  "OnMessage guid decode contentHandler socket message isBinary p =
     (let args = make_object [] [(''id'', Int64 socket), (''type'', String (if isBinary then ''binary'' else ''text''))];
          (handled, args1, p1) = (case contentHandler of None \<Rightarrow> (False, args, p)
            | Some ids \<Rightarrow> if isBinary then TryProcessMessage_binary guid ids socket (decode message) args p
                else (case TryProcessMessage_text ids socket message args of (h, a) \<Rightarrow> (h, a, p)))
      in (if handled then args1 else insert_or_assign ''data'' (String message) args1, p1))"

section \<open>Request bodies\<close>

definition Supports :: "JSValueObject \<Rightarrow> bool" where
  "Supports data \<longleftrightarrow> (case map_of data ''blob'' of None \<Rightarrow> False | Some v \<Rightarrow> AsString v \<noteq> [])"

definition ToRequestBody :: "JSValueObject \<Rightarrow> string \<Rightarrow> blob_persistor \<Rightarrow> (blob_error + JSValueObject) option" where
  "ToRequestBody data contentType p =
     (let type1 = (case map_of data ''type'' of None \<Rightarrow> contentType | Some v \<Rightarrow> if AsString v \<noteq> [] then AsString v else contentType);
          type = (if type1 = [] then ''application/octet-stream'' else type1);
          blob = AsObject (fst (object_at data ''blob''))
      in case (AsInt64 (object_at_const blob ''offset''), AsInt64 (object_at_const blob ''size'')) of
           (Some offset, Some len) \<Rightarrow> (case ResolveMessage (AsString (object_at_const blob ''blobId'')) offset len p of
               None \<Rightarrow> None
             | Some (Inl e) \<Rightarrow> Some (Inl e)
             | Some (Inr bytes) \<Rightarrow> Some (Inr (make_object []
                 [(''type'', String type), (''size'', Int64 (of_nat (length bytes))),
                  (''bytes'', Array (map (\<lambda>b. Int64 (ucast b)) bytes))])))
         | _ \<Rightarrow> None)"

definition response_Supports :: "string \<Rightarrow> bool" where
  "response_Supports responseType \<longleftrightarrow> ''blob'' = responseType"

definition ToResponseData :: "(nat \<Rightarrow> string) \<Rightarrow> byte list \<Rightarrow> blob_persistor \<Rightarrow> JSValueObject \<times> blob_persistor" where
  "ToResponseData guid content p = (case StoreMessage guid content p of (blobId, p1) \<Rightarrow>
     (make_object [] [(''offset'', Int64 0), (''size'', Int64 (of_nat (length content))), (''blobId'', String blobId)], p1))"

text \<open>
  The content of a request, or an exception of the store. Strings, base64 digits and the addresses of
  files are kept as they are; the files are not modelled.
\<close>

datatype body_content =
    NoContent
  | BufferContent "byte list"
  | StringContent string
  | Base64Content string
  | FileContent string
  | FormContent "(string \<times> body_content \<times> JSValueObject) list"

fun form_parts :: "JSValue list \<Rightarrow> (string \<times> body_content \<times> JSValueObject) list" where
  "form_parts [] = []"
| "form_parts (v # vs) =
     (let part = AsObject v;
          content = (if \<not> IsNull (object_at_const part ''string'') then StringContent (AsString (object_at_const part ''string''))
            else if \<not> IsNull (object_at_const part ''uri'') then FileContent (AsString (object_at_const part ''uri''))
            else NoContent)
      in (if content = NoContent then []
          else [(AsString (object_at_const part ''fieldName''), content, AsObject (object_at_const part ''headers''))]) @ form_parts vs)"

definition data_at :: "JSValueObject \<Rightarrow> string \<Rightarrow> JSValue" where
  "data_at data k = fst (object_at data k)"

definition request_content :: "bool \<Rightarrow> JSValueObject \<Rightarrow> string \<Rightarrow> blob_persistor \<Rightarrow> (blob_error + body_content) option" where
  "request_content bodyHandler data contentType p =
     (if data = [] then Some (Inr NoContent)
      else if bodyHandler \<and> Supports data then
        (case ToRequestBody data contentType p of
           None \<Rightarrow> None
         | Some (Inl e) \<Rightarrow> Some (Inl e)
         | Some (Inr blob) \<Rightarrow> map_option (\<lambda>bytes. Inr (BufferContent (blob_body bytes)))
             (those (map AsUInt8 (AsArray (object_at_const blob ''bytes'')))))
      else if map_of data ''string'' \<noteq> None then Some (Inr (StringContent (AsString (data_at data ''string''))))
      else if map_of data ''base64'' \<noteq> None then Some (Inr (Base64Content (AsString (data_at data ''base64''))))
      else if map_of data ''uri'' \<noteq> None then Some (Inr (FileContent (AsString (data_at data ''uri''))))
      else if map_of data ''formData'' \<noteq> None then Some (Inr (FormContent (form_parts (AsArray (data_at data ''formData'')))))
      else Some (Inr NoContent))"

section \<open>The blob resource\<close>

record blob_resource =
  m_blobPersistor :: blob_persistor
  m_socketIds :: "int64 list"
  blob_errors :: "blob_error list"
  socket_sent :: "(string \<times> int64) list"

definition blob_resource_new :: blob_resource where
  "blob_resource_new = \<lparr>m_blobPersistor = blob_persistor_new, m_socketIds = [], blob_errors = [], socket_sent = []\<rparr>"

definition OnError :: "blob_error \<Rightarrow> blob_resource \<Rightarrow> blob_resource" where
  "OnError e r = r\<lparr>blob_errors := blob_errors r @ [e]\<rparr>"

text \<open>\<open>groups\<close> are the base64 digits of a text, without the padding.\<close>

definition EncodeBase64 :: "(byte list \<Rightarrow> string) \<Rightarrow> byte list \<Rightarrow> string" where
  "EncodeBase64 groups text = (let s = groups text in s @ replicate ((4 - length s mod 4) mod 4) (CHR ''=''))"

definition SendOverSocket :: "(byte list \<Rightarrow> string) \<Rightarrow> bool \<Rightarrow> string \<Rightarrow> int64 \<Rightarrow> int64 \<Rightarrow> int64 \<Rightarrow> blob_resource \<Rightarrow> blob_resource option" where
  "SendOverSocket groups wsProxy blobId offset len socketId r =
     (if \<not> wsProxy then Some r
      else (case ResolveMessage blobId offset len (m_blobPersistor r) of
          None \<Rightarrow> None
        | Some (Inl e) \<Rightarrow> Some (OnError e r)
        | Some (Inr bytes) \<Rightarrow> Some (r\<lparr>socket_sent := socket_sent r @ [(EncodeBase64 groups bytes, socketId)]\<rparr>)))"

definition blob_bytes :: "string \<Rightarrow> byte list" where
  "blob_bytes s = map of_char s"

text \<open>
  The bytes of the parts. \<open>at\<close> throws for a missing key: outside of the handler that ends the process
  (\<open>None\<close>), inside it is reported.
\<close>

fun collect_parts :: "blob_persistor \<Rightarrow> JSValue list \<Rightarrow> byte list \<Rightarrow> (blob_error + byte list) option" where
  "collect_parts p [] buffer = Some (Inr buffer)"
| "collect_parts p (v # vs) buffer =
     (let part = AsObject v
      in case map_of part ''type'' of
           None \<Rightarrow> None
         | Some t \<Rightarrow>
             if AsString t = ''blob'' then
               (case map_of part ''data'' of
                  None \<Rightarrow> None
                | Some d \<Rightarrow>
                    (case (map_of (AsObject d) ''blobId'', map_of (AsObject d) ''offset'', map_of (AsObject d) ''size'') of
                       (Some i, Some off, Some n) \<Rightarrow>
                         (case (AsInt64 off, AsInt64 n) of
                            (Some offset, Some len) \<Rightarrow>
                              (case ResolveMessage (AsString i) offset len p of
                                 None \<Rightarrow> None
                               | Some (Inl e) \<Rightarrow> Some (Inl e)
                               | Some (Inr bytes) \<Rightarrow> collect_parts p vs (buffer @ bytes))
                          | _ \<Rightarrow> None)
                     | _ \<Rightarrow> Some (Inl MissingKey)))
             else if AsString t = ''string'' then
               (case map_of part ''data'' of
                  None \<Rightarrow> None
                | Some d \<Rightarrow> collect_parts p vs (buffer @ blob_bytes (AsString d)))
             else Some (Inl (InvalidType (AsString t))))"

definition CreateFromParts :: "JSValueArray \<Rightarrow> string \<Rightarrow> blob_resource \<Rightarrow> blob_resource option" where
  "CreateFromParts parts blobId r =
     (case collect_parts (m_blobPersistor r) parts [] of
        None \<Rightarrow> None
      | Some (Inl e) \<Rightarrow> Some (OnError e r)
      | Some (Inr buffer) \<Rightarrow> Some (r\<lparr>m_blobPersistor := StoreMessage_as buffer blobId (m_blobPersistor r)\<rparr>))"

definition Release_blob :: "string \<Rightarrow> blob_resource \<Rightarrow> blob_resource" where
  "Release_blob blobId r = r\<lparr>m_blobPersistor := RemoveMessage blobId (m_blobPersistor r)\<rparr>"

definition AddWebSocketHandler :: "int64 \<Rightarrow> blob_resource \<Rightarrow> blob_resource" where
  "AddWebSocketHandler socket r = r\<lparr>m_socketIds := Register socket (m_socketIds r)\<rparr>"

definition RemoveWebSocketHandler :: "int64 \<Rightarrow> blob_resource \<Rightarrow> blob_resource" where
  "RemoveWebSocketHandler socket r = r\<lparr>m_socketIds := Unregister socket (m_socketIds r)\<rparr>"

section \<open>Reading blobs\<close>

datatype 'a promise_call = Resolve 'a | Reject 'a

datatype reader_text = Bytes "byte list" | DataUrl string | NoPersistor | ReadError blob_error

definition ReadAsText :: "blob_persistor option \<Rightarrow> string \<Rightarrow> int64 \<Rightarrow> int64 \<Rightarrow> reader_text promise_call option" where
  "ReadAsText persistor blobId offset len =
     (case persistor of
        None \<Rightarrow> Some (Resolve NoPersistor)
      | Some p \<Rightarrow> (case ResolveMessage blobId offset len p of
          None \<Rightarrow> None
        | Some (Inl e) \<Rightarrow> Some (Reject (ReadError e))
        | Some (Inr bytes) \<Rightarrow> Some (Resolve (Bytes bytes))))"

definition ReadAsDataUrl ::
  "(byte list \<Rightarrow> string) \<Rightarrow> blob_persistor option \<Rightarrow> string \<Rightarrow> int64 \<Rightarrow> int64 \<Rightarrow> string \<Rightarrow> reader_text promise_call option" where
  "ReadAsDataUrl groups persistor blobId offset len type =
     (case persistor of
        None \<Rightarrow> Some (Reject NoPersistor)
      | Some p \<Rightarrow> (case ResolveMessage blobId offset len p of
          None \<Rightarrow> None
        | Some (Inl e) \<Rightarrow> Some (Reject (ReadError e))
        | Some (Inr bytes) \<Rightarrow> Some (Resolve (DataUrl (''data:'' @ type @ '';base64,'' @ EncodeBase64 groups bytes)))))"

definition module_ReadAsText :: "blob_persistor option \<Rightarrow> JSValue \<Rightarrow> reader_text promise_call option" where
  "module_ReadAsText persistor data =
     (let blob = AsObject data
      in case (AsInt64 (object_at_const blob ''offset''), AsInt64 (object_at_const blob ''size'')) of
           (Some offset, Some len) \<Rightarrow> ReadAsText persistor (AsString (object_at_const blob ''blobId'')) offset len
         | _ \<Rightarrow> None)"

definition module_ReadAsDataUrl :: "(byte list \<Rightarrow> string) \<Rightarrow> blob_persistor option \<Rightarrow> JSValue \<Rightarrow> reader_text promise_call option" where
  "module_ReadAsDataUrl groups persistor data =
     (let blob = AsObject data
      in case (AsInt64 (object_at_const blob ''offset''), AsInt64 (object_at_const blob ''size'')) of
           (Some offset, Some len) \<Rightarrow>
             ReadAsDataUrl groups persistor (AsString (object_at_const blob ''blobId'')) offset len
               (case map_of blob ''type'' of None \<Rightarrow> ''application/octet-stream'' | Some t \<Rightarrow> AsString t)
         | _ \<Rightarrow> None)"

section \<open>Resolving\<close>

lemma uint_nonneg: "0 \<le> sint (x :: int64) \<Longrightarrow> uint x = sint x"
  using sint_lt [of x] by (simp add: uint_sint take_bit_int_eq_self)

lemma unat_nonneg: "0 \<le> sint (x :: int64) \<Longrightarrow> unat x = nat (sint x)"
  by (metis nat_uint_eq uint_nonneg)

lemma unat_negative:
  assumes "sint (x :: int64) < 0"
  shows "2 ^ 63 \<le> unat x"
proof -
  have low: "- (2 ^ 63) \<le> sint x" using sint_ge [of x] by simp
  have "uint x = (sint x + 2 ^ 64) mod 2 ^ 64" by (simp add: uint_sint take_bit_eq_mod)
  also have "\<dots> = sint x + 2 ^ 64" using assms low by (intro mod_pos_pos_trivial) simp_all
  finally have "2 ^ 63 \<le> uint x" using low by simp
  then show ?thesis by (simp add: le_nat_iff flip: nat_uint_eq)
qed

lemma sint_of_nat: "n < 2 ^ 63 \<Longrightarrow> sint (of_nat n :: int64) = int n"
  by (simp add: sint_uint unsigned_of_nat take_bit_nat_eq_self signed_take_bit_int_eq_self)

lemma sint_sum: "int64_sum a b = Some c \<Longrightarrow> sint c = sint a + sint b"
  by (auto simp: int64_sum_def sint_word_add signed_take_bit_int_eq_self split: if_splits)

text \<open>A store holds one entry per identifier, and no blob is longer than the machine can address.\<close>

definition blobs_ok :: "blob_persistor \<Rightarrow> bool" where
  "blobs_ok p \<longleftrightarrow> smap (m_blobs p) \<and> (\<forall>x \<in> set (m_blobs p). length (snd x) < 2 ^ 63)"

definition blob_slice :: "int64 \<Rightarrow> int64 \<Rightarrow> byte list \<Rightarrow> byte list" where
  "blob_slice offset len bytes = take (nat (sint len)) (drop (nat (sint offset)) bytes)"

lemma resolve_small: "sint len < 1 \<Longrightarrow> ResolveMessage i offset len p = Some (Inr [])"
  by (simp add: ResolveMessage_def)

lemma resolve_found:
  assumes "blobs_ok p" and "map_of (m_blobs p) i = Some bytes" and "1 \<le> sint len"
  shows "ResolveMessage i offset len p =
    (if 2 ^ 63 \<le> sint offset + sint len then None
     else if 0 \<le> sint offset \<and> sint offset + sint len \<le> int (length bytes) then Some (Inr (blob_slice offset len bytes))
     else Some (Inl BlobRange))"
proof (cases "2 ^ 63 \<le> sint offset + sint len")
  case True
  then show ?thesis using assms(2,3) by (simp add: ResolveMessage_def int64_sum_def)
next
  case False
  have n: "length bytes < 2 ^ 63" using assms(1,2) by (force simp: blobs_ok_def dest: map_of_SomeD)
  have "- (2 ^ 63) \<le> sint offset" using sint_ge [of offset] by simp
  then obtain e where e: "int64_sum offset len = Some e" using False assms(3) by (simp add: int64_sum_def)
  note E = sint_sum [OF e]
  show ?thesis
  proof (cases "0 \<le> sint offset \<and> sint offset + sint len \<le> int (length bytes)")
    case True
    then have "unat e = nat (sint offset + sint len)" "unat offset = nat (sint offset)"
      using unat_nonneg [of e] unat_nonneg [of offset] E assms(3) by simp_all
    moreover have "drop (nat (sint offset)) (take (nat (sint offset + sint len)) bytes) = blob_slice offset len bytes"
      using True assms(3) by (simp add: blob_slice_def drop_take nat_add_distrib)
    moreover have "\<not> sint (of_nat (length bytes) :: int64) \<le> sint offset"
      using True assms(3) sint_of_nat [OF n] by simp
    ultimately show ?thesis
      using True False assms(2,3) e by (simp add: ResolveMessage_def not_less nat_le_iff)
  next
    case out: False
    have "unat e > length bytes \<or> sint offset < 0"
    proof (cases "0 \<le> sint offset")
      case True
      then have "unat e = nat (sint offset + sint len)" using unat_nonneg [of e] E assms(3) by simp
      then show ?thesis using out True by (simp add: nat_less_iff zless_nat_eq_int_zless)
    qed simp
    then show ?thesis using False out assms(2,3) e by (auto simp: ResolveMessage_def)
  qed
qed

lemma map_of_StoreMessage_as [simp]:
  "blobs_ok p \<Longrightarrow> map_of (m_blobs (StoreMessage_as b i p)) = (map_of (m_blobs p))(i \<mapsto> b)"
  by (simp add: StoreMessage_as_def blobs_ok_def map_of_insert_or_assign)

lemma map_of_StoreMessage:
  "blobs_ok p \<Longrightarrow> StoreMessage guid b p = (i, p') \<Longrightarrow> i = guid (m_guidGenerator p) \<and> map_of (m_blobs p') = (map_of (m_blobs p))(i \<mapsto> b)"
  by (auto simp: StoreMessage_def blobs_ok_def map_of_insert_or_assign Let_def)

lemma map_of_RemoveMessage [simp]: "map_of (m_blobs (RemoveMessage i p)) = (map_of (m_blobs p))(i := None)"
  by (simp add: RemoveMessage_def map_of_erase_key)

lemma set_insert_or_assign: "set (insert_or_assign k v ps) \<subseteq> insert (k, v) (set ps)"
  by (induction k v ps rule: insert_or_assign.induct) auto

lemma blobs_ok_store [intro]:
  assumes "blobs_ok p" and "length b < 2 ^ 63"
  shows "blobs_ok (StoreMessage_as b i p)" and "StoreMessage guid b p = (j, p') \<Longrightarrow> blobs_ok p'"
  using assms set_insert_or_assign [of i b "m_blobs p"] set_insert_or_assign [of "guid (m_guidGenerator p)" b "m_blobs p"]
  by (fastforce simp: blobs_ok_def StoreMessage_as_def StoreMessage_def Let_def)+

lemma blobs_ok_remove [intro]: "blobs_ok p \<Longrightarrow> blobs_ok (RemoveMessage i p)"
  by (auto simp: blobs_ok_def RemoveMessage_def erase_key_def intro: smap_erase_key [unfolded erase_key_def])

lemma blobs_ok_new [simp]: "blobs_ok blob_persistor_new"
  by (simp add: blobs_ok_def blob_persistor_new_def)

section \<open>The contract of a store\<close>

text \<open>The interface \<^verbatim>\<open>IBlobPersistor\<close>, seen as a map from identifiers to bytes.\<close>

locale blob_store =
  fixes ok :: "'p \<Rightarrow> bool"
    and blobs :: "'p \<Rightarrow> string \<Rightarrow> byte list option"
    and resolve :: "string \<Rightarrow> int64 \<Rightarrow> int64 \<Rightarrow> 'p \<Rightarrow> (blob_error + byte list) option"
    and remove :: "string \<Rightarrow> 'p \<Rightarrow> 'p"
    and store_as :: "byte list \<Rightarrow> string \<Rightarrow> 'p \<Rightarrow> 'p"
    and store :: "byte list \<Rightarrow> 'p \<Rightarrow> string \<times> 'p"
  assumes small: "sint len < 1 \<Longrightarrow> resolve i offset len p = Some (Inr [])"
    and missing: "1 \<le> sint len \<Longrightarrow> blobs p i = None \<Longrightarrow> resolve i offset len p = Some (Inl BlobNotFound)"
    and found: "ok p \<Longrightarrow> blobs p i = Some bytes \<Longrightarrow> 1 \<le> sint len \<Longrightarrow> sint offset + sint len < 2 ^ 63 \<Longrightarrow>
      resolve i offset len p = (if 0 \<le> sint offset \<and> sint offset + sint len \<le> int (length bytes)
        then Some (Inr (blob_slice offset len bytes)) else Some (Inl BlobRange))"
    and blobs_remove: "ok p \<Longrightarrow> blobs (remove i p) = (blobs p)(i := None) \<and> ok (remove i p)"
    and blobs_store_as: "ok p \<Longrightarrow> length b < 2 ^ 63 \<Longrightarrow> blobs (store_as b i p) = (blobs p)(i \<mapsto> b) \<and> ok (store_as b i p)"
    and blobs_store: "ok p \<Longrightarrow> length b < 2 ^ 63 \<Longrightarrow> store b p = (i, p') \<Longrightarrow> blobs p' = (blobs p)(i \<mapsto> b) \<and> ok p'"
begin

lemma resolve_slice:
  assumes "ok p" and "blobs p i = Some b" and "length b < 2 ^ 63" and "0 \<le> sint offset"
    and "sint offset + sint len \<le> int (length b)"
  shows "resolve i offset len p = Some (Inr (blob_slice offset len b))"
proof (cases "sint len < 1")
  case True
  then show ?thesis by (simp add: small blob_slice_def)
next
  case False
  then show ?thesis using found [OF assms(1,2), of len offset] assms(3-5) by simp
qed

lemma resolve_whole:
  assumes "ok p" and "blobs p i = Some b" and "length b < 2 ^ 63"
  shows "resolve i 0 (of_nat (length b)) p = Some (Inr b)"
  using resolve_slice [OF assms, of 0 "of_nat (length b)"] sint_of_nat [OF assms(3)] by (simp add: blob_slice_def)

lemma removed: "ok p \<Longrightarrow> 1 \<le> sint len \<Longrightarrow> resolve i offset len (remove i p) = Some (Inl BlobNotFound)"
  by (simp add: blobs_remove missing)

end

interpretation memory: blob_store blobs_ok "\<lambda>p. map_of (m_blobs p)" ResolveMessage RemoveMessage StoreMessage_as "StoreMessage guid"
  for guid :: "nat \<Rightarrow> string"
proof unfold_locales
  show "ResolveMessage i offset len p = Some (Inr [])" if "sint len < 1" for i offset len p
    using that by (rule resolve_small)
  show "ResolveMessage i offset len p = Some (Inl BlobNotFound)" if "1 \<le> sint len" "map_of (m_blobs p) i = None" for i offset len p
    using that by (simp add: ResolveMessage_def)
  show "ResolveMessage i offset len p = (if 0 \<le> sint offset \<and> sint offset + sint len \<le> int (length bytes)
      then Some (Inr (blob_slice offset len bytes)) else Some (Inl BlobRange))"
    if "blobs_ok p" "map_of (m_blobs p) i = Some bytes" "1 \<le> sint len" "sint offset + sint len < 2 ^ 63" for i offset len p bytes
    using resolve_found [OF that(1-3), of offset] that(4) by simp
  show "map_of (m_blobs (RemoveMessage i p)) = (map_of (m_blobs p))(i := None) \<and> blobs_ok (RemoveMessage i p)"
    if "blobs_ok p" for p i
    using that by auto
  show "map_of (m_blobs (StoreMessage_as b i p)) = (map_of (m_blobs p))(i \<mapsto> b) \<and> blobs_ok (StoreMessage_as b i p)"
    if "blobs_ok p" "length b < 2 ^ 63" for p b i
    using that by auto
  show "map_of (m_blobs p') = (map_of (m_blobs p))(i \<mapsto> b) \<and> blobs_ok p'"
    if "blobs_ok p" "length b < 2 ^ 63" "StoreMessage guid b p = (i, p')" for p b i p'
    using map_of_StoreMessage [OF that(1,3)] blobs_ok_store(2) [OF that] by simp
qed

section \<open>Blobs made of parts\<close>

text \<open>A part as JavaScript makes it, and the bytes it stands for.\<close>

datatype blob_part = TextPart string | BlobPart string int64 int64

fun part_value :: "blob_part \<Rightarrow> JSValue" where
  "part_value (TextPart t) = Object (make_object [] [(''type'', String ''string''), (''data'', String t)])"
| "part_value (BlobPart i offset len) = Object (make_object [] [(''type'', String ''blob''),
     (''data'', Object (make_object [] [(''blobId'', String i), (''offset'', Int64 offset), (''size'', Int64 len)]))])"

fun part_bytes :: "(string \<Rightarrow> byte list option) \<Rightarrow> blob_part \<Rightarrow> blob_error + byte list" where
  "part_bytes m (TextPart t) = Inr (blob_bytes t)"
| "part_bytes m (BlobPart i offset len) =
     (if sint len < 1 then Inr []
      else (case m i of
          None \<Rightarrow> Inl BlobNotFound
        | Some b \<Rightarrow> if 0 \<le> sint offset \<and> sint offset + sint len \<le> int (length b) then Inr (blob_slice offset len b) else Inl BlobRange))"

fun concat_parts :: "(string \<Rightarrow> byte list option) \<Rightarrow> blob_part list \<Rightarrow> blob_error + byte list" where
  "concat_parts m [] = Inr []"
| "concat_parts m (x # xs) = (case part_bytes m x of Inl e \<Rightarrow> Inl e
     | Inr b \<Rightarrow> (case concat_parts m xs of Inl e \<Rightarrow> Inl e | Inr c \<Rightarrow> Inr (b @ c)))"

fun no_overflow :: "blob_part \<Rightarrow> bool" where
  "no_overflow (TextPart t) = True"
| "no_overflow (BlobPart i offset len) = (sint offset + sint len < 2 ^ 63)"

lemma AsObject_Object [simp]: "AsObject (Object ps) = ps"
  by (simp add: AsObject_def)

lemma resolve_part:
  assumes "blobs_ok p" and "sint offset + sint len < 2 ^ 63"
  shows "ResolveMessage i offset len p = Some (part_bytes (map_of (m_blobs p)) (BlobPart i offset len))"
proof (cases "sint len < 1")
  case True
  then show ?thesis by (simp add: resolve_small)
next
  case False
  then show ?thesis
    using memory.missing [of len p i offset] memory.found [OF assms(1) _ _ assms(2), of i] by (cases "map_of (m_blobs p) i") auto
qed

lemma collect_parts_spec:
  assumes "blobs_ok p" and "list_all no_overflow xs"
  shows "collect_parts p (map part_value xs) buffer =
    Some (case concat_parts (map_of (m_blobs p)) xs of Inl e \<Rightarrow> Inl e | Inr c \<Rightarrow> Inr (buffer @ c))"
  using assms(2)
proof (induction xs arbitrary: buffer)
  case (Cons x xs)
  show ?case
  proof (cases x)
    case (TextPart t)
    then show ?thesis using Cons by (simp add: map_of_make_object split: sum.splits)
  next
    case (BlobPart i offset len)
    then have "ResolveMessage i offset len p = Some (part_bytes (map_of (m_blobs p)) x)"
      using resolve_part [OF assms(1), of offset len i] Cons.prems by simp
    then show ?thesis
      using Cons BlobPart by (simp add: map_of_make_object del: part_bytes.simps split: sum.splits)
  qed
qed simp

text \<open>
  C29: A blob made of texts and slices of other blobs has the bytes of its parts, in order, and every
  slice of it is read back as it is; the other blobs stay. A part that cannot be resolved is reported,
  the first one, and nothing is stored.
\<close>

theorem blob_from_parts:
  assumes "blobs_ok (m_blobPersistor r)" and "list_all no_overflow xs"
  shows "\<exists>r'. CreateFromParts (map part_value xs) i r = Some r' \<and>
    (case concat_parts (map_of (m_blobs (m_blobPersistor r))) xs of
       Inl e \<Rightarrow> r' = OnError e r
     | Inr c \<Rightarrow> map_of (m_blobs (m_blobPersistor r')) = (map_of (m_blobs (m_blobPersistor r)))(i \<mapsto> c) \<and> blob_errors r' = blob_errors r \<and>
         (length c < 2 ^ 63 \<longrightarrow> (\<forall>offset len. 0 \<le> sint offset \<longrightarrow> sint offset + sint len \<le> int (length c) \<longrightarrow>
            ResolveMessage i offset len (m_blobPersistor r') = Some (Inr (blob_slice offset len c)))))"
proof (cases "concat_parts (map_of (m_blobs (m_blobPersistor r))) xs")
  case (Inl e)
  then show ?thesis using collect_parts_spec [OF assms, of "[]"] by (simp add: CreateFromParts_def)
next
  case (Inr c)
  let ?p = "StoreMessage_as c i (m_blobPersistor r)"
  have run: "CreateFromParts (map part_value xs) i r = Some (r\<lparr>m_blobPersistor := ?p\<rparr>)"
    using collect_parts_spec [OF assms, of "[]"] Inr by (simp add: CreateFromParts_def)
  have "ResolveMessage i offset len ?p = Some (Inr (blob_slice offset len c))"
    if "length c < 2 ^ 63" "0 \<le> sint offset" "sint offset + sint len \<le> int (length c)" for offset len
    using memory.resolve_slice [of ?p i c offset len] assms(1) that by (auto simp: blobs_ok_store)
  then show ?thesis using run Inr assms(1) by simp
qed

theorem blob_from_parts_witness:
  "let r = blob_resource_new\<lparr>m_blobPersistor := StoreMessage_as [1, 2, 3] ''a'' blob_persistor_new\<rparr>
   in \<exists>r'. CreateFromParts (map part_value [TextPart ''x'', BlobPart ''a'' 1 2]) ''b'' r = Some r' \<and>
     ResolveMessage ''b'' 1 2 (m_blobPersistor r') = Some (Inr [2, 3])"
proof -
  let ?r = "blob_resource_new\<lparr>m_blobPersistor := StoreMessage_as [1, 2, 3] ''a'' blob_persistor_new\<rparr>"
  have ok: "blobs_ok (m_blobPersistor ?r)" using blobs_ok_store(1) [OF blobs_ok_new] by simp
  have c: "concat_parts (map_of (m_blobs (m_blobPersistor ?r))) [TextPart ''x'', BlobPart ''a'' 1 2] = Inr [120, 2, 3]"
    by (simp add: StoreMessage_as_def blob_persistor_new_def blob_bytes_def blob_slice_def)
  have over: "list_all no_overflow [TextPart ''x'', BlobPart ''a'' 1 2]" by simp
  obtain r' where r': "CreateFromParts (map part_value [TextPart ''x'', BlobPart ''a'' 1 2]) ''b'' ?r = Some r'"
    "\<forall>offset len. 0 \<le> sint offset \<longrightarrow> sint offset + sint len \<le> int (length [120, 2, 3 :: byte]) \<longrightarrow>
        ResolveMessage ''b'' offset len (m_blobPersistor r') = Some (Inr (blob_slice offset len [120, 2, 3]))"
    using blob_from_parts [OF ok over, of "''b''"] unfolding c by force
  have "ResolveMessage ''b'' 1 2 (m_blobPersistor r') = Some (Inr [2, 3])"
    using r'(2) [rule_format, of 1 2] by (simp add: blob_slice_def)
  then show ?thesis using r'(1) by auto
qed

section \<open>Blobs of socket messages and requests\<close>

text \<open>
  C30: A binary message on a socket whose messages are to be blobs is stored under a new identifier, the
  event names it, and reading what the event has gives the bytes of the message; the blobs stored
  under other identifiers stay.
\<close>

theorem socket_blob_roundtrip:
  assumes "blobs_ok p" and "length (decode message) < 2 ^ 63" and "socket \<in> set ids"
    and "OnMessage guid decode (Some ids) socket message True p = (args, p')"
  shows "map_of args ''type'' = Some (String ''blob'') \<and> map_of args ''id'' = Some (Int64 socket) \<and>
    (\<exists>d. map_of args ''data'' = Some d \<and> module_ReadAsText (Some p') d = Some (Resolve (Bytes (decode message)))) \<and>
    (\<forall>i. i \<noteq> guid (m_guidGenerator p) \<longrightarrow> map_of (m_blobs p') i = map_of (m_blobs p) i)"
proof -
  let ?b = "decode message" and ?i = "guid (m_guidGenerator p)"
  obtain q where q: "StoreMessage guid ?b p = (?i, q)" by (simp add: StoreMessage_def Let_def)
  let ?blob = "make_object [] [(''offset'', Int64 0), (''size'', Int64 (of_nat (length ?b))), (''blobId'', String ?i)]"
  have args: "p' = q" "args = insert_or_assign ''type'' (String ''blob'') (insert_or_assign ''data'' (Object ?blob)
      (make_object [] [(''id'', Int64 socket), (''type'', String ''binary'')]))"
    using assms(3,4) q by (simp_all add: OnMessage_def TryProcessMessage_binary_def binary_message_def Let_def)
  have m: "map_of args = (map_of [(''id'', Int64 socket), (''type'', String ''binary'')])(''data'' \<mapsto> Object ?blob, ''type'' \<mapsto> String ''blob'')"
    unfolding args(2) by (simp add: fun_eq_iff)
  have "blobs_ok q" "map_of (m_blobs q) = (map_of (m_blobs p))(?i \<mapsto> ?b)"
    using memory.blobs_store [OF assms(1,2) q] by simp_all
  moreover from this have "ResolveMessage ?i 0 (of_nat (length ?b)) q = Some (Inr ?b)"
    using memory.resolve_whole [of q ?i ?b] assms(2) by simp
  then have "module_ReadAsText (Some q) (Object ?blob) = Some (Resolve (Bytes ?b))"
    by (simp add: module_ReadAsText_def ReadAsText_def object_at_const_def map_of_make_object Let_def)
  ultimately show ?thesis using m args(1) by simp
qed

theorem socket_blob_roundtrip_witness:
  "\<exists>args p'. OnMessage (\<lambda>n. ''g'') (\<lambda>s. [7, 8]) (Some [5]) 5 ''Bwg='' True blob_persistor_new = (args, p') \<and>
    map_of args ''type'' = Some (String ''blob'')"
proof -
  obtain args p' where run: "OnMessage (\<lambda>n. ''g'') (\<lambda>s. [7, 8]) (Some [5]) 5 ''Bwg='' True blob_persistor_new = (args, p')"
    by fastforce
  moreover have "map_of args ''type'' = Some (String ''blob'')"
    using socket_blob_roundtrip [OF blobs_ok_new _ _ run] by simp
  ultimately show ?thesis by blast
qed

text \<open>
  C37: A request whose data is a blob loses its body: the test for a blob reads the object as a string,
  which is empty, so no content is made of it; and what passes the test gives no bytes, whatever is stored.
\<close>

theorem blob_request_body_lost:
  assumes "map_of data ''blob'' = Some (Object b)"
    and "\<forall>k \<in> {''string'', ''base64'', ''uri'', ''formData''}. map_of data k = None"
  shows "request_content bodyHandler data contentType p = Some (Inr NoContent) \<and>
    (\<forall>d. Supports d \<longrightarrow> request_content True d contentType p = Some (Inr (BufferContent [])))"
proof
  show "request_content bodyHandler data contentType p = Some (Inr NoContent)"
    using assms by (simp add: request_content_def Supports_def)
  show "\<forall>d. Supports d \<longrightarrow> request_content True d contentType p = Some (Inr (BufferContent []))"
  proof (intro allI impI)
    fix d
    assume s: "Supports d"
    then obtain v where v: "map_of d ''blob'' = Some v" "AsString v \<noteq> []" by (auto simp: Supports_def split: option.splits)
    then have "AsObject v = []" "d \<noteq> []" by (cases v; auto simp: AsObject_def)+
    then show "request_content True d contentType p = Some (Inr (BufferContent []))"
      using s v by (simp add: request_content_def ToRequestBody_def object_at_def object_at_const_def resolve_small
          map_of_make_object AsArray_def blob_body_def Let_def)
  qed
qed

theorem blob_request_body_lost_witness:
  "let data = [(''blob'', Object [(''blobId'', String ''a''), (''offset'', Int64 0), (''size'', Int64 3)])]
   in request_content True data [] (StoreMessage_as [1, 2, 3] ''a'' blob_persistor_new) = Some (Inr NoContent)"
  using blob_request_body_lost [of "[(''blob'', Object [(''blobId'', String ''a''), (''offset'', Int64 0), (''size'', Int64 3)])]"]
  by simp

end
