(* ===== verification/HttpResource.thy ===== *)
theory HttpResource
  imports Blobs
begin

text \<open>
  Sending a request and reporting its response (\<^verbatim>\<open>Shared/Networking/WinRTHttpResource.cpp\<close>) and the module
  that turns the reports into events of JavaScript (\<^verbatim>\<open>Shared/Modules/HttpModule.cpp\<close>). A request is a
  coroutine; its steps are the sections between its suspensions, and requests interleave. What the client
  and the streams of the system answer, and the texts of its errors, are part of the steps.
\<close>

section \<open>Requests and reports\<close>

record http_args =
  RequestId :: int64
  ArgsHeaders :: "(string \<times> string) list"
  ArgsData :: JSValueObject
  WithCredentials :: bool
  ResponseType :: string
  IncrementalUpdates :: bool
  Timeout :: int64

datatype http_handler = RequestSuccess | Response | Data | DataObject | Error | IncrementalData | DataProgress | ResponseComplete

datatype http_event =
    OnRequestSuccess int64
  | OnResponse int64 int string "(string \<times> string) list"
  | OnData int64 string
  | OnDataObject int64 JSValueObject
  | OnHttpError int64 string bool
  | OnIncrementalData int64 string int64 int64
  | OnDataProgress int64 int64 int64
  | OnComplete int64

text \<open>Where the coroutine of a request is suspended, with its local variables there.\<close>

datatype http_phase =
    Creating
  | Sending
  | OpeningStream
  | LoadingBlob "byte list"
  | LoadingData int64 string
  | Ended

datatype http_ending = EndComplete | EndError string bool

text \<open>
  A request. The ghost components keep the error reported while the request was made, the response, the
  bytes of every load, the blob that was reported, and how the request ended.
\<close>

record http_op =
  op_args :: http_args
  op_phase :: http_phase
  op_null :: "string option"
  op_response :: "(int \<times> string \<times> (string \<times> string) list) option"
  op_as_blob :: bool
  op_chunks :: "byte list list"
  op_blob :: JSValueObject
  op_end :: "http_ending option"

definition new_op :: "http_args \<Rightarrow> http_op" where
  "new_op a = \<lparr>op_args = a, op_phase = Creating, op_null = None, op_response = None, op_as_blob = False, op_chunks = [],
     op_blob = [], op_end = None\<rparr>"

text \<open>
  The resource. A response is tracked by the number of its request; the log has the calls of handlers,
  each with the request that made it.
\<close>

record http_resource =
  m_handlers :: "http_handler \<Rightarrow> bool"
  m_responses :: "int64 \<rightharpoonup> nat"
  m_uriHandler :: "(string \<Rightarrow> string \<Rightarrow> string + JSValueObject option) option"
  m_requestBodyHandler :: bool
  m_responseHandler :: bool
  http_persistor :: blob_persistor
  http_ops :: "http_op list"
  http_cancelled :: "nat list"
  http_callbacks :: "int64 list"
  http_log :: "(nat option \<times> http_event) list"

definition http_resource_new :: http_resource where
  "http_resource_new = \<lparr>m_handlers = (\<lambda>_. False), m_responses = (\<lambda>_. None), m_uriHandler = None, m_requestBodyHandler = False,
     m_responseHandler = False, http_persistor = blob_persistor_new, http_ops = [], http_cancelled = [], http_callbacks = [], http_log = []\<rparr>"

definition SetOn :: "http_handler \<Rightarrow> http_resource \<Rightarrow> http_resource" where
  "SetOn h r = r\<lparr>m_handlers := (m_handlers r)(h := True)\<rparr>"

text \<open>\<^verbatim>\<open>AddUriHandler\<close> does nothing, so the resource never has a handler of addresses.\<close>

definition AddUriHandler :: "http_resource \<Rightarrow> http_resource" where
  "AddUriHandler r = r"

definition AddRequestBodyHandler :: "http_resource \<Rightarrow> http_resource" where
  "AddRequestBodyHandler r = r\<lparr>m_requestBodyHandler := True\<rparr>"

definition AddResponseHandler :: "http_resource \<Rightarrow> http_resource" where
  "AddResponseHandler r = r\<lparr>m_responseHandler := True\<rparr>"

section \<open>Reporting and tracking\<close>

definition fire :: "nat option \<Rightarrow> http_handler \<Rightarrow> http_event \<Rightarrow> http_resource \<Rightarrow> http_resource" where
  "fire k h e r = (if m_handlers r h then r\<lparr>http_log := http_log r @ [(k, e)]\<rparr> else r)"

definition set_op :: "nat \<Rightarrow> (http_op \<Rightarrow> http_op) \<Rightarrow> http_resource \<Rightarrow> http_resource" where
  "set_op k f r = r\<lparr>http_ops := (http_ops r)[k := f (http_ops r ! k)]\<rparr>"

definition args_of :: "nat \<Rightarrow> http_resource \<Rightarrow> http_args" where
  "args_of k r = op_args (http_ops r ! k)"

definition TrackResponse :: "int64 \<Rightarrow> nat \<Rightarrow> http_resource \<Rightarrow> http_resource" where
  "TrackResponse requestId response r = r\<lparr>m_responses := (m_responses r)(requestId \<mapsto> response)\<rparr>"

definition UntrackResponse :: "int64 \<Rightarrow> http_resource \<Rightarrow> http_resource" where
  "UntrackResponse requestId r = r\<lparr>m_responses := (m_responses r)(requestId := None)\<rparr>"

definition report_error :: "nat \<Rightarrow> string \<Rightarrow> bool \<Rightarrow> http_resource \<Rightarrow> http_resource" where
  "report_error k message isTimeout r =
     fire (Some k) Error (OnHttpError (RequestId (args_of k r)) message isTimeout)
       (set_op k (\<lambda>p. p\<lparr>op_phase := Ended, op_end := Some (EndError message isTimeout)\<rparr>) r)"

definition fail_op :: "nat \<Rightarrow> string \<Rightarrow> bool \<Rightarrow> http_resource \<Rightarrow> http_resource" where
  "fail_op k message isTimeout r = UntrackResponse (RequestId (args_of k r)) (report_error k message isTimeout r)"

definition report_complete :: "nat \<Rightarrow> http_resource \<Rightarrow> http_resource" where
  "report_complete k r = fire (Some k) ResponseComplete (OnComplete (RequestId (args_of k r)))
     (set_op k (\<lambda>p. p\<lparr>op_phase := Ended, op_end := Some EndComplete\<rparr>) r)"

definition complete_op :: "nat \<Rightarrow> http_resource \<Rightarrow> http_resource" where
  "complete_op k r = UntrackResponse (RequestId (args_of k r)) (report_complete k r)"

definition report_blob :: "nat \<Rightarrow> JSValueObject \<Rightarrow> http_resource \<Rightarrow> http_resource" where
  "report_blob k blob r = (let i = RequestId (args_of k r); r1 = set_op k (\<lambda>p. p\<lparr>op_as_blob := True, op_blob := blob\<rparr>) r
     in if m_handlers r DataObject \<and> m_handlers r RequestSuccess
        then fire (Some k) RequestSuccess (OnRequestSuccess i) (fire (Some k) DataObject (OnDataObject i blob) r1) else r1)"

section \<open>The steps of a request\<close>

text \<open>Whether the method and the address are accepted, or what is thrown, is an argument.\<close>

definition SendRequest :: "string option \<Rightarrow> bool \<Rightarrow> http_args \<Rightarrow> http_resource \<Rightarrow> http_resource" where
  "SendRequest throws callback a r =
     (let k = length (http_ops r);
          r1 = r\<lparr>http_callbacks := http_callbacks r @ (if callback then [RequestId a] else []), http_ops := http_ops r @ [new_op a]\<rparr>
      in case throws of None \<Rightarrow> r1 | Some message \<Rightarrow> report_error k message False r1)"

text \<open>
  How making the request ends: with an error, with null after an error was reported, or with a request
  for an address. Starting it throws or not.
\<close>

datatype created = CreateThrows string | CreatedNull string | CreatedRequest string

datatype sent = SendThrows string | SendStarts

definition start_send :: "sent \<Rightarrow> nat \<Rightarrow> http_resource \<Rightarrow> http_resource" where
  "start_send s k r = (case s of
     SendThrows message \<Rightarrow> fail_op k message False r
   | SendStarts \<Rightarrow> TrackResponse (RequestId (args_of k r)) k (set_op k (\<lambda>p. p\<lparr>op_phase := Sending\<rparr>) r))"

text \<open>\<open>None\<close> is the access through a null request.\<close>

definition create_done :: "created \<Rightarrow> sent \<Rightarrow> nat \<Rightarrow> http_resource \<Rightarrow> http_resource option" where
  "create_done c s k r = (case c of
     CreateThrows message \<Rightarrow> Some (fail_op k message False r)
   | CreatedNull message \<Rightarrow>
       (let r1 = fire (Some k) Error (OnHttpError (RequestId (args_of k r)) message False) (set_op k (\<lambda>p. p\<lparr>op_null := Some message\<rparr>) r)
        in if m_uriHandler r1 \<noteq> None then None else Some (start_send s k r1))
   | CreatedRequest url \<Rightarrow> (case m_uriHandler r of
         None \<Rightarrow> Some (start_send s k r)
       | Some handler \<Rightarrow> (case handler url (ResponseType (args_of k r)) of
             Inr (Some blob) \<Rightarrow> Some (report_complete k (report_blob k blob r))
           | Inr None \<Rightarrow> Some (start_send s k r)
           | Inl message \<Rightarrow> Some (if m_handlers r Error then report_error k message False r else start_send s k r))))"

text \<open>
  How the operation ends: its time is up, it fails, or it gives a response, which may be null, as may
  its content. The headers are those of the response and of the content.
\<close>

datatype answer = TimeIsUp string | SendFails string
  | Answer "(int \<times> string \<times> (string \<times> string) list \<times> (string \<times> string) list option) option"

definition emplace_headers :: "(string \<times> string) list \<Rightarrow> (string \<times> string) list" where
  "emplace_headers hs = fold (\<lambda>(name, v). try_emplace name v) hs []"

definition send_done :: "answer \<Rightarrow> nat \<Rightarrow> http_resource \<Rightarrow> http_resource option" where
  "send_done a k r = (case a of
     TimeIsUp message \<Rightarrow> Some (fail_op k message True r)
   | SendFails message \<Rightarrow> Some (fail_op k message False r)
   | Answer None \<Rightarrow> Some (fail_op k ''request failed'' False r)
   | Answer (Some (status, url, hs, content)) \<Rightarrow>
       if m_handlers r Response \<and> content = None then None
       else (let headers = emplace_headers (hs @ (case content of None \<Rightarrow> [] | Some cs \<Rightarrow> cs));
                 r1 = fire (Some k) Response (OnResponse (RequestId (args_of k r)) status url headers)
                   (set_op k (\<lambda>p. p\<lparr>op_response := Some (status, url, headers)\<rparr>) r)
             in Some (if content = None then fail_op k ''No response content'' False r1
                else set_op k (\<lambda>p. p\<lparr>op_phase := OpeningStream\<rparr>) r1)))"

definition stream_opened :: "string + unit \<Rightarrow> nat \<Rightarrow> http_resource \<Rightarrow> http_resource" where
  "stream_opened x k r = (case x of
     Inl message \<Rightarrow> fail_op k message False r
   | Inr _ \<Rightarrow> if m_responseHandler r \<and> response_Supports (ResponseType (args_of k r))
       then set_op k (\<lambda>p. p\<lparr>op_phase := LoadingBlob [], op_as_blob := True\<rparr>) r
       else set_op k (\<lambda>p. p\<lparr>op_phase := LoadingData 0 []\<rparr>) r)"

text \<open>The largest load.\<close>

definition segmentSize :: "http_args \<Rightarrow> nat" where
  "segmentSize a = (if IncrementalUpdates a then 128 * 1024 else 8 * 1024 * 1024)"

definition text_of :: "byte list \<Rightarrow> string" where
  "text_of bytes = map (\<lambda>b. char_of (unat b)) bytes"

definition isText :: "http_args \<Rightarrow> bool" where
  "isText a \<longleftrightarrow> ResponseType a = ''text''"

text \<open>A load of bytes; \<open>encode\<close> is the system's base64 encoder.\<close>

definition load_bytes :: "(byte list \<Rightarrow> string) \<Rightarrow> byte list \<Rightarrow> nat \<Rightarrow> http_resource \<Rightarrow> http_resource" where
  "load_bytes encode bytes k r =
     (let a = args_of k r; i = RequestId a; r1 = set_op k (\<lambda>p. p\<lparr>op_chunks := op_chunks p @ [bytes]\<rparr>) r
      in case op_phase (http_ops r ! k) of
           LoadingBlob responseData \<Rightarrow> set_op k (\<lambda>p. p\<lparr>op_phase := LoadingBlob (responseData @ bytes)\<rparr>) r1
         | LoadingData receivedBytes responseData \<Rightarrow>
             (let received = receivedBytes + of_nat (length bytes)
              in if isText a then
                   if IncrementalUpdates a
                   then fire (Some k) IncrementalData (OnIncrementalData i (text_of bytes) received 0)
                     (set_op k (\<lambda>p. p\<lparr>op_phase := LoadingData received (text_of bytes)\<rparr>) r1)
                   else set_op k (\<lambda>p. p\<lparr>op_phase := LoadingData received (responseData @ text_of bytes)\<rparr>) r1
                 else fire (Some k) DataProgress (OnDataProgress i received 0)
                   (set_op k (\<lambda>p. p\<lparr>op_phase := LoadingData received (responseData @ encode bytes)\<rparr>) r1))
         | _ \<Rightarrow> r)"

definition load_end :: "(nat \<Rightarrow> string) \<Rightarrow> nat \<Rightarrow> http_resource \<Rightarrow> http_resource" where
  "load_end guid k r =
     (let a = args_of k r; i = RequestId a
      in case op_phase (http_ops r ! k) of
           LoadingBlob responseData \<Rightarrow> (case ToResponseData guid responseData (http_persistor r) of (blob, p) \<Rightarrow>
             complete_op k (report_blob k blob (r\<lparr>http_persistor := p\<rparr>)))
         | LoadingData receivedBytes responseData \<Rightarrow>
             complete_op k (if IncrementalUpdates a \<and> isText a then r else fire (Some k) Data (OnData i responseData) r)
         | _ \<Rightarrow> r)"

text \<open>A load that throws, that gives bytes, or that finds the end.\<close>

definition loaded :: "(byte list \<Rightarrow> string) \<Rightarrow> (nat \<Rightarrow> string) \<Rightarrow> string + byte list \<Rightarrow> nat \<Rightarrow> http_resource \<Rightarrow> http_resource" where
  "loaded encode guid x k r = (case x of
     Inl message \<Rightarrow> fail_op k message False r
   | Inr [] \<Rightarrow> load_end guid k r
   | Inr bytes \<Rightarrow> load_bytes encode bytes k r)"

text \<open>Cancelling may throw.\<close>

definition AbortRequest :: "string option \<Rightarrow> int64 \<Rightarrow> http_resource \<Rightarrow> http_resource" where
  "AbortRequest throws requestId r = (case m_responses r requestId of
     None \<Rightarrow> r
   | Some request \<Rightarrow> (case throws of
         None \<Rightarrow> r\<lparr>http_cancelled := http_cancelled r @ [request]\<rparr>
       | Some message \<Rightarrow> fire None Error (OnHttpError requestId message False) r))"

section \<open>The module\<close>

record http_module =
  m_requestId :: int64
  m_resource :: http_resource

text \<open>\<^verbatim>\<open>Initialize\<close> sets all handlers.\<close>

definition module_new :: http_module where
  "module_new = \<lparr>m_requestId = 0, m_resource = fold SetOn
     [RequestSuccess, Response, Data, DataObject, IncrementalData, DataProgress, ResponseComplete, Error] http_resource_new\<rparr>"

text \<open>The events of the handlers.\<close>

fun module_event :: "http_event \<Rightarrow> string \<times> JSValue list" where
  "module_event (OnRequestSuccess i) = (''didCompleteNetworkResponse'', [Int64 i])"
| "module_event (OnResponse i status url hs) = (''didReceiveNetworkResponse'', [Int64 i, Int64 (of_int status),
     Object (fold (\<lambda>(name, v). insert_or_assign name (String v)) hs []), String url])"
| "module_event (OnData i responseData) = (''didReceiveNetworkData'', [Int64 i, String responseData])"
| "module_event (OnDataObject i responseData) = (''didReceiveNetworkData'', [Int64 i, Object responseData])"
| "module_event (OnIncrementalData i responseData progress tot) =
     (''didReceiveNetworkIncrementalData'', [Int64 i, String responseData, Int64 progress, Int64 tot])"
| "module_event (OnDataProgress i progress tot) = (''didReceiveNetworkDataProgress'', [Int64 i, Int64 progress, Int64 tot])"
| "module_event (OnComplete i) = (''didCompleteNetworkResponse'', [Int64 i])"
| "module_event (OnHttpError i message isTimeout) =
     (''didCompleteNetworkResponse'', [Int64 i, String message] @ (if isTimeout then [Boolean True] else []))"

text \<open>
  The arguments of a request. The conversion of a number without a value of the integer type is undefined.
\<close>

record http_query =
  q_headers :: JSValue
  q_data :: JSValue
  q_responseType :: string
  q_incrementalUpdates :: bool
  q_timeout :: double
  q_withCredentials :: bool

definition query_headers :: "JSValue \<Rightarrow> (string \<times> string) list" where
  "query_headers v = fold (\<lambda>(name, x). try_emplace name (AsString x)) (AsObject v) []"

definition module_SendRequest :: "string option \<Rightarrow> http_query \<Rightarrow> http_module \<Rightarrow> http_module option" where
  "module_SendRequest throws query m =
     (let i = m_requestId m + 1
      in map_option (\<lambda>timeout. m\<lparr>m_requestId := i, m_resource := SendRequest throws True
           \<lparr>RequestId = i, ArgsHeaders = query_headers (q_headers query), ArgsData = fst (MoveObject (q_data query)),
            WithCredentials = q_withCredentials query, ResponseType = q_responseType query,
            IncrementalUpdates = q_incrementalUpdates query, Timeout = timeout\<rparr> (m_resource m)\<rparr>)
           (int64_of_double (q_timeout query)))"

definition module_AbortRequest :: "string option \<Rightarrow> double \<Rightarrow> http_module \<Rightarrow> http_module option" where
  "module_AbortRequest throws requestId m =
     map_option (\<lambda>i. m\<lparr>m_resource := AbortRequest throws i (m_resource m)\<rparr>) (int64_of_double requestId)"

section \<open>Runs\<close>

text \<open>What comes next: calls of JavaScript and of other modules, and the ends of what requests wait for.\<close>

datatype http_input =
    SendCall "string option" http_query
  | AbortCall "string option" double
  | AddHandlers
  | StoreChanges blob_persistor
  | CreateDone nat created sent
  | SendDone nat answer
  | StreamOpened nat "string + unit"
  | LoadDone nat "string + byte list"

definition op_in_phase :: "nat \<Rightarrow> (http_phase \<Rightarrow> bool) \<Rightarrow> http_resource \<Rightarrow> bool" where
  "op_in_phase k P r \<longleftrightarrow> k < length (http_ops r) \<and> P (op_phase (http_ops r ! k))"

fun loading :: "http_phase \<Rightarrow> bool" where
  "loading (LoadingBlob d) = True"
| "loading (LoadingData n s) = True"
| "loading p = False"

text \<open>A request times out only if it has a time, and a load is no longer than asked for.\<close>

fun http_ready :: "http_input \<Rightarrow> http_module \<Rightarrow> bool" where
  "http_ready (CreateDone k c s) m = op_in_phase k ((=) Creating) (m_resource m)"
| "http_ready (SendDone k a) m = (op_in_phase k ((=) Sending) (m_resource m) \<and>
     (case a of TimeIsUp _ \<Rightarrow> 0 < sint (Timeout (args_of k (m_resource m))) | _ \<Rightarrow> True))"
| "http_ready (StreamOpened k x) m = op_in_phase k ((=) OpeningStream) (m_resource m)"
| "http_ready (LoadDone k x) m = (op_in_phase k loading (m_resource m) \<and>
     (case x of Inl _ \<Rightarrow> True | Inr bytes \<Rightarrow> length bytes \<le> segmentSize (args_of k (m_resource m))))"
| "http_ready v m = True"

definition on_resource :: "(http_resource \<Rightarrow> http_resource) \<Rightarrow> http_module \<Rightarrow> http_module" where
  "on_resource f m = m\<lparr>m_resource := f (m_resource m)\<rparr>"

fun http_step :: "(byte list \<Rightarrow> string) \<Rightarrow> (nat \<Rightarrow> string) \<Rightarrow> http_input \<Rightarrow> http_module \<Rightarrow> http_module option" where
  "http_step encode guid (SendCall throws query) m = module_SendRequest throws query m"
| "http_step encode guid (AbortCall throws d) m = module_AbortRequest throws d m"
| "http_step encode guid AddHandlers m = Some (on_resource (AddUriHandler \<circ> AddResponseHandler \<circ> AddRequestBodyHandler) m)"
| "http_step encode guid (StoreChanges p) m = Some (on_resource (\<lambda>r. r\<lparr>http_persistor := p\<rparr>) m)"
| "http_step encode guid (CreateDone k c s) m = map_option (\<lambda>r. m\<lparr>m_resource := r\<rparr>) (create_done c s k (m_resource m))"
| "http_step encode guid (SendDone k a) m = map_option (\<lambda>r. m\<lparr>m_resource := r\<rparr>) (send_done a k (m_resource m))"
| "http_step encode guid (StreamOpened k x) m = Some (on_resource (stream_opened x k) m)"
| "http_step encode guid (LoadDone k x) m = Some (on_resource (loaded encode guid x k) m)"

inductive http_run :: "(byte list \<Rightarrow> string) \<Rightarrow> (nat \<Rightarrow> string) \<Rightarrow> http_module \<Rightarrow> bool" for encode guid where
  http_new: "http_run encode guid module_new"
| http_next: "http_run encode guid m \<Longrightarrow> http_ready v m \<Longrightarrow> http_step encode guid v m = Some m' \<Longrightarrow> http_run encode guid m'"

section \<open>What a request reports\<close>

definition op_log :: "nat \<Rightarrow> http_resource \<Rightarrow> http_event list" where
  "op_log k r = map snd (filter (\<lambda>x. fst x = Some k) (http_log r))"

definition silent :: "http_args \<Rightarrow> bool" where
  "silent a \<longleftrightarrow> IncrementalUpdates a \<and> isText a"

text \<open>The reports of the loads, the first of which begins at \<open>n\<close> bytes.\<close>

fun chunk_events :: "http_args \<Rightarrow> nat \<Rightarrow> byte list list \<Rightarrow> http_event list" where
  "chunk_events a n [] = []"
| "chunk_events a n (c # cs) =
     (if \<not> isText a then [OnDataProgress (RequestId a) (of_nat (n + length c)) 0]
      else if IncrementalUpdates a then [OnIncrementalData (RequestId a) (text_of c) (of_nat (n + length c)) 0] else []) @
     chunk_events a (n + length c) cs"

definition body_text :: "(byte list \<Rightarrow> string) \<Rightarrow> http_args \<Rightarrow> byte list list \<Rightarrow> string" where
  "body_text encode a cs = (if isText a then text_of (concat cs) else concat (map encode cs))"

definition end_events :: "(byte list \<Rightarrow> string) \<Rightarrow> http_op \<Rightarrow> http_event list" where
  "end_events encode p = (let a = op_args p; i = RequestId a in case op_end p of
     None \<Rightarrow> []
   | Some (EndError message isTimeout) \<Rightarrow> [OnHttpError i message isTimeout]
   | Some EndComplete \<Rightarrow> (if op_as_blob p then [OnDataObject i (op_blob p), OnRequestSuccess i]
       else if silent a then [] else [OnData i (body_text encode a (op_chunks p))]) @ [OnComplete i])"

definition op_events :: "(byte list \<Rightarrow> string) \<Rightarrow> http_op \<Rightarrow> http_event list" where
  "op_events encode p = (let i = RequestId (op_args p) in
     (case op_null p of None \<Rightarrow> [] | Some message \<Rightarrow> [OnHttpError i message False]) @
     (case op_response p of None \<Rightarrow> [] | Some (status, url, hs) \<Rightarrow> [OnResponse i status url hs]) @
     (if op_as_blob p then [] else chunk_events (op_args p) 0 (op_chunks p)) @ end_events encode p)"

definition blob_object :: "string \<Rightarrow> nat \<Rightarrow> JSValueObject" where
  "blob_object i n = make_object [] [(''offset'', Int64 0), (''size'', Int64 (of_nat n)), (''blobId'', String i)]"

definition op_ok :: "(byte list \<Rightarrow> string) \<Rightarrow> http_op \<Rightarrow> bool" where
  "op_ok encode p \<longleftrightarrow> [] \<notin> set (op_chunks p) \<and> (case op_phase p of
     Creating \<Rightarrow> op_null p = None \<and> op_response p = None \<and> \<not> op_as_blob p \<and> op_chunks p = [] \<and> op_end p = None
   | Sending \<Rightarrow> op_response p = None \<and> \<not> op_as_blob p \<and> op_chunks p = [] \<and> op_end p = None
   | OpeningStream \<Rightarrow> op_response p \<noteq> None \<and> \<not> op_as_blob p \<and> op_chunks p = [] \<and> op_end p = None
   | LoadingBlob d \<Rightarrow> op_response p \<noteq> None \<and> op_as_blob p \<and> d = concat (op_chunks p) \<and> op_end p = None
   | LoadingData n s \<Rightarrow> op_response p \<noteq> None \<and> \<not> op_as_blob p \<and> n = of_nat (length (concat (op_chunks p))) \<and>
       (\<not> silent (op_args p) \<longrightarrow> s = body_text encode (op_args p) (op_chunks p)) \<and> op_end p = None
   | Ended \<Rightarrow> op_end p \<noteq> None \<and> (op_end p = Some EndComplete \<longrightarrow> op_response p \<noteq> None) \<and>
       (op_end p = Some EndComplete \<and> op_as_blob p \<longrightarrow> (\<exists>i. op_blob p = blob_object i (length (concat (op_chunks p))))))"

definition http_ok :: "(byte list \<Rightarrow> string) \<Rightarrow> http_resource \<Rightarrow> bool" where
  "http_ok encode r \<longleftrightarrow> m_handlers r = (\<lambda>_. True) \<and> m_uriHandler r = None \<and>
     (\<forall>k < length (http_ops r). op_ok encode (http_ops r ! k) \<and> op_log k r = op_events encode (http_ops r ! k)) \<and>
     (\<forall>x \<in> set (http_log r). \<forall>k. fst x = Some k \<longrightarrow> k < length (http_ops r))"

lemma http_fields [simp]:
  "http_ops (fire k h e r) = http_ops r" "m_handlers (fire k h e r) = m_handlers r" "m_uriHandler (fire k h e r) = m_uriHandler r"
  "m_responses (fire k h e r) = m_responses r" "http_persistor (fire k h e r) = http_persistor r"
  "http_ops (set_op j f r) = (http_ops r)[j := f (http_ops r ! j)]" "m_handlers (set_op j f r) = m_handlers r"
  "m_uriHandler (set_op j f r) = m_uriHandler r" "m_responses (set_op j f r) = m_responses r" "http_log (set_op j f r) = http_log r"
  "http_persistor (set_op j f r) = http_persistor r"
  "http_ops (UntrackResponse i r) = http_ops r" "m_handlers (UntrackResponse i r) = m_handlers r"
  "m_uriHandler (UntrackResponse i r) = m_uriHandler r" "http_log (UntrackResponse i r) = http_log r"
  "http_ops (TrackResponse i j r) = http_ops r" "m_handlers (TrackResponse i j r) = m_handlers r"
  "m_uriHandler (TrackResponse i j r) = m_uriHandler r" "http_log (TrackResponse i j r) = http_log r"
  by (simp_all add: fire_def set_op_def UntrackResponse_def TrackResponse_def)

lemma http_log_fire: "m_handlers r h \<Longrightarrow> http_log (fire k h e r) = http_log r @ [(k, e)]"
  by (simp add: fire_def)

text \<open>A step of one request.\<close>

lemma http_ok_step:
  assumes ok: "http_ok encode r" and k: "k < length (http_ops r)"
    and same: "m_handlers r' = m_handlers r" "m_uriHandler r' = m_uriHandler r"
    and ops: "http_ops r' = (http_ops r)[k := p]" and log: "http_log r' = http_log r @ map (Pair (Some k)) es"
    and p: "op_ok encode p" "op_events encode p = op_events encode (http_ops r ! k) @ es"
  shows "http_ok encode r'"
proof -
  have es: "map snd (filter (\<lambda>x. fst x = Some j) (map (Pair (Some k)) es)) = (if j = k then es else [])" for j
    by (induction es) auto
  have "op_log j r' = op_log j r @ (if j = k then es else [])" for j
    by (simp add: op_log_def log es)
  then show ?thesis
    using assms by (auto simp: http_ok_def ops log nth_list_update)
qed

lemma http_ok_quiet:
  assumes "http_ok encode r" and "m_handlers r' = m_handlers r" "m_uriHandler r' = m_uriHandler r" "http_ops r' = http_ops r"
    "http_log r' = http_log r"
  shows "http_ok encode r'"
  using assms by (simp add: http_ok_def op_log_def)

lemma loading_live [simp]: "loading p \<Longrightarrow> p \<noteq> Ended"
  by auto

lemma op_ok_live: "op_ok encode p \<Longrightarrow> op_phase p \<noteq> Ended \<Longrightarrow> op_end p = None"
  by (cases "op_phase p") (simp_all add: op_ok_def)

lemma fail_op_ok:
  assumes ok: "http_ok encode r" and k: "k < length (http_ops r)" and live: "op_phase (http_ops r ! k) \<noteq> Ended"
  shows "http_ok encode (fail_op k msg t r)" "http_ok encode (report_error k msg t r)"
proof -
  let ?p = "http_ops r ! k"
  have p: "op_end ?p = None" "[] \<notin> set (op_chunks ?p)" and h: "m_handlers r = (\<lambda>_. True)"
    using ok k live op_ok_live by (auto simp: http_ok_def op_ok_def)
  have "op_ok encode (?p\<lparr>op_phase := Ended, op_end := Some (EndError msg t)\<rparr>)" using p by (simp add: op_ok_def)
  moreover have "op_events encode (?p\<lparr>op_phase := Ended, op_end := Some (EndError msg t)\<rparr>) =
      op_events encode ?p @ [OnHttpError (RequestId (op_args ?p)) msg t]"
    using p by (simp add: op_events_def end_events_def Let_def)
  ultimately show *: "http_ok encode (report_error k msg t r)"
    by (intro http_ok_step [OF ok k]) (simp_all add: report_error_def http_log_fire h args_of_def)
  show "http_ok encode (fail_op k msg t r)"
    by (rule http_ok_quiet [OF *]) (simp_all add: fail_op_def)
qed

lemma SendRequest_ok:
  assumes ok: "http_ok encode r"
  shows "http_ok encode (SendRequest throws callback a r)"
proof -
  let ?r = "r\<lparr>http_callbacks := http_callbacks r @ (if callback then [RequestId a] else []), http_ops := http_ops r @ [new_op a]\<rparr>"
  have "op_log (length (http_ops r)) r = []"
    using ok by (force simp: http_ok_def op_log_def filter_empty_conv)
  then have "http_ok encode ?r"
    using ok by (auto simp: http_ok_def op_log_def nth_append op_ok_def op_events_def new_op_def end_events_def less_Suc_eq)
  then show ?thesis
    using fail_op_ok(2) [of encode ?r "length (http_ops r)"]
    by (cases throws) (simp_all add: SendRequest_def new_op_def)
qed

lemma start_send_ok:
  assumes ok: "http_ok encode r" and k: "k < length (http_ops r)"
    and p: "op_phase (http_ops r ! k) = Creating" "op_response (http_ops r ! k) = None" "\<not> op_as_blob (http_ops r ! k)"
      "op_chunks (http_ops r ! k) = []" "op_end (http_ops r ! k) = None"
  shows "http_ok encode (start_send s k r)"
proof (cases s)
  case (SendThrows message)
  then show ?thesis using fail_op_ok(1) [OF ok k] p(1) by (simp add: start_send_def)
next
  case SendStarts
  show ?thesis
    by (rule http_ok_step [OF ok k, where es = "[]" and p = "(http_ops r ! k)\<lparr>op_phase := Sending\<rparr>"])
      (use SendStarts p in \<open>simp_all add: start_send_def op_ok_def op_events_def end_events_def\<close>)
qed

lemma create_done_ok:
  assumes ok: "http_ok encode r" and k: "k < length (http_ops r)" and ph: "op_phase (http_ops r ! k) = Creating"
  shows "\<exists>r'. create_done c s k r = Some r' \<and> http_ok encode r'"
proof -
  let ?p = "http_ops r ! k"
  have p: "op_null ?p = None" "op_response ?p = None" "\<not> op_as_blob ?p" "op_chunks ?p = []" "op_end ?p = None"
    and h: "m_handlers r = (\<lambda>_. True)" "m_uriHandler r = None"
    using ok k ph by (auto simp: http_ok_def op_ok_def)
  show ?thesis
  proof (cases c)
    case (CreateThrows message)
    then show ?thesis using fail_op_ok(1) [OF ok k] ph by (simp add: create_done_def)
  next
    case (CreatedRequest url)
    then show ?thesis using start_send_ok [OF ok k ph p(2-5)] h by (simp add: create_done_def)
  next
    case (CreatedNull message)
    let ?e = "OnHttpError (RequestId (op_args ?p)) message False"
    let ?r = "fire (Some k) Error ?e (set_op k (\<lambda>p. p\<lparr>op_null := Some message\<rparr>) r)"
    have "http_ok encode (start_send s k ?r)"
    proof (cases s)
      case (SendThrows m)
      show ?thesis
        by (rule http_ok_step [OF ok k, where es = "[?e, OnHttpError (RequestId (op_args ?p)) m False]" and
              p = "?p\<lparr>op_null := Some message, op_phase := Ended, op_end := Some (EndError m False)\<rparr>"])
          (use SendThrows h p k in \<open>simp_all add: start_send_def fail_op_def report_error_def http_log_fire args_of_def op_ok_def
            op_events_def end_events_def\<close>)
    next
      case SendStarts
      show ?thesis
        by (rule http_ok_step [OF ok k, where es = "[?e]" and p = "?p\<lparr>op_null := Some message, op_phase := Sending\<rparr>"])
          (use SendStarts h p k in \<open>simp_all add: start_send_def http_log_fire op_ok_def op_events_def end_events_def\<close>)
    qed
    then show ?thesis using CreatedNull h by (simp add: create_done_def args_of_def Let_def)
  qed
qed

lemma send_done_ok:
  assumes ok: "http_ok encode r" and k: "k < length (http_ops r)" and ph: "op_phase (http_ops r ! k) = Sending"
    and content: "\<And>st url hs. a \<noteq> Answer (Some (st, url, hs, None))"
  shows "\<exists>r'. send_done a k r = Some r' \<and> http_ok encode r'"
proof -
  let ?p = "http_ops r ! k"
  have p: "op_response ?p = None" "\<not> op_as_blob ?p" "op_chunks ?p = []" "op_end ?p = None"
    and h: "m_handlers r = (\<lambda>_. True)" "m_uriHandler r = None"
    using ok k ph by (auto simp: http_ok_def op_ok_def)
  consider (fail) m t where "send_done a k r = Some (fail_op k m t r)"
    | (answer) st url hs cs where "a = Answer (Some (st, url, hs, Some cs))"
  proof (cases a)
    case (Answer x)
    then show ?thesis using that content by (cases x) (auto simp: send_done_def, metis option.exhaust)
  qed (use that in \<open>auto simp: send_done_def\<close>)
  then show ?thesis
  proof cases
    case fail
    then show ?thesis using fail_op_ok(1) [OF ok k] ph by simp
  next
    case answer
    let ?x = "(st, url, emplace_headers (hs @ cs))"
    let ?r = "set_op k (\<lambda>p. p\<lparr>op_phase := OpeningStream\<rparr>) (fire (Some k) Response
      (OnResponse (RequestId (args_of k r)) st url (emplace_headers (hs @ cs))) (set_op k (\<lambda>p. p\<lparr>op_response := Some ?x\<rparr>) r))"
    have "http_ok encode ?r"
      by (rule http_ok_step [OF ok k, where es = "[OnResponse (RequestId (op_args ?p)) st url (emplace_headers (hs @ cs))]" and
            p = "?p\<lparr>op_response := Some ?x, op_phase := OpeningStream\<rparr>"])
        (use h p k in \<open>simp_all add: http_log_fire args_of_def op_ok_def op_events_def end_events_def Let_def\<close>)
    then show ?thesis using answer by (simp add: send_done_def Let_def)
  qed
qed

lemma stream_opened_ok:
  assumes ok: "http_ok encode r" and k: "k < length (http_ops r)" and ph: "op_phase (http_ops r ! k) = OpeningStream"
  shows "http_ok encode (stream_opened x k r)"
proof -
  let ?p = "http_ops r ! k"
  have p: "op_response ?p \<noteq> None" "\<not> op_as_blob ?p" "op_chunks ?p = []" "op_end ?p = None"
    using ok k ph by (auto simp: http_ok_def op_ok_def)
  have "http_ok encode (set_op k (\<lambda>p. p\<lparr>op_phase := LoadingBlob [], op_as_blob := True\<rparr>) r)"
    by (rule http_ok_step [OF ok k, where es = "[]" and p = "?p\<lparr>op_phase := LoadingBlob [], op_as_blob := True\<rparr>"])
      (use p in \<open>simp_all add: op_ok_def op_events_def end_events_def\<close>)
  moreover have "http_ok encode (set_op k (\<lambda>p. p\<lparr>op_phase := LoadingData 0 []\<rparr>) r)"
    by (rule http_ok_step [OF ok k, where es = "[]" and p = "?p\<lparr>op_phase := LoadingData 0 []\<rparr>"])
      (use p in \<open>simp_all add: op_ok_def op_events_def end_events_def body_text_def text_of_def\<close>)
  ultimately show ?thesis
    using fail_op_ok(1) [OF ok k] ph by (cases x) (simp_all add: stream_opened_def)
qed

lemma chunk_events_append: "chunk_events a n (cs @ ds) = chunk_events a n cs @ chunk_events a (n + length (concat cs)) ds"
  by (induction cs arbitrary: n) (simp_all add: add.assoc)

lemma text_of_append [simp]: "text_of (b @ c) = text_of b @ text_of c"
  by (simp add: text_of_def)

lemma load_bytes_ok:
  assumes ok: "http_ok encode r" and k: "k < length (http_ops r)" and ph: "loading (op_phase (http_ops r ! k))" and bytes: "bytes \<noteq> []"
  shows "http_ok encode (load_bytes encode bytes k r)"
proof (cases "op_phase (http_ops r ! k)")
  case (LoadingBlob d)
  let ?p = "http_ops r ! k"
  have p: "[] \<notin> set (op_chunks ?p)" "op_response ?p \<noteq> None" "op_as_blob ?p" "d = concat (op_chunks ?p)" "op_end ?p = None"
    using ok k LoadingBlob by (auto simp: http_ok_def op_ok_def)
  show ?thesis
    by (rule http_ok_step [OF ok k, where es = "[]" and p = "?p\<lparr>op_chunks := op_chunks ?p @ [bytes], op_phase := LoadingBlob (d @ bytes)\<rparr>"])
      (use p bytes LoadingBlob k in \<open>simp_all add: load_bytes_def Let_def op_ok_def op_events_def end_events_def\<close>)
next
  case (LoadingData n s)
  let ?p = "http_ops r ! k"
  let ?n = "n + of_nat (length bytes)"
  have p: "[] \<notin> set (op_chunks ?p)" "op_response ?p \<noteq> None" "\<not> op_as_blob ?p" "n = of_nat (length (concat (op_chunks ?p)))" "op_end ?p = None"
    "\<not> silent (op_args ?p) \<longrightarrow> s = body_text encode (op_args ?p) (op_chunks ?p)" and h: "m_handlers r = (\<lambda>_. True)"
    using ok k LoadingData by (auto simp: http_ok_def op_ok_def)
  let ?es = "chunk_events (op_args ?p) (length (concat (op_chunks ?p))) [bytes]"
  let ?s = "if isText (op_args ?p) then if IncrementalUpdates (op_args ?p) then text_of bytes else s @ text_of bytes else s @ encode bytes"
  show ?thesis
    by (rule http_ok_step [OF ok k, where es = ?es and
          p = "?p\<lparr>op_chunks := op_chunks ?p @ [bytes], op_phase := LoadingData ?n ?s\<rparr>"])
      (use p bytes LoadingData k h in \<open>simp_all add: load_bytes_def Let_def op_ok_def op_events_def end_events_def args_of_def
          http_log_fire chunk_events_append body_text_def silent_def\<close>)
qed (use ph in simp_all)

lemma load_end_ok:
  assumes ok: "http_ok encode r" and k: "k < length (http_ops r)" and ph: "loading (op_phase (http_ops r ! k))"
  shows "http_ok encode (load_end guid k r)"
proof (cases "op_phase (http_ops r ! k)")
  case (LoadingBlob d)
  let ?p = "http_ops r ! k"
  let ?i = "RequestId (op_args ?p)"
  have p: "[] \<notin> set (op_chunks ?p)" "op_response ?p \<noteq> None" "op_as_blob ?p" "d = concat (op_chunks ?p)" "op_end ?p = None" and h: "m_handlers r = (\<lambda>_. True)"
    using ok k LoadingBlob by (auto simp: http_ok_def op_ok_def)
  obtain i q where blob: "ToResponseData guid d (http_persistor r) = (blob_object i (length d), q)"
    by (simp add: ToResponseData_def StoreMessage_def blob_object_def Let_def)
  let ?b = "blob_object i (length d)"
  show ?thesis
    by (rule http_ok_step [OF ok k, where es = "[OnDataObject ?i ?b, OnRequestSuccess ?i, OnComplete ?i]" and
          p = "?p\<lparr>op_as_blob := True, op_blob := ?b, op_phase := Ended, op_end := Some EndComplete\<rparr>"])
      (use p LoadingBlob k h blob in \<open>simp_all add: load_end_def Let_def op_ok_def op_events_def end_events_def args_of_def
          http_log_fire complete_op_def report_complete_def report_blob_def, blast\<close>)
next
  case (LoadingData n s)
  let ?p = "http_ops r ! k"
  let ?i = "RequestId (op_args ?p)"
  have p: "[] \<notin> set (op_chunks ?p)" "op_response ?p \<noteq> None" "\<not> op_as_blob ?p" "op_end ?p = None"
    "\<not> silent (op_args ?p) \<longrightarrow> s = body_text encode (op_args ?p) (op_chunks ?p)" and h: "m_handlers r = (\<lambda>_. True)"
    using ok k LoadingData by (auto simp: http_ok_def op_ok_def)
  show ?thesis
    by (rule http_ok_step [OF ok k, where es = "(if silent (op_args ?p) then [] else [OnData ?i s]) @ [OnComplete ?i]" and
          p = "?p\<lparr>op_phase := Ended, op_end := Some EndComplete\<rparr>"])
      (use p LoadingData k h in \<open>simp_all add: load_end_def Let_def op_ok_def op_events_def end_events_def args_of_def
          http_log_fire complete_op_def report_complete_def silent_def\<close>)
qed (use ph in simp_all)

lemma AbortRequest_ok: "http_ok encode r \<Longrightarrow> http_ok encode (AbortRequest throws i r)"
  by (cases "m_responses r i"; cases throws) (auto simp: AbortRequest_def http_ok_def op_log_def fire_def)

lemma http_run_ok: "http_run encode guid m \<Longrightarrow> http_ok encode (m_resource m)"
proof (induction rule: http_run.induct)
  case http_new
  have "m_handlers (m_resource module_new) = (\<lambda>_. True)"
  proof
    show "m_handlers (m_resource module_new) h = True" for h
      by (cases h) (simp_all add: module_new_def SetOn_def)
  qed
  moreover have "m_uriHandler (m_resource module_new) = None" "http_ops (m_resource module_new) = []" "http_log (m_resource module_new) = []"
    by (simp_all add: module_new_def SetOn_def http_resource_new_def)
  ultimately show ?case by (simp add: http_ok_def)
next
  case (http_next m v m')
  then show ?case
  proof (cases v)
    case (CreateDone k c s)
    then show ?thesis using http_next create_done_ok [of encode "m_resource m" k c s] by (auto simp: op_in_phase_def)
  next
    case (SendDone k a)
    have "\<And>st url hs. a \<noteq> Answer (Some (st, url, hs, None))"
      using http_next SendDone by (auto simp: send_done_def http_ok_def)
    then show ?thesis using http_next SendDone send_done_ok [of encode "m_resource m" k a] by (auto simp: op_in_phase_def)
  next
    case (LoadDone k x)
    then show ?thesis
      using http_next fail_op_ok(1) [of encode "m_resource m" k] load_end_ok [of encode "m_resource m" k guid]
        load_bytes_ok [of encode "m_resource m" k] by (auto simp: op_in_phase_def on_resource_def loaded_def split: sum.splits list.splits)
  qed (use SendRequest_ok stream_opened_ok AbortRequest_ok in
      \<open>auto simp: module_SendRequest_def module_AbortRequest_def on_resource_def op_in_phase_def Let_def AddUriHandler_def
         AddResponseHandler_def AddRequestBodyHandler_def intro: http_ok_quiet\<close>)
qed

section \<open>Tracked responses\<close>

fun in_flight :: "http_phase \<Rightarrow> bool" where
  "in_flight Creating = False"
| "in_flight Ended = False"
| "in_flight p = True"

text \<open>A step of request \<open>k\<close> leaves the others, and tracks \<open>k\<close> exactly if it is in flight afterwards.\<close>

definition step_tracks :: "nat \<Rightarrow> http_resource \<Rightarrow> http_resource \<Rightarrow> bool" where
  "step_tracks k r r' \<longleftrightarrow> (\<exists>p. http_ops r' = (http_ops r)[k := p] \<and> op_args p = args_of k r \<and>
     m_responses r' = (m_responses r)(RequestId (args_of k r) := if in_flight (op_phase p) then Some k else None))"

definition tracks :: "nat \<Rightarrow> http_resource \<Rightarrow> bool" where
  "tracks k r \<longleftrightarrow> m_responses r (RequestId (args_of k r)) = (if in_flight (op_phase (http_ops r ! k)) then Some k else None)"

lemma fire_none [simp]: "args_of j (fire k h e r) = args_of j r"
  by (simp add: args_of_def)

lemma fail_op_tracks: "k < length (http_ops r) \<Longrightarrow> step_tracks k r (fail_op k msg t r)"
  by (auto simp: step_tracks_def fail_op_def report_error_def UntrackResponse_def args_of_def fire_def set_op_def)

lemma step_tracks_after:
  assumes "step_tracks k r1 r2" and "http_ops r1 = (http_ops r)[k := p]" "op_args p = args_of k r" "m_responses r1 = m_responses r"
    "k < length (http_ops r)"
  shows "step_tracks k r r2"
  using assms by (auto simp: step_tracks_def args_of_def)

lemma start_send_tracks:
  assumes "k < length (http_ops r)"
  shows "step_tracks k r (start_send s k r)"
proof (cases s)
  case (SendThrows m)
  then show ?thesis using fail_op_tracks [OF assms] by (simp add: start_send_def)
next
  case SendStarts
  then show ?thesis
    using assms by (auto simp: step_tracks_def start_send_def TrackResponse_def args_of_def set_op_def)
qed

lemma stays_tracked:
  assumes "tracks k r" and "in_flight (op_phase (http_ops r ! k))" and "k < length (http_ops r)"
    and "http_ops r' = (http_ops r)[k := p]" "op_args p = args_of k r" "in_flight (op_phase p)" "m_responses r' = m_responses r"
  shows "step_tracks k r r'"
  using assms by (auto simp: step_tracks_def tracks_def intro!: exI [of _ p])

lemma complete_op_tracks: "k < length (http_ops r) \<Longrightarrow> step_tracks k r (complete_op k r)"
  by (auto simp: step_tracks_def complete_op_def report_complete_def UntrackResponse_def args_of_def fire_def set_op_def)

lemma create_done_tracks:
  assumes "k < length (http_ops r)" and "m_uriHandler r = None" and "create_done c s k r = Some r'"
  shows "step_tracks k r r'"
proof (cases c)
  case (CreatedNull message)
  then show ?thesis
    using assms start_send_tracks
    by (auto simp: create_done_def args_of_def Let_def intro!: step_tracks_after [OF start_send_tracks])
qed (use assms fail_op_tracks start_send_tracks in \<open>auto simp: create_done_def\<close>)

lemma send_done_tracks:
  assumes t: "tracks k r" and ph: "in_flight (op_phase (http_ops r ! k))" and k: "k < length (http_ops r)"
    and step: "send_done a k r = Some r'"
  shows "step_tracks k r r'"
proof (cases "\<exists>st url hs content. a = Answer (Some (st, url, hs, content))")
  case False
  then have "\<exists>m t. r' = fail_op k m t r" using step by (cases a) (auto simp: send_done_def split: option.splits)
  then show ?thesis using fail_op_tracks [OF k] by blast
next
  case True
  then obtain st url hs content where a: "a = Answer (Some (st, url, hs, content))" by blast
  show ?thesis
  proof (cases content)
    case None
    then show ?thesis
      using step a k by (auto simp: send_done_def Let_def args_of_def split: if_splits intro!: step_tracks_after [OF fail_op_tracks])
  next
    case (Some cs)
    then show ?thesis
      using step a k by (auto simp: send_done_def Let_def args_of_def intro!: stays_tracked [OF t ph k])
  qed
qed

lemma stream_opened_tracks:
  assumes "tracks k r" and "in_flight (op_phase (http_ops r ! k))" and "k < length (http_ops r)"
  shows "step_tracks k r (stream_opened x k r)"
  using fail_op_tracks [OF assms(3)]
  by (cases x) (auto simp: stream_opened_def args_of_def intro!: stays_tracked [OF assms])

lemma loaded_tracks:
  assumes t: "tracks k r" and ph: "loading (op_phase (http_ops r ! k))" and k: "k < length (http_ops r)"
  shows "step_tracks k r (loaded encode guid x k r)"
proof -
  have fl: "in_flight (op_phase (http_ops r ! k))" using ph by (cases "op_phase (http_ops r ! k)") simp_all
  have "step_tracks k r (load_bytes encode bytes k r)" for bytes
    using ph k by (cases "op_phase (http_ops r ! k)")
      (auto simp: load_bytes_def Let_def args_of_def intro!: stays_tracked [OF t fl k])
  moreover have "step_tracks k r (load_end guid k r)"
  proof (cases "op_phase (http_ops r ! k)")
    case (LoadingBlob d)
    then show ?thesis
      using k by (auto simp: load_end_def Let_def args_of_def report_blob_def split: prod.splits
          intro!: step_tracks_after [OF complete_op_tracks])
  next
    case (LoadingData n s)
    then show ?thesis
      using k complete_op_tracks [OF k]
      by (auto simp: load_end_def Let_def args_of_def intro!: step_tracks_after [OF complete_op_tracks])
  qed (use ph in simp_all)
  ultimately show ?thesis using fail_op_tracks [OF k] by (auto simp: loaded_def split: sum.splits list.splits)
qed

text \<open>
  The module numbers its requests, so that a response is found under the number of its own request as
  long as the numbers have not wrapped around.
\<close>

definition track_ok :: "http_module \<Rightarrow> bool" where
  "track_ok m \<longleftrightarrow> m_requestId m = of_nat (length (http_ops (m_resource m))) \<and>
     (\<forall>k < length (http_ops (m_resource m)). RequestId (args_of k (m_resource m)) = of_nat (Suc k)) \<and>
     (\<forall>i k. m_responses (m_resource m) i = Some k \<longleftrightarrow>
        k < length (http_ops (m_resource m)) \<and> i = of_nat (Suc k) \<and> in_flight (op_phase (http_ops (m_resource m) ! k)))"

lemma of_nat_inj64: "k < 2 ^ 64 \<Longrightarrow> j < 2 ^ 64 \<Longrightarrow> (of_nat k :: int64) = of_nat j \<longleftrightarrow> k = j"
  by (simp add: word_of_nat_eq_iff take_bit_nat_eq_self)

lemma track_ok_tracks:
  assumes "track_ok m" and "k < length (http_ops (m_resource m))" and "length (http_ops (m_resource m)) < 2 ^ 64"
  shows "tracks k (m_resource m)"
proof -
  let ?r = "m_resource m"
  have id: "RequestId (args_of k ?r) = of_nat (Suc k)"
    and t: "\<And>i j. m_responses ?r i = Some j \<longleftrightarrow> j < length (http_ops ?r) \<and> i = of_nat (Suc j) \<and> in_flight (op_phase (http_ops ?r ! j))"
    using assms(1,2) unfolding track_ok_def by blast+
  show ?thesis
  proof (cases "in_flight (op_phase (http_ops ?r ! k))")
    case True
    then show ?thesis using t [of "of_nat (Suc k)" k] assms(2) id by (simp add: tracks_def del: of_nat_Suc)
  next
    case False
    have "m_responses ?r (of_nat (Suc k)) \<noteq> Some j" for j
    proof
      assume j: "m_responses ?r (of_nat (Suc k)) = Some j"
      then have "j < length (http_ops ?r)" "(of_nat (Suc k) :: int64) = of_nat (Suc j)" using t by blast+
      then have "j = k" using of_nat_inj64 [of "Suc k" "Suc j"] assms(2,3) by linarith
      then show False using t j False by blast
    qed
    then show ?thesis using id False by (auto simp: tracks_def simp del: of_nat_Suc)
  qed
qed

lemma track_ok_step:
  assumes ok: "track_ok m" and k: "k < length (http_ops (m_resource m))" and small: "length (http_ops (m_resource m)) < 2 ^ 64"
    and step: "tracks k (m_resource m) \<Longrightarrow> step_tracks k (m_resource m) r'"
  shows "track_ok (m\<lparr>m_resource := r'\<rparr>) \<and> length (http_ops r') = length (http_ops (m_resource m))"
proof -
  let ?r = "m_resource m"
  have id: "RequestId (args_of j ?r) = of_nat (Suc j)" if "j < length (http_ops ?r)" for j
    using ok that unfolding track_ok_def by blast
  obtain p where p: "http_ops r' = (http_ops ?r)[k := p]" "op_args p = args_of k ?r"
    "m_responses r' = (m_responses ?r)(of_nat (Suc k) := if in_flight (op_phase p) then Some k else None)"
    using step [OF track_ok_tracks [OF ok k small]] id [OF k] unfolding step_tracks_def by auto
  have "m_responses r' i = Some j \<longleftrightarrow> j < length (http_ops r') \<and> i = of_nat (Suc j) \<and> in_flight (op_phase (http_ops r' ! j))" for i j
  proof -
    have t: "m_responses ?r i = Some j \<longleftrightarrow> j < length (http_ops ?r) \<and> i = of_nat (Suc j) \<and> in_flight (op_phase (http_ops ?r ! j))"
      using ok unfolding track_ok_def by blast
    have "(of_nat (Suc j) :: int64) = of_nat (Suc k) \<longleftrightarrow> j = k" if "j < length (http_ops ?r)"
      using of_nat_inj64 [of "Suc j" "Suc k"] that k small by linarith
    then show ?thesis using t k p by (auto simp: nth_list_update simp del: of_nat_Suc)
  qed
  moreover have "RequestId (args_of j r') = of_nat (Suc j)" if "j < length (http_ops r')" for j
    using id [of j] that p(1,2) k by (cases "j = k") (simp_all add: args_of_def del: of_nat_Suc)
  ultimately show ?thesis using ok p(1) unfolding track_ok_def by simp
qed

lemma track_ok_cong:
  assumes "m_requestId m' = m_requestId m" and "http_ops (m_resource m') = http_ops (m_resource m)"
    "m_responses (m_resource m') = m_responses (m_resource m)"
  shows "track_ok m' \<longleftrightarrow> track_ok m"
  unfolding track_ok_def args_of_def assms by (rule refl)

lemma SendRequest_responses: "m_responses (SendRequest throws callback a r) = m_responses r"
  by (cases throws) (simp_all add: SendRequest_def report_error_def Let_def)

lemma SendRequest_ops: "\<exists>p. http_ops (SendRequest throws callback a r) = http_ops r @ [p] \<and> op_args p = a \<and> \<not> in_flight (op_phase p)"
  by (cases throws) (simp_all add: SendRequest_def report_error_def new_op_def Let_def)

lemma AbortRequest_same [simp]:
  "http_ops (AbortRequest throws i r) = http_ops r" "m_responses (AbortRequest throws i r) = m_responses r"
  by (cases "m_responses r i"; cases throws; simp add: AbortRequest_def)+

lemma step_length [simp]:
  "length (http_ops (fail_op k msg t r)) = length (http_ops r)" "length (http_ops (start_send s k r)) = length (http_ops r)"
  "length (http_ops (complete_op k r)) = length (http_ops r)" "length (http_ops (report_blob k b r)) = length (http_ops r)"
  "length (http_ops (load_bytes encode bytes k r)) = length (http_ops r)"
  by (simp_all add: fail_op_def report_error_def start_send_def complete_op_def report_complete_def report_blob_def load_bytes_def Let_def
      split: sent.splits http_phase.splits)

lemma load_end_length [simp]: "length (http_ops (load_end guid k r)) = length (http_ops r)"
  by (simp add: load_end_def Let_def split: http_phase.splits prod.splits)

lemma step_lengths:
  "create_done c s k r = Some r' \<Longrightarrow> m_uriHandler r = None \<Longrightarrow> length (http_ops r') = length (http_ops r)"
  "send_done a k r = Some r' \<Longrightarrow> length (http_ops r') = length (http_ops r)"
  "length (http_ops (stream_opened x k r)) = length (http_ops r)"
  "length (http_ops (loaded encode guid y k r)) = length (http_ops r)"
  by (auto simp: create_done_def send_done_def stream_opened_def loaded_def Let_def
      split: created.splits answer.splits option.splits prod.splits if_splits sum.splits list.splits)

lemma http_run_tracks:
  "http_run encode guid m \<Longrightarrow> length (http_ops (m_resource m)) < 2 ^ 64 \<Longrightarrow> track_ok m"
proof (induction rule: http_run.induct)
  case http_new
  then show ?case by (simp add: track_ok_def module_new_def SetOn_def http_resource_new_def)
next
  case (http_next m v m')
  have uri: "m_uriHandler (m_resource m) = None" using http_run_ok [OF http_next.hyps(1)] by (simp add: http_ok_def)
  have part: "track_ok m'" if k: "k < length (http_ops (m_resource m))" "m' = m\<lparr>m_resource := r'\<rparr>"
    and st: "tracks k (m_resource m) \<Longrightarrow> step_tracks k (m_resource m) r'" and ln: "length (http_ops r') = length (http_ops (m_resource m))" for k r'
  proof -
    have small: "length (http_ops (m_resource m)) < 2 ^ 64" using http_next.prems k(2) ln by simp
    then show ?thesis using track_ok_step [OF http_next.IH [OF small] k(1) small st] k(2) by simp
  qed
  have same: "track_ok m'" if "m_requestId m' = m_requestId m" "http_ops (m_resource m') = http_ops (m_resource m)"
    "m_responses (m_resource m') = m_responses (m_resource m)"
    using track_ok_cong [OF that] http_next.IH http_next.prems that(2) by simp
  show ?case
  proof (cases v)
    case (SendCall throws query)
    then obtain a where a: "m' = m\<lparr>m_requestId := m_requestId m + 1, m_resource := SendRequest throws True a (m_resource m)\<rparr>"
      "RequestId a = m_requestId m + 1"
      using http_next.hyps(3) by (auto simp: module_SendRequest_def Let_def)
    obtain p where p: "http_ops (m_resource m') = http_ops (m_resource m) @ [p]" "RequestId (op_args p) = m_requestId m + 1"
      "\<not> in_flight (op_phase p)" "m_responses (m_resource m') = m_responses (m_resource m)" "m_requestId m' = m_requestId m + 1"
      using SendRequest_ops [of throws True a "m_resource m"] SendRequest_responses [of throws True a "m_resource m"] a by auto
    have ok: "track_ok m" using http_next.IH http_next.prems p(1) by simp
    have n: "m_requestId m = of_nat (length (http_ops (m_resource m)))" using ok by (simp add: track_ok_def)
    show ?thesis
      using ok n p unfolding track_ok_def by (auto simp: nth_append args_of_def less_Suc_eq add.commute)
  next
    case (AbortCall throws d)
    then show ?thesis
      using http_next.hyps(3)
      by (intro same) (auto simp: module_AbortRequest_def)
  next
    case AddHandlers
    then show ?thesis
      using http_next.hyps(3)
      by (intro same) (auto simp: on_resource_def AddUriHandler_def AddResponseHandler_def AddRequestBodyHandler_def)
  next
    case (StoreChanges q)
    then show ?thesis using http_next.hyps(3) by (intro same) (auto simp: on_resource_def)
  next
    case (CreateDone k c s)
    then obtain r' where r': "create_done c s k (m_resource m) = Some r'" "m' = m\<lparr>m_resource := r'\<rparr>" "k < length (http_ops (m_resource m))"
      using http_next.hyps by (auto simp: op_in_phase_def)
    show ?thesis
      by (rule part [OF r'(3,2)]) (use create_done_tracks [OF r'(3) uri r'(1)] step_lengths(1) [OF r'(1) uri] in simp_all)
  next
    case (SendDone k a)
    then obtain r' where r': "send_done a k (m_resource m) = Some r'" "m' = m\<lparr>m_resource := r'\<rparr>" "k < length (http_ops (m_resource m))"
      "in_flight (op_phase (http_ops (m_resource m) ! k))"
      using http_next.hyps by (auto simp: op_in_phase_def dest: sym)
    show ?thesis
      by (rule part [OF r'(3,2)]) (use send_done_tracks [OF _ r'(4,3,1)] step_lengths(2) [OF r'(1)] in simp_all)
  next
    case (StreamOpened k x)
    then have k: "k < length (http_ops (m_resource m))" "in_flight (op_phase (http_ops (m_resource m) ! k))"
      "m' = m\<lparr>m_resource := stream_opened x k (m_resource m)\<rparr>"
      using http_next.hyps by (auto simp: op_in_phase_def on_resource_def dest: sym)
    show ?thesis
      by (rule part [OF k(1,3)]) (use stream_opened_tracks [OF _ k(2,1)] step_lengths(3) in simp_all)
  next
    case (LoadDone k x)
    then have k: "k < length (http_ops (m_resource m))" "loading (op_phase (http_ops (m_resource m) ! k))"
      "m' = m\<lparr>m_resource := loaded encode guid x k (m_resource m)\<rparr>"
      using http_next.hyps by (auto simp: op_in_phase_def on_resource_def)
    show ?thesis
      by (rule part [OF k(1,3)]) (use loaded_tracks [OF _ k(2,1)] step_lengths(4) in simp_all)
  qed
qed

section \<open>Properties of requests\<close>

definition is_completion :: "http_event \<Rightarrow> bool" where
  "is_completion e \<longleftrightarrow> fst (module_event e) = ''didCompleteNetworkResponse''"

fun data_of :: "http_event \<Rightarrow> string" where
  "data_of (OnData i s) = s"
| "data_of (OnIncrementalData i s progress tot) = s"
| "data_of e = []"

lemma chunk_events_quiet [simp]: "filter is_completion (chunk_events a n cs) = []"
  by (induction cs arbitrary: n) (auto simp: is_completion_def)

lemma chunk_events_data: "concat (map data_of (chunk_events a n cs)) = (if silent a then text_of (concat cs) else [])"
  by (induction cs arbitrary: n) (auto simp: silent_def text_of_def)



text \<open>What crashes: an answer without content is asked for the headers of its content.\<close>

lemma http_crashes:
  assumes run: "http_run encode guid m" and ready: "http_ready v m" and crash: "http_step encode guid v m = None"
  shows "(\<exists>k st url hs. v = SendDone k (Answer (Some (st, url, hs, None)))) \<or> (\<exists>t d. v = AbortCall t d \<and> int64_of_double d = None) \<or>
    (\<exists>t query. v = SendCall t query \<and> int64_of_double (q_timeout query) = None)"
proof (cases v)
  case (CreateDone k c s)
  then show ?thesis
    using create_done_ok [OF http_run_ok [OF run], of k c s] ready crash by (auto simp: op_in_phase_def)
next
  case (SendDone k a)
  then show ?thesis
    using send_done_ok [OF http_run_ok [OF run], of k a] ready crash by (auto simp: op_in_phase_def)
qed (use crash in \<open>simp_all add: module_AbortRequest_def module_SendRequest_def Let_def\<close>)

text \<open>A blob of a response is in the store under the identifier that is reported.\<close>

lemma load_end_stores:
  assumes "op_phase (http_ops r ! k) = LoadingBlob d" and "blobs_ok (http_persistor r)" and "k < length (http_ops r)"
  shows "\<exists>i. op_blob (http_ops (load_end guid k r) ! k) = blob_object i (length d) \<and>
    map_of (m_blobs (http_persistor (load_end guid k r))) i = Some d"
proof -
  obtain q where q: "StoreMessage guid d (http_persistor r) = (guid (m_guidGenerator (http_persistor r)), q)"
    by (simp add: StoreMessage_def Let_def)
  then have "map_of (m_blobs q) (guid (m_guidGenerator (http_persistor r))) = Some d"
    using map_of_StoreMessage [OF assms(2) q] by simp
  then show ?thesis
    using assms q by (auto simp: load_end_def ToResponseData_def blob_object_def complete_op_def report_complete_def report_blob_def
        UntrackResponse_def Let_def intro!: exI [of _ "guid (m_guidGenerator (http_persistor r))"])
qed

section \<open>Base64 in pieces\<close>

text \<open>
  What is documented of base64: four digits for every three bytes begun, filled up at the end with one
  padding character for every byte that is missing, and no padding elsewhere; so the digits of three
  bytes do not depend on what comes before them.
\<close>

definition padding :: "nat \<Rightarrow> nat" where
  "padding n = (3 - n mod 3) mod 3"

definition base64_encoder :: "(byte list \<Rightarrow> string) \<Rightarrow> bool" where
  "base64_encoder encode \<longleftrightarrow>
     (\<forall>xs. length (encode xs) = 4 * ((length xs + 2) div 3)) \<and>
     (\<forall>xs i. i < length (encode xs) \<longrightarrow> (encode xs ! i = CHR ''='' \<longleftrightarrow> length (encode xs) \<le> i + padding (length xs))) \<and>
     (\<forall>xs ys. 3 dvd length xs \<longrightarrow> encode (xs @ ys) = encode xs @ encode ys)"

text \<open>Such an encoder: the digits of six bits each.\<close>

definition digit64 :: "nat \<Rightarrow> char" where
  "digit64 n = (if n < 26 then char_of (n + 65) else if n < 52 then char_of (n + 71) else if n < 62 then char_of (n - 4)
     else if n = 62 then CHR ''+'' else CHR ''/'')"

fun base64 :: "byte list \<Rightarrow> string" where
  "base64 [] = []"
| "base64 [a] = [digit64 (unat a div 4), digit64 (unat a mod 4 * 16), CHR ''='', CHR ''='']"
| "base64 [a, b] = [digit64 (unat a div 4), digit64 (unat a mod 4 * 16 + unat b div 16), digit64 (unat b mod 16 * 4), CHR ''='']"
| "base64 (a # b # c # bs) = digit64 (unat a div 4) # digit64 (unat a mod 4 * 16 + unat b div 16) #
     digit64 (unat b mod 16 * 4 + unat c div 64) # digit64 (unat c mod 64) # base64 bs"

lemma digit64_no_padding: "digit64 n \<noteq> CHR ''=''"
proof
  assume "digit64 n = CHR ''=''"
  then have "of_char (digit64 n) = (61 :: nat)" by simp
  then show False by (auto simp: digit64_def split: if_splits)
qed

lemma length_base64: "length (base64 xs) = 4 * ((length xs + 2) div 3)"
proof (induction xs rule: base64.induct)
  case (4 a b c bs)
  have "(length (a # b # c # bs) + 2) div 3 = Suc ((length bs + 2) div 3)"
    using div_add_self2 [of 3 "length bs + 2"] by (simp add: add.commute)
  then show ?case using 4 by simp
qed simp_all

lemma base64_padding:
  "i < length (base64 xs) \<Longrightarrow> base64 xs ! i = CHR ''='' \<longleftrightarrow> length (base64 xs) \<le> i + padding (length xs)"
proof (induction xs arbitrary: i rule: base64.induct)
  case (4 a b c bs)
  have pad: "padding (length (a # b # c # bs)) = padding (length bs)" by (simp add: padding_def)
  show ?case
  proof (cases "i < 4")
    case True
    then have "i \<in> {0, 1, 2, 3}" by auto
    moreover have "padding (length bs) \<le> length (base64 bs)" by (cases bs) (simp_all add: padding_def length_base64)
    ultimately show ?thesis using pad by (auto simp: digit64_no_padding)
  next
    case False
    then obtain j where "i = Suc (Suc (Suc (Suc j)))" using that [of "i - 4"] by simp
    then show ?thesis using 4 pad by simp
  qed
qed (auto simp: less_Suc_eq digit64_no_padding padding_def nth_Cons')

lemma base64_append: "3 dvd length xs \<Longrightarrow> base64 (xs @ ys) = base64 xs @ base64 ys"
proof (induction xs rule: base64.induct)
  case (4 a b c bs)
  then have "3 dvd length bs" by simp presburger
  then show ?case using 4 by simp
qed (simp_all, presburger)

lemma base64_encoder_base64: "base64_encoder base64"
  unfolding base64_encoder_def using length_base64 base64_padding base64_append by blast

lemma padding_le: "padding n \<le> 2" "\<not> 3 dvd n \<Longrightarrow> 1 \<le> padding n"
proof -
  have "n mod 3 = 0 \<or> n mod 3 = 1 \<or> n mod 3 = 2" by auto
  then show "padding n \<le> 2" "\<not> 3 dvd n \<Longrightarrow> 1 \<le> padding n" by (auto simp: padding_def dvd_eq_mod_eq_0)
qed

lemma encode_pieces:
  assumes e: "base64_encoder encode"
  shows "[] \<notin> set cs \<Longrightarrow> concat (map encode cs) = encode (concat cs) \<longleftrightarrow> (\<forall>c \<in> set (butlast cs). 3 dvd length c)"
proof (induction cs)
  case Nil
  have "length (encode []) = 0" using e unfolding base64_encoder_def by simp
  then show ?case by simp
next
  case (Cons c cs)
  have len: "length (encode xs) = 4 * ((length xs + 2) div 3)" for xs
    using e unfolding base64_encoder_def by blast
  show ?case
  proof (cases "cs = []")
    case False
    then obtain d ds where cs: "cs = d # ds" by (cases cs) auto
    then have d: "4 \<le> length (encode d)" using Cons.prems len [of d] by (cases d) simp_all
    have c: "c \<noteq> []" using Cons.prems by auto
    have dvd: "3 dvd length c" if eq: "concat (map encode (c # cs)) = encode (concat (c # cs))"
    proof (rule ccontr)
      assume ndvd: "\<not> 3 dvd length c"
      let ?i = "length (encode c) - 1"
      have pos: "4 \<le> length (encode c)" using c len [of c] by (cases c) simp_all
      then have "encode c ! ?i = CHR ''=''"
        using e padding_le(2) [OF ndvd] unfolding base64_encoder_def by simp
      then have "encode (concat (c # cs)) ! ?i = CHR ''=''"
        using pos unfolding eq [symmetric] by (auto simp: nth_append)
      moreover have long: "length (encode c) + 4 \<le> length (encode (concat (c # cs)))"
        using d unfolding eq [symmetric] by (simp add: cs)
      then have "?i < length (encode (concat (c # cs)))" using pos by linarith
      ultimately have "length (encode (concat (c # cs))) \<le> ?i + padding (length (concat (c # cs)))"
        using e unfolding base64_encoder_def by blast
      then show False using long pos padding_le(1) [of "length (concat (c # cs))"] by linarith
    qed
    have "encode (concat (c # cs)) = encode c @ encode (concat cs)" if "3 dvd length c"
      using e that unfolding base64_encoder_def by simp
    then show ?thesis using dvd Cons False by auto
  qed simp
qed

text \<open>
  C38: The base64 text of an answer is made load by load and joined. It is the base64 text of the body only
  if every load but the last has a number of bytes that three divides; a full load never has, so an
  answer of more than one full load is garbled.
\<close>

theorem base64_answer_garbled:
  assumes run: "http_run encode guid m" and k: "k < length (http_ops (m_resource m))" "p = http_ops (m_resource m) ! k"
    and p: "op_end p = Some EndComplete" "\<not> op_as_blob p" "\<not> isText (op_args p)"
    and e: "base64_encoder encode"
  shows "OnData (RequestId (op_args p)) (concat (map encode (op_chunks p))) \<in> set (op_log k (m_resource m)) \<and>
    (concat (map encode (op_chunks p)) = encode (concat (op_chunks p)) \<longleftrightarrow> (\<forall>c \<in> set (butlast (op_chunks p)). 3 dvd length c)) \<and>
    (1 < length (op_chunks p) \<and> length (hd (op_chunks p)) = segmentSize (op_args p) \<longrightarrow>
       concat (map encode (op_chunks p)) \<noteq> encode (concat (op_chunks p)))"
proof -
  have ok: "op_ok encode p" "op_log k (m_resource m) = op_events encode p"
    using http_run_ok [OF run] k by (auto simp: http_ok_def)
  have pieces: "concat (map encode (op_chunks p)) = encode (concat (op_chunks p)) \<longleftrightarrow> (\<forall>c \<in> set (butlast (op_chunks p)). 3 dvd length c)"
    using encode_pieces [OF e] ok(1) by (simp add: op_ok_def)
  have "hd (op_chunks p) \<in> set (butlast (op_chunks p))" if "1 < length (op_chunks p)"
    using that by (cases "op_chunks p") auto
  moreover have "\<not> 3 dvd segmentSize (op_args p)" by (simp add: segmentSize_def)
  ultimately have "concat (map encode (op_chunks p)) \<noteq> encode (concat (op_chunks p))"
    if "1 < length (op_chunks p)" "length (hd (op_chunks p)) = segmentSize (op_args p)"
    using that pieces by metis
  then show ?thesis
    using pieces ok(2) p by (simp add: op_events_def end_events_def Let_def silent_def body_text_def)
qed

section \<open>Concrete runs\<close>

fun http_script :: "(byte list \<Rightarrow> string) \<Rightarrow> (nat \<Rightarrow> string) \<Rightarrow> http_input list \<Rightarrow> http_module \<Rightarrow> http_module option" where
  "http_script encode guid [] m = Some m"
| "http_script encode guid (v # vs) m =
     (if http_ready v m then Option.bind (http_step encode guid v m) (http_script encode guid vs) else None)"

lemma http_script_run: "http_script encode guid vs m = Some m' \<Longrightarrow> http_run encode guid m \<Longrightarrow> http_run encode guid m'"
proof (induction vs arbitrary: m)
  case (Cons v vs)
  then obtain m1 where "http_ready v m" "http_step encode guid v m = Some m1" "http_script encode guid vs m1 = Some m'"
    by (auto split: if_splits Option.bind_splits)
  then show ?case using Cons.IH http_next [OF Cons.prems(2)] by blast
qed simp

definition sample_query :: "string \<Rightarrow> http_query" where
  "sample_query t = \<lparr>q_headers = Null, q_data = Null, q_responseType = t, q_incrementalUpdates = False, q_timeout = Finite False 0 0,
     q_withCredentials = False\<rparr>"

definition answer_script :: "string \<Rightarrow> http_input list" where
  "answer_script t = [SendCall None (sample_query t), CreateDone 0 (CreatedRequest ''u'') SendStarts,
     SendDone 0 (Answer (Some (200, ''u'', [], Some []))), StreamOpened 0 (Inr ()), LoadDone 0 (Inr [1]), LoadDone 0 (Inr [2]),
     LoadDone 0 (Inr [])]"

lemmas run_defs = answer_script_def sample_query_def query_headers_def AsObject_def int64_of_double_def module_new_def SetOn_def http_resource_new_def module_SendRequest_def SendRequest_def new_op_def
  on_resource_def op_in_phase_def args_of_def create_done_def start_send_def TrackResponse_def set_op_def send_done_def fire_def
  emplace_headers_def stream_opened_def response_Supports_def loaded_def load_bytes_def load_end_def complete_op_def report_complete_def
  UntrackResponse_def isText_def segmentSize_def report_blob_def AddUriHandler_def AddRequestBodyHandler_def AddResponseHandler_def

lemma answer_run:
  "map_option (\<lambda>m. map (\<lambda>p. (op_args p, op_phase p, op_chunks p, op_as_blob p, op_end p, op_null p)) (http_ops (m_resource m)))
     (http_script base64 (\<lambda>n. ''g'') (answer_script ''base64'') module_new) =
   Some [(\<lparr>RequestId = 1, ArgsHeaders = [], ArgsData = [], WithCredentials = False, ResponseType = ''base64'', IncrementalUpdates = False, Timeout = 0\<rparr>, Ended, [[1], [2]], False, Some EndComplete, None)]"
  by (simp add: run_defs)

lemma answer_runs:
  "\<exists>m. http_run base64 (\<lambda>n. ''g'') m \<and> 0 < length (http_ops (m_resource m)) \<and>
     op_args (http_ops (m_resource m) ! 0) = \<lparr>RequestId = 1, ArgsHeaders = [], ArgsData = [], WithCredentials = False, ResponseType = ''base64'', IncrementalUpdates = False, Timeout = 0\<rparr> \<and>
     op_chunks (http_ops (m_resource m) ! 0) = [[1], [2]] \<and> \<not> op_as_blob (http_ops (m_resource m) ! 0) \<and>
     op_end (http_ops (m_resource m) ! 0) = Some EndComplete \<and> op_null (http_ops (m_resource m) ! 0) = None"
proof -
  obtain m where m: "http_script base64 (\<lambda>n. ''g'') (answer_script ''base64'') module_new = Some m"
    "map (\<lambda>p. (op_args p, op_phase p, op_chunks p, op_as_blob p, op_end p, op_null p)) (http_ops (m_resource m)) =
      [(\<lparr>RequestId = 1, ArgsHeaders = [], ArgsData = [], WithCredentials = False, ResponseType = ''base64'', IncrementalUpdates = False, Timeout = 0\<rparr>, Ended, [[1], [2]], False, Some EndComplete, None)]"
    using answer_run by auto
  then obtain q where "http_ops (m_resource m) = [q]" by (auto simp: map_eq_Cons_conv)
  then show ?thesis using m(2) http_script_run [OF m(1) http_new] by (intro exI [of _ m]) simp
qed


theorem base64_answer_garbled_witness:
  "concat (map base64 [[1], [2]]) \<noteq> base64 (concat [[1], [2]])"
proof -
  obtain m where m: "http_run base64 (\<lambda>n. ''g'') m" "0 < length (http_ops (m_resource m))"
    "op_args (http_ops (m_resource m) ! 0) = \<lparr>RequestId = 1, ArgsHeaders = [], ArgsData = [], WithCredentials = False, ResponseType = ''base64'', IncrementalUpdates = False, Timeout = 0\<rparr>"
    "op_chunks (http_ops (m_resource m) ! 0) = [[1], [2]]" "\<not> op_as_blob (http_ops (m_resource m) ! 0)"
    "op_end (http_ops (m_resource m) ! 0) = Some EndComplete"
    using answer_runs by blast
  have "\<not> isText (op_args (http_ops (m_resource m) ! 0))" using m(3) by (simp add: isText_def)
  from base64_answer_garbled [OF m(1,2) refl m(6,5) this base64_encoder_base64] show ?thesis
    unfolding m(4) by simp
qed


end
