(* ===== verification/TaskSequencer.thy ===== *)
theory TaskSequencer
  imports Prelude
begin

text \<open>
  The sequencer of coroutines of a web socket (\<^verbatim>\<open>Shared/Networking/WinRTWebSocketResource.h\<close>): each task
  is resumed when the one queued before it completes, without a lock held while tasks run. The steps
  are its atomic operations, of any number of threads; a task stands for its coroutine and the node of
  the chain made for it.
\<close>

section \<open>Chained tasks\<close>

text \<open>The pointer of a node: nothing yet, a suspended coroutine to resume, or the mark of completion.\<close>

datatype link = Unset | Handle nat | Completed

text \<open>
  \<open>ContinueWith\<close> exchanges the pointer for the handle; the second component says that the coroutine is
  to be resumed now. \<open>Complete\<close> gives the coroutine to be resumed; resuming the mark is a crash.
\<close>

definition ContinueWith :: "nat \<Rightarrow> link \<Rightarrow> link \<times> bool" where
  "ContinueWith h m_next = (Handle h, m_next \<noteq> Unset)"

definition Complete :: "link \<Rightarrow> (link \<times> nat option) option" where
  "Complete m_next = (case m_next of Unset \<Rightarrow> Some (Completed, None) | Handle h \<Rightarrow> Some (Completed, Some h) | Completed \<Rightarrow> None)"

section \<open>Threads\<close>

text \<open>
  Where a task is: its coroutine is suspended at its start, its node is the latest but not chained yet,
  it waits, its body runs, or its body is done and its node not completed yet.
\<close>

datatype place = New | Suspended | Swapped nat | Waiting | Running | Returned | Finished

record sequencer =
  m_latest :: nat
  m_next :: "nat \<Rightarrow> link"
  place_of :: "nat \<Rightarrow> place"
  queued :: "nat list"
  started :: "nat list"

text \<open>Node 0 is the completed node of the constructor; tasks have the other numbers.\<close>

definition sequencer_new :: sequencer where
  "sequencer_new = \<lparr>m_latest = 0, m_next = (\<lambda>n. if n = 0 then Completed else Unset), place_of = (\<lambda>_. New), queued = [], started = []\<rparr>"

definition resume_task :: "nat \<Rightarrow> sequencer \<Rightarrow> sequencer" where
  "resume_task t s = s\<lparr>place_of := (place_of s)(t := Running), started := started s @ [t]\<rparr>"

text \<open>The parts of \<^verbatim>\<open>QueueTaskAsync\<close>, the end of the body and the destructor of the completer.\<close>

definition suspend_task :: "nat \<Rightarrow> sequencer \<Rightarrow> sequencer option" where
  "suspend_task t s = (if t \<noteq> 0 \<and> place_of s t = New then Some (s\<lparr>place_of := (place_of s)(t := Suspended)\<rparr>) else None)"

definition swap_latest :: "nat \<Rightarrow> sequencer \<Rightarrow> sequencer option" where
  "swap_latest t s = (if place_of s t = Suspended
     then Some (s\<lparr>m_latest := t, place_of := (place_of s)(t := Swapped (m_latest s)), queued := queued s @ [t]\<rparr>) else None)"

definition chain_task :: "nat \<Rightarrow> sequencer \<Rightarrow> sequencer option" where
  "chain_task t s = (case place_of s t of
     Swapped n \<Rightarrow> (case ContinueWith t (m_next s n) of (l, now) \<Rightarrow>
       let s1 = s\<lparr>m_next := (m_next s)(n := l), place_of := (place_of s)(t := Waiting)\<rparr>
       in Some (if now then resume_task t s1 else s1))
   | _ \<Rightarrow> None)"

definition return_task :: "nat \<Rightarrow> sequencer \<Rightarrow> sequencer option" where
  "return_task t s = (if place_of s t = Running then Some (s\<lparr>place_of := (place_of s)(t := Returned)\<rparr>) else None)"

text \<open>The inner option is the crash.\<close>

definition complete_task :: "nat \<Rightarrow> sequencer \<Rightarrow> sequencer option option" where
  "complete_task t s = (if place_of s t = Returned
     then Some (case Complete (m_next s t) of
         None \<Rightarrow> None
       | Some (l, h) \<Rightarrow>
           let s1 = s\<lparr>m_next := (m_next s)(t := l), place_of := (place_of s)(t := Finished)\<rparr>
           in Some (case h of None \<Rightarrow> s1 | Some u \<Rightarrow> resume_task u s1))
     else None)"

inductive seq_step :: "sequencer \<Rightarrow> sequencer option \<Rightarrow> bool" where
  "suspend_task t s = Some s' \<Longrightarrow> seq_step s (Some s')"
| "swap_latest t s = Some s' \<Longrightarrow> seq_step s (Some s')"
| "chain_task t s = Some s' \<Longrightarrow> seq_step s (Some s')"
| "return_task t s = Some s' \<Longrightarrow> seq_step s (Some s')"
| "complete_task t s = Some r \<Longrightarrow> seq_step s r"

inductive seq_run :: "sequencer \<Rightarrow> bool" where
  "seq_run sequencer_new"
| "seq_run s \<Longrightarrow> seq_step s (Some s') \<Longrightarrow> seq_run s'"

section \<open>The invariant\<close>

text \<open>
  The queued tasks are a chain. All before number \<open>k\<close> are finished; number \<open>k\<close> runs or is about to
  be resumed by its own thread; the others are or will be chained to the one before.
\<close>

definition pred_of :: "nat list \<Rightarrow> nat \<Rightarrow> nat" where
  "pred_of q i = (if i = 0 then 0 else q ! (i - 1))"

definition chain_ok :: "sequencer \<Rightarrow> nat \<Rightarrow> bool" where
  "chain_ok s k \<longleftrightarrow> distinct (queued s) \<and> 0 \<notin> set (queued s) \<and> k \<le> length (queued s) \<and>
     m_latest s = pred_of (queued s) (length (queued s)) \<and>
     place_of s 0 = New \<and>
     (\<forall>t. t \<notin> set (queued s) \<longrightarrow> place_of s t \<in> {New, Suspended} \<and> (t \<noteq> 0 \<longrightarrow> m_next s t = Unset))"

definition behind :: "sequencer \<Rightarrow> nat \<Rightarrow> bool" where
  "behind s i \<longleftrightarrow> place_of s (queued s ! i) = Swapped (pred_of (queued s) i) \<and> m_next s (pred_of (queued s) i) = Unset \<or>
     place_of s (queued s ! i) = Waiting \<and> m_next s (pred_of (queued s) i) = Handle (queued s ! i)"

definition active :: "sequencer \<Rightarrow> nat \<Rightarrow> bool" where
  "active s k \<longleftrightarrow> place_of s (queued s ! k) \<in> {Running, Returned} \<and> started s = take (Suc k) (queued s) \<or>
     place_of s (queued s ! k) = Swapped (pred_of (queued s) k) \<and> m_next s (pred_of (queued s) k) = Completed \<and>
       started s = take k (queued s)"

definition chain_inv :: "sequencer \<Rightarrow> nat \<Rightarrow> bool" where
  "chain_inv s k \<longleftrightarrow> chain_ok s k \<and> (\<forall>i < k. place_of s (queued s ! i) = Finished) \<and>
     (k < length (queued s) \<longrightarrow> active s k \<and> m_next s (last (queued s)) = Unset) \<and>
     (k = length (queued s) \<longrightarrow> m_next s (pred_of (queued s) k) = Completed \<and> started s = queued s) \<and>
     (\<forall>i. k < i \<longrightarrow> i < length (queued s) \<longrightarrow> behind s i)"

lemma chain_inv_new: "chain_inv sequencer_new 0"
  by (simp add: chain_inv_def chain_ok_def sequencer_new_def pred_of_def)

lemma pred_of_inj:
  assumes "distinct q" and "0 \<notin> set q" and "i < j" and "j \<le> length q"
  shows "pred_of q i \<noteq> pred_of q j"
proof (cases i)
  case 0
  have "q ! (j - 1) \<in> set q" using assms(3,4) by simp
  then have "q ! (j - 1) \<noteq> 0" using assms(2) by metis
  then show ?thesis using 0 assms(3) by (simp add: pred_of_def)
next
  case (Suc i')
  then show ?thesis using assms by (simp add: pred_of_def nth_eq_iff_index_eq)
qed

lemma pred_of_snoc: "i \<le> length q \<Longrightarrow> pred_of (q @ [t]) i = pred_of q i"
  by (auto simp: pred_of_def nth_append)

lemma last_pred_of: "q \<noteq> [] \<Longrightarrow> last q = pred_of q (length q)"
  by (simp add: pred_of_def last_conv_nth)

lemma chain_inv_place:
  assumes "chain_inv s k" and "i < length (queued s)"
  shows "i < k \<and> place_of s (queued s ! i) = Finished \<or> i = k \<and> active s i \<or> k < i \<and> behind s i"
  using assms by (cases i k rule: linorder_cases) (auto simp: chain_inv_def)

lemma queued_nonzero: "chain_ok s k \<Longrightarrow> t \<in> set (queued s) \<Longrightarrow> t \<noteq> 0"
  unfolding chain_ok_def by metis

lemma queued_place:
  assumes "chain_inv s k" and "t \<in> set (queued s)"
  shows "place_of s t \<noteq> New \<and> place_of s t \<noteq> Suspended"
proof -
  obtain i where "i < length (queued s)" "t = queued s ! i" using assms(2) by (auto simp: in_set_conv_nth)
  then show ?thesis using chain_inv_place [OF assms(1), of i] by (auto simp: active_def behind_def)
qed

lemma running_place:
  assumes "chain_inv s k" and "place_of s t = Running \<or> place_of s t = Returned"
  shows "k < length (queued s) \<and> t = queued s ! k \<and> started s = take (Suc k) (queued s)"
proof -
  have "t \<in> set (queued s)" using assms by (auto simp: chain_inv_def chain_ok_def)
  then obtain i where "i < length (queued s)" "t = queued s ! i" by (auto simp: in_set_conv_nth)
  then show ?thesis using chain_inv_place [OF assms(1), of i] assms(2) by (auto simp: active_def behind_def)
qed

lemma active_cong:
  assumes "queued s' = queued s" "started s' = started s" "place_of s' (queued s ! k) = place_of s (queued s ! k)"
    "m_next s' (pred_of (queued s) k) = m_next s (pred_of (queued s) k)"
  shows "active s' k \<longleftrightarrow> active s k"
  by (simp add: active_def assms)

lemma behind_cong:
  assumes "queued s' = queued s" "place_of s' (queued s ! i) = place_of s (queued s ! i)"
    "m_next s' (pred_of (queued s) i) = m_next s (pred_of (queued s) i)"
  shows "behind s' i \<longleftrightarrow> behind s i"
  by (simp add: behind_def assms)

lemma suspend_inv:
  assumes inv: "chain_inv s k" and step: "suspend_task t s = Some s'"
  shows "chain_inv s' k"
proof -
  have s': "s' = s\<lparr>place_of := (place_of s)(t := Suspended)\<rparr>" "place_of s t = New" "t \<noteq> 0"
    using step by (auto simp: suspend_task_def split: if_splits)
  have out: "t \<notin> set (queued s)" using queued_place [OF inv, of t] s'(2) by auto
  have ne: "queued s ! i \<noteq> t" if "i < length (queued s)" for i using that out by auto
  have "chain_ok s' k" using inv s'(3) unfolding s'(1) by (simp add: chain_inv_def chain_ok_def)
  moreover have "place_of s' (queued s ! i) = place_of s (queued s ! i)" if "i < length (queued s)" for i
    using ne [OF that] unfolding s'(1) by simp
  moreover have same: "queued s' = queued s" "started s' = started s" "m_next s' = m_next s" unfolding s'(1) by simp_all
  ultimately show ?thesis
    using inv by (simp add: chain_inv_def active_cong [OF same(1,2)] behind_cong [OF same(1)] chain_ok_def)
qed

lemma return_inv:
  assumes inv: "chain_inv s k" and step: "return_task t s = Some s'"
  shows "chain_inv s' k"
proof -
  have s': "s' = s\<lparr>place_of := (place_of s)(t := Returned)\<rparr>" "place_of s t = Running"
    using step by (auto simp: return_task_def split: if_splits)
  have k: "k < length (queued s)" "t = queued s ! k" "started s = take (Suc k) (queued s)"
    using running_place [OF inv, of t] s'(2) by simp_all
  then have mem: "t \<in> set (queued s)" by simp
  have ne: "queued s ! i \<noteq> t" if "i < length (queued s)" "i \<noteq> k" for i
    using that k inv by (simp add: chain_inv_def chain_ok_def nth_eq_iff_index_eq)
  have "place_of s' (queued s ! i) = place_of s (queued s ! i)" if "i < length (queued s)" "i \<noteq> k" for i
    using ne [OF that] unfolding s'(1) by simp
  moreover have "chain_ok s' k"
    using inv mem queued_nonzero [of s k t] unfolding s'(1) by (simp add: chain_inv_def chain_ok_def)
  moreover have same: "queued s' = queued s" "m_next s' = m_next s" unfolding s'(1) by simp_all
  moreover have "active s' k" using k unfolding s'(1) by (simp add: active_def)
  ultimately show ?thesis
    using inv k(1) by (simp add: chain_inv_def behind_cong [OF same(1)])
qed

lemma swap_inv:
  assumes inv: "chain_inv s k" and step: "swap_latest t s = Some s'"
  shows "chain_inv s' k"
proof -
  let ?q = "queued s"
  have s': "s' = s\<lparr>m_latest := t, place_of := (place_of s)(t := Swapped (m_latest s)), queued := ?q @ [t]\<rparr>"
      "place_of s t = Suspended"
    using step by (auto simp: swap_latest_def split: if_splits)
  have out: "t \<notin> set ?q" using queued_place [OF inv, of t] s'(2) by auto
  have "place_of s 0 = New" using inv by (simp add: chain_inv_def chain_ok_def)
  then have t0: "t \<noteq> 0" using s'(2) by (metis place.distinct(1))
  have ok: "chain_ok s k" and latest: "m_latest s = pred_of ?q (length ?q)" using inv by (simp_all add: chain_inv_def chain_ok_def)
  have ne: "?q ! i \<noteq> t" if "i < length ?q" for i using that out by auto
  have "chain_ok s' k" using ok out t0 unfolding s'(1) by (simp add: chain_ok_def pred_of_def)
  moreover have "place_of s' (queued s' ! i) = Finished" if "i < k" for i
    using inv that ok ne [of i] unfolding s'(1) by (simp add: chain_inv_def chain_ok_def nth_append)
  moreover have "behind s' i" if "k < i" "i < length (queued s')" for i
  proof (cases "i = length ?q")
    case True
    then have "?q \<noteq> []" using that(1) by auto
    then have "m_next s (pred_of ?q i) = Unset"
      using inv that True by (simp add: chain_inv_def last_pred_of [symmetric])
    then show ?thesis using True latest unfolding s'(1) by (simp add: behind_def pred_of_snoc)
  next
    case False
    then have i: "i < length ?q" using that unfolding s'(1) by simp
    then have "behind s i" using inv that by (simp add: chain_inv_def)
    then show ?thesis using i ne [OF i] unfolding s'(1) by (simp add: behind_def pred_of_snoc nth_append)
  qed
  moreover have "active s' k \<and> m_next s' (last (queued s')) = Unset"
  proof
    show "m_next s' (last (queued s')) = Unset" using ok out t0 unfolding s'(1) by (simp add: chain_ok_def)
    show "active s' k"
    proof (cases "k = length ?q")
      case True
      then show ?thesis using inv latest unfolding s'(1) by (simp add: chain_inv_def active_def pred_of_snoc)
    next
      case False
      then have k: "k < length ?q" using ok by (simp add: chain_ok_def)
      then have "active s k" using inv by (simp add: chain_inv_def)
      then show ?thesis using k ne [OF k] unfolding s'(1) by (simp add: active_def pred_of_snoc nth_append)
    qed
  qed
  moreover have "k < length (queued s')" using ok unfolding s'(1) by (simp add: chain_ok_def)
  ultimately show ?thesis by (simp add: chain_inv_def)
qed

lemma chain_task_inv:
  assumes inv: "chain_inv s k" and step: "chain_task t s = Some s'"
  shows "chain_inv s' k"
proof -
  let ?q = "queued s"
  have ok: "chain_ok s k" using inv by (simp add: chain_inv_def)
  obtain n where n: "place_of s t = Swapped n" using step by (auto simp: chain_task_def split: place.splits)
  then have mem: "t \<in> set ?q" using ok by (auto simp: chain_ok_def)
  then obtain i where i: "i < length ?q" "t = ?q ! i" by (auto simp: in_set_conv_nth)
  have ne: "?q ! j \<noteq> t" if "j < length ?q" "j \<noteq> i" for j
    using that i ok by (simp add: chain_ok_def nth_eq_iff_index_eq)
  have pne: "pred_of ?q j \<noteq> pred_of ?q i" if "j \<le> length ?q" "j \<noteq> i" for j
    using that i(1) ok pred_of_inj [of ?q i j] pred_of_inj [of ?q j i] by (cases i j rule: linorder_cases) (auto simp: chain_ok_def)
  have last: "last ?q = pred_of ?q (length ?q)" using i(1) last_pred_of [of ?q] by force
  have out: "pred_of ?q i \<notin> set ?q \<longrightarrow> pred_of ?q i = 0"
    using i(1) by (auto simp: pred_of_def)
  have t0: "t \<noteq> 0" using queued_nonzero [OF ok mem] .
  consider (now) "i = k" "n = pred_of ?q i" "m_next s n = Completed" "started s = take k ?q"
    | (later) "k < i" "n = pred_of ?q i" "m_next s n = Unset"
    using chain_inv_place [OF inv i(1)] n i(2) by (auto simp: active_def behind_def)
  then show ?thesis
  proof cases
    case now
    have s': "s' = s\<lparr>m_next := (m_next s)(n := Handle t), place_of := (place_of s)(t := Running), started := take k ?q @ [t]\<rparr>"
      using step n now(3,4) by (simp add: chain_task_def ContinueWith_def resume_task_def Let_def)
    have same: "queued s' = ?q" unfolding s' by simp
    have "chain_ok s' k" using ok mem t0 out now(2) unfolding s' by (auto simp: chain_ok_def)
    moreover have "active s' k" using i now(1) unfolding s' by (simp add: active_def take_Suc_conv_app_nth)
    moreover have "behind s' j \<longleftrightarrow> behind s j" if "k < j" "j < length ?q" for j
      using ne [of j] pne [of j] that now(1,2) by (intro behind_cong) (simp_all add: s')
    moreover have "place_of s' (?q ! j) = place_of s (?q ! j)" if "j < k" for j
      using ne [of j] that now(1) i(1) unfolding s' by simp
    moreover have "m_next s' (last ?q) = m_next s (last ?q)"
      using pne [of "length ?q"] i(1) now(2) unfolding s' last by simp
    ultimately show ?thesis using inv i(1) now(1) same by (simp add: chain_inv_def)
  next
    case later
    have s': "s' = s\<lparr>m_next := (m_next s)(n := Handle t), place_of := (place_of s)(t := Waiting)\<rparr>"
      using step n later(3) by (simp add: chain_task_def ContinueWith_def Let_def)
    have same: "queued s' = ?q" "started s' = started s" unfolding s' by simp_all
    have "chain_ok s' k" using ok mem t0 out later(2) unfolding s' by (auto simp: chain_ok_def)
    moreover have "active s' k \<longleftrightarrow> active s k"
      using ne [of k] pne [of k] later i(1) by (intro active_cong) (simp_all add: s')
    moreover have "behind s' j" if "k < j" "j < length ?q" for j
    proof (cases "j = i")
      case True
      then show ?thesis using i(2) later(2) unfolding s' by (simp add: behind_def)
    next
      case False
      then have "behind s' j \<longleftrightarrow> behind s j"
        using ne [of j] pne [of j] that later(2) by (intro behind_cong) (simp_all add: s')
      then show ?thesis using inv that by (simp add: chain_inv_def)
    qed
    moreover have "place_of s' (?q ! j) = place_of s (?q ! j)" if "j < k" for j
      using ne [of j] that later(1) i(1) unfolding s' by simp
    moreover have "m_next s' (last ?q) = m_next s (last ?q)"
      using pne [of "length ?q"] i(1) later(2) unfolding s' last by simp
    ultimately show ?thesis using inv i(1) later(1) same by (simp add: chain_inv_def)
  qed
qed

lemma complete_inv:
  assumes inv: "chain_inv s k" and step: "complete_task t s = Some r"
  shows "\<exists>s'. r = Some s' \<and> chain_inv s' (Suc k)"
proof -
  let ?q = "queued s"
  have ok: "chain_ok s k" using inv by (simp add: chain_inv_def)
  have ret: "place_of s t = Returned" using step by (auto simp: complete_task_def split: if_splits)
  have k: "k < length ?q" "t = ?q ! k" "started s = take (Suc k) ?q" using running_place [OF inv, of t] ret by simp_all
  have pk: "t = pred_of ?q (Suc k)" using k by (simp add: pred_of_def)
  have mem: "t \<in> set ?q" using k by simp
  then have t0: "t \<noteq> 0" by (rule queued_nonzero [OF ok])
  have ne: "?q ! j \<noteq> t" if "j < length ?q" "j \<noteq> k" for j
    using that k ok by (simp add: chain_ok_def nth_eq_iff_index_eq)
  have pne: "pred_of ?q j \<noteq> t" if "j \<le> length ?q" "j \<noteq> Suc k" for j
    unfolding pk using that k(1) ok pred_of_inj [of ?q "Suc k" j] pred_of_inj [of ?q j "Suc k"]
    by (cases j "Suc k" rule: linorder_cases) (auto simp: chain_ok_def)
  consider (final) "Suc k = length ?q" "m_next s t = Unset"
    | (resume) "Suc k < length ?q" "m_next s t = Handle (?q ! Suc k)" "place_of s (?q ! Suc k) = Waiting"
    | (none) "Suc k < length ?q" "m_next s t = Unset" "place_of s (?q ! Suc k) = Swapped t"
  proof (cases "Suc k = length ?q")
    case True
    then have "last ?q = t" using last_pred_of [of ?q] pk k(1) by force
    then show ?thesis using that(1) True inv k(1) by (simp add: chain_inv_def)
  next
    case False
    then have "behind s (Suc k)" using inv k(1) by (simp add: chain_inv_def)
    then show ?thesis using that(2,3) False k(1) pk by (auto simp: behind_def)
  qed
  then show ?thesis
  proof cases
    case final
    have r: "r = Some (s\<lparr>m_next := (m_next s)(t := Completed), place_of := (place_of s)(t := Finished)\<rparr>)" (is "_ = Some ?s")
      using step ret final(2) by (simp add: complete_task_def Complete_def Let_def)
    have "chain_ok ?s (Suc k)" using ok mem t0 k(1) by (auto simp: chain_ok_def)
    moreover have "place_of ?s (?q ! j) = Finished" if "j < Suc k" for j
      using inv that k(2) by (cases "j = k") (auto simp: chain_inv_def)
    ultimately have "chain_inv ?s (Suc k)" using final(1) pk k(3) by (simp add: chain_inv_def)
    then show ?thesis using r by simp
  next
    case resume
    let ?u = "?q ! Suc k"
    have r: "r = Some (s\<lparr>m_next := (m_next s)(t := Completed), place_of := (place_of s)(t := Finished, ?u := Running),
        started := started s @ [?u]\<rparr>)" (is "_ = Some ?s")
      using step ret resume(2) by (simp add: complete_task_def Complete_def resume_task_def Let_def)
    have mu: "?u \<in> set ?q" "?u \<noteq> t" using resume(1) ne [of "Suc k"] by simp_all
    have u0: "?u \<noteq> 0" using queued_nonzero [OF ok mu(1)] .
    have nu: "?q ! j \<noteq> ?u" if "j < length ?q" "j \<noteq> Suc k" for j
      using that resume(1) ok by (simp add: chain_ok_def nth_eq_iff_index_eq)
    have same: "queued ?s = ?q" by simp
    have "chain_ok ?s (Suc k)" using ok mem t0 mu u0 k(1) by (auto simp: chain_ok_def)
    moreover have "place_of ?s (?q ! j) = Finished" if "j < Suc k" for j
      using inv that k(2) nu [of j] resume(1) by (cases "j = k") (auto simp: chain_inv_def)
    moreover have "active ?s (Suc k)"
      using resume(1) k(3) by (simp add: active_def take_Suc_conv_app_nth)
    moreover have "behind ?s j" if "Suc k < j" "j < length ?q" for j
    proof -
      have "behind ?s j \<longleftrightarrow> behind s j"
        using ne [of j] nu [of j] pne [of j] that by (intro behind_cong) simp_all
      then show ?thesis using inv that by (simp add: chain_inv_def)
    qed
    moreover have "m_next ?s (last ?q) = Unset"
      using inv k(1) resume(1) pne [of "length ?q"] last_pred_of [of ?q] by (force simp: chain_inv_def)
    ultimately have "chain_inv ?s (Suc k)" using resume(1) same by (simp add: chain_inv_def)
    then show ?thesis using r by blast
  next
    case none
    have r: "r = Some (s\<lparr>m_next := (m_next s)(t := Completed), place_of := (place_of s)(t := Finished)\<rparr>)" (is "_ = Some ?s")
      using step ret none(2) by (simp add: complete_task_def Complete_def Let_def)
    have same: "queued ?s = ?q" by simp
    have "chain_ok ?s (Suc k)" using ok mem t0 k(1) by (auto simp: chain_ok_def)
    moreover have "place_of ?s (?q ! j) = Finished" if "j < Suc k" for j
      using inv that k(2) by (cases "j = k") (auto simp: chain_inv_def)
    moreover have "active ?s (Suc k)" using none ne [of "Suc k"] pk k(3) by (simp add: active_def)
    moreover have "behind ?s j" if "Suc k < j" "j < length ?q" for j
    proof -
      have "behind ?s j \<longleftrightarrow> behind s j" using ne [of j] pne [of j] that by (intro behind_cong) simp_all
      then show ?thesis using inv that by (simp add: chain_inv_def)
    qed
    moreover have "m_next ?s (last ?q) = Unset"
      using inv k(1) none(1) pne [of "length ?q"] last_pred_of [of ?q] by (force simp: chain_inv_def)
    ultimately have "chain_inv ?s (Suc k)" using none(1) same by (simp add: chain_inv_def)
    then show ?thesis using r by blast
  qed
qed

lemma seq_run_inv: "seq_run s \<Longrightarrow> \<exists>k. chain_inv s k"
proof (induction rule: seq_run.induct)
  case 1
  then show ?case using chain_inv_new by blast
next
  case (2 s s')
  then obtain k where k: "chain_inv s k" by blast
  from 2(2) show ?case
  proof cases
    case (1 t)
    then show ?thesis using suspend_inv [OF k] by blast
  next
    case (2 t)
    then show ?thesis using swap_inv [OF k] by blast
  next
    case (3 t)
    then show ?thesis using chain_task_inv [OF k] by blast
  next
    case (4 t)
    then show ?thesis using return_inv [OF k] by blast
  next
    case (5 t)
    then show ?thesis using complete_inv [OF k] by blast
  qed
qed

lemma started_prefix:
  assumes "chain_inv s k"
  shows "started s = take (length (started s)) (queued s)" "length (started s) \<le> Suc k"
    "\<And>i. Suc i < length (started s) \<Longrightarrow> place_of s (started s ! i) = Finished"
proof -
  have k: "k \<le> length (queued s)" using assms by (simp add: chain_inv_def chain_ok_def)
  have "started s = take (Suc k) (queued s) \<or> started s = take k (queued s)"
    using assms k by (cases "k = length (queued s)") (auto simp: chain_inv_def active_def)
  then show "started s = take (length (started s)) (queued s)" "length (started s) \<le> Suc k" by (auto simp: min_def)
  show "place_of s (started s ! i) = Finished" if "Suc i < length (started s)" for i
  proof -
    have "started s ! i = queued s ! i"
      using that \<open>started s = take (length (started s)) (queued s)\<close> by (metis Suc_lessD nth_take)
    moreover have "i < k" using that \<open>length (started s) \<le> Suc k\<close> by simp
    ultimately show ?thesis using assms by (simp add: chain_inv_def)
  qed
qed

text \<open>Moves of the threads, to evaluate runs.\<close>

datatype seq_move = SuspendTask nat | SwapLatest nat | ChainTask nat | ReturnTask nat | CompleteTask nat

fun seq_move_step :: "seq_move \<Rightarrow> sequencer \<Rightarrow> sequencer option" where
  "seq_move_step (SuspendTask t) s = suspend_task t s"
| "seq_move_step (SwapLatest t) s = swap_latest t s"
| "seq_move_step (ChainTask t) s = chain_task t s"
| "seq_move_step (ReturnTask t) s = return_task t s"
| "seq_move_step (CompleteTask t) s = Option.bind (complete_task t s) (\<lambda>r. r)"

fun seq_moves :: "seq_move list \<Rightarrow> sequencer \<Rightarrow> sequencer option" where
  "seq_moves [] s = Some s"
| "seq_moves (v # vs) s = Option.bind (seq_move_step v s) (seq_moves vs)"

lemma seq_move_step_run: "seq_run s \<Longrightarrow> seq_move_step v s = Some s' \<Longrightarrow> seq_run s'"
  by (cases v) (auto intro: seq_run.intros(2) seq_step.intros split: Option.bind_splits)

lemma seq_moves_run: "seq_run s \<Longrightarrow> seq_moves vs s = Some s' \<Longrightarrow> seq_run s'"
proof (induction vs arbitrary: s)
  case (Cons v vs)
  then obtain s1 where s1: "seq_move_step v s = Some s1" "seq_moves vs s1 = Some s'" by (auto split: Option.bind_splits)
  then show ?case using Cons.IH [OF seq_move_step_run [OF Cons.prems(1) s1(1)]] by simp
qed simp

text \<open>
  C25: On every interleaving of the threads that queue tasks and complete them, the sequencer never
  resumes a completed node, starts the tasks in the order in which they were queued, each once and
  only when all before it are finished, and a task waits only while another is running, is about to
  complete its node, or is about to be chained.
\<close>

theorem sequencer_runs_in_order:
  assumes "seq_run s"
  shows "(\<forall>r. seq_step s r \<longrightarrow> r \<noteq> None) \<and> distinct (queued s) \<and>
    started s = take (length (started s)) (queued s) \<and>
    (\<forall>i. Suc i < length (started s) \<longrightarrow> place_of s (started s ! i) = Finished) \<and>
    ((\<exists>t. place_of s t = Waiting) \<longrightarrow>
      (\<exists>u. place_of s u = Running \<or> place_of s u = Returned \<or> (\<exists>n. place_of s u = Swapped n)))"
proof -
  obtain k where k: "chain_inv s k" using seq_run_inv [OF assms] by blast
  have "r \<noteq> None" if "seq_step s r" for r using that complete_inv [OF k] by cases auto
  moreover have "\<exists>u. place_of s u = Running \<or> place_of s u = Returned \<or> (\<exists>n. place_of s u = Swapped n)"
    if w: "place_of s t = Waiting" for t
  proof -
    have "t \<in> set (queued s)" using k w by (auto simp: chain_inv_def chain_ok_def)
    then obtain i where "i < length (queued s)" "t = queued s ! i" by (auto simp: in_set_conv_nth)
    then have "k < length (queued s)" using chain_inv_place [OF k, of i] w by (auto simp: active_def)
    then have "active s k" using k by (simp add: chain_inv_def)
    then show ?thesis by (auto simp: active_def)
  qed
  ultimately show ?thesis using started_prefix [OF k] k by (auto simp: chain_inv_def chain_ok_def)
qed

text \<open>The second task is swapped in, the first completes, the second is chained.\<close>

definition race_moves :: "seq_move list" where
  "race_moves = [SuspendTask 1, SwapLatest 1, ChainTask 1, SuspendTask 2, SwapLatest 2, ReturnTask 1,
     CompleteTask 1, ChainTask 2]"

theorem sequencer_runs_in_order_witness:
  "\<exists>s. seq_moves race_moves sequencer_new = Some s \<and> started s = [1, 2] \<and> place_of s 1 = Finished"
proof -
  have c: "map_option started (seq_moves race_moves sequencer_new) = Some [1, 2]" by code_simp
  then obtain s where s: "seq_moves race_moves sequencer_new = Some s" "started s = [1, 2]" by auto
  have "\<forall>i. Suc i < length (started s) \<longrightarrow> place_of s (started s ! i) = Finished"
    using sequencer_runs_in_order [OF seq_moves_run [OF seq_run.intros(1) s(1)]] by blast
  from this [rule_format, of 0] have "place_of s 1 = Finished" using s(2) by simp
  then show ?thesis using s by simp
qed

end
