(* ===== verification/WebSocket.thy ===== *)
theory WebSocket
  imports TaskSequencer "HOL-Library.Sublist"
begin

text \<open>
  The web socket resource (\<^verbatim>\<open>Shared/Networking/WinRTWebSocketResource.cpp\<close>). Its operations are
  coroutines that go through a serial background queue, one after the other through the sequencer
  (\<open>TaskSequencer\<close>), and call the handlers of the user on the calling queue. The socket and the writer
  of the system are the environment: how their operations end is part of the step. Storing takes all bytes from the writer.
\<close>

section \<open>State\<close>

datatype ReadyState = Connecting | Open | Closing | Closed

datatype ErrorType = ConnectionError | SendError | ReceiveError | CloseError

datatype message_type = Utf8 | Binary

datatype socket_task = ConnectTask | CloseTask | WriteTask string message_type

text \<open>What is posted to the background queue and to the calling queue.\<close>

datatype background_task = QueueTask socket_task | FailTask ErrorType | ClosedTask | ResumeWrite

datatype handler_call = CallError ErrorType | CallClose | CallMessage string message_type | ResumeConnect

datatype socket_event = Connected | Errored ErrorType | ClosedWith nat string | Received nat string bool

text \<open>How far the first task of the sequencer is.\<close>

datatype write_stage = NotStarted | AwaitConnect | AwaitCalling | AwaitBackground | AwaitStore

text \<open>
  \<open>m_writer\<close> has the bytes that are written and not stored yet. The ghost components record the messages
  passed to the resource and to the writer, whether the writer took the last one, whether a message was
  ever left in the writer, and what was stored on the socket.
\<close>

record web_socket =
  m_readyState :: ReadyState
  m_closeCode :: nat
  m_closeReason :: string
  m_messageType :: message_type
  m_writer :: string
  m_backgroundQueue :: "background_task list"
  m_sequencer :: "socket_task list"
  at_stage :: write_stage
  m_callingQueue :: "handler_call list"
  wire :: "(message_type \<times> string) list"
  handler_log :: "socket_event list"
  sends :: "(message_type \<times> string) list"
  written :: "(message_type \<times> string) list"
  write_ok :: bool
  left_over :: bool

definition web_socket_new :: web_socket where
  "web_socket_new = \<lparr>m_readyState = Connecting, m_closeCode = 1000, m_closeReason = [], m_messageType = Utf8, m_writer = [],
     m_backgroundQueue = [], m_sequencer = [], at_stage = NotStarted, m_callingQueue = [], wire = [], handler_log = [],
     sends = [], written = [], write_ok = False, left_over = False\<rparr>"

definition post_background :: "background_task \<Rightarrow> web_socket \<Rightarrow> web_socket" where
  "post_background b w = w\<lparr>m_backgroundQueue := m_backgroundQueue w @ [b]\<rparr>"

definition post_calling :: "handler_call \<Rightarrow> web_socket \<Rightarrow> web_socket" where
  "post_calling c w = w\<lparr>m_callingQueue := m_callingQueue w @ [c]\<rparr>"

section \<open>Calls\<close>

definition Fail :: "ErrorType \<Rightarrow> web_socket \<Rightarrow> web_socket" where
  "Fail e w = post_background (FailTask e) w"

definition PerformConnect :: "web_socket \<Rightarrow> web_socket" where
  "PerformConnect w = post_background (QueueTask ConnectTask) w"

definition PerformClose :: "web_socket \<Rightarrow> web_socket" where
  "PerformClose w = post_background (QueueTask CloseTask) w"

definition EnqueueWrite :: "string \<Rightarrow> message_type \<Rightarrow> web_socket \<Rightarrow> web_socket" where
  "EnqueueWrite message t w = post_background (QueueTask (WriteTask message t)) (w\<lparr>sends := sends w @ [(t, message)]\<rparr>)"

text \<open>Whether the address and the headers are accepted is an argument.\<close>

definition Connect :: "bool \<Rightarrow> web_socket \<Rightarrow> web_socket" where
  "Connect accepted w = (if accepted then PerformConnect w else Fail ConnectionError w)"

text \<open>The origin that is sent when the caller gives none.\<close>

definition default_origin :: "string \<Rightarrow> string \<Rightarrow> nat \<Rightarrow> (nat \<Rightarrow> string) \<Rightarrow> string" where
  "default_origin scheme host port to_text =
     (if scheme = ''ws'' then ''http'' else if scheme = ''wss'' then ''https'' else scheme) @ ''://'' @ host @
     (if port \<noteq> 0 then CHR '':'' # to_text port else [])"

definition Send :: "string \<Rightarrow> web_socket \<Rightarrow> web_socket" where
  "Send message w = EnqueueWrite message Utf8 w"

definition SendBinary :: "string \<Rightarrow> web_socket \<Rightarrow> web_socket" where
  "SendBinary base64 w = EnqueueWrite base64 Binary w"

definition Close_socket :: "nat \<Rightarrow> string \<Rightarrow> web_socket \<Rightarrow> web_socket" where
  "Close_socket code reason w = PerformClose (w\<lparr>m_closeCode := code, m_closeReason := reason\<rparr>)"

text \<open>Events of the socket: a message, or why its bytes cannot be had, and the end of the connection.\<close>

datatype received = ReceivedMessage string message_type | Aborted | Unreadable

definition OnMessageReceived :: "received \<Rightarrow> web_socket \<Rightarrow> web_socket" where
  "OnMessageReceived r w = (case r of
     ReceivedMessage m t \<Rightarrow> post_calling (CallMessage m t) w
   | Aborted \<Rightarrow> Fail ConnectionError (Close_socket 1007 ''[0x80072EFE] Underlying TCP connection suddenly terminated'' w)
   | Unreadable \<Rightarrow> Fail ReceiveError w)"

definition OnClosed :: "web_socket \<Rightarrow> web_socket" where
  "OnClosed w = post_calling CallClose (post_background ClosedTask w)"

section \<open>Tasks of the sequencer\<close>

definition end_task :: "web_socket \<Rightarrow> web_socket" where
  "end_task w = w\<lparr>m_sequencer := tl (m_sequencer w), at_stage := NotStarted\<rparr>"

definition stage :: "write_stage \<Rightarrow> web_socket \<Rightarrow> web_socket" where
  "stage s w = w\<lparr>at_stage := s\<rparr>"

text \<open>The outcomes of the system's operations: done, or failed with an exception or a code.\<close>

datatype outcome = Done | Failed

text \<open>The start of a task, up to its first suspension; \<open>decode\<close> is the system's base64 decoder.\<close>

fun start_task :: "(string \<Rightarrow> string) \<Rightarrow> outcome \<Rightarrow> socket_task \<Rightarrow> web_socket \<Rightarrow> web_socket" where
  "start_task decode Done ConnectTask w = stage AwaitConnect w"
| "start_task decode Failed ConnectTask w = end_task (Fail ConnectionError w)"
| "start_task decode Done CloseTask w = end_task (w\<lparr>m_readyState := Closing\<rparr>)"
| "start_task decode Failed CloseTask w = end_task (Fail CloseError w)"
| "start_task decode Done (WriteTask m t) w = stage AwaitBackground (post_background ResumeWrite
     (w\<lparr>m_messageType := t, m_writer := m_writer w @ (if t = Binary then decode m else m),
        written := written w @ [(t, if t = Binary then decode m else m)], write_ok := True\<rparr>))"
| "start_task decode Failed (WriteTask m t) w = stage AwaitBackground (post_background ResumeWrite
     (Fail SendError (w\<lparr>m_messageType := t, write_ok := False\<rparr>)))"

definition connect_done :: "outcome \<Rightarrow> web_socket \<Rightarrow> web_socket" where
  "connect_done r w = (case r of
     Done \<Rightarrow> stage AwaitCalling (post_calling ResumeConnect (w\<lparr>m_readyState := Open\<rparr>))
   | Failed \<Rightarrow> end_task (Fail ConnectionError w))"

definition resume_write :: "web_socket \<Rightarrow> web_socket" where
  "resume_write w = (if m_readyState w \<noteq> Open
     then end_task (w\<lparr>left_over := (left_over w \<or> write_ok w)\<rparr>)
     else stage AwaitStore (w\<lparr>m_writer := [], wire := wire w @ [(m_messageType w, m_writer w)]\<rparr>))"

definition store_done :: "outcome \<Rightarrow> web_socket \<Rightarrow> web_socket" where
  "store_done r w = (case r of Done \<Rightarrow> end_task w | Failed \<Rightarrow> end_task (Fail SendError w))"

section \<open>The two queues\<close>

fun run_background :: "background_task \<Rightarrow> web_socket \<Rightarrow> web_socket" where
  "run_background (QueueTask t) w = w\<lparr>m_sequencer := m_sequencer w @ [t]\<rparr>"
| "run_background (FailTask e) w = post_calling (CallError e) (w\<lparr>m_readyState := Closed\<rparr>)"
| "run_background ClosedTask w = w\<lparr>m_readyState := Closed\<rparr>"
| "run_background ResumeWrite w = resume_write w"

definition log_event :: "socket_event \<Rightarrow> web_socket \<Rightarrow> web_socket" where
  "log_event e w = w\<lparr>handler_log := handler_log w @ [e]\<rparr>"

fun run_call :: "handler_call \<Rightarrow> web_socket \<Rightarrow> web_socket" where
  "run_call (CallError e) w = log_event (Errored e) w"
| "run_call CallClose w = log_event (ClosedWith (m_closeCode w) (m_closeReason w)) w"
| "run_call (CallMessage m t) w = log_event (Received (length m) m (t = Binary)) w"
| "run_call ResumeConnect w = end_task (log_event Connected w)"

section \<open>Steps\<close>

datatype socket_call = ConnectCall bool | SendCall string | SendBinaryCall string | CloseCall nat string |
  MessageEvent received | ClosedEvent

fun socket_do :: "socket_call \<Rightarrow> web_socket \<Rightarrow> web_socket" where
  "socket_do (ConnectCall ok) w = Connect ok w"
| "socket_do (SendCall m) w = Send m w"
| "socket_do (SendBinaryCall m) w = SendBinary m w"
| "socket_do (CloseCall c r) w = Close_socket c r w"
| "socket_do (MessageEvent r) w = OnMessageReceived r w"
| "socket_do ClosedEvent w = OnClosed w"

text \<open>What the queues, the sequencer and the system do next.\<close>

datatype socket_input = RunBackground | RunCalling | StartTask outcome | ConnectDone outcome | StoreDone outcome

fun socket_move :: "(string \<Rightarrow> string) \<Rightarrow> socket_input \<Rightarrow> web_socket \<Rightarrow> web_socket option" where
  "socket_move decode RunBackground w = (case m_backgroundQueue w of [] \<Rightarrow> None
     | b # bs \<Rightarrow> Some (run_background b (w\<lparr>m_backgroundQueue := bs\<rparr>)))"
| "socket_move decode RunCalling w = (case m_callingQueue w of [] \<Rightarrow> None
     | c # cs \<Rightarrow> Some (run_call c (w\<lparr>m_callingQueue := cs\<rparr>)))"
| "socket_move decode (StartTask r) w = (case m_sequencer w of [] \<Rightarrow> None
     | t # ts \<Rightarrow> if at_stage w = NotStarted then Some (start_task decode r t w) else None)"
| "socket_move decode (ConnectDone r) w = (if at_stage w = AwaitConnect then Some (connect_done r w) else None)"
| "socket_move decode (StoreDone r) w = (if at_stage w = AwaitStore then Some (store_done r w) else None)"

inductive socket_run :: "(string \<Rightarrow> string) \<Rightarrow> web_socket \<Rightarrow> bool" for decode where
  socket_new: "socket_run decode web_socket_new"
| socket_call: "socket_run decode w \<Longrightarrow> socket_run decode (socket_do c w)"
| socket_step: "socket_run decode w \<Longrightarrow> socket_move decode v w = Some w' \<Longrightarrow> socket_run decode w'"

section \<open>The invariant\<close>

fun write_msgs :: "socket_task list \<Rightarrow> (message_type \<times> string) list" where
  "write_msgs [] = []"
| "write_msgs (WriteTask m t # ts) = (t, m) # write_msgs ts"
| "write_msgs (t # ts) = write_msgs ts"

fun queue_msgs :: "background_task list \<Rightarrow> (message_type \<times> string) list" where
  "queue_msgs [] = []"
| "queue_msgs (QueueTask t # bs) = write_msgs [t] @ queue_msgs bs"
| "queue_msgs (b # bs) = queue_msgs bs"

lemma write_msgs_append [simp]: "write_msgs (ts @ us) = write_msgs ts @ write_msgs us"
  by (induction ts rule: write_msgs.induct) auto

lemma queue_msgs_append [simp]: "queue_msgs (bs @ cs) = queue_msgs bs @ queue_msgs cs"
  by (induction bs rule: queue_msgs.induct) auto

text \<open>The messages that were passed to the resource and have not reached the writer.\<close>

definition pending_sends :: "web_socket \<Rightarrow> (message_type \<times> string) list" where
  "pending_sends w = write_msgs (if at_stage w = NotStarted then m_sequencer w else tl (m_sequencer w)) @
     queue_msgs (m_backgroundQueue w)"

definition decoded :: "(string \<Rightarrow> string) \<Rightarrow> message_type \<times> string \<Rightarrow> message_type \<times> string" where
  "decoded decode x = (fst x, if fst x = Binary then decode (snd x) else snd x)"

definition stages_ok :: "web_socket \<Rightarrow> bool" where
  "stages_ok w \<longleftrightarrow> (at_stage w \<noteq> NotStarted \<longrightarrow> m_sequencer w \<noteq> []) \<and>
     length (filter ((=) ResumeWrite) (m_backgroundQueue w)) = (if at_stage w = AwaitBackground then 1 else 0) \<and>
     length (filter ((=) ResumeConnect) (m_callingQueue w)) = (if at_stage w = AwaitCalling then 1 else 0)"

definition sends_ok :: "(string \<Rightarrow> string) \<Rightarrow> web_socket \<Rightarrow> bool" where
  "sends_ok decode w \<longleftrightarrow> (\<exists>done. sends w = done @ pending_sends w \<and> subseq (written w) (map (decoded decode) done))"

definition bytes_ok :: "web_socket \<Rightarrow> bool" where
  "bytes_ok w \<longleftrightarrow> concat (map snd (wire w)) @ m_writer w = concat (map snd (written w))"

text \<open>A write that failed is not stored: its failure is handled before it goes on.\<close>

definition aborts :: "background_task list \<Rightarrow> bool" where
  "aborts bs \<longleftrightarrow> (\<exists>e. FailTask e \<in> set (takeWhile (\<lambda>b. b \<noteq> ResumeWrite) bs))"

definition abort_ok :: "web_socket \<Rightarrow> bool" where
  "abort_ok w \<longleftrightarrow> (at_stage w = AwaitBackground \<longrightarrow> \<not> write_ok w \<longrightarrow> m_readyState w \<noteq> Open \<or> aborts (m_backgroundQueue w))"

definition wire_ok :: "web_socket \<Rightarrow> bool" where
  "wire_ok w \<longleftrightarrow> (\<not> left_over w \<longrightarrow>
     (if at_stage w = AwaitBackground \<and> write_ok w then written w = wire w @ [(m_messageType w, m_writer w)]
      else written w = wire w \<and> m_writer w = []))"

definition socket_inv :: "(string \<Rightarrow> string) \<Rightarrow> web_socket \<Rightarrow> bool" where
  "socket_inv decode w \<longleftrightarrow> stages_ok w \<and> sends_ok decode w \<and> bytes_ok w \<and> abort_ok w \<and> wire_ok w"

lemma aborts_append: "ResumeWrite \<in> set bs \<Longrightarrow> aborts (bs @ cs) = aborts bs" "aborts bs \<Longrightarrow> aborts (bs @ cs)"
  by (force simp: aborts_def takeWhile_append dest: set_takeWhileD)+

lemma socket_inv_new: "socket_inv decode web_socket_new"
  by (simp add: socket_inv_def stages_ok_def sends_ok_def bytes_ok_def abort_ok_def wire_ok_def web_socket_new_def pending_sends_def)

lemmas socket_ops = post_background_def post_calling_def Fail_def PerformConnect_def PerformClose_def EnqueueWrite_def Connect_def
  Send_def SendBinary_def Close_socket_def OnMessageReceived_def OnClosed_def end_task_def stage_def connect_done_def
  resume_write_def store_done_def log_event_def

lemmas socket_invs = socket_inv_def stages_ok_def bytes_ok_def abort_ok_def wire_ok_def

text \<open>Posting something that is neither a write nor a resumption changes none of it.\<close>

lemma post_background_inv:
  assumes "socket_inv decode w" and "b \<noteq> ResumeWrite" and "queue_msgs [b] = []"
  shows "socket_inv decode (post_background b w)"
proof -
  have "queue_msgs (m_backgroundQueue w @ [b]) = queue_msgs (m_backgroundQueue w)" using assms(3) by simp
  then have "pending_sends (post_background b w) = pending_sends w" by (simp add: pending_sends_def post_background_def del: queue_msgs_append)
  then show ?thesis
    using assms(1,2) aborts_append(2) [of "m_backgroundQueue w" "[b]"]
    by (simp add: socket_invs sends_ok_def) (auto simp: post_background_def)
qed

lemma socket_inv_cong:
  assumes "at_stage w' = at_stage w" "m_sequencer w' = m_sequencer w" "m_backgroundQueue w' = m_backgroundQueue w"
    "filter ((=) ResumeConnect) (m_callingQueue w') = filter ((=) ResumeConnect) (m_callingQueue w)"
    "m_readyState w' = m_readyState w" "sends w' = sends w" "written w' = written w" "write_ok w' = write_ok w"
    "left_over w' = left_over w" "wire w' = wire w" "m_writer w' = m_writer w" "m_messageType w' = m_messageType w"
  shows "socket_inv decode w' \<longleftrightarrow> socket_inv decode w"
  unfolding socket_invs sends_ok_def pending_sends_def assms by (rule refl)

lemma post_calling_inv:
  assumes "socket_inv decode w" and "c \<noteq> ResumeConnect"
  shows "socket_inv decode (post_calling c w)"
  using assms(1) by (subst socket_inv_cong [of _ w]) (use assms(2) in \<open>simp_all add: post_calling_def\<close>)

lemma EnqueueWrite_inv:
  assumes "socket_inv decode w"
  shows "socket_inv decode (EnqueueWrite m t w)"
proof -
  obtain ds where "sends w = ds @ pending_sends w" "subseq (written w) (map (decoded decode) ds)"
    using assms by (auto simp: socket_inv_def sends_ok_def)
  then have "sends_ok decode (EnqueueWrite m t w)"
    by (auto simp: sends_ok_def EnqueueWrite_def post_background_def pending_sends_def intro!: exI [of _ ds])
  then show ?thesis
    using assms aborts_append(2) [of "m_backgroundQueue w" "[QueueTask (WriteTask m t)]"]
    by (simp add: socket_invs) (auto simp: EnqueueWrite_def post_background_def)
qed

lemma socket_do_inv:
  assumes "socket_inv decode w"
  shows "socket_inv decode (socket_do c w)"
proof -
  have close: "socket_inv decode (Close_socket code reason w)" for code reason
  proof -
    have "socket_inv decode (w\<lparr>m_closeCode := code, m_closeReason := reason\<rparr>)"
      using assms by (subst socket_inv_cong [of _ w]) simp_all
    then show ?thesis using post_background_inv by (simp add: Close_socket_def PerformClose_def)
  qed
  show ?thesis
  proof (cases c)
    case (MessageEvent r)
    then show ?thesis
      using assms close post_background_inv post_calling_inv
      by (cases r) (simp_all add: OnMessageReceived_def Fail_def)
  qed (use assms close post_background_inv EnqueueWrite_inv post_calling_inv in
      \<open>simp_all add: Connect_def PerformConnect_def Fail_def Send_def SendBinary_def OnClosed_def\<close>)
qed

lemma start_inv:
  assumes "socket_inv decode w" and "at_stage w = NotStarted" and "m_sequencer w = t # ts" and "write_msgs [t] = []"
  shows "socket_inv decode (stage AwaitConnect w)"
proof -
  have "write_msgs (t # ts) = write_msgs ts" using write_msgs_append [of "[t]" ts] assms(4) by simp
  then have "pending_sends (stage AwaitConnect w) = pending_sends w"
    using assms(2,3) by (simp add: pending_sends_def stage_def del: write_msgs.simps)
  then show ?thesis using assms(1-3) by (simp add: socket_invs sends_ok_def) (simp add: stage_def)
qed

lemma end_task_inv:
  assumes "socket_inv decode w" and "at_stage w = AwaitConnect \<or> at_stage w = AwaitStore"
  shows "socket_inv decode (end_task w)"
proof -
  have "pending_sends (end_task w) = pending_sends w" using assms(2) by (auto simp: pending_sends_def end_task_def)
  then show ?thesis using assms by (simp add: socket_invs sends_ok_def) (auto simp: end_task_def split: if_splits)
qed

lemma end_stage: "end_task (stage s w) = end_task w" "end_task (post_background b (stage s w)) = end_task (post_background b w)"
  by (simp_all add: end_task_def stage_def post_background_def)

lemma resume_write_inv:
  assumes inv: "socket_inv decode w" and bg: "m_backgroundQueue w = ResumeWrite # bs"
  shows "socket_inv decode (resume_write (w\<lparr>m_backgroundQueue := bs\<rparr>))"
proof -
  let ?w = "w\<lparr>m_backgroundQueue := bs\<rparr>"
  have st: "at_stage w = AwaitBackground" and none: "filter ((=) ResumeWrite) bs = []"
    using inv bg by (auto simp: socket_inv_def stages_ok_def split: if_splits)
  have "\<not> aborts (ResumeWrite # bs)" by (simp add: aborts_def)
  then have ok: "m_readyState w = Open \<Longrightarrow> write_ok w" using inv st bg by (auto simp: socket_inv_def abort_ok_def)
  have pend: "pending_sends (resume_write ?w) = pending_sends w"
    using st bg by (simp add: pending_sends_def resume_write_def end_task_def stage_def)
  have "sends (resume_write ?w) = sends w" "written (resume_write ?w) = written w"
    by (simp_all add: resume_write_def end_task_def stage_def)
  then have "sends_ok decode (resume_write ?w)" using inv pend by (simp add: socket_inv_def sends_ok_def)
  moreover have "bytes_ok (resume_write ?w)" "wire_ok (resume_write ?w)" "abort_ok (resume_write ?w)" "stages_ok (resume_write ?w)"
    using inv st none ok unfolding socket_invs by (auto simp: resume_write_def end_task_def stage_def split: if_splits)
  ultimately show ?thesis by (simp add: socket_inv_def)
qed

lemma run_background_inv:
  assumes inv: "socket_inv decode w" and bg: "m_backgroundQueue w = b # bs"
  shows "socket_inv decode (run_background b (w\<lparr>m_backgroundQueue := bs\<rparr>))"
proof (cases b)
  case (QueueTask t)
  let ?w = "run_background b (w\<lparr>m_backgroundQueue := bs\<rparr>)"
  have "m_sequencer w \<noteq> [] \<or> at_stage w = NotStarted" using inv by (auto simp: socket_inv_def stages_ok_def)
  then have "pending_sends ?w = pending_sends w"
    using QueueTask bg queue_msgs_append [of "[QueueTask t]" bs] by (auto simp: pending_sends_def)
  moreover have "aborts (QueueTask t # bs) = aborts bs" by (simp add: aborts_def)
  ultimately show ?thesis
    using inv QueueTask bg by (simp add: socket_invs sends_ok_def)
next
  case (FailTask e)
  let ?w = "w\<lparr>m_backgroundQueue := bs, m_readyState := Closed\<rparr>"
  have "pending_sends ?w = pending_sends w" using FailTask bg by (simp add: pending_sends_def)
  then have "socket_inv decode ?w" using inv FailTask bg by (simp add: socket_invs sends_ok_def)
  then show ?thesis using post_calling_inv [of decode ?w "CallError e"] FailTask by simp
next
  case ClosedTask
  let ?w = "w\<lparr>m_backgroundQueue := bs, m_readyState := Closed\<rparr>"
  have "pending_sends ?w = pending_sends w" using ClosedTask bg by (simp add: pending_sends_def)
  then have "socket_inv decode ?w" using inv ClosedTask bg by (simp add: socket_invs sends_ok_def)
  then show ?thesis using ClosedTask by simp
next
  case ResumeWrite
  then show ?thesis using resume_write_inv inv bg by simp
qed

lemma run_call_inv:
  assumes inv: "socket_inv decode w" and cq: "m_callingQueue w = c # cs"
  shows "socket_inv decode (run_call c (w\<lparr>m_callingQueue := cs\<rparr>))"
proof (cases c)
  case ResumeConnect
  let ?w = "log_event Connected (w\<lparr>m_callingQueue := cs, at_stage := AwaitConnect\<rparr>)"
  have st: "at_stage w = AwaitCalling" and none: "filter ((=) ResumeConnect) cs = []"
    using inv cq ResumeConnect by (auto simp: socket_inv_def stages_ok_def split: if_splits)
  have "pending_sends ?w = pending_sends w" using st by (simp add: pending_sends_def log_event_def)
  then have "socket_inv decode ?w" using inv st none by (simp add: socket_invs sends_ok_def) (simp add: log_event_def)
  then have "socket_inv decode (end_task ?w)" by (rule end_task_inv) (simp add: log_event_def)
  then show ?thesis using ResumeConnect by (simp add: end_task_def log_event_def)
qed (use inv cq in \<open>subst socket_inv_cong [of _ w]; simp add: log_event_def\<close>)+

lemma start_write_inv:
  assumes inv: "socket_inv decode w" and st: "at_stage w = NotStarted" and sq: "m_sequencer w = WriteTask m t # ts"
  shows "socket_inv decode (start_task decode r (WriteTask m t) w)"
proof -
  let ?x = "(t, if t = Binary then decode m else m)" and ?w = "start_task decode r (WriteTask m t) w"
  obtain ds where ds: "sends w = ds @ pending_sends w" "subseq (written w) (map (decoded decode) ds)"
    using inv by (auto simp: socket_inv_def sends_ok_def)
  have none: "ResumeWrite \<notin> set (m_backgroundQueue w)"
    using inv st by (auto simp: socket_inv_def stages_ok_def filter_empty_conv)
  have pend: "pending_sends w = (t, m) # pending_sends ?w"
    using st sq by (cases r) (simp_all add: pending_sends_def stage_def post_background_def Fail_def)
  have "written ?w = (if r = Done then written w @ [?x] else written w)"
    by (cases r) (simp_all add: stage_def post_background_def Fail_def)
  moreover have "subseq (written w @ [?x]) (map (decoded decode) (ds @ [(t, m)]))"
    using ds(2) list_emb_append_mono [of "(=)" "written w" "map (decoded decode) ds" "[?x]" "[?x]"] by (simp add: decoded_def)
  moreover have "subseq (written w) (map (decoded decode) (ds @ [(t, m)]))"
    using ds(2) list_emb_append_mono [of "(=)" "written w" "map (decoded decode) ds" "[]" "[decoded decode (t, m)]"] by simp
  moreover have "sends ?w = (ds @ [(t, m)]) @ pending_sends ?w"
    using ds(1) pend by (cases r) (simp_all add: stage_def post_background_def Fail_def)
  ultimately have "sends_ok decode ?w"
    unfolding sends_ok_def by (intro exI [of _ "ds @ [(t, m)]"] conjI) (auto simp: if_splits)
  moreover have "takeWhile (\<lambda>b. b \<noteq> ResumeWrite) (m_backgroundQueue w @ [FailTask SendError, ResumeWrite]) =
      m_backgroundQueue w @ [FailTask SendError]"
    using none by (simp add: takeWhile_append)
  then have "abort_ok ?w"
    by (cases r) (auto simp: abort_ok_def aborts_def stage_def post_background_def Fail_def)
  moreover have "bytes_ok ?w" "wire_ok ?w" "stages_ok ?w"
    using inv st sq by (cases r; simp add: socket_invs stage_def post_background_def Fail_def)+
  ultimately show ?thesis by (simp add: socket_inv_def)
qed

lemma start_task_inv:
  assumes inv: "socket_inv decode w" and st: "at_stage w = NotStarted" and sq: "m_sequencer w = t # ts"
  shows "socket_inv decode (start_task decode r t w)"
proof (cases t)
  case (WriteTask m k)
  then show ?thesis using start_write_inv inv st sq by simp
next
  case ConnectTask
  have "socket_inv decode (stage AwaitConnect w)" using start_inv [OF inv st sq] ConnectTask by simp
  then have "socket_inv decode (end_task (post_background (FailTask ConnectionError) (stage AwaitConnect w)))"
    by (intro end_task_inv post_background_inv) (simp_all add: post_background_def stage_def)
  then show ?thesis
    using \<open>socket_inv decode (stage AwaitConnect w)\<close> ConnectTask by (cases r) (simp_all add: Fail_def end_stage)
next
  case CloseTask
  have *: "socket_inv decode (stage AwaitConnect w)" using start_inv [OF inv st sq] CloseTask by simp
  have "socket_inv decode (end_task (post_background (FailTask CloseError) (stage AwaitConnect w)))"
    using * by (intro end_task_inv post_background_inv) (simp_all add: post_background_def stage_def)
  moreover have "socket_inv decode (end_task ((stage AwaitConnect w)\<lparr>m_readyState := Closing\<rparr>))"
    using * by (intro end_task_inv) (simp_all add: socket_invs sends_ok_def pending_sends_def stage_def)
  moreover have "end_task ((stage AwaitConnect w)\<lparr>m_readyState := Closing\<rparr>) = end_task (w\<lparr>m_readyState := Closing\<rparr>)"
    by (simp add: end_task_def stage_def)
  ultimately show ?thesis using CloseTask by (cases r) (simp_all add: Fail_def end_stage)
qed

lemma socket_move_inv:
  assumes inv: "socket_inv decode w" and step: "socket_move decode v w = Some w'"
  shows "socket_inv decode w'"
proof (cases v)
  case RunBackground
  then show ?thesis using run_background_inv inv step by (auto split: list.splits)
next
  case RunCalling
  then show ?thesis using run_call_inv inv step by (auto split: list.splits)
next
  case (StartTask r)
  then show ?thesis using start_task_inv inv step by (auto split: list.splits if_splits)
next
  case (ConnectDone r)
  then have st: "at_stage w = AwaitConnect" "w' = connect_done r w" using step by (auto split: if_splits)
  show ?thesis
  proof (cases r)
    case Done
    have "pending_sends w' = pending_sends w"
      using st Done by (simp add: pending_sends_def connect_done_def stage_def post_calling_def)
    then show ?thesis
      using inv st Done by (simp add: socket_invs sends_ok_def) (simp add: connect_done_def stage_def post_calling_def)
  next
    case Failed
    have "socket_inv decode (Fail ConnectionError w)" using post_background_inv [OF inv] by (simp add: Fail_def)
    then show ?thesis using end_task_inv st Failed by (simp add: connect_done_def Fail_def post_background_def)
  qed
next
  case (StoreDone r)
  then have st: "at_stage w = AwaitStore" "w' = store_done r w" using step by (auto split: if_splits)
  have "socket_inv decode (Fail SendError w)" using post_background_inv [OF inv] by (simp add: Fail_def)
  then show ?thesis
    using end_task_inv inv st by (cases r) (simp_all add: store_done_def Fail_def post_background_def)
qed

lemma socket_run_inv: "socket_run decode w \<Longrightarrow> socket_inv decode w"
  by (induction rule: socket_run.induct) (auto intro: socket_inv_new socket_do_inv socket_move_inv)

section \<open>What is written\<close>

text \<open>A script of calls and moves.\<close>

fun socket_script :: "(string \<Rightarrow> string) \<Rightarrow> (socket_call + socket_input) list \<Rightarrow> web_socket \<Rightarrow> web_socket option" where
  "socket_script decode [] w = Some w"
| "socket_script decode (Inl c # xs) w = socket_script decode xs (socket_do c w)"
| "socket_script decode (Inr v # xs) w = (case socket_move decode v w of None \<Rightarrow> None | Some w' \<Rightarrow> socket_script decode xs w')"

lemma socket_script_run: "socket_script decode xs w = Some w' \<Longrightarrow> socket_run decode w \<Longrightarrow> socket_run decode w'"
proof (induction decode xs w rule: socket_script.induct)
  case (2 decode c xs w)
  then show ?case using socket_run.socket_call by simp
next
  case (3 decode v xs w)
  then show ?case by (auto split: option.splits intro: socket_step)
qed simp

text \<open>One background turn for each message, and the whole life of a write.\<close>

definition open_script :: "(socket_call + socket_input) list" where
  "open_script = [Inl (ConnectCall True), Inr RunBackground, Inr (StartTask Done), Inr (ConnectDone Done), Inr RunCalling]"

definition send_script :: "string \<Rightarrow> (socket_call + socket_input) list" where
  "send_script m = [Inl (SendCall m), Inr RunBackground, Inr (StartTask Done), Inr RunBackground, Inr (StoreDone Done)]"

lemmas script_defs = open_script_def send_script_def web_socket_new_def socket_ops


lemma two_sends:
  "map_option (\<lambda>w. (wire w, written w, left_over w)) (socket_script (\<lambda>s. s) (open_script @ send_script ''a'' @ send_script ''b'') web_socket_new) =
     Some ([(Utf8, ''a''), (Utf8, ''b'')], [(Utf8, ''a''), (Utf8, ''b'')], False)"
  by (simp add: script_defs)


text \<open>
  A message that is sent before the connection is open is left in the writer: nobody is told, and its bytes
  go out as a part of the next message.
\<close>

lemma early_send_merges:
  "map_option (\<lambda>w. (wire w, handler_log w)) (socket_script decode ([Inl (SendCall ''a''), Inr RunBackground, Inr (StartTask Done), Inr RunBackground] @
     open_script @ send_script ''b'') web_socket_new) = Some ([(Utf8, ''ab'')], [Connected])"
  by (simp add: script_defs)

text \<open>A connection that has ended is again \<open>Closing\<close> when it is closed by the user.\<close>

lemma closed_goes_back:
  "map_option m_readyState (socket_script decode (open_script @ [Inl ClosedEvent, Inr RunBackground]) web_socket_new) = Some Closed"
  "map_option m_readyState (socket_script decode (open_script @ [Inl ClosedEvent, Inr RunBackground,
     Inl (CloseCall 1000 []), Inr RunBackground, Inr (StartTask Done)]) web_socket_new) = Some Closing"
  by (simp_all add: script_defs)

section \<open>The queues drain\<close>

fun task_work :: "socket_task \<Rightarrow> nat" where
  "task_work ConnectTask = 4"
| "task_work CloseTask = 3"
| "task_work (WriteTask m t) = 7"

fun background_work :: "background_task \<Rightarrow> nat" where
  "background_work (QueueTask t) = task_work t + 1"
| "background_work (FailTask e) = 2"
| "background_work ClosedTask = 1"
| "background_work ResumeWrite = 1"

fun stage_work :: "write_stage \<Rightarrow> socket_task list \<Rightarrow> nat" where
  "stage_work NotStarted ts = sum_list (map task_work ts)"
| "stage_work AwaitCalling ts = sum_list (map task_work (tl ts))"
| "stage_work s ts = 3 + sum_list (map task_work (tl ts))"

definition socket_work :: "web_socket \<Rightarrow> nat" where
  "socket_work w = sum_list (map background_work (m_backgroundQueue w)) + stage_work (at_stage w) (m_sequencer w) +
     length (m_callingQueue w)"

lemma socket_move_less:
  assumes inv: "socket_inv decode w" and step: "socket_move decode v w = Some w'"
  shows "socket_work w' < socket_work w"
proof (cases v)
  case RunBackground
  then obtain b bs where b: "m_backgroundQueue w = b # bs" "w' = run_background b (w\<lparr>m_backgroundQueue := bs\<rparr>)"
    using step by (auto split: list.splits)
  have "at_stage w \<noteq> NotStarted \<longrightarrow> m_sequencer w \<noteq> []" "b = ResumeWrite \<longrightarrow> at_stage w = AwaitBackground"
    using inv b by (auto simp: socket_inv_def stages_ok_def split: if_splits)
  then show ?thesis
    using b by (cases b; cases "at_stage w") (auto simp: socket_work_def post_calling_def resume_write_def end_task_def stage_def)
next
  case RunCalling
  then obtain c cs where c: "m_callingQueue w = c # cs" "w' = run_call c (w\<lparr>m_callingQueue := cs\<rparr>)"
    using step by (auto split: list.splits)
  have "c = ResumeConnect \<longrightarrow> at_stage w = AwaitCalling"
    using inv c by (auto simp: socket_inv_def stages_ok_def split: if_splits)
  then show ?thesis using c by (cases c) (auto simp: socket_work_def log_event_def end_task_def)
next
  case (StartTask r)
  then obtain t ts where "m_sequencer w = t # ts" "at_stage w = NotStarted" "w' = start_task decode r t w"
    using step by (auto split: list.splits if_splits)
  then show ?thesis
    by (cases t; cases r) (auto simp: socket_work_def end_task_def stage_def post_background_def Fail_def)
next
  case (ConnectDone r)
  then have "at_stage w = AwaitConnect" "w' = connect_done r w" using step by (auto split: if_splits)
  then show ?thesis
    by (cases r) (simp_all add: socket_work_def connect_done_def end_task_def stage_def post_calling_def post_background_def Fail_def)
next
  case (StoreDone r)
  then have "at_stage w = AwaitStore" "w' = store_done r w" using step by (auto split: if_splits)
  then show ?thesis
    by (cases r) (simp_all add: socket_work_def store_done_def end_task_def post_background_def Fail_def)
qed

lemma socket_move_enabled:
  assumes inv: "socket_inv decode w" and stuck: "\<forall>v. socket_move decode v w = None"
  shows "m_backgroundQueue w = [] \<and> m_callingQueue w = [] \<and> m_sequencer w = [] \<and> at_stage w = NotStarted"
proof -
  have bg: "m_backgroundQueue w = []" using spec [OF stuck, of RunBackground] by (auto split: list.splits)
  moreover have cq: "m_callingQueue w = []" using spec [OF stuck, of RunCalling] by (auto split: list.splits)
  moreover have "at_stage w = NotStarted"
    using inv bg cq spec [OF stuck, of "ConnectDone Done"] spec [OF stuck, of "StoreDone Done"]
    by (cases "at_stage w") (simp_all add: socket_inv_def stages_ok_def)
  moreover then have "m_sequencer w = []"
    using spec [OF stuck, of "StartTask Done"] by (auto split: list.splits)
  ultimately show ?thesis by simp
qed

text \<open>
  C27: The resource comes to rest. With no further call or event, every turn of a queue, every start of a
  task and every end of an operation of the system takes something from a finite amount of work, whatever
  fails on the way; and where none of them is possible, both queues and the sequencer are empty and every
  message passed to the resource has had its turn.
\<close>

theorem socket_settles:
  assumes "socket_run decode w"
  shows "(\<forall>v w'. socket_move decode v w = Some w' \<longrightarrow> socket_work w' < socket_work w) \<and>
    ((\<forall>v. socket_move decode v w = None) \<longrightarrow>
       m_backgroundQueue w = [] \<and> m_callingQueue w = [] \<and> m_sequencer w = [] \<and> pending_sends w = [])"
  using socket_move_less socket_move_enabled socket_run_inv [OF assms] by (fastforce simp: pending_sends_def)

theorem socket_settles_witness:
  "\<exists>w. socket_run (\<lambda>s. s) w \<and> m_backgroundQueue w = [QueueTask (WriteTask ''a'' Utf8)] \<and>
    (\<forall>v w'. socket_move (\<lambda>s. s) v w = Some w' \<longrightarrow> socket_work w' < socket_work w)"
proof -
  let ?w = "socket_do (SendCall ''a'') web_socket_new"
  have "socket_run (\<lambda>s. s) ?w" by (intro socket_call socket_new)
  moreover have "m_backgroundQueue ?w = [QueueTask (WriteTask ''a'' Utf8)]" by (simp add: script_defs)
  ultimately show ?thesis using socket_settles [of "\<lambda>s. s" ?w] by blast
qed

end
