(* ===== verification/Spec2Isabelle.thy ===== *)
theory Spec2Isabelle
  imports JSValueLog JSValueCodec WellFormedValues FutureThreads WhenAll WeakPtr RedirectFilter ThreadPool Looper Timing Notifications PropertyBag Animations HostCalm HttpResource WebSocket
begin

text \<open>
  A verification library for the native core of React Native for Windows (\<^verbatim>\<open>src/vnext\<close>).

  \<^bold>\<open>The program.\<close> A native module exchanges dynamic values with JavaScript (\<^verbatim>\<open>Microsoft.ReactNative.Cxx\<close>),
  keeps shared data in property bags, is told of events by notification services and runs timers
  (\<^verbatim>\<open>Microsoft.ReactNative\<close>). Its HTTP requests pass the origin policy and redirect filters
  (\<^verbatim>\<open>Shared/Networking\<close>); bytes it cannot see are blobs, and it talks over web sockets. Underneath lies the library Mso (\<^verbatim>\<open>Mso\<close>): counted and weak pointers, futures and
  promises, and dispatch queues with their schedulers. Futures live in objects with a weak reference
  block and post their tasks to dispatch queues; timers and notifications run on such queues.

  \<^bold>\<open>Conventions.\<close> Definitions keep the names of the C++ functions, with the class in front where two
  classes share a name. A crash (\<^verbatim>\<open>VerifyElseCrash\<close>), an access through a null pointer and undefined
  behaviour are the value \<open>None\<close> or \<open>Crash\<close>; an exception is the left side of a sum. Machine integers
  are words of their width, C++ doubles are exact binary numbers with rounding (\<open>CppNumber\<close>), a
  \<^verbatim>\<open>std::map\<close> is an association list ordered by its keys (\<open>Prelude\<close>), which also stands for hash maps
  whose order does not matter. Code that is shared by threads is a step relation whose steps are the
  atomic sections of the code; a theorem over reachable states covers all interleavings.

  \<^bold>\<open>Values.\<close>
  \<^item> \<open>JSValue\<close> (\<^verbatim>\<open>JSValue.h\<close>, \<^verbatim>\<open>JSValue.cpp\<close>): the type and all its operations; equality, conversions, copies.
  \<^item> \<open>JSValueLog\<close>: the log writer (\<^verbatim>\<open>JSValue::ToString\<close>).
  \<^item> \<open>JSValueIO\<close> (\<^verbatim>\<open>JSValueTreeReader.cpp\<close>, \<^verbatim>\<open>JSValueTreeWriter.cpp\<close>): the interfaces of readers and
    writers as the locales \<open>value_reader\<close> and \<open>value_writer\<close>, interpreted on the tree reader and writer;
    writing a value and reading it back gives the value. \<open>WellFormedValues\<close>: whatever a reader delivers
    and however the writer is called, the values they build are well-formed.
  \<^item> \<open>JSValueCodec\<close> (\<^verbatim>\<open>JSValueReader.h\<close>, \<^verbatim>\<open>JSValueWriter.h\<close>, \<^verbatim>\<open>StructInfo.h\<close>): the typed functions; the locale
    \<open>value_codec\<close> carries the round trips of containers, arguments and structs, with an interpretation
    for every scalar type. Reading recurses over the interface with fuel; \<open>js_fuel\<close> of a value is enough.

  \<^bold>\<open>Pointers.\<close>
  \<^item> \<open>RefCount\<close> (\<^verbatim>\<open>Mso/object\<close>): the locale \<open>ref_counted\<close> is the contract of a counted object.
  \<^item> \<open>CntPtr\<close>: every operation of \<^verbatim>\<open>Mso::CntPtr\<close>; an object lives exactly as long as a pointer owns it.
  \<^item> \<open>WeakPtr\<close>: \<^verbatim>\<open>ObjectWeakRef\<close> and \<^verbatim>\<open>Mso::WeakPtr\<close>; \<open>weak_counted\<close> extends \<open>ref_counted\<close>.
  Counters are 32-bit words; the theorems bound the number of pointers by \<open>count_limit\<close>.

  \<^bold>\<open>Futures.\<close>
  \<^item> \<open>FutureCore\<close> (\<^verbatim>\<open>Mso/src/future/futureImpl.h\<close>, \<^verbatim>\<open>.cpp\<close>): state word, traits, layout, transitions.
  \<^item> \<open>FutureThreads\<close>: the methods as stacks of frames of any number of threads over a heap of futures;
    a task runs at most once, transitions are the documented ones, racing promises are safe, a result
    reaches all continuations in a bounded number of steps.
  \<^item> \<open>WhenAll\<close> (\<^verbatim>\<open>whenAllInl.h\<close>, \<^verbatim>\<open>whenAnyInl.h\<close>): the calls that the parents make to a future that waits
    for all or for any of them, for parents that are not shared; it gets the right result once.

  \<^bold>\<open>Dispatch queues\<close> (\<^verbatim>\<open>Mso/dispatchQueue\<close>, \<^verbatim>\<open>Mso/src/dispatchQueue\<close>).
  \<^item> \<open>TaskQueue\<close>: the two-buffer queue refines a list (locale \<open>fifo_queue\<close>).
  \<^item> \<open>DispatchTask\<close>: tasks, batches and \<^verbatim>\<open>InvokeTask\<close>, which runs deferred tasks breadth first.
  \<^item> \<open>QueueService\<close>: the service over the queue; the locale \<open>task_source\<close> is what a scheduler may rely on.
  \<^item> \<open>ThreadPool\<close>, \<open>Looper\<close>: the schedulers as step relations over that contract; no wake-up is lost.

  \<^bold>\<open>HTTP\<close> (\<^verbatim>\<open>Shared/Networking\<close>).
  \<^item> \<open>HttpTypes\<close>: requests, responses, headers and the runtime options.
  \<^item> \<open>OriginPolicy\<close>: the origin policy filter, its CORS checks against the rules of the fetch standard.
  \<^item> \<open>RedirectFilter\<close>: the redirect loop, bounded by the limit of the filter.
  \<^item> \<open>HttpResource\<close> (\<^verbatim>\<open>WinRTHttpResource.cpp\<close>, \<^verbatim>\<open>HttpModule.cpp\<close>): sending a request, loading and reporting its
    answer, tracking and aborting; the steps of requests interleave, and \<open>op_events\<close> says what each reports.
  The network is a parameter: what answers a request, and the parts of an address.

  \<^bold>\<open>Blobs and sockets\<close> (\<^verbatim>\<open>Shared/Networking\<close>, \<^verbatim>\<open>Shared/Modules\<close>).
  \<^item> \<open>Blobs\<close> (\<^verbatim>\<open>DefaultBlobResource.cpp\<close>, \<^verbatim>\<open>BaseFileReaderResource.cpp\<close>): the store of blobs, behind the locale
    \<open>blob_store\<close>, and what uses it: parts, socket messages, request bodies and the file reader.
  \<^item> \<open>TaskSequencer\<close> (\<^verbatim>\<open>WinRTWebSocketResource.h\<close>): the lock-free chain of coroutines of a socket; its tasks
    run one at a time in the order of queueing, on every sequentially consistent interleaving.
  \<^item> \<open>WebSocket\<close> (\<^verbatim>\<open>WinRTWebSocketResource.cpp\<close>): the operations of a socket over that order and two queues;
    what is written is what was sent, in order, and the queues drain (\<open>socket_work\<close> bounds the steps).
  How the operations of the system's socket end is part of the steps; storing the bytes of the writer
  takes all of them. Identifiers, base64 digits and their decoding are arguments.

  \<^bold>\<open>The runtime of a React instance\<close> (\<^verbatim>\<open>Microsoft.ReactNative\<close>).
  \<^item> \<open>StdHeap\<close>: the heap algorithms of the standard library, behind the locale \<open>std_heap\<close>.
  \<^item> \<open>Timing\<close> (\<^verbatim>\<open>Modules/Timing.cpp\<close>): the timers; the loop of a tick is a partial function, as it need not end.
  \<^item> \<open>Notifications\<close> (\<^verbatim>\<open>IReactNotificationService.cpp\<close>): trees of services with subscriptions and views.
  \<^item> \<open>PropertyBag\<close> (\<^verbatim>\<open>IReactPropertyBag.cpp\<close>): names interned through weak references, and the bags; the
    locale \<open>get_or_create\<close> is the contract of a look-up that creates outside of its lock.
  \<^item> \<open>DoubleArith\<close>, \<open>GraphUpdate\<close>, \<open>AnimatedNodes\<close>, \<open>Animations\<close> (\<^verbatim>\<open>Modules/Animated\<close>): arithmetic of
    doubles; the order in which the graph of animated nodes is updated; the nodes, their values and
    the operations on them; the animations that the compositor runs. Of the compositor only the
    scalars last written to it are kept.

  \<^bold>\<open>The React host\<close> (\<^verbatim>\<open>Microsoft.ReactNative/ReactHost\<close>).
  \<^item> \<open>ActionQueue\<close> (\<^verbatim>\<open>AsyncActionQueue.cpp\<close>, \<^verbatim>\<open>MsoUtils.cpp\<close>): actions run one after the other; the locale
    \<open>serial_actions\<close> is what the host relies on.
  \<^item> \<open>ReactHost\<close> (\<^verbatim>\<open>ReactHost.cpp\<close>): the host and its view hosts with every operation; what follows a
    completed future is a step of \<open>progress\<close>, and calls may come between any two steps.
  \<^item> \<open>HostRuns\<close>, \<open>HostCalm\<close>: one instance at a time, every action is completed (\<open>host_work\<close> bounds the
    steps), when the code's own checks hold and when they fail.
  Instances and views are seen through the futures they complete; they do not call the host back while
  it calls them, and \<^verbatim>\<open>whenCreated\<close> is completed at once, as \<^verbatim>\<open>ReactInstanceWin\<close> does. An action that
  is done at once still leaves the queue in a step of its own. Identifiers of actions are unbounded.

  \<^bold>\<open>Not modelled.\<close> Code that only calls the system, a JavaScript engine or a third-party library: the
  visual tree and its input events, the bindings of the engines, files and streams, developer
  support and tracing, the registration macros of native modules. Vendored code, tests, tools and
  the managed projects are left aside. Of the modelled parts, memory exhaustion is treated where the
  code does (\<open>WeakPtr\<close>), clocks and system thread pools are parameters or counters.

  \<^bold>\<open>Plan.\<close> The front end of futures (promises, groups, executors), cancellation tokens, the module
  of web sockets and the queue of messages to JavaScript.
\<close>

end
